(* ===== verification/Prelude.thy ===== *)
theory Prelude
  imports Main "HOL-Library.Word"
begin

text \<open>
  Shared vocabulary of the development: the machine types the C code uses, the two-level
  result convention, and generic facts on lists and words.

  Conventions used by every component theory.
  \<^item> A C \<^verbatim>\<open>unsigned char\<close> (or a \<^verbatim>\<open>char\<close> that is only copied and compared
    for equality) is a \<open>byte\<close>, an 8-bit word.
  \<^item> A \<^verbatim>\<open>size_t\<close> that counts objects in memory is a \<open>nat\<close>; where the code narrows
    one to \<^verbatim>\<open>int\<close> the narrowing is written out with \<open>c_int\<close>.
  \<^item> \<open>None\<close> as the outermost result is a run of the C code that has no defined outcome:
    a failed \<^verbatim>\<open>assert\<close>, a null or out-of-range access, or a loop that never ends.
    Every theorem that an operation works therefore says that it returns \<open>Some\<close>.
\<close>

type_synonym byte = "8 word"
type_synonym bytes = "8 word list"
type_synonym uint32 = "32 word"
type_synonym uint64 = "64 word"

named_theorems inorder_simps \<open>what an operation does to the abstract list of a tree\<close>
named_theorems wf_intros \<open>operations keep their data structure well formed\<close>
named_theorems sink_simps \<open>what the marshalling functions append to a sink\<close>

section \<open>Narrowing conversions of C\<close>

definition c_int :: "nat \<Rightarrow> int" where
  "c_int n = sint (word_of_nat n :: 32 word)"

lemma c_int_small [simp]: "n < 2 ^ 31 \<Longrightarrow> c_int n = int n"
  unfolding c_int_def
  by (subst signed_of_nat, subst signed_take_bit_int_eq_self) simp_all

section \<open>Reading a list at an integer position\<close>

text \<open>\<open>at xs i\<close> is the element at position \<open>i\<close>, and \<open>None\<close> out of range on either side.\<close>

fun at :: "'a list \<Rightarrow> int \<Rightarrow> 'a option" where
  "at [] i = None"
| "at (x # xs) i = (if i = 0 then Some x else if i < 0 then None else at xs (i - 1))"

lemma at_negative [simp]: "i < 0 \<Longrightarrow> at xs i = None"
  by (cases xs) auto

lemma at_append:
  "at (xs @ ys) i = (if i < int (length xs) then at xs i else at ys (i - int (length xs)))"
  by (induction xs arbitrary: i) (auto simp: algebra_simps)

lemma at_beyond [simp]: "int (length xs) \<le> i \<Longrightarrow> at xs i = None"
  by (induction xs arbitrary: i) auto

text \<open>The test a search makes at one element of a node with \<open>c\<close> elements to its left.\<close>

lemma at_step:
  "at (xs @ e # ys) i =
     (if i < int (length xs) then at xs i else
      let j = i - (int (length xs) + 1) in if j < 0 then Some e else at ys j)"
  by (auto simp: at_append Let_def algebra_simps)

lemma at_last: "at xs i = (if i < int (length xs) then at xs i else None)"
  by simp

lemma at_nth: "\<lbrakk>0 \<le> i; i < int (length xs)\<rbrakk> \<Longrightarrow> at xs i = Some (xs ! nat i)"
  by (induction xs arbitrary: i) (auto simp: nth_Cons' nat_diff_distrib)

lemma at_None_iff: "at xs i = None \<longleftrightarrow> i < 0 \<or> int (length xs) \<le> i"
  by (metis at_beyond at_negative at_nth not_le_imp_less option.distinct(1))

lemma at_mem: "at xs i = Some x \<Longrightarrow> x \<in> set xs"
  by (metis at_None_iff at_nth linorder_not_le nat_int nat_less_iff nth_mem option.distinct(1) option.inject)

text \<open>The list without the element at position \<open>i\<close>, for a position in range.\<close>

definition remove_at :: "int \<Rightarrow> 'a list \<Rightarrow> 'a list" where
  "remove_at i xs = take (nat i) xs @ drop (nat (i + 1)) xs"

lemma at_middle:
  "\<lbrakk>0 \<le> i; i < int (length ks)\<rbrakk> \<Longrightarrow> at (us @ ks @ vs) (int (length us) + i) = at ks i"
  by (simp add: at_append)

lemma remove_at_middle:
  "\<lbrakk>0 \<le> i; i < int (length ks)\<rbrakk>
    \<Longrightarrow> remove_at (int (length us) + i) (us @ ks @ vs) = us @ remove_at i ks @ vs"
  by (simp add: remove_at_def nat_add_distrib)

lemma remove_at_elem: "remove_at (int (length us)) (us @ x # vs) = us @ vs"
  by (simp add: remove_at_def nat_add_distrib)

lemma length_remove_at:
  "\<lbrakk>0 \<le> i; i < int (length xs)\<rbrakk> \<Longrightarrow> int (length (remove_at i xs)) = int (length xs) - 1"
  by (simp add: remove_at_def nat_add_distrib)

section \<open>Bits of words\<close>

unbundle bit_operations_syntax

lemma and_low_bits:
  "x AND 0x3F = take_bit 6 x" "x AND 0x1F = take_bit 5 x" "x AND 0x0F = take_bit 4 x"
  "x AND 0x07 = take_bit 3 x" "x AND 0x03 = take_bit 2 x" "x AND 0x01 = take_bit 1 x"
  for x :: uint32
  by (simp_all add: take_bit_eq_mask mask_eq_exp_minus_1)

lemma unat_take_bit: "unat (take_bit n x) = unat x mod 2 ^ n" for x :: uint32
  by (subst unsigned_take_bit_eq) (rule take_bit_eq_mod)

lemma unat_byte_less: "unat (c :: byte) < 256"
  using unsigned_less [of c, where ?'a = nat] by simp

lemma unat_ucast_byte: "unat (ucast (c :: byte) :: uint32) = unat c"
  using unat_byte_less [of c] by (simp add: unsigned_ucast_eq take_bit_nat_eq_self)

text \<open>Or of numbers with no common bits is their sum.\<close>

lemma nat_or_add: "b < 2 ^ k \<Longrightarrow> a * 2 ^ k OR b = a * 2 ^ k + b" for a b :: nat
proof -
  assume "b < 2 ^ k"
  then have b: "take_bit k b = b" by (simp add: take_bit_nat_eq_self)
  have "push_bit k a AND take_bit k b = 0"
    by (rule bit_eqI) (auto simp: bit_simps)
  then have "push_bit k a + b = push_bit k a OR b" unfolding b by (rule disjunctive_add_eq_or)
  then show ?thesis by (simp add: push_bit_eq_mult)
qed

lemma unat_or_add:
  assumes "unat h = a * 2 ^ k" and "unat x < 2 ^ k"
  shows "unat (h OR x :: uint32) = unat h + unat x"
  using nat_or_add [OF assms(2), of a] assms(1) by (simp only: unsigned_or_eq)

lemma unat_drop: "unat (drop_bit k x) = unat x div 2 ^ k" for x :: uint32
  by (subst unat_drop_bit_eq) (rule drop_bit_eq_div)

section \<open>Scripts of operations\<close>

text \<open>
  The calls a client makes, one after the other, with their results: \<open>f\<close> runs one of them on the
  state. The refinement properties compare a script run on a component with the same script run on
  its specification.
\<close>

fun run_ops :: "('t \<Rightarrow> 'p \<Rightarrow> ('r \<times> 't) option) \<Rightarrow> 't \<Rightarrow> 'p list \<Rightarrow> ('r list \<times> 't) option" where
  "run_ops f t [] = Some ([], t)"
| "run_ops f t (p # ps) =
     (case f t p of
        None \<Rightarrow> None
      | Some (r, t) \<Rightarrow> map_option (\<lambda>(rs, t). (r # rs, t)) (run_ops f t ps))"

text \<open>A simulation of one step lifts to a whole script.\<close>

lemma run_ops_simulation:
  assumes "\<And>t xs p r ys. \<lbrakk>R t xs; g xs p = Some (r, ys)\<rbrakk> \<Longrightarrow> \<exists>u. f t p = Some (r, u) \<and> R u ys"
    and "R t xs" and "run_ops g xs ps = Some (rs, ys)"
  shows "\<exists>u. run_ops f t ps = Some (rs, u) \<and> R u ys"
  using assms(2,3)
proof (induction ps arbitrary: t xs rs)
  case (Cons p ps)
  from Cons.prems(2) obtain r zs rs' where g: "g xs p = Some (r, zs)" "run_ops g zs ps = Some (rs', ys)" "rs = r # rs'"
    by (auto split: option.splits)
  from assms(1) [OF Cons.prems(1) g(1)] obtain u where u: "f t p = Some (r, u)" "R u zs" by blast
  from Cons.IH [OF u(2) g(2)] u(1) g(3) show ?case by auto
qed simp

text \<open>The same with failures: the script fails on one side exactly when it fails on the other.\<close>

lemma run_ops_agree:
  assumes "\<And>t xs p. R t xs \<Longrightarrow> case g xs p of None \<Rightarrow> f t p = None
             | Some (r, ys) \<Rightarrow> \<exists>u. f t p = Some (r, u) \<and> R u ys"
    and "R t xs"
  shows "case run_ops g xs ps of None \<Rightarrow> run_ops f t ps = None
         | Some (rs, ys) \<Rightarrow> \<exists>u. run_ops f t ps = Some (rs, u) \<and> R u ys"
  using assms(2)
proof (induction ps arbitrary: t xs)
  case (Cons p ps)
  show ?case
  proof (cases "g xs p")
    case None
    with assms(1) [OF Cons.prems, of p] show ?thesis by simp
  next
    case (Some q)
    obtain r zs where q: "q = (r, zs)" by (cases q)
    with assms(1) [OF Cons.prems, of p] Some obtain u where u: "f t p = Some (r, u)" "R u zs" by auto
    from Cons.IH [OF u(2)] u(1) Some q show ?thesis by (auto split: option.splits)
  qed
qed simp

end
