(* ===== verification/Counted_Tree.thy ===== *)
theory Counted_Tree
  imports Prelude
begin

text \<open>
  The counted 2-3-4 trees of \<^verbatim>\<open>putty/utils/tree234.c\<close>, the container under the
  configuration store, the timers, the SSH channel tables and the terminal scrollback.

  A \<^verbatim>\<open>node234\<close> has slots \<^verbatim>\<open>kids[4]\<close>, \<^verbatim>\<open>counts[4]\<close> and
  \<^verbatim>\<open>elems[3]\<close>, filled from the left; the constructors \<open>N2\<close>, \<open>N3\<close>, \<open>N4\<close> say how
  many are filled and list them in the order kid, count, element, kid, count, \<dots>, and \<open>Null\<close> is
  the null pointer. A leaf is a node whose kids are all \<open>Null\<close>. The counts are stored data, as in
  the code; that they are right is part of the invariant \<open>wf234\<close>, not of the type. Parent
  pointers are not stored: the C loop that walks back up is the return path of the recursion
  that walked down.
\<close>

section \<open>Nodes\<close>

datatype 'a node234 =
    Null
  | N2 "'a node234" int 'a "'a node234" int
  | N3 "'a node234" int 'a "'a node234" int 'a "'a node234" int
  | N4 "'a node234" int 'a "'a node234" int 'a "'a node234" int 'a "'a node234" int

record 'a tree234 =
  root :: "'a node234"
  cmpfn :: "('a \<Rightarrow> 'a \<Rightarrow> int) option"

definition newtree234 :: "('a \<Rightarrow> 'a \<Rightarrow> int) option \<Rightarrow> 'a tree234" where
  "newtree234 cmp = \<lparr>root = Null, cmpfn = cmp\<rparr>"

fun countnode234 :: "'a node234 \<Rightarrow> int" where
  "countnode234 Null = 0"
| "countnode234 (N2 k0 c0 e0 k1 c1) = c0 + c1 + 1"
| "countnode234 (N3 k0 c0 e0 k1 c1 e1 k2 c2) = c0 + c1 + c2 + 2"
| "countnode234 (N4 k0 c0 e0 k1 c1 e1 k2 c2 e2 k3 c3) = c0 + c1 + c2 + c3 + 3"

fun elements234 :: "'a node234 \<Rightarrow> int" where
  "elements234 Null = 0"
| "elements234 (N2 _ _ _ _ _) = 1"
| "elements234 (N3 _ _ _ _ _ _ _ _) = 2"
| "elements234 (N4 _ _ _ _ _ _ _ _ _ _ _) = 3"

definition count234 :: "'a tree234 \<Rightarrow> int" where
  "count234 t = (if root t \<noteq> Null then countnode234 (root t) else 0)"

text \<open>The slots by number; a slot that is not filled reads as null (or count 0).\<close>

fun kid :: "'a node234 \<Rightarrow> int \<Rightarrow> 'a node234" where
  "kid Null i = Null"
| "kid (N2 k0 c0 e0 k1 c1) i = (if i = 0 then k0 else if i = 1 then k1 else Null)"
| "kid (N3 k0 c0 e0 k1 c1 e1 k2 c2) i =
     (if i = 0 then k0 else if i = 1 then k1 else if i = 2 then k2 else Null)"
| "kid (N4 k0 c0 e0 k1 c1 e1 k2 c2 e2 k3 c3) i =
     (if i = 0 then k0 else if i = 1 then k1 else if i = 2 then k2 else if i = 3 then k3 else Null)"

fun cnt :: "'a node234 \<Rightarrow> int \<Rightarrow> int" where
  "cnt Null i = 0"
| "cnt (N2 k0 c0 e0 k1 c1) i = (if i = 0 then c0 else if i = 1 then c1 else 0)"
| "cnt (N3 k0 c0 e0 k1 c1 e1 k2 c2) i =
     (if i = 0 then c0 else if i = 1 then c1 else if i = 2 then c2 else 0)"
| "cnt (N4 k0 c0 e0 k1 c1 e1 k2 c2 e2 k3 c3) i =
     (if i = 0 then c0 else if i = 1 then c1 else if i = 2 then c2 else if i = 3 then c3 else 0)"

fun elm :: "'a node234 \<Rightarrow> int \<Rightarrow> 'a option" where
  "elm Null i = None"
| "elm (N2 k0 c0 e0 k1 c1) i = (if i = 0 then Some e0 else None)"
| "elm (N3 k0 c0 e0 k1 c1 e1 k2 c2) i =
     (if i = 0 then Some e0 else if i = 1 then Some e1 else None)"
| "elm (N4 k0 c0 e0 k1 c1 e1 k2 c2 e2 k3 c3) i =
     (if i = 0 then Some e0 else if i = 1 then Some e1 else if i = 2 then Some e2 else None)"

text \<open>Overwriting one kid and its count, or one element, of a filled slot.\<close>

fun set_kid :: "'a node234 \<Rightarrow> int \<Rightarrow> 'a node234 \<Rightarrow> int \<Rightarrow> 'a node234" where
  "set_kid Null i k c = Null"
| "set_kid (N2 k0 c0 e0 k1 c1) i k c =
     (if i = 0 then N2 k c e0 k1 c1 else N2 k0 c0 e0 k c)"
| "set_kid (N3 k0 c0 e0 k1 c1 e1 k2 c2) i k c =
     (if i = 0 then N3 k c e0 k1 c1 e1 k2 c2
      else if i = 1 then N3 k0 c0 e0 k c e1 k2 c2
      else N3 k0 c0 e0 k1 c1 e1 k c)"
| "set_kid (N4 k0 c0 e0 k1 c1 e1 k2 c2 e2 k3 c3) i k c =
     (if i = 0 then N4 k c e0 k1 c1 e1 k2 c2 e2 k3 c3
      else if i = 1 then N4 k0 c0 e0 k c e1 k2 c2 e2 k3 c3
      else if i = 2 then N4 k0 c0 e0 k1 c1 e1 k c e2 k3 c3
      else N4 k0 c0 e0 k1 c1 e1 k2 c2 e2 k c)"

fun set_elm :: "'a node234 \<Rightarrow> int \<Rightarrow> 'a \<Rightarrow> 'a node234" where
  "set_elm Null i e = Null"
| "set_elm (N2 k0 c0 e0 k1 c1) i e = N2 k0 c0 e k1 c1"
| "set_elm (N3 k0 c0 e0 k1 c1 e1 k2 c2) i e =
     (if i = 0 then N3 k0 c0 e k1 c1 e1 k2 c2 else N3 k0 c0 e0 k1 c1 e k2 c2)"
| "set_elm (N4 k0 c0 e0 k1 c1 e1 k2 c2 e2 k3 c3) i e =
     (if i = 0 then N4 k0 c0 e k1 c1 e1 k2 c2 e2 k3 c3
      else if i = 1 then N4 k0 c0 e0 k1 c1 e k2 c2 e2 k3 c3
      else N4 k0 c0 e0 k1 c1 e1 k2 c2 e k3 c3)"

section \<open>The abstract list and the invariant\<close>

fun inorder :: "'a node234 \<Rightarrow> 'a list" where
  "inorder Null = []"
| "inorder (N2 k0 c0 e0 k1 c1) = inorder k0 @ e0 # inorder k1"
| "inorder (N3 k0 c0 e0 k1 c1 e1 k2 c2) = inorder k0 @ e0 # inorder k1 @ e1 # inorder k2"
| "inorder (N4 k0 c0 e0 k1 c1 e1 k2 c2 e2 k3 c3) =
     inorder k0 @ e0 # inorder k1 @ e1 # inorder k2 @ e2 # inorder k3"

abbreviation size234 :: "'a node234 \<Rightarrow> int" where
  "size234 n \<equiv> int (length (inorder n))"

text \<open>\<open>full h n\<close>: every path below \<open>n\<close> has length \<open>h\<close> and every stored count is right.\<close>

fun full :: "nat \<Rightarrow> 'a node234 \<Rightarrow> bool" where
  "full h Null \<longleftrightarrow> h = 0"
| "full h (N2 k0 c0 e0 k1 c1) \<longleftrightarrow>
     (case h of 0 \<Rightarrow> False | Suc g \<Rightarrow> full g k0 \<and> full g k1 \<and> c0 = size234 k0 \<and> c1 = size234 k1)"
| "full h (N3 k0 c0 e0 k1 c1 e1 k2 c2) \<longleftrightarrow>
     (case h of 0 \<Rightarrow> False | Suc g \<Rightarrow> full g k0 \<and> full g k1 \<and> full g k2 \<and>
        c0 = size234 k0 \<and> c1 = size234 k1 \<and> c2 = size234 k2)"
| "full h (N4 k0 c0 e0 k1 c1 e1 k2 c2 e2 k3 c3) \<longleftrightarrow>
     (case h of 0 \<Rightarrow> False | Suc g \<Rightarrow> full g k0 \<and> full g k1 \<and> full g k2 \<and> full g k3 \<and>
        c0 = size234 k0 \<and> c1 = size234 k1 \<and> c2 = size234 k2 \<and> c3 = size234 k3)"

fun height234 :: "'a node234 \<Rightarrow> nat" where
  "height234 Null = 0"
| "height234 (N2 k0 _ _ _ _) = Suc (height234 k0)"
| "height234 (N3 k0 _ _ _ _ _ _ _) = Suc (height234 k0)"
| "height234 (N4 k0 _ _ _ _ _ _ _ _ _ _) = Suc (height234 k0)"

definition wf234 :: "'a node234 \<Rightarrow> bool" where
  "wf234 n \<longleftrightarrow> full (height234 n) n"

lemma full_0 [simp]: "full 0 n \<longleftrightarrow> n = Null"
  by (cases n) auto

lemma full_height: "full h n \<Longrightarrow> height234 n = h"
  by (induction n arbitrary: h) (auto split: nat.splits)

lemma wf234_iff: "wf234 n \<longleftrightarrow> (\<exists>h. full h n)"
  by (auto simp: wf234_def dest: full_height)

lemma full_imp_wf: "full h n \<Longrightarrow> wf234 n"
  by (auto simp: wf234_iff)

lemma countnode_full: "full h n \<Longrightarrow> countnode234 n = size234 n"
  by (cases n) (auto split: nat.splits)

lemma countnode_wf [inorder_simps]: "wf234 n \<Longrightarrow> countnode234 n = size234 n"
  by (auto simp: wf234_iff dest: countnode_full)

lemma full_Suc_not_Null: "full (Suc h) n \<Longrightarrow> n \<noteq> Null"
  by auto

lemma wf234_Null [simp]: "wf234 Null"
  by (simp add: wf234_def)

section \<open>Looking an element up by index\<close>

text \<open>
  \<^verbatim>\<open>index234\<close>: \<open>None\<close> is the null pointer. The comma expressions of the code subtract
  before they test; the loop that reaches a null node returns null.
\<close>

lemma size_kid [termination_simp]: "n \<noteq> Null \<Longrightarrow> size (kid n i) < size n"
  by (cases n) auto

fun index234_node :: "'a node234 \<Rightarrow> int \<Rightarrow> 'a option" where
  "index234_node n i =
     (if n = Null then None
      else if i < cnt n 0 then index234_node (kid n 0) i
      else let i = i - (cnt n 0 + 1) in if i < 0 then elm n 0
      else if i < cnt n 1 then index234_node (kid n 1) i
      else let i = i - (cnt n 1 + 1) in if i < 0 then elm n 1
      else if i < cnt n 2 then index234_node (kid n 2) i
      else let i = i - (cnt n 2 + 1) in if i < 0 then elm n 2
      else index234_node (kid n 3) i)"

declare index234_node.simps [simp del]

definition index234 :: "'a tree234 \<Rightarrow> int \<Rightarrow> 'a option" where
  "index234 t i =
     (if root t = Null then None
      else if i < 0 \<or> i \<ge> countnode234 (root t) then None
      else index234_node (root t) i)"

lemma index234_node_Null [simp]: "index234_node Null i = None"
  by (simp add: index234_node.simps)

lemma index234_node_at: "full h n \<Longrightarrow> index234_node n i = at (inorder n) i"
proof (induction h arbitrary: n i)
  case 0
  then show ?case by simp
next
  case (Suc g)
  note IH = Suc.IH
  from Suc.prems show ?case
    by (subst index234_node.simps) (cases n; simp add: at_step IH Let_def)
qed

lemma index234_at: "wf234 (root t) \<Longrightarrow> index234 t i = at (inorder (root t)) i"
  by (cases "i < 0") (auto simp: index234_def countnode_wf wf234_iff index234_node_at)

section \<open>Comparison functions along a list\<close>

text \<open>
  A direction is monotone along a list when it never turns back: once it says left, it says left
  for all that follows. Then the list splits at the place the search is looking for.
\<close>

definition monotone_dir :: "('a \<Rightarrow> int) \<Rightarrow> 'a list \<Rightarrow> bool" where
  "monotone_dir dir xs \<longleftrightarrow>
     sorted_wrt (\<lambda>x y. (dir y \<ge> 0 \<longrightarrow> dir x \<ge> 0) \<and> (dir y > 0 \<longrightarrow> dir x > 0)) xs"

lemma monotone_dir_split:
  "monotone_dir dir (xs @ e # ys) \<Longrightarrow> monotone_dir dir xs \<and> monotone_dir dir ys"
  by (simp add: monotone_dir_def sorted_wrt_append)

lemma monotone_dir_right:
  "\<lbrakk>monotone_dir dir (xs @ e # ys); dir e > 0\<rbrakk> \<Longrightarrow> \<forall>x\<in>set xs. dir x > 0"
  by (auto simp: monotone_dir_def sorted_wrt_append)

lemma monotone_dir_left:
  "\<lbrakk>monotone_dir dir (xs @ e # ys); dir e < 0\<rbrakk> \<Longrightarrow> \<forall>y\<in>set ys. dir y < 0"
  by (fastforce simp: monotone_dir_def sorted_wrt_append)

section \<open>A node as a child with what is on either side of it\<close>

fun before :: "'a node234 \<Rightarrow> int \<Rightarrow> 'a list" where
  "before Null i = []"
| "before (N2 k0 c0 e0 k1 c1) i = (if i = 0 then [] else inorder k0 @ [e0])"
| "before (N3 k0 c0 e0 k1 c1 e1 k2 c2) i =
     (if i = 0 then [] else if i = 1 then inorder k0 @ [e0]
      else inorder k0 @ e0 # inorder k1 @ [e1])"
| "before (N4 k0 c0 e0 k1 c1 e1 k2 c2 e2 k3 c3) i =
     (if i = 0 then [] else if i = 1 then inorder k0 @ [e0]
      else if i = 2 then inorder k0 @ e0 # inorder k1 @ [e1]
      else inorder k0 @ e0 # inorder k1 @ e1 # inorder k2 @ [e2])"

fun after :: "'a node234 \<Rightarrow> int \<Rightarrow> 'a list" where
  "after Null i = []"
| "after (N2 k0 c0 e0 k1 c1) i = (if i = 0 then e0 # inorder k1 else [])"
| "after (N3 k0 c0 e0 k1 c1 e1 k2 c2) i =
     (if i = 0 then e0 # inorder k1 @ e1 # inorder k2 else if i = 1 then e1 # inorder k2 else [])"
| "after (N4 k0 c0 e0 k1 c1 e1 k2 c2 e2 k3 c3) i =
     (if i = 0 then e0 # inorder k1 @ e1 # inorder k2 @ e2 # inorder k3
      else if i = 1 then e1 # inorder k2 @ e2 # inorder k3
      else if i = 2 then e2 # inorder k3 else [])"

lemma inorder_kid:
  "\<lbrakk>0 \<le> i; i \<le> elements234 n\<rbrakk> \<Longrightarrow> inorder n = before n i @ inorder (kid n i) @ after n i"
  by (cases n) auto

lemma full_kid: "\<lbrakk>full (Suc g) n; 0 \<le> i; i \<le> elements234 n\<rbrakk> \<Longrightarrow> full g (kid n i)"
  by (cases n) auto

lemma full_kid_Null_iff:
  "\<lbrakk>full (Suc g) n; 0 \<le> i; i \<le> elements234 n\<rbrakk> \<Longrightarrow> kid n i = Null \<longleftrightarrow> g = 0"
  using full_kid [of g n i] by (cases g) auto

lemma set_kid_full:
  "\<lbrakk>full (Suc g) n; 0 \<le> i; i \<le> elements234 n; full g k; c = size234 k\<rbrakk>
    \<Longrightarrow> full (Suc g) (set_kid n i k c) \<and> inorder (set_kid n i k c) = before n i @ inorder k @ after n i"
  by (cases n) auto

lemma elements234_bounds: "0 \<le> elements234 n \<and> elements234 n \<le> 3"
  by (cases n) auto

text \<open>What lies on either side of an element of a node.\<close>

lemma elm_split:
  "elm n i = Some x \<Longrightarrow>
     inorder n = (before n i @ inorder (kid n i)) @ x # inorder (kid n (i + 1)) @ after n (i + 1) \<and>
     before n (i + 1) = before n i @ inorder (kid n i) @ [x] \<and>
     after n i = x # inorder (kid n (i + 1)) @ after n (i + 1)"
  by (cases n) (auto split: if_splits)

lemma elm_mem: "elm n i = Some x \<Longrightarrow> x \<in> set (inorder n)"
  by (simp add: elm_split)

lemma elm_Some: "elm n i = Some x \<Longrightarrow> 0 \<le> i \<and> i + 1 \<le> elements234 n"
  by (cases n) (auto split: if_splits)

lemma elm_None: "\<lbrakk>n \<noteq> Null; 0 \<le> i; elm n i = None\<rbrakk> \<Longrightarrow> elements234 n \<le> i \<and> after n i = []"
  by (cases n) (auto split: if_splits)

lemma before_0 [simp]: "before n 0 = []"
  by (cases n) auto

end
