(* ===== verification/Tree_Search.thy ===== *)
theory Tree_Search
  imports Counted_Tree
begin

text \<open>
  Searching a counted 2-3-4 tree: \<^verbatim>\<open>search234_start\<close>, \<^verbatim>\<open>search234_step\<close> and
  \<^verbatim>\<open>findrelpos234\<close> with its wrappers. The stepping search is shown equal to a recursive one
  (\<open>findrel_loop_tsearch\<close>), which also shows that the loop ends, and its result is characterised
  for every relation and any comparison function that is monotone along the tree.
\<close>

section \<open>Searching\<close>

datatype rel234 = REL234_EQ | REL234_LT | REL234_LE | REL234_GT | REL234_GE

record 'a search234_state =
  s_node :: "'a node234"
  s_base :: int
  s_last :: int
  s_lo :: int
  s_hi :: int
  s_element :: "'a option"
  s_index :: int

fun sum_counts :: "'a node234 \<Rightarrow> int \<Rightarrow> nat \<Rightarrow> int" where
  "sum_counts n a 0 = 0"
| "sum_counts n a (Suc k) = sum_counts n a k + (a + cnt n (int k))"

text \<open>
  \<^verbatim>\<open>search234_step\<close>; \<open>None\<close> when its \<^verbatim>\<open>assert(direction)\<close> fails. \<open>sum_counts n a k\<close> is
  what the loops over \<^verbatim>\<open>counts[i]\<close> add for \<open>i < k\<close>, with \<open>a\<close> more per round.
\<close>

definition search234_descend :: "'a search234_state \<Rightarrow> int \<Rightarrow> 'a search234_state" where
  "search234_descend st direction =
     (let st = (if direction > 0 then st\<lparr>s_lo := s_last st + 1\<rparr> else st\<lparr>s_hi := s_last st - 1\<rparr>)
      in if s_lo st > s_hi st
         then st\<lparr>s_base := s_base st + sum_counts (s_node st) 1 (nat (s_lo st)),
                 s_node := kid (s_node st) (s_lo st), s_last := -1\<rparr>
         else st)"

definition search234_settle :: "'a search234_state \<Rightarrow> 'a search234_state" where
  "search234_settle st =
     (let st = (if s_last st = -1
                then st\<lparr>s_lo := 0,
                        s_hi := (if s_node st \<noteq> Null then elements234 (s_node st) - 1 else 0)\<rparr>
                else st)
      in if s_node st = Null then st\<lparr>s_element := None, s_index := s_base st\<rparr>
         else let last = (s_lo st + s_hi st) div 2
              in st\<lparr>s_last := last, s_element := elm (s_node st) last,
                    s_index := s_base st + last + sum_counts (s_node st) 0 (nat (last + 1))\<rparr>)"

definition search234_step :: "'a search234_state \<Rightarrow> int \<Rightarrow> 'a search234_state option" where
  "search234_step st direction =
     (if s_node st = Null then Some (st\<lparr>s_element := None, s_index := 0\<rparr>)
      else if s_last st \<noteq> -1 then
        (if direction = 0 then None else Some (search234_settle (search234_descend st direction)))
      else Some (search234_settle st))"

definition search234_start :: "'a node234 \<Rightarrow> 'a search234_state option" where
  "search234_start r =
     search234_step \<lparr>s_node = r, s_base = 0, s_last = -1, s_lo = 0, s_hi = 0,
                     s_element = None, s_index = 0\<rparr> 0"

text \<open>
  The loop of \<^verbatim>\<open>findrelpos234\<close>: \<open>Inl (x, i)\<close> when it returns an element that compares
  equal, \<open>Inr i\<close> when it leaves the loop with \<^verbatim>\<open>ss.index = i\<close>. The query is the comparison
  function applied to the sought element, or \<open>None\<close> for the null element.
\<close>

partial_function (option) findrel_loop ::
    "('a \<Rightarrow> int) option \<Rightarrow> bool \<Rightarrow> int \<Rightarrow> 'a search234_state \<Rightarrow> (('a \<times> int) + int) option" where
  "findrel_loop q eq_permitted reldir ss =
     (case s_element ss of
        None \<Rightarrow> Some (Inr (s_index ss))
      | Some x \<Rightarrow>
          (let cmpret = (case q of Some c \<Rightarrow> c x | None \<Rightarrow> - reldir)
           in if cmpret = 0 \<and> eq_permitted then Some (Inl (x, s_index ss))
              else Option.bind (search234_step ss (if cmpret = 0 then reldir else cmpret))
                     (findrel_loop q eq_permitted reldir)))"

definition reldir_of :: "rel234 \<Rightarrow> int" where
  "reldir_of relation =
     (if relation = REL234_LT \<or> relation = REL234_LE then -1
      else if relation = REL234_GT \<or> relation = REL234_GE then 1 else 0)"

definition findrelpos234_by ::
    "'a tree234 \<Rightarrow> 'e option \<Rightarrow> ('e \<Rightarrow> 'a \<Rightarrow> int) \<Rightarrow> rel234 \<Rightarrow> ('a \<times> int) option option" where
  "findrelpos234_by t e cmp relation =
     (let reldir = reldir_of relation;
          equal_permitted = (relation \<noteq> REL234_LT \<and> relation \<noteq> REL234_GT)
      in if equal_permitted \<and> e = None then None
         else Option.bind (Option.bind (search234_start (root t))
                             (findrel_loop (map_option cmp e) equal_permitted reldir))
           (\<lambda>r. case r of
                  Inl (x, i) \<Rightarrow> Some (Some (x, i))
                | Inr i \<Rightarrow>
                    if relation = REL234_EQ then Some None
                    else let i = (if relation = REL234_LT \<or> relation = REL234_LE then i - 1 else i)
                         in Some (map_option (\<lambda>x. (x, i)) (index234 t i))))"

text \<open>With a null comparison function the tree's own is used; a tree without one would crash.\<close>

definition findrelpos234 ::
    "'a tree234 \<Rightarrow> 'a option \<Rightarrow> rel234 \<Rightarrow> ('a \<times> int) option option" where
  "findrelpos234 t e relation =
     (case cmpfn t of None \<Rightarrow> None | Some cmp \<Rightarrow> findrelpos234_by t e cmp relation)"

definition find234 :: "'a tree234 \<Rightarrow> 'a \<Rightarrow> 'a option option" where
  "find234 t e = map_option (map_option fst) (findrelpos234 t (Some e) REL234_EQ)"

definition findrel234 :: "'a tree234 \<Rightarrow> 'a option \<Rightarrow> rel234 \<Rightarrow> 'a option option" where
  "findrel234 t e relation = map_option (map_option fst) (findrelpos234 t e relation)"

definition findpos234 :: "'a tree234 \<Rightarrow> 'a \<Rightarrow> ('a \<times> int) option option" where
  "findpos234 t e = findrelpos234 t (Some e) REL234_EQ"

subsection \<open>The search loop as a recursive search of the tree\<close>

text \<open>
  The two-level stepping (elements of a node by bisection, then a child) is the recursive search
  below, whose comparison outcomes are those of \<open>dir\<close>: negative left, positive right, 0 found.
  Bisection of a 4-node looks at its middle element first, of a 3-node at its first.
\<close>

fun tsearch :: "('a \<Rightarrow> int) \<Rightarrow> int \<Rightarrow> 'a node234 \<Rightarrow> ('a \<times> int) + int" where
  "tsearch dir b Null = Inr b"
| "tsearch dir b (N2 k0 c0 e0 k1 c1) =
     (if dir e0 = 0 then Inl (e0, b + c0)
      else if dir e0 < 0 then tsearch dir b k0 else tsearch dir (b + c0 + 1) k1)"
| "tsearch dir b (N3 k0 c0 e0 k1 c1 e1 k2 c2) =
     (if dir e0 = 0 then Inl (e0, b + c0)
      else if dir e0 < 0 then tsearch dir b k0
      else if dir e1 = 0 then Inl (e1, b + c0 + 1 + c1)
      else if dir e1 < 0 then tsearch dir (b + c0 + 1) k1
      else tsearch dir (b + c0 + 1 + c1 + 1) k2)"
| "tsearch dir b (N4 k0 c0 e0 k1 c1 e1 k2 c2 e2 k3 c3) =
     (if dir e1 = 0 then Inl (e1, b + c0 + 1 + c1)
      else if dir e1 < 0 then
        (if dir e0 = 0 then Inl (e0, b + c0)
         else if dir e0 < 0 then tsearch dir b k0 else tsearch dir (b + c0 + 1) k1)
      else
        (if dir e2 = 0 then Inl (e2, b + c0 + 1 + c1 + 1 + c2)
         else if dir e2 < 0 then tsearch dir (b + c0 + 1 + c1 + 1) k2
         else tsearch dir (b + c0 + 1 + c1 + 1 + c2 + 1) k3))"

text \<open>The direction the loop takes at an element; 0 means it stops there.\<close>

definition loop_dir :: "('a \<Rightarrow> int) option \<Rightarrow> bool \<Rightarrow> int \<Rightarrow> 'a \<Rightarrow> int" where
  "loop_dir q eq_permitted reldir x =
     (let cmpret = (case q of Some c \<Rightarrow> c x | None \<Rightarrow> - reldir)
      in if cmpret = 0 \<and> \<not> eq_permitted then reldir else cmpret)"

lemma findrel_loop_None [simp]:
  "s_element ss = None \<Longrightarrow> findrel_loop q p r ss = Some (Inr (s_index ss))"
  by (simp add: findrel_loop.simps)

lemma findrel_loop_Some:
  assumes "s_element ss = Some x" and "p \<or> r \<noteq> 0"
  shows "findrel_loop q p r ss =
     (if loop_dir q p r x = 0 then Some (Inl (x, s_index ss))
      else Option.bind (search234_step ss (loop_dir q p r x)) (findrel_loop q p r))"
  using assms by (subst findrel_loop.simps) (auto simp: loop_dir_def Let_def split: option.splits)

lemma settle_enter:
  assumes "s_last st = -1" and "s_node st = n" and "n \<noteq> Null"
  shows "search234_settle st =
     (let last = (elements234 n - 1) div 2
      in st\<lparr>s_lo := 0, s_hi := elements234 n - 1, s_last := last, s_element := elm n last,
            s_index := s_base st + last + sum_counts n 0 (nat (last + 1))\<rparr>)"
  using assms by (simp add: search234_settle_def Let_def)

lemma settle_again:
  assumes "s_last st \<noteq> -1" and "s_node st \<noteq> Null"
  shows "search234_settle st =
     (let last = (s_lo st + s_hi st) div 2
      in st\<lparr>s_last := last, s_element := elm (s_node st) last,
            s_index := s_base st + last + sum_counts (s_node st) 0 (nat (last + 1))\<rparr>)"
  using assms by (simp add: search234_settle_def Let_def)

lemmas search_unfolds =
  search234_step_def search234_descend_def settle_again findrel_loop_Some Let_def
  numeral_2_eq_2 numeral_3_eq_3 nat_eq_iff

lemma findrel_loop_tsearch:
  assumes "p \<or> r \<noteq> 0" and "s_last st = -1" and "s_node st = n"
  shows "findrel_loop q p r (search234_settle st) =
         Some (tsearch (loop_dir q p r) (s_base st) n)"
  using assms(2,3)
proof (induction n arbitrary: st)
  case Null
  then show ?case by (simp add: search234_settle_def)
next
  case (N2 k0 c0 e0 k1 c1)
  with assms(1) show ?case
    by (simp add: settle_enter search_unfolds add_ac)
next
  case (N3 k0 c0 e0 k1 c1 e1 k2 c2)
  let ?d = "loop_dir q p r"
  consider "?d e0 = 0" | "?d e0 < 0" | "?d e0 > 0" by linarith
  then show ?case
    using N3 assms(1) by cases (simp_all add: settle_enter search_unfolds add_ac)
next
  case (N4 k0 c0 e0 k1 c1 e1 k2 c2 e2 k3 c3)
  let ?d = "loop_dir q p r"
  consider "?d e1 = 0" | "?d e1 < 0" "?d e0 = 0" | "?d e1 < 0" "?d e0 < 0" | "?d e1 < 0" "?d e0 > 0"
    | "?d e1 > 0" "?d e2 = 0" | "?d e1 > 0" "?d e2 < 0" | "?d e1 > 0" "?d e2 > 0" by linarith
  then show ?case
    using N4 assms(1) by cases (simp_all add: settle_enter search_unfolds add_ac)
qed

lemma search234_start_eq:
  "search234_start r = (if r = Null then Some \<lparr>s_node = r, s_base = 0, s_last = -1, s_lo = 0,
       s_hi = 0, s_element = None, s_index = 0\<rparr>
     else Some (search234_settle \<lparr>s_node = r, s_base = 0, s_last = -1, s_lo = 0,
       s_hi = 0, s_element = None, s_index = 0\<rparr>))"
  by (simp add: search234_start_def search234_step_def)

lemma findrel_start:
  assumes "p \<or> r \<noteq> 0"
  shows "Option.bind (search234_start n) (findrel_loop q p r) =
         Some (tsearch (loop_dir q p r) 0 n)"
  using findrel_loop_tsearch [OF assms, of "\<lparr>s_node = n, s_base = 0, s_last = -1, s_lo = 0,
       s_hi = 0, s_element = None, s_index = 0\<rparr>" n q]
  by (auto simp: search234_start_eq)

subsection \<open>What the search finds\<close>

text \<open>The outcome of a search of \<open>xs\<close>, whose first element has index \<open>b\<close>.\<close>

definition search_outcome :: "('a \<Rightarrow> int) \<Rightarrow> int \<Rightarrow> 'a list \<Rightarrow> ('a \<times> int) + int \<Rightarrow> bool" where
  "search_outcome dir b xs r \<longleftrightarrow>
     (case r of
        Inl (x, i) \<Rightarrow> dir x = 0 \<and> at xs (i - b) = Some x
      | Inr i \<Rightarrow> (\<exists>us vs. xs = us @ vs \<and> i = b + int (length us) \<and>
                     (\<forall>x\<in>set us. dir x > 0) \<and> (\<forall>x\<in>set vs. dir x < 0)))"

lemma search_outcome_InrI:
  "\<lbrakk>xs = us @ vs; i = b + int (length us); \<forall>x\<in>set us. dir x > 0; \<forall>x\<in>set vs. dir x < 0\<rbrakk>
    \<Longrightarrow> search_outcome dir b xs (Inr i)"
  unfolding search_outcome_def by auto

lemma outcome_left:
  assumes "monotone_dir dir (xs @ e # ys)" and "dir e < 0" and "search_outcome dir b xs r"
  shows "search_outcome dir b (xs @ e # ys) r"
proof (cases r)
  case (Inl z)
  obtain x i where z: "z = (x, i)" by (cases z)
  with assms(3) Inl have x: "dir x = 0" "at xs (i - b) = Some x" by (auto simp: search_outcome_def)
  then have "i - b < int (length xs)" by (metis at_beyond not_le_imp_less option.distinct(1))
  with x z Inl show ?thesis by (simp add: search_outcome_def at_append)
next
  case (Inr i)
  with assms(3) obtain us vs where uv: "xs = us @ vs" "i = b + int (length us)"
    "\<forall>x\<in>set us. dir x > 0" "\<forall>x\<in>set vs. dir x < 0" by (auto simp: search_outcome_def)
  from assms(1,2) have "\<forall>y\<in>set ys. dir y < 0"
    by (fastforce simp: monotone_dir_def sorted_wrt_append)
  with uv assms(2) show ?thesis
    unfolding Inr by (intro search_outcome_InrI [where us = us and vs = "vs @ e # ys"]) auto
qed

lemma outcome_right:
  assumes "monotone_dir dir (xs @ e # ys)" and "dir e > 0"
    and "search_outcome dir (b + int (length xs) + 1) ys r"
  shows "search_outcome dir b (xs @ e # ys) r"
proof (cases r)
  case (Inl z)
  obtain x i where z: "z = (x, i)" by (cases z)
  with assms(3) Inl have x: "dir x = 0" "at ys (i - (b + int (length xs) + 1)) = Some x"
    by (auto simp: search_outcome_def)
  then have "i - (b + int (length xs) + 1) \<ge> 0"
    by (metis at_negative not_le_imp_less option.distinct(1))
  with x z Inl show ?thesis by (simp add: search_outcome_def at_step Let_def algebra_simps)
next
  case (Inr i)
  with assms(3) obtain us vs where uv: "ys = us @ vs" "i = b + int (length xs) + 1 + int (length us)"
    "\<forall>x\<in>set us. dir x > 0" "\<forall>x\<in>set vs. dir x < 0" by (auto simp: search_outcome_def)
  from assms(1,2) have left: "\<forall>x\<in>set xs. dir x > 0"
    by (auto simp: monotone_dir_def sorted_wrt_append)
  with uv assms(2) show ?thesis
    unfolding Inr by (intro search_outcome_InrI [where us = "xs @ e # us" and vs = vs]) auto
qed

lemma outcome_here:
  "dir e = 0 \<Longrightarrow> search_outcome dir b (xs @ e # ys) (Inl (e, b + int (length xs)))"
  by (simp add: search_outcome_def at_step)

lemma outcome_split:
  assumes "monotone_dir dir (xs @ e # ys)" and "c = int (length xs)"
    and "search_outcome dir b xs L" and "search_outcome dir (b + c + 1) ys R"
  shows "search_outcome dir b (xs @ e # ys)
           (if dir e = 0 then Inl (e, b + c) else if dir e < 0 then L else R)"
  using assms outcome_left [OF assms(1)] outcome_right [OF assms(1)] outcome_here by auto

lemma tsearch_outcome:
  "\<lbrakk>full h n; monotone_dir dir (inorder n)\<rbrakk> \<Longrightarrow> search_outcome dir b (inorder n) (tsearch dir b n)"
proof (induction h arbitrary: n b)
  case 0
  then show ?case by (simp add: search_outcome_def)
next
  case (Suc g)
  note IH = Suc.IH and split = outcome_split [of dir]
  show ?case
  proof (cases n)
    case Null
    with Suc.prems show ?thesis by simp
  next
    case (N2 k0 c0 e0 k1 c1)
    with Suc.prems have m: "monotone_dir dir (inorder k0)" "monotone_dir dir (inorder k1)"
      by (auto dest: monotone_dir_split)
    have "full g k0" "full g k1" "c0 = size234 k0" using N2 Suc.prems by auto
    with Suc.prems m show ?thesis unfolding N2 inorder.simps tsearch.simps by (intro split IH)
  next
    case (N3 k0 c0 e0 k1 c1 e1 k2 c2)
    with Suc.prems have m: "monotone_dir dir (inorder k0)" "monotone_dir dir (inorder k1)"
      "monotone_dir dir (inorder k2)" "monotone_dir dir (inorder k1 @ e1 # inorder k2)"
      by (auto dest: monotone_dir_split)
    have "full g k0" "full g k1" "full g k2" "c0 = size234 k0" "c1 = size234 k1"
      using N3 Suc.prems by auto
    with Suc.prems m show ?thesis unfolding N3 inorder.simps tsearch.simps by (intro split IH)
  next
    case (N4 k0 c0 e0 k1 c1 e1 k2 c2 e2 k3 c3)
    with Suc.prems have m:
      "monotone_dir dir ((inorder k0 @ e0 # inorder k1) @ e1 # (inorder k2 @ e2 # inorder k3))"
      by simp
    note m2 = monotone_dir_split [OF m, THEN conjunct1] monotone_dir_split [OF m, THEN conjunct2]
    note m3 = m2 [THEN monotone_dir_split, THEN conjunct1] m2 [THEN monotone_dir_split, THEN conjunct2]
    have f: "full g k0" "full g k1" "full g k2" "full g k3" "c0 = size234 k0" "c1 = size234 k1"
      "c2 = size234 k2" using N4 Suc.prems by auto
    have "inorder n = (inorder k0 @ e0 # inorder k1) @ e1 # (inorder k2 @ e2 # inorder k3)"
      using N4 by simp
    moreover have "tsearch dir b n =
        (if dir e1 = 0 then Inl (e1, b + (c0 + 1 + c1))
         else if dir e1 < 0 then
           (if dir e0 = 0 then Inl (e0, b + c0)
            else if dir e0 < 0 then tsearch dir b k0 else tsearch dir (b + c0 + 1) k1)
         else
           (if dir e2 = 0 then Inl (e2, b + (c0 + 1 + c1) + 1 + c2)
            else if dir e2 < 0 then tsearch dir (b + (c0 + 1 + c1) + 1) k2
            else tsearch dir (b + (c0 + 1 + c1) + 1 + c2 + 1) k3))"
      using N4 by (simp add: add_ac)
    moreover have "c0 + 1 + c1 = int (length (inorder k0 @ e0 # inorder k1))"
      using f by simp
    ultimately show ?thesis using m m2 m3 f by (simp only:) (intro split IH refl)
  qed
qed

subsection \<open>Correctness of \<open>findrelpos234\<close>\<close>

text \<open>
  Which elements stand in the wanted relation to the query, by the sign of the comparison of the
  query with them; a null query is below and above everything, as \<^verbatim>\<open>tree234.h\<close> says.
\<close>

fun in_relation :: "rel234 \<Rightarrow> ('a \<Rightarrow> int) option \<Rightarrow> 'a \<Rightarrow> bool" where
  "in_relation REL234_EQ q x = (case q of Some c \<Rightarrow> c x = 0 | None \<Rightarrow> False)"
| "in_relation REL234_LT q x = (case q of Some c \<Rightarrow> c x > 0 | None \<Rightarrow> True)"
| "in_relation REL234_LE q x = (case q of Some c \<Rightarrow> c x \<ge> 0 | None \<Rightarrow> True)"
| "in_relation REL234_GT q x = (case q of Some c \<Rightarrow> c x < 0 | None \<Rightarrow> True)"
| "in_relation REL234_GE q x = (case q of Some c \<Rightarrow> c x \<le> 0 | None \<Rightarrow> True)"

definition is_match :: "('a \<Rightarrow> int) option \<Rightarrow> 'a \<Rightarrow> bool" where
  "is_match q x = (case q of Some c \<Rightarrow> c x = 0 | None \<Rightarrow> False)"

text \<open>
  \<open>rel_result\<close>: the element found is at the index reported and stands in the relation, and unless
  it is an exact match it is the closest one: the last such for LT and LE, the first for GT and GE.
\<close>

definition rel_result ::
    "rel234 \<Rightarrow> ('a \<Rightarrow> int) option \<Rightarrow> 'a list \<Rightarrow> ('a \<times> int) option \<Rightarrow> bool" where
  "rel_result rel q xs r \<longleftrightarrow>
     (case r of
        None \<Rightarrow> (\<forall>x\<in>set xs. \<not> in_relation rel q x)
      | Some (x, i) \<Rightarrow> at xs i = Some x \<and> in_relation rel q x \<and>
          (\<not> is_match q x \<longrightarrow>
             (\<forall>j y. at xs j = Some y \<and> in_relation rel q y \<longrightarrow>
                (if reldir_of rel < 0 then j \<le> i else i \<le> j))))"

lemma monotone_loop_dir:
  assumes "case q of Some c \<Rightarrow> monotone_dir c xs | None \<Rightarrow> True"
  shows "monotone_dir (loop_dir q p r) xs"
proof (cases q)
  case None
  then show ?thesis by (simp add: monotone_dir_def loop_dir_def sorted_wrt_iff_nth_less)
next
  case (Some c)
  with assms have "monotone_dir c xs" by simp
  then show ?thesis
    unfolding monotone_dir_def Some loop_dir_def
    by (rule sorted_wrt_mono_rel [rotated]) (auto simp: Let_def)
qed

lemma at_split_before:
  "\<lbrakk>us @ vs = xs; at xs j = Some y; \<forall>x\<in>set vs. \<not> P x; P y\<rbrakk> \<Longrightarrow> j < int (length us)"
  by (metis at_append at_mem)

lemma at_split_after:
  "\<lbrakk>us @ vs = xs; at xs j = Some y; \<forall>x\<in>set us. \<not> P x; P y\<rbrakk> \<Longrightarrow> int (length us) \<le> j"
  by (metis at_append at_mem linorder_not_le)

theorem findrelpos234_by_correct:
  assumes wf: "wf234 (root t)"
    and mono: "\<And>q. e = Some q \<Longrightarrow> monotone_dir (cmp q) (inorder (root t))"
    and query: "e = None \<Longrightarrow> rel = REL234_LT \<or> rel = REL234_GT"
  shows "\<exists>r. findrelpos234_by t e cmp rel = Some r \<and>
             rel_result rel (map_option cmp e) (inorder (root t)) r"
proof -
  let ?q = "map_option cmp e" and ?p = "rel \<noteq> REL234_LT \<and> rel \<noteq> REL234_GT"
    and ?r = "reldir_of rel" and ?xs = "inorder (root t)"
  let ?dir = "loop_dir ?q ?p ?r"
  have pr: "?p \<or> ?r \<noteq> 0" by (cases rel) (auto simp: reldir_of_def)
  obtain h where h: "full h (root t)" using wf by (auto simp: wf234_iff)
  have "monotone_dir ?dir ?xs" by (rule monotone_loop_dir) (use mono in \<open>auto split: option.splits\<close>)
  from tsearch_outcome [OF h this, of 0]
  have out: "search_outcome ?dir 0 ?xs (tsearch ?dir 0 (root t))" .
  have loop: "Option.bind (search234_start (root t)) (findrel_loop ?q ?p ?r) =
      Some (tsearch ?dir 0 (root t))"
    by (rule findrel_start [OF pr])
  have idx: "index234 t j = at ?xs j" for j by (rule index234_at [OF wf])
  show ?thesis
  proof (cases "tsearch ?dir 0 (root t)")
    case (Inl z)
    obtain x i where z: "z = (x, i)" by (cases z)
    with Inl out have x: "?dir x = 0" "at ?xs i = Some x" by (auto simp: search_outcome_def)
    have "is_match ?q x \<and> in_relation rel ?q x"
      using x(1) query by (cases rel; cases e) (auto simp: loop_dir_def is_match_def reldir_of_def Let_def split: if_splits)
    with x(2) have "rel_result rel ?q ?xs (Some (x, i))" by (simp add: rel_result_def)
    moreover have "findrelpos234_by t e cmp rel = Some (Some (x, i))"
      using loop Inl z query by (cases e) (auto simp: findrelpos234_by_def Let_def simp del: Option.bind_assoc)
    ultimately show ?thesis by blast
  next
    case (Inr i)
    with out obtain us vs where uv: "?xs = us @ vs" "i = int (length us)"
      "\<forall>x\<in>set us. ?dir x > 0" "\<forall>x\<in>set vs. ?dir x < 0" by (auto simp: search_outcome_def)
    have res: "findrelpos234_by t e cmp rel = Some (if rel = REL234_EQ then None else
        let k = (if ?r < 0 then i - 1 else i) in map_option (\<lambda>x. (x, k)) (at ?xs k))"
      using loop Inr query idx
      by (cases e) (auto simp: findrelpos234_by_def Let_def reldir_of_def simp del: Option.bind_assoc)
    have rel: "in_relation rel ?q x \<longleftrightarrow> (if ?r < 0 then ?dir x > 0 else ?r > 0 \<and> ?dir x < 0)"
      if "?dir x \<noteq> 0" for x
      using that query
      by (cases rel; cases e) (auto simp: loop_dir_def reldir_of_def Let_def split: if_splits)
    have nz: "?dir x \<noteq> 0" if "x \<in> set ?xs" for x using uv that by auto
    consider "?r < 0" | "?r > 0" | "?r = 0" by linarith
    then have "rel_result rel ?q ?xs (if rel = REL234_EQ then None else
        let k = (if ?r < 0 then i - 1 else i) in map_option (\<lambda>x. (x, k)) (at ?xs k))"
    proof cases
      case 1
      then have noteq: "rel \<noteq> REL234_EQ" by (auto simp: reldir_of_def)
      have R: "in_relation rel ?q x \<longleftrightarrow> ?dir x > 0" if "x \<in> set ?xs" for x
        using rel [OF nz [OF that]] 1 by simp
      show ?thesis
      proof (cases us rule: rev_cases)
        case Nil
        with uv R 1 noteq show ?thesis by (auto simp: rel_result_def)
      next
        case (snoc ws w)
        have "at ?xs (i - 1) = Some w" using uv snoc by (simp add: at_append)
        moreover have "in_relation rel ?q w" using uv snoc R by auto
        moreover have "j \<le> i - 1" if "at ?xs j = Some y" "in_relation rel ?q y" for j y
        proof -
          have "\<forall>x\<in>set vs. \<not> ?dir x > 0" using uv(4) by force
          with at_split_before [OF uv(1) [symmetric] that(1)] R [OF at_mem] that uv(2)
          show ?thesis by fastforce
        qed
        ultimately show ?thesis using 1 noteq by (auto simp: rel_result_def)
      qed
    next
      case 2
      then have noteq: "rel \<noteq> REL234_EQ" by (auto simp: reldir_of_def)
      have R: "in_relation rel ?q x \<longleftrightarrow> ?dir x < 0" if "x \<in> set ?xs" for x
        using rel [OF nz [OF that]] 2 by simp
      show ?thesis
      proof (cases vs)
        case Nil
        with uv R 2 noteq show ?thesis by (auto simp: rel_result_def)
      next
        case (Cons w ws)
        have "at ?xs i = Some w" using uv Cons by (simp add: at_append)
        moreover have "in_relation rel ?q w" using uv Cons R by auto
        moreover have "i \<le> j" if "at ?xs j = Some y" "in_relation rel ?q y" for j y
        proof -
          have "\<forall>x\<in>set us. \<not> ?dir x < 0" using uv(3) by force
          with at_split_after [OF uv(1) [symmetric] that(1)] R [OF at_mem] that uv(2)
          show ?thesis by fastforce
        qed
        ultimately show ?thesis using 2 noteq by (auto simp: rel_result_def)
      qed
    next
      case 3
      then have "rel = REL234_EQ" by (cases rel) (auto simp: reldir_of_def)
      with rel 3 nz show ?thesis by (auto simp: rel_result_def)
    qed
    with res show ?thesis by blast
  qed
qed

end
