(* ===== verification/Tree_Insert.thy ===== *)
theory Tree_Insert
  imports Counted_Tree
begin

text \<open>
  Insertion into a counted 2-3-4 tree: \<^verbatim>\<open>add234_internal\<close> and its callers \<^verbatim>\<open>add234\<close>
  and \<^verbatim>\<open>addpos234\<close>.
\<close>

section \<open>Inserting into one node\<close>

text \<open>
  What is left to do after a node has taken an element: nothing (\<open>Done\<close>, the \<^verbatim>\<open>break\<close> of the C
  loop), or a split to be inserted one level up (\<open>Split left lcount e right rcount\<close>). The descent
  can end early: an equal element exists (\<open>Exists\<close>), or the index was found out of range
  (\<open>OutOfRange\<close>, where the code returns a null pointer), both before anything is changed.
  \<open>Undefined\<close> stands for a child number the code takes from the caller's index without
  a check and uses to index \<^verbatim>\<open>kids[4]\<close> out of bounds.
\<close>

datatype 'a addres =
    Done "'a node234"
  | Split "'a node234" int 'a "'a node234" int
  | Exists 'a
  | OutOfRange
  | Undefined

fun insert_at :: "'a node234 \<Rightarrow> int \<Rightarrow> 'a node234 \<Rightarrow> int \<Rightarrow> 'a \<Rightarrow> 'a node234 \<Rightarrow> int \<Rightarrow> 'a addres" where
  "insert_at Null np left lcount e right rcount = Undefined"
| "insert_at (N2 k0 c0 e0 k1 c1) np left lcount e right rcount =
     (if np = 0 then Done (N3 left lcount e right rcount e0 k1 c1)
      else Done (N3 k0 c0 e0 left lcount e right rcount))"
| "insert_at (N3 k0 c0 e0 k1 c1 e1 k2 c2) np left lcount e right rcount =
     (if np = 0 then Done (N4 left lcount e right rcount e0 k1 c1 e1 k2 c2)
      else if np = 1 then Done (N4 k0 c0 e0 left lcount e right rcount e1 k2 c2)
      else Done (N4 k0 c0 e0 k1 c1 e1 left lcount e right rcount))"
| "insert_at (N4 k0 c0 e0 k1 c1 e1 k2 c2 e2 k3 c3) np left lcount e right rcount =
     (let (m, e', n) =
        (if np = 0 then
           (N3 left lcount e right rcount e0 k1 c1, e1, N2 k2 c2 e2 k3 c3)
         else if np = 1 then
           (N3 k0 c0 e0 left lcount e right rcount, e1, N2 k2 c2 e2 k3 c3)
         else if np = 2 then
           (N3 k0 c0 e0 k1 c1 e1 left lcount, e, N2 right rcount e2 k3 c3)
         else
           (N3 k0 c0 e0 k1 c1 e1 k2 c2, e2, N2 left lcount e right rcount))
      in Split m (countnode234 m) e' n (countnode234 n))"

text \<open>
  Where to go at one node. By index in a leaf the child number is the index itself; in an
  internal node the counts decide. Without an index the comparison function decides; \<open>Inl\<close> is a
  return from the middle of the descent.
\<close>

definition child_by_index :: "'a node234 \<Rightarrow> int \<Rightarrow> 'a addres + int \<times> int" where
  "child_by_index n index =
     (if kid n 0 = Null then Inr (index, index)
      else if index \<le> cnt n 0 then Inr (0, index)
      else let index = index - (cnt n 0 + 1) in
      if index \<le> cnt n 1 then Inr (1, index)
      else let index = index - (cnt n 1 + 1) in
      if index \<le> cnt n 2 then Inr (2, index)
      else let index = index - (cnt n 2 + 1) in
      if index \<le> cnt n 3 then Inr (3, index)
      else Inl OutOfRange)"

definition child_by_cmp :: "('a \<Rightarrow> int) \<Rightarrow> 'a node234 \<Rightarrow> 'a addres + int" where
  "child_by_cmp c n =
     (case elm n 0 of None \<Rightarrow> Inl Undefined | Some e0 \<Rightarrow>
      if c e0 < 0 then Inr 0 else if c e0 = 0 then Inl (Exists e0)
      else (case elm n 1 of None \<Rightarrow> Inr 1 | Some e1 \<Rightarrow>
      if c e1 < 0 then Inr 1 else if c e1 = 0 then Inl (Exists e1)
      else (case elm n 2 of None \<Rightarrow> Inr 2 | Some e2 \<Rightarrow>
      if c e2 < 0 then Inr 2 else if c e2 = 0 then Inl (Exists e2)
      else Inr 3)))"

text \<open>
  The descent, and on the way back the insertion of splits and the update of the counts. The
  index is negative for an insertion by comparison, as in the code.
\<close>

definition add_up :: "'a node234 \<Rightarrow> int \<Rightarrow> 'a addres \<Rightarrow> 'a addres" where
  "add_up n np r =
     (case r of
        Done k \<Rightarrow> Done (set_kid n np k (countnode234 k))
      | Split left lcount e right rcount \<Rightarrow> insert_at n np left lcount e right rcount
      | _ \<Rightarrow> r)"

fun add_node :: "('a \<Rightarrow> 'a \<Rightarrow> int) option \<Rightarrow> 'a node234 \<Rightarrow> 'a \<Rightarrow> int \<Rightarrow> 'a addres" where
  "add_node cmp n e index =
     (if n = Null then Undefined
      else
        case (if index \<ge> 0 then child_by_index n index
              else case cmp of
                     None \<Rightarrow> Inl Undefined
                   | Some c \<Rightarrow> map_sum id (\<lambda>np. (np, index)) (child_by_cmp (c e) n)) of
          Inl r \<Rightarrow> r
        | Inr (np, index) \<Rightarrow>
            if np > 3 then Undefined
            else if kid n np = Null then insert_at n np Null 0 e Null 0
            else add_up n np (add_node cmp (kid n np) e index))"

declare add_node.simps [simp del]

text \<open>
  \<^verbatim>\<open>add234_internal\<close> returns the element that is now in the tree (or null); the model pairs it
  with the tree. The outer \<open>None\<close> is the undefined case.
\<close>

definition add234_internal :: "'a tree234 \<Rightarrow> 'a \<Rightarrow> int \<Rightarrow> ('a option \<times> 'a tree234) option" where
  "add234_internal t e index =
     (if root t = Null then Some (Some e, t\<lparr>root := N2 Null 0 e Null 0\<rparr>)
      else
        case add_node (cmpfn t) (root t) e index of
          Done r \<Rightarrow> Some (Some e, t\<lparr>root := r\<rparr>)
        | Split left lcount e' right rcount \<Rightarrow>
            Some (Some e, t\<lparr>root := N2 left lcount e' right rcount\<rparr>)
        | Exists x \<Rightarrow> Some (Some x, t)
        | OutOfRange \<Rightarrow> Some (None, t)
        | Undefined \<Rightarrow> None)"

definition add234 :: "'a tree234 \<Rightarrow> 'a \<Rightarrow> ('a option \<times> 'a tree234) option" where
  "add234 t e = (if cmpfn t = None then Some (None, t) else add234_internal t e (-1))"

definition addpos234 :: "'a tree234 \<Rightarrow> 'a \<Rightarrow> int \<Rightarrow> ('a option \<times> 'a tree234) option" where
  "addpos234 t e index =
     (if index < 0 \<or> cmpfn t \<noteq> None then Some (None, t) else add234_internal t e index)"

section \<open>Correctness\<close>

fun res_inorder :: "'a addres \<Rightarrow> 'a list" where
  "res_inorder (Done k) = inorder k"
| "res_inorder (Split l lc e r rc) = inorder l @ e # inorder r"
| "res_inorder _ = []"

fun res_full :: "nat \<Rightarrow> 'a addres \<Rightarrow> bool" where
  "res_full h (Done k) \<longleftrightarrow> full h k"
| "res_full h (Split l lc e r rc) \<longleftrightarrow> full h l \<and> full h r \<and> lc = size234 l \<and> rc = size234 r"
| "res_full h _ \<longleftrightarrow> False"

lemma insert_at_full:
  assumes "full (Suc g) n" and "0 \<le> np" and "np \<le> elements234 n"
    and "full g l" and "full g r" and "lc = size234 l" and "rc = size234 r"
  shows "res_full (Suc g) (insert_at n np l lc e r rc) \<and>
         res_inorder (insert_at n np l lc e r rc) =
           before n np @ (inorder l @ e # inorder r) @ after n np"
  using assms by (cases n) auto

lemma add_up_full:
  assumes "full (Suc g) n" and "0 \<le> np" and "np \<le> elements234 n" and "res_full g res"
  shows "res_full (Suc g) (add_up n np res) \<and>
         res_inorder (add_up n np res) = before n np @ res_inorder res @ after n np"
proof (cases res)
  case (Done k)
  with assms set_kid_full [OF assms(1-3), of k] countnode_full [of g k]
  show ?thesis by (simp add: add_up_def)
next
  case (Split l lc e r rc)
  with assms insert_at_full [OF assms(1-3), of l r lc rc e] show ?thesis by (simp add: add_up_def)
qed (use assms in \<open>simp_all\<close>)

text \<open>
  The descent by index goes to a child that the index falls into; in a leaf the child number is
  the index.
\<close>

lemma child_by_index_internal:
  assumes "full (Suc (Suc g)) n" and "0 \<le> index" and "index \<le> size234 n"
  shows "\<exists>np index'. child_by_index n index = Inr (np, index') \<and> 0 \<le> np \<and> np \<le> elements234 n \<and>
           index = int (length (before n np)) + index' \<and> 0 \<le> index' \<and> index' \<le> size234 (kid n np)"
proof -
  define P where "P np \<longleftrightarrow> np \<le> elements234 n \<and>
      child_by_index n index = Inr (np, index - int (length (before n np))) \<and>
      int (length (before n np)) \<le> index \<and>
      index - int (length (before n np)) \<le> size234 (kid n np)" for np
  have "P 0 \<or> P 1 \<or> P 2 \<or> P 3"
    using assms by (cases n) (auto simp: P_def child_by_index_def Let_def algebra_simps)
  then obtain np where "P np" "0 \<le> np" by force
  then show ?thesis
    by (intro exI [of _ np] exI [of _ "index - int (length (before n np))"]) (simp add: P_def)
qed

lemma child_by_index_leaf:
  assumes "full (Suc 0) n" and "0 \<le> index" and "index \<le> size234 n"
  shows "child_by_index n index = Inr (index, index) \<and> index \<le> elements234 n \<and>
         int (length (before n index)) = index"
  using assms by (cases n) (auto simp: child_by_index_def)

lemma take_drop_parts:
  "\<lbrakk>xs = us @ vs; i = int (length us)\<rbrakk> \<Longrightarrow> take (nat i) xs = us \<and> drop (nat i) xs = vs"
  by simp

lemma add_node_index:
  "\<lbrakk>full (Suc g) n; 0 \<le> index; index \<le> size234 n\<rbrakk>
    \<Longrightarrow> res_full (Suc g) (add_node cmp n e index) \<and>
        res_inorder (add_node cmp n e index) =
          take (nat index) (inorder n) @ e # drop (nat index) (inorder n)"
proof (induction g arbitrary: n index)
  case 0
  from child_by_index_leaf [OF 0] have c: "child_by_index n index = Inr (index, index)"
    "index \<le> elements234 n" "int (length (before n index)) = index" by auto
  have Null: "kid n index = Null" using full_kid [OF 0(1,2) c(2)] by simp
  have "add_node cmp n e index = insert_at n index Null 0 e Null 0"
    using 0 c Null elements234_bounds [of n] by (subst add_node.simps) auto
  with insert_at_full [OF 0(1,2) c(2), of Null Null 0 0 e]
  have "res_full (Suc 0) (add_node cmp n e index)"
    "res_inorder (add_node cmp n e index) = before n index @ e # after n index" by auto
  moreover have "inorder n = before n index @ after n index"
    using inorder_kid [OF 0(2) c(2)] Null by simp
  ultimately show ?case using take_drop_parts [of "inorder n"] c(3) by simp
next
  case (Suc g)
  from child_by_index_internal [OF Suc.prems] obtain np i where
    c: "child_by_index n index = Inr (np, i)" and np: "0 \<le> np" "np \<le> elements234 n" and
    i: "index = int (length (before n np)) + i" "0 \<le> i" "i \<le> size234 (kid n np)" by auto
  have k: "full (Suc g) (kid n np)" by (rule full_kid [OF Suc.prems(1) np])
  then have "add_node cmp n e index = add_up n np (add_node cmp (kid n np) e i)"
    using Suc.prems c np elements234_bounds [of n] by (subst add_node.simps) auto
  moreover note add_up_full [OF Suc.prems(1) np, of "add_node cmp (kid n np) e i"]
    Suc.IH [OF k i(2,3)] inorder_kid [OF np]
  ultimately show ?case using i by (simp add: nat_add_distrib)
qed

lemma cmp_before:
  "\<lbrakk>monotone_dir c (inorder n); elm n i = Some x; c x > 0\<rbrakk> \<Longrightarrow> \<forall>y\<in>set (before n (i + 1)). c y > 0"
  using monotone_dir_right [of c "before n i @ inorder (kid n i)" x] elm_split [of n i x] by auto

lemma cmp_after:
  "\<lbrakk>monotone_dir c (inorder n); elm n i = Some x; c x < 0\<rbrakk> \<Longrightarrow> \<forall>y\<in>set (after n i). c y < 0"
  using monotone_dir_left [of c "before n i @ inorder (kid n i)" x] elm_split [of n i x] by auto

text \<open>The descent by comparison, along which the comparison function is monotone.\<close>

lemma child_by_cmp_correct:
  assumes "full (Suc g) n" and "monotone_dir c (inorder n)"
  shows "case child_by_cmp c n of
           Inl r \<Rightarrow> \<exists>x\<in>set (inorder n). c x = 0 \<and> r = Exists x
         | Inr np \<Rightarrow> 0 \<le> np \<and> np \<le> elements234 n \<and>
             (\<forall>x\<in>set (before n np). c x > 0) \<and> (\<forall>x\<in>set (after n np). c x < 0)"
proof -
  from assms(1) have nn: "n \<noteq> Null" by auto
  then obtain e0 where e0: "elm n 0 = Some e0" by (cases n) auto
  note before = cmp_before [OF assms(2)] and after = cmp_after [OF assms(2)]
  show ?thesis
  proof (cases "c e0 > 0")
    case False
    with e0 after [OF e0] elm_mem [OF e0] elm_Some [OF e0] show ?thesis
      by (auto simp: child_by_cmp_def)
  next
    case pos0: True
    note b1 = before [OF e0 this, simplified]
    show ?thesis
    proof (cases "elm n 1")
      case None
      with pos0 e0 b1 elm_None [OF nn _ None] elm_Some [OF e0] show ?thesis
        by (simp add: child_by_cmp_def)
    next
      case e1: (Some e1)
      show ?thesis
      proof (cases "c e1 > 0")
        case False
        with pos0 e0 e1 b1 after [OF e1] elm_mem [OF e1] elm_Some [OF e1] show ?thesis
          by (auto simp: child_by_cmp_def)
      next
        case pos1: True
        note b2 = before [OF e1 this, simplified]
        show ?thesis
        proof (cases "elm n 2")
          case None
          with pos0 pos1 e0 e1 b2 elm_None [OF nn _ None] elm_Some [OF e1] show ?thesis
            by (simp add: child_by_cmp_def)
        next
          case e2: (Some e2)
          have "after n 3 = []" using e2 by (cases n) auto
          with pos0 pos1 e0 e1 e2 b2 before [OF e2] after [OF e2] elm_mem [OF e2] elm_Some [OF e2]
          show ?thesis by (auto simp: child_by_cmp_def)
        qed
      qed
    qed
  qed
qed

lemma add_node_cmp:
  assumes "full (Suc g) n" and "monotone_dir (c e) (inorder n)"
  shows "(\<exists>x\<in>set (inorder n). c e x = 0 \<and> add_node (Some c) n e (-1) = Exists x) \<or>
         (\<exists>us vs. inorder n = us @ vs \<and> (\<forall>x\<in>set us. c e x > 0) \<and> (\<forall>x\<in>set vs. c e x < 0) \<and>
            res_full (Suc g) (add_node (Some c) n e (-1)) \<and>
            res_inorder (add_node (Some c) n e (-1)) = us @ e # vs)"
  using assms
proof (induction g arbitrary: n)
  case (0 n)
  show ?case
  proof (cases "child_by_cmp (c e) n")
    case (Inl r)
    with child_by_cmp_correct [OF 0] obtain x where "x \<in> set (inorder n)" "c e x = 0" "r = Exists x"
      by auto
    with Inl 0 show ?thesis by (subst (1) add_node.simps) auto
  next
    case (Inr np)
    with child_by_cmp_correct [OF 0] have np: "0 \<le> np" "np \<le> elements234 n"
      "\<forall>x\<in>set (before n np). c e x > 0" "\<forall>x\<in>set (after n np). c e x < 0" by auto
    have Null: "kid n np = Null" using full_kid [OF 0(1) np(1,2)] by simp
    have "add_node (Some c) n e (-1) = insert_at n np Null 0 e Null 0"
      using 0 Inr Null np elements234_bounds [of n] by (subst add_node.simps) auto
    with insert_at_full [OF 0(1) np(1,2), of Null Null 0 0 e] inorder_kid [OF np(1,2)] Null np(3,4)
    show ?thesis by (intro disjI2 exI [of _ "before n np"] exI [of _ "after n np"]) simp
  qed
next
  case (Suc g n)
  show ?case
  proof (cases "child_by_cmp (c e) n")
    case (Inl r)
    with child_by_cmp_correct [OF Suc.prems] obtain x where "x \<in> set (inorder n)" "c e x = 0"
      "r = Exists x" by auto
    with Inl Suc.prems show ?thesis by (subst (1) add_node.simps) auto
  next
    case (Inr np)
    with child_by_cmp_correct [OF Suc.prems] have np: "0 \<le> np" "np \<le> elements234 n"
      "\<forall>x\<in>set (before n np). c e x > 0" "\<forall>x\<in>set (after n np). c e x < 0" by auto
    have k: "full (Suc g) (kid n np)" by (rule full_kid [OF Suc.prems(1) np(1,2)])
    have mk: "monotone_dir (c e) (inorder (kid n np))"
      using Suc.prems(2) inorder_kid [OF np(1,2)] by (simp add: monotone_dir_def sorted_wrt_append)
    let ?r = "add_node (Some c) (kid n np) e (-1)"
    have eq: "add_node (Some c) n e (-1) = add_up n np ?r"
      using Suc.prems Inr k np elements234_bounds [of n] by (subst add_node.simps) auto
    from Suc.IH [OF k mk] show ?thesis
    proof (elim disjE exE bexE conjE)
      fix x assume "x \<in> set (inorder (kid n np))" "c e x = 0" "?r = Exists x"
      with eq inorder_kid [OF np(1,2)] show ?thesis by (auto simp: add_up_def)
    next
      fix us vs
      assume "inorder (kid n np) = us @ vs" "\<forall>x\<in>set us. c e x > 0" "\<forall>x\<in>set vs. c e x < 0"
        and "res_full (Suc g) ?r" "res_inorder ?r = us @ e # vs"
      with eq add_up_full [OF Suc.prems(1) np(1,2), of ?r] inorder_kid [OF np(1,2)] np(3,4)
      show ?thesis
        by (intro disjI2 exI [of _ "before n np @ us"] exI [of _ "vs @ after n np"]) auto
    qed
  qed
qed

section \<open>The whole tree\<close>

lemma add_internal_Done:
  assumes "res_full h (add_node (cmpfn t) (root t) e index)" and "root t \<noteq> Null"
  shows "\<exists>t'. add234_internal t e index = Some (Some e, t') \<and> cmpfn t' = cmpfn t \<and>
           wf234 (root t') \<and> inorder (root t') = res_inorder (add_node (cmpfn t) (root t) e index)"
proof (cases "add_node (cmpfn t) (root t) e index")
  case (Done r)
  with assms show ?thesis by (auto simp: add234_internal_def intro: full_imp_wf)
next
  case (Split l lc e' r rc)
  with assms have "full (Suc h) (N2 l lc e' r rc)" by simp
  then have "wf234 (N2 l lc e' r rc)" by (rule full_imp_wf)
  with Split assms show ?thesis by (simp add: add234_internal_def)
qed (use assms in simp_all)

text \<open>Insertion at an index of an unsorted tree.\<close>

theorem addpos234_correct:
  assumes "wf234 (root t)" and "cmpfn t = None"
    and "0 \<le> index" and "index \<le> int (length (inorder (root t)))"
  shows "\<exists>t'. addpos234 t e index = Some (Some e, t') \<and> cmpfn t' = None \<and> wf234 (root t') \<and>
           inorder (root t') =
             take (nat index) (inorder (root t)) @ e # drop (nat index) (inorder (root t))"
proof (cases "root t = Null")
  case True
  have "wf234 (N2 Null 0 e Null 0)" by (rule full_imp_wf [of 1]) simp
  with True assms show ?thesis by (simp add: addpos234_def add234_internal_def)
next
  case False
  then obtain g where g: "full (Suc g) (root t)"
    using assms(1) by (metis full_0 not0_implies_Suc wf234_iff)
  from add_node_index [OF this assms(3,4), of "cmpfn t" e]
  have "res_full (Suc g) (add_node (cmpfn t) (root t) e index)" by simp
  from add_internal_Done [OF this False] add_node_index [OF g assms(3,4), of "cmpfn t" e] assms
  show ?thesis by (auto simp: addpos234_def)
qed

text \<open>Insertion into a sorted tree: an equal element is reported and nothing changes.\<close>

theorem add234_correct:
  assumes "wf234 (root t)" and "cmpfn t = Some c" and "monotone_dir (c e) (inorder (root t))"
  shows "(\<exists>x\<in>set (inorder (root t)). c e x = 0 \<and> add234 t e = Some (Some x, t)) \<or>
         (\<exists>us vs t'. inorder (root t) = us @ vs \<and> (\<forall>x\<in>set us. c e x > 0) \<and>
            (\<forall>x\<in>set vs. c e x < 0) \<and> add234 t e = Some (Some e, t') \<and> cmpfn t' = Some c \<and>
            wf234 (root t') \<and> inorder (root t') = us @ e # vs)"
proof (cases "root t = Null")
  case True
  have "wf234 (N2 Null 0 e Null 0)" by (rule full_imp_wf [of 1]) simp
  with True assms show ?thesis by (simp add: add234_def add234_internal_def)
next
  case False
  then obtain g where g: "full (Suc g) (root t)"
    using assms(1) by (metis full_0 not0_implies_Suc wf234_iff)
  from add_node_cmp [of g "root t" c e, OF g assms(3)] show ?thesis
  proof (elim disjE exE bexE conjE)
    fix x assume "x \<in> set (inorder (root t))" "c e x = 0" "add_node (Some c) (root t) e (-1) = Exists x"
    with False assms show ?thesis by (auto simp: add234_def add234_internal_def)
  next
    fix us vs
    assume a: "inorder (root t) = us @ vs" "\<forall>x\<in>set us. c e x > 0" "\<forall>x\<in>set vs. c e x < 0"
      "res_full (Suc g) (add_node (Some c) (root t) e (-1))"
      "res_inorder (add_node (Some c) (root t) e (-1)) = us @ e # vs"
    with add_internal_Done [of "Suc g" t e "-1"] False assms(2)
    obtain t' where "add234 t e = Some (Some e, t')" "cmpfn t' = Some c" "wf234 (root t')"
      "inorder (root t') = us @ e # vs" by (auto simp: add234_def)
    with a(1-3) show ?thesis by blast
  qed
qed

end
