(* ===== verification/Tree_Delete.thy ===== *)
theory Tree_Delete
  imports Counted_Tree
begin

text \<open>
  Deletion by index from a counted 2-3-4 tree: \<^verbatim>\<open>delpos234_internal\<close> and its caller
  \<^verbatim>\<open>delpos234\<close>. The descent repairs every one-element child before it enters it (cases 3a
  and 3b of the code's comments); at the element, cases 1, 2a, 2b and 2c. The C code's outer
  loop restarts below the node that holds the element; here that is the recursive call.
\<close>

section \<open>The repairs\<close>

text \<open>
  Case 3a, left: \<open>sub\<close> has one element, its left sibling more. The last kid of the sibling and
  the separating element move into \<open>sub\<close>; the sibling's last element becomes the separator.
\<close>

fun borrow_left :: "'a node234 \<Rightarrow> 'a \<Rightarrow> 'a node234 \<Rightarrow> ('a node234 \<times> 'a \<times> 'a node234) option" where
  "borrow_left (N3 a0 d0 f0 a1 d1 f1 a2 d2) e (N2 k0 c0 e0 k1 c1) =
     Some (N2 a0 d0 f0 a1 d1, f1, N3 a2 d2 e k0 c0 e0 k1 c1)"
| "borrow_left (N4 a0 d0 f0 a1 d1 f1 a2 d2 f2 a3 d3) e (N2 k0 c0 e0 k1 c1) =
     Some (N3 a0 d0 f0 a1 d1 f1 a2 d2, f2, N3 a3 d3 e k0 c0 e0 k1 c1)"
| "borrow_left _ _ _ = None"

text \<open>Case 3a, right.\<close>

fun borrow_right :: "'a node234 \<Rightarrow> 'a \<Rightarrow> 'a node234 \<Rightarrow> ('a node234 \<times> 'a \<times> 'a node234) option" where
  "borrow_right (N2 k0 c0 e0 k1 c1) e (N3 a0 d0 f0 a1 d1 f1 a2 d2) =
     Some (N3 k0 c0 e0 k1 c1 e a0 d0, f0, N2 a1 d1 f1 a2 d2)"
| "borrow_right (N2 k0 c0 e0 k1 c1) e (N4 a0 d0 f0 a1 d1 f1 a2 d2 f2 a3 d3) =
     Some (N3 k0 c0 e0 k1 c1 e a0 d0, f0, N3 a1 d1 f1 a2 d2 f2 a3 d3)"
| "borrow_right _ _ _ = None"

text \<open>Cases 3b and 2c: two one-element nodes and the element between them make a 4-node.\<close>

fun merge_kids :: "'a node234 \<Rightarrow> 'a \<Rightarrow> 'a node234 \<Rightarrow> 'a node234 option" where
  "merge_kids (N2 a0 d0 f0 a1 d1) e (N2 k0 c0 e0 k1 c1) =
     Some (N4 a0 d0 f0 a1 d1 e k0 c0 e0 k1 c1)"
| "merge_kids _ _ _ = None"

text \<open>
  Removing kid \<open>i\<close> and element \<open>i\<close> of a node after a merge has put their contents into kid
  \<open>i + 1\<close>: what is left, or \<open>None\<close> when a one-element node is left without elements.
\<close>

fun remove_slot :: "'a node234 \<Rightarrow> int \<Rightarrow> 'a node234 option" where
  "remove_slot (N3 k0 c0 e0 k1 c1 e1 k2 c2) i =
     Some (if i = 0 then N2 k1 c1 e1 k2 c2 else N2 k0 c0 e0 k2 c2)"
| "remove_slot (N4 k0 c0 e0 k1 c1 e1 k2 c2 e2 k3 c3) i =
     Some (if i = 0 then N3 k1 c1 e1 k2 c2 e2 k3 c3
           else if i = 1 then N3 k0 c0 e0 k2 c2 e2 k3 c3
           else N3 k0 c0 e0 k1 c1 e1 k3 c3)"
| "remove_slot _ _ = None"

text \<open>
  Where the descent stands after repairing child \<open>ki\<close> of \<open>n\<close>: the node, the child number and the
  index relative to the child, or the root replaced by the merged child (\<open>NewRoot\<close>).
\<close>

datatype 'a descent = Into "'a node234" int int | NewRoot "'a node234" int

definition merge_step :: "'a node234 \<Rightarrow> int \<Rightarrow> int \<Rightarrow> 'a descent option" where
  "merge_step n ki index =
     (let (ki, index) = (if ki > 0 then (ki - 1, index + cnt n (ki - 1) + 1) else (ki, index))
      in case elm n ki of None \<Rightarrow> None | Some e \<Rightarrow>
         (case merge_kids (kid n ki) e (kid n (ki + 1)) of None \<Rightarrow> None | Some sub \<Rightarrow>
           (case remove_slot (set_kid n (ki + 1) sub (countnode234 sub)) ki of
              None \<Rightarrow> Some (NewRoot sub index)
            | Some n' \<Rightarrow> Some (Into n' ki index))))"

definition repair :: "'a node234 \<Rightarrow> int \<Rightarrow> int \<Rightarrow> 'a descent option" where
  "repair n ki index =
     (let sub = kid n ki in
      if sub = Null then None
      else if elm sub 1 \<noteq> None then Some (Into n ki index)
      else if ki > 0 \<and> elm (kid n (ki - 1)) 1 \<noteq> None then
        (case elm n (ki - 1) of None \<Rightarrow> None | Some e \<Rightarrow>
          (case borrow_left (kid n (ki - 1)) e sub of None \<Rightarrow> None | Some (sib, e', sub) \<Rightarrow>
             let index = index + cnt n (ki - 1) - countnode234 sib
             in Some (Into (set_kid (set_elm (set_kid n ki sub (countnode234 sub)) (ki - 1) e')
                              (ki - 1) sib (countnode234 sib)) ki index)))
      else if ki < 3 \<and> elm (kid n (ki + 1)) 1 \<noteq> None then
        (case elm n ki of None \<Rightarrow> None | Some e \<Rightarrow>
          (case borrow_right sub e (kid n (ki + 1)) of None \<Rightarrow> None | Some (sub, e', sib) \<Rightarrow>
             Some (Into (set_kid (set_elm (set_kid n ki sub (countnode234 sub)) ki e')
                           (ki + 1) sib (countnode234 sib)) ki index)))
      else merge_step n ki index)"

section \<open>The descent\<close>

text \<open>\<open>Inl ei\<close>: the element is element \<open>ei\<close> of this node; \<open>Inr (ki, index)\<close>: it is below kid \<open>ki\<close>.\<close>

definition locate :: "'a node234 \<Rightarrow> int \<Rightarrow> int + int \<times> int" where
  "locate n index =
     (if index < cnt n 0 then Inr (0, index)
      else let index = index - (cnt n 0 + 1) in if index < 0 then Inl 0
      else if index < cnt n 1 then Inr (1, index)
      else let index = index - (cnt n 1 + 1) in if index < 0 then Inl 1
      else if index < cnt n 2 then Inr (2, index)
      else let index = index - (cnt n 2 + 1) in if index < 0 then Inl 2
      else Inr (3, index))"

text \<open>Case 1: an element of a leaf with more than one.\<close>

fun leaf_remove :: "'a node234 \<Rightarrow> int \<Rightarrow> 'a node234 option" where
  "leaf_remove (N3 k0 c0 e0 k1 c1 e1 k2 c2) ei =
     Some (if ei = 0 then N2 k0 c0 e1 k1 c1 else N2 k0 c0 e0 k1 c1)"
| "leaf_remove (N4 k0 c0 e0 k1 c1 e1 k2 c2 e2 k3 c3) ei =
     Some (if ei = 0 then N3 k0 c0 e1 k1 c1 e2 k2 c2
           else if ei = 1 then N3 k0 c0 e0 k1 c1 e2 k2 c2
           else N3 k0 c0 e0 k1 c1 e1 k2 c2)"
| "leaf_remove _ _ = None"

fun last_elem :: "'a node234 \<Rightarrow> 'a option" where
  "last_elem Null = None"
| "last_elem (N2 k0 c0 e0 k1 c1) = (if k0 = Null then Some e0 else last_elem k1)"
| "last_elem (N3 k0 c0 e0 k1 c1 e1 k2 c2) = (if k0 = Null then Some e1 else last_elem k2)"
| "last_elem (N4 k0 c0 e0 k1 c1 e1 k2 c2 e2 k3 c3) = (if k0 = Null then Some e2 else last_elem k3)"

fun first_elem :: "'a node234 \<Rightarrow> 'a option" where
  "first_elem Null = None"
| "first_elem (N2 k0 c0 e0 k1 c1) = (if k0 = Null then Some e0 else first_elem k0)"
| "first_elem (N3 k0 c0 e0 k1 c1 e1 k2 c2) = (if k0 = Null then Some e0 else first_elem k0)"
| "first_elem (N4 k0 c0 e0 k1 c1 e1 k2 c2 e2 k3 c3) = (if k0 = Null then Some e0 else first_elem k0)"

subsection \<open>Every step goes to a smaller tree\<close>

lemma size_kid_pair: "n \<noteq> Null \<Longrightarrow> size (kid n i) + size (kid n (i + 1)) < size n"
  by (cases n) auto

lemma size_kid_set_kid: "size (kid (set_kid n j k c) i) \<le> max (size (kid n i)) (size k)"
  by (cases n) auto

lemma size_kid_set_kid_same: "size (kid (set_kid n i k c) i) \<le> size k"
  by (cases n) auto

lemma kid_set_elm [simp]: "kid (set_elm n j e) i = kid n i"
  by (cases n) auto

lemma size_remove_slot: "remove_slot n i = Some n' \<Longrightarrow> size (kid n' i) \<le> size (kid n (i + 1))"
  by (cases n) auto

lemma size_borrow_left:
  "borrow_left a e s = Some (a', e', s') \<Longrightarrow> size a' + size s' \<le> size a + size s"
  by (induction a e s rule: borrow_left.induct) auto

lemma size_borrow_right:
  "borrow_right s e a = Some (s', e', a') \<Longrightarrow> size s' + size a' \<le> size s + size a"
  by (induction s e a rule: borrow_right.induct) auto

lemma size_merge_kids: "merge_kids a e s = Some m \<Longrightarrow> size m \<le> size a + size s"
  by (induction a e s rule: merge_kids.induct) auto

fun descent_size :: "'a descent \<Rightarrow> nat" where
  "descent_size (Into n ki index) = size (kid n ki)"
| "descent_size (NewRoot sub index) = size sub"

lemma size_merge_step:
  assumes "merge_step n ki index = Some d" and "n \<noteq> Null"
  shows "descent_size d < size n"
proof -
  let ?ki = "if ki > 0 then ki - 1 else ki"
  have sub: "size sub < size n" if "merge_kids (kid n ?ki) e (kid n (?ki + 1)) = Some sub" for e sub
    using size_merge_kids [OF that] size_kid_pair [OF assms(2), of ?ki] by simp
  have "size (kid n' ?ki) < size n"
    if "remove_slot (set_kid n (?ki + 1) sub c) ?ki = Some n'" "size sub < size n" for n' sub c
    using size_remove_slot [OF that(1)] size_kid_set_kid_same [of n "?ki + 1" sub] that(2)
    by (meson le_less_trans le_trans)
  with assms(1) sub show ?thesis
    by (auto simp: merge_step_def Let_def split: option.splits if_splits)
qed

lemma size_repair:
  assumes "repair n ki index = Some d" and "n \<noteq> Null"
  shows "descent_size d < size n"
proof -
  have pair: "size (kid n (ki - 1)) + size (kid n ki) < size n"
    "size (kid n ki) + size (kid n (ki + 1)) < size n"
    using size_kid_pair [OF assms(2), of "ki - 1"] size_kid_pair [OF assms(2), of ki] by simp_all
  have L: "size (kid (set_kid (set_elm (set_kid n ki sub c) j e') l sib c') ki) < size n"
    if "size sub < size n" "size sib < size n" for sub sib c c' e' j l
    using that size_kid_set_kid [of "set_elm (set_kid n ki sub c) j e'" l sib c' ki]
      size_kid_set_kid_same [of n ki sub c] by fastforce
  let ?rich = "elm (kid n ki) 1 \<noteq> None" and ?left = "ki > 0 \<and> elm (kid n (ki - 1)) 1 \<noteq> None"
    and ?right = "ki < 3 \<and> elm (kid n (ki + 1)) 1 \<noteq> None"
  consider (rich) ?rich | (left) "\<not> ?rich" ?left | (right) "\<not> ?rich" "\<not> ?left" ?right
    | (merge) "\<not> ?rich" "\<not> ?left" "\<not> ?right" by blast
  then show ?thesis
  proof cases
    case rich
    with assms show ?thesis by (auto simp: repair_def Let_def intro: size_kid split: if_splits)
  next
    case left
    with assms obtain e sib e' sub where b: "borrow_left (kid n (ki - 1)) e (kid n ki) = Some (sib, e', sub)"
      and d: "d = Into (set_kid (set_elm (set_kid n ki sub (countnode234 sub)) (ki - 1) e')
              (ki - 1) sib (countnode234 sib)) ki (index + cnt n (ki - 1) - countnode234 sib)"
      unfolding repair_def Let_def by (auto split: option.splits if_splits)
    from size_borrow_left [OF b] pair have "size sub < size n" "size sib < size n" by simp_all
    with d show ?thesis by (auto intro: L)
  next
    case right
    with assms obtain e sib e' sub where b: "borrow_right (kid n ki) e (kid n (ki + 1)) = Some (sub, e', sib)"
      and d: "d = Into (set_kid (set_elm (set_kid n ki sub (countnode234 sub)) ki e')
              (ki + 1) sib (countnode234 sib)) ki index"
      unfolding repair_def Let_def by (auto split: option.splits if_splits)
    from size_borrow_right [OF b] pair have "size sub < size n" "size sib < size n" by simp_all
    with d show ?thesis by (auto intro: L)
  next
    case merge
    with assms(1) have "merge_step n ki index = Some d"
      unfolding repair_def Let_def by (auto split: if_splits)
    with assms(2) show ?thesis by (blast intro: size_merge_step)
  qed
qed

section \<open>Deletion\<close>

lemma size_merged: "\<lbrakk>merge_kids (kid n i) x (kid n (i + 1)) = Some a; n \<noteq> Null\<rbrakk> \<Longrightarrow> size a < size n"
  using size_merge_kids size_kid_pair by (meson le_less_trans)

text \<open>
  The result pairs the deleted element with the new subtree; \<open>None\<close> where the code would follow a
  null pointer, or would replace the root of the tree while working below it (\<open>is_root\<close> is
  \<^verbatim>\<open>n->parent == NULL\<close>).
\<close>

function del_node :: "bool \<Rightarrow> 'a node234 \<Rightarrow> int \<Rightarrow> ('a \<times> 'a node234) option" where
  "del_node is_root n index =
     (if n = Null then None
      else case locate n index of
        Inr (ki, index) \<Rightarrow>
          (case repair n ki index of
             None \<Rightarrow> None
           | Some (Into n' ki' index') \<Rightarrow>
               map_option (\<lambda>(x, k). (x, set_kid n' ki' k (cnt n' ki' - 1)))
                 (del_node False (kid n' ki') index')
           | Some (NewRoot sub index') \<Rightarrow> if is_root then del_node True sub index' else None)
      | Inl ei \<Rightarrow>
          (case elm n ei of None \<Rightarrow> None | Some x \<Rightarrow>
             if is_root \<and> elm n 1 = None \<and> kid n 0 = Null then Some (x, Null)
             else if kid n 0 = Null \<and> elm n 1 \<noteq> None then map_option (Pair x) (leaf_remove n ei)
             else if elm (kid n ei) 1 \<noteq> None then
               (case last_elem (kid n ei) of None \<Rightarrow> None | Some target \<Rightarrow>
                  map_option (\<lambda>(_, k). (x, set_kid (set_elm n ei target) ei k (cnt n ei - 1)))
                    (del_node False (kid n ei) (cnt n ei - 1)))
             else if elm (kid n (ei + 1)) 1 \<noteq> None then
               (case first_elem (kid n (ei + 1)) of None \<Rightarrow> None | Some target \<Rightarrow>
                  map_option (\<lambda>(_, k). (x, set_kid (set_elm n ei target) (ei + 1) k (cnt n (ei + 1) - 1)))
                    (del_node False (kid n (ei + 1)) 0))
             else
               (case merge_kids (kid n ei) x (kid n (ei + 1)) of None \<Rightarrow> None | Some a \<Rightarrow>
                  (case remove_slot (set_kid n (ei + 1) a (countnode234 a)) ei of
                     Some n' \<Rightarrow>
                       map_option (\<lambda>(_, k). (x, set_kid n' ei k (cnt n' ei - 1)))
                         (del_node False a (cnt a 0 + cnt a 1 + 1))
                   | None \<Rightarrow>
                       if is_root then map_option (\<lambda>(_, k). (x, k)) (del_node True a (cnt a 0 + cnt a 1 + 1))
                       else None))))"
  by pat_completeness auto

termination
  by (relation "measure (\<lambda>(is_root, n, index). size n)")
    (auto dest: size_repair intro: size_kid size_merged)

declare del_node.simps [simp del]

definition delpos234_internal :: "'a tree234 \<Rightarrow> int \<Rightarrow> ('a option \<times> 'a tree234) option" where
  "delpos234_internal t index =
     map_option (\<lambda>(x, r). (Some x, t\<lparr>root := r\<rparr>)) (del_node True (root t) index)"

definition delpos234 :: "'a tree234 \<Rightarrow> int \<Rightarrow> ('a option \<times> 'a tree234) option" where
  "delpos234 t index =
     (if index < 0 \<or> index \<ge> countnode234 (root t) then Some (None, t)
      else delpos234_internal t index)"

section \<open>Correctness of the repairs\<close>

lemma elm_1_iff: "n \<noteq> Null \<Longrightarrow> elm n 1 = None \<longleftrightarrow> (\<exists>k0 c0 e0 k1 c1. n = N2 k0 c0 e0 k1 c1)"
  by (cases n) auto

lemma borrow_left_correct:
  assumes "full (Suc g) a" and "full (Suc g) s" and "elm a 1 \<noteq> None" and "elm s 1 = None"
  shows "\<exists>a' e' s'. borrow_left a e s = Some (a', e', s') \<and> full (Suc g) a' \<and> full (Suc g) s' \<and>
           elm s' 1 \<noteq> None \<and> inorder a @ e # inorder s = inorder a' @ e' # inorder s' \<and>
           length (inorder a') \<le> length (inorder a)"
  using assms by (cases a; cases s) auto

lemma borrow_right_correct:
  assumes "full (Suc g) a" and "full (Suc g) s" and "elm a 1 \<noteq> None" and "elm s 1 = None"
  shows "\<exists>s' e' a'. borrow_right s e a = Some (s', e', a') \<and> full (Suc g) a' \<and> full (Suc g) s' \<and>
           elm s' 1 \<noteq> None \<and> inorder s @ e # inorder a = inorder s' @ e' # inorder a' \<and>
           length (inorder s) \<le> length (inorder s')"
  using assms by (cases a; cases s) auto

lemma merge_kids_correct:
  assumes "full (Suc g) a" and "full (Suc g) s" and "elm a 1 = None" and "elm s 1 = None"
  shows "\<exists>m. merge_kids a e s = Some m \<and> full (Suc g) m \<and> elm m 1 \<noteq> None \<and>
           inorder m = inorder a @ e # inorder s \<and> cnt m 0 + cnt m 1 + 1 = size234 a"
  using assms by (cases a; cases s) auto

text \<open>Replacing two neighbouring kids and the element between them by the same list.\<close>

lemma replace_pair_left:
  assumes "full (Suc h) n" and "0 \<le> i" and "i + 1 \<le> elements234 n" and "elm n i = Some e"
    and "full h a" and "full h s" and "c = size234 a" and "d = size234 s"
    and "inorder (kid n i) @ e # inorder (kid n (i + 1)) = inorder a @ e' # inorder s"
  defines "m \<equiv> set_kid (set_elm (set_kid n (i + 1) s d) i e') i a c"
  shows "full (Suc h) m \<and> inorder m = inorder n \<and> elements234 m = elements234 n \<and>
         kid m (i + 1) = s \<and> before m (i + 1) = before n i @ inorder a @ [e']"
proof -
  have "inorder n = before n i @ (inorder (kid n i) @ e # inorder (kid n (i + 1))) @ after n (i + 1)"
    using elm_split [OF assms(4)] by simp
  also have "\<dots> = before n i @ (inorder a @ e' # inorder s) @ after n (i + 1)"
    using assms(9) by simp
  finally show ?thesis
    using assms(1-8) unfolding m_def by (cases n) (auto split: if_splits)
qed

lemma replace_pair_right:
  assumes "full (Suc h) n" and "0 \<le> i" and "i + 1 \<le> elements234 n" and "elm n i = Some e"
    and "full h a" and "full h s" and "c = size234 s" and "d = size234 a"
    and "inorder (kid n i) @ e # inorder (kid n (i + 1)) = inorder s @ e' # inorder a"
  defines "m \<equiv> set_kid (set_elm (set_kid n i s c) i e') (i + 1) a d"
  shows "full (Suc h) m \<and> inorder m = inorder n \<and> elements234 m = elements234 n \<and>
         kid m i = s \<and> before m i = before n i"
proof -
  have "inorder n = before n i @ (inorder (kid n i) @ e # inorder (kid n (i + 1))) @ after n (i + 1)"
    using elm_split [OF assms(4)] by simp
  also have "\<dots> = before n i @ (inorder s @ e' # inorder a) @ after n (i + 1)"
    using assms(9) by simp
  finally show ?thesis
    using assms(1-8) unfolding m_def by (cases n) (auto split: if_splits)
qed

lemma remove_slot_correct:
  assumes "full (Suc h) n" and "0 \<le> i" and "i + 1 \<le> elements234 n" and "elm n i = Some e"
    and "full h m" and "inorder m = inorder (kid n i) @ e # inorder (kid n (i + 1))" and "c = size234 m"
  shows "case remove_slot (set_kid n (i + 1) m c) i of
           None \<Rightarrow> elm n 1 = None \<and> i = 0 \<and> inorder m = inorder n
         | Some n' \<Rightarrow> full (Suc h) n' \<and> inorder n' = inorder n \<and> i \<le> elements234 n' \<and>
             kid n' i = m \<and> before n' i = before n i"
  using assms by (cases n) (auto split: if_splits)

text \<open>
  A repair keeps the list and the position, and leaves a child with at least two elements to go
  into; only a one-element root is ever used up.
\<close>

definition good_descent :: "bool \<Rightarrow> nat \<Rightarrow> 'a list \<Rightarrow> int \<Rightarrow> 'a descent \<Rightarrow> bool" where
  "good_descent is_root h xs pos d \<longleftrightarrow>
     (case d of
        Into n ki index \<Rightarrow> full (Suc h) n \<and> inorder n = xs \<and> 0 \<le> ki \<and> ki \<le> elements234 n \<and>
          elm (kid n ki) 1 \<noteq> None \<and> pos = int (length (before n ki)) + index \<and>
          0 \<le> index \<and> index < size234 (kid n ki)
      | NewRoot sub index \<Rightarrow> is_root \<and> full h sub \<and> inorder sub = xs \<and> pos = index)"

lemma full_kid_size: "\<lbrakk>full (Suc h) n; 0 \<le> i; i \<le> elements234 n\<rbrakk> \<Longrightarrow> cnt n i = size234 (kid n i)"
  by (cases n) auto

lemma elm_exists: "\<lbrakk>0 \<le> i; i + 1 \<le> elements234 n\<rbrakk> \<Longrightarrow> \<exists>e. elm n i = Some e"
  by (cases n) auto

lemma kid_beyond: "elements234 n < i \<Longrightarrow> kid n i = Null"
  by (cases n) auto

lemma merge_step_correct:
  assumes full: "full (Suc (Suc g)) n" and root: "is_root \<or> elm n 1 \<noteq> None"
    and ki: "0 \<le> ki" "ki \<le> elements234 n"
    and poor: "elm (kid n ki) 1 = None" "ki > 0 \<Longrightarrow> elm (kid n (ki - 1)) 1 = None"
      "ki < elements234 n \<Longrightarrow> elm (kid n (ki + 1)) 1 = None"
    and range: "0 \<le> index" "index < size234 (kid n ki)"
  shows "\<exists>d. merge_step n ki index = Some d \<and>
           good_descent is_root (Suc g) (inorder n) (int (length (before n ki)) + index) d"
proof -
  define i where "i = (if ki > 0 then ki - 1 else ki)"
  define index' where "index' = (if ki > 0 then index + cnt n (ki - 1) + 1 else index)"
  have nn: "n \<noteq> Null" using full by auto
  then have "1 \<le> elements234 n" by (cases n) auto
  then have i: "0 \<le> i" "i + 1 \<le> elements234 n" using ki by (auto simp: i_def)
  obtain e where e: "elm n i = Some e" using elm_exists [OF i] by blast
  have poor': "elm (kid n i) 1 = None" "elm (kid n (i + 1)) 1 = None"
    using poor ki i by (auto simp: i_def split: if_splits)
  have kids: "full (Suc g) (kid n i)" "full (Suc g) (kid n (i + 1))"
    using full_kid [OF full] i by simp_all
  obtain m where m: "merge_kids (kid n i) e (kid n (i + 1)) = Some m" "full (Suc g) m"
    "elm m 1 \<noteq> None" "inorder m = inorder (kid n i) @ e # inorder (kid n (i + 1))"
    using merge_kids_correct [OF kids poor'] by blast
  have pos: "int (length (before n ki)) + index = int (length (before n i)) + index'"
  proof (cases "ki > 0")
    case True
    with elm_split [OF e] full_kid_size [OF full i(1)] i show ?thesis by (simp add: i_def index'_def)
  qed (simp add: i_def index'_def)
  have range': "0 \<le> index' \<and> index' < size234 m"
    using range m(4) full_kid_size [OF full i(1)] i(2) by (auto simp: index'_def i_def)
  have step: "merge_step n ki index =
      (case remove_slot (set_kid n (i + 1) m (countnode234 m)) i of
         None \<Rightarrow> Some (NewRoot m index') | Some n' \<Rightarrow> Some (Into n' i index'))"
    using e m(1) by (cases "ki > 0") (auto simp: merge_step_def i_def index'_def split: option.splits)
  show ?thesis
  proof (cases "remove_slot (set_kid n (i + 1) m (countnode234 m)) i")
    case None
    with remove_slot_correct [OF full i e m(2,4), of "countnode234 m"] countnode_full [OF m(2)]
      step root pos m range' show ?thesis by (auto simp: good_descent_def)
  next
    case (Some n')
    with remove_slot_correct [OF full i e m(2,4), of "countnode234 m"] countnode_full [OF m(2)]
      step root pos m i range' show ?thesis by (auto simp: good_descent_def)
  qed
qed

lemma repair_correct:
  assumes full: "full (Suc (Suc g)) n" and root: "is_root \<or> elm n 1 \<noteq> None"
    and ki: "0 \<le> ki" "ki \<le> elements234 n"
    and range: "0 \<le> index" "index < size234 (kid n ki)"
  shows "\<exists>d. repair n ki index = Some d \<and>
           good_descent is_root (Suc g) (inorder n) (int (length (before n ki)) + index) d"
proof -
  have sub: "full (Suc g) (kid n ki)" by (rule full_kid [OF full ki])
  then have nn: "kid n ki \<noteq> Null" by auto
  let ?rich = "elm (kid n ki) 1 \<noteq> None" and ?left = "ki > 0 \<and> elm (kid n (ki - 1)) 1 \<noteq> None"
    and ?right = "ki < 3 \<and> elm (kid n (ki + 1)) 1 \<noteq> None"
  consider (rich) ?rich | (left) "\<not> ?rich" ?left | (right) "\<not> ?rich" "\<not> ?left" ?right
    | (merge) "\<not> ?rich" "\<not> ?left" "\<not> ?right" by blast
  then show ?thesis
  proof cases
    case rich
    with nn full ki range show ?thesis by (auto simp: repair_def good_descent_def)
  next
    case left
    then have i: "0 \<le> ki - 1" "(ki - 1) + 1 \<le> elements234 n" using ki by auto
    obtain e where e: "elm n (ki - 1) = Some e" using elm_exists [OF i] by blast
    have a: "full (Suc g) (kid n (ki - 1))" using full_kid [OF full i(1)] i by simp
    obtain a' e' s' where b: "borrow_left (kid n (ki - 1)) e (kid n ki) = Some (a', e', s')"
      and f: "full (Suc g) a'" "full (Suc g) s'" "elm s' 1 \<noteq> None"
        "inorder (kid n (ki - 1)) @ e # inorder (kid n ki) = inorder a' @ e' # inorder s'"
        "length (inorder a') \<le> length (inorder (kid n (ki - 1)))"
      using borrow_left_correct [OF a sub, of e] left by blast
    note size = countnode_full [OF f(1)] countnode_full [OF f(2)]
    let ?m = "set_kid (set_elm (set_kid n ki s' (countnode234 s')) (ki - 1) e') (ki - 1) a' (countnode234 a')"
    have m: "full (Suc (Suc g)) ?m" "inorder ?m = inorder n" "elements234 ?m = elements234 n"
      "kid ?m ki = s'" "before ?m ki = before n (ki - 1) @ inorder a' @ [e']"
      using replace_pair_left [OF full i e f(1,2) size, of e'] f(4) by simp_all
    have "length (before n ki) = length (before n (ki - 1)) + length (inorder (kid n (ki - 1))) + 1"
      using elm_split [OF e] by simp
    moreover have "cnt n (ki - 1) = size234 (kid n (ki - 1))"
      using full_kid_size [OF full i(1)] i by simp
    ultimately have "good_descent is_root (Suc g) (inorder n) (int (length (before n ki)) + index)
        (Into ?m ki (index + cnt n (ki - 1) - countnode234 a'))"
      using m f(3,5) ki size range arg_cong [OF f(4), of length] by (simp add: good_descent_def)
    moreover have "repair n ki index = Some (Into ?m ki (index + cnt n (ki - 1) - countnode234 a'))"
      using left nn e b by (simp add: repair_def)
    ultimately show ?thesis by blast
  next
    case right
    then have i: "0 \<le> ki" "ki + 1 \<le> elements234 n"
      using ki kid_beyond [of n "ki + 1"] by force+
    obtain e where e: "elm n ki = Some e" using elm_exists [OF i] by blast
    have a: "full (Suc g) (kid n (ki + 1))" using full_kid [OF full _ i(2)] i by simp
    obtain a' e' s' where b: "borrow_right (kid n ki) e (kid n (ki + 1)) = Some (s', e', a')"
      and f: "full (Suc g) a'" "full (Suc g) s'" "elm s' 1 \<noteq> None"
        "inorder (kid n ki) @ e # inorder (kid n (ki + 1)) = inorder s' @ e' # inorder a'"
        "length (inorder (kid n ki)) \<le> length (inorder s')"
      using borrow_right_correct [OF a sub, of e] right by blast
    note size = countnode_full [OF f(2)] countnode_full [OF f(1)]
    let ?m = "set_kid (set_elm (set_kid n ki s' (countnode234 s')) ki e') (ki + 1) a' (countnode234 a')"
    have m: "full (Suc (Suc g)) ?m" "inorder ?m = inorder n" "elements234 ?m = elements234 n"
      "kid ?m ki = s'" "before ?m ki = before n ki"
      using replace_pair_right [OF full i e f(1,2) size f(4)] by simp_all
    then have "good_descent is_root (Suc g) (inorder n) (int (length (before n ki)) + index)
        (Into ?m ki index)"
      using f(3,5) ki range by (simp add: good_descent_def)
    moreover have "repair n ki index = Some (Into ?m ki index)"
      using right nn e b by (auto simp: repair_def Let_def)
    ultimately show ?thesis by blast
  next
    case merge
    have "ki < 3" if "ki < elements234 n" using that elements234_bounds [of n] by simp
    with merge have "repair n ki index = merge_step n ki index"
      using nn by (auto simp: repair_def)
    moreover have "elm (kid n (ki + 1)) 1 = None" if "ki < elements234 n"
      using merge that elements234_bounds [of n] by auto
    ultimately show ?thesis using merge_step_correct [OF full root ki _ _ _ range] merge by simp
  qed
qed

section \<open>Correctness of the deletion\<close>

lemma locate_correct:
  assumes "full (Suc h) n" and "0 \<le> index" and "index < size234 n"
  shows "case locate n index of
           Inl ei \<Rightarrow> 0 \<le> ei \<and> ei + 1 \<le> elements234 n \<and>
             index = int (length (before n ei)) + size234 (kid n ei)
         | Inr (ki, i) \<Rightarrow> 0 \<le> ki \<and> ki \<le> elements234 n \<and> 0 \<le> i \<and> i < size234 (kid n ki) \<and>
             index = int (length (before n ki)) + i"
  using assms by (cases n) (auto simp: locate_def Let_def)

lemma leaf_remove_correct:
  assumes "full (Suc 0) n" and "elm n 1 \<noteq> None" and "0 \<le> ei" and "ei + 1 \<le> elements234 n"
  shows "\<exists>n'. leaf_remove n ei = Some n' \<and> full (Suc 0) n' \<and> inorder n' = remove_at ei (inorder n)"
proof -
  have "ei = 0 \<or> ei = 1 \<or> ei = 2" using assms(3,4) elements234_bounds [of n] by auto
  with assms show ?thesis by (cases n) (auto simp: remove_at_def numeral_2_eq_2 numeral_3_eq_3)
qed

lemma full_nonempty: "full (Suc h) n \<Longrightarrow> inorder n \<noteq> []"
  by (cases n) auto

lemma first_elem_correct:
  "full (Suc h) n \<Longrightarrow> first_elem n = at (inorder n) 0"
proof (induction h arbitrary: n)
  case 0
  then show ?case by (cases n) auto
next
  case (Suc h)
  with full_nonempty show ?case by (cases n) (auto simp: at_append)
qed

lemma last_elem_correct:
  "full (Suc h) n \<Longrightarrow> last_elem n = at (inorder n) (size234 n - 1)"
proof (induction h arbitrary: n)
  case 0
  then show ?case by (cases n) auto
next
  case (Suc h)
  with full_nonempty show ?case by (cases n) (auto simp: at_append)
qed

lemma cnt_set_elm [simp]: "cnt (set_elm n i e) j = cnt n j"
  by (cases n) auto

lemma remove_at_last:
  "\<lbrakk>at xs (int (length xs) - 1) = Some p; xs \<noteq> []\<rbrakk>
    \<Longrightarrow> remove_at (int (length xs) - 1) xs @ [p] = xs"
  by (cases xs rule: rev_cases) (auto simp: at_append remove_at_def)

lemma remove_at_first: "\<lbrakk>at xs 0 = Some p\<rbrakk> \<Longrightarrow> p # remove_at 0 xs = xs"
  by (cases xs) (auto simp: remove_at_def)

lemma set_elm_full:
  assumes "full (Suc h) n" and "elm n i = Some x"
  shows "full (Suc h) (set_elm n i e) \<and> elements234 (set_elm n i e) = elements234 n \<and>
         before (set_elm n i e) i = before n i \<and> after (set_elm n i e) (i + 1) = after n (i + 1) \<and>
         elm (set_elm n i e) i = Some e"
  using assms by (cases n) (auto split: if_splits)

text \<open>What a deletion of position \<open>i\<close> of \<open>xs\<close> below a node of height \<open>h\<close> returns.\<close>

definition deleted :: "bool \<Rightarrow> nat \<Rightarrow> 'a list \<Rightarrow> int \<Rightarrow> ('a \<times> 'a node234) option \<Rightarrow> bool" where
  "deleted is_root h xs i r \<longleftrightarrow>
     (\<exists>x k. r = Some (x, k) \<and> at xs i = Some x \<and> inorder k = remove_at i xs \<and>
        (full h k \<or> is_root \<and> wf234 k))"

lemma deleted_below:
  assumes "full (Suc h) n" and "0 \<le> ki" and "ki \<le> elements234 n"
    and "0 \<le> i" and "i < size234 (kid n ki)" and "deleted False h (inorder (kid n ki)) i r"
  shows "\<exists>y k. r = Some (y, k) \<and> at (inorder (kid n ki)) i = Some y \<and>
           full (Suc h) (set_kid n ki k (cnt n ki - 1)) \<and>
           inorder (set_kid n ki k (cnt n ki - 1)) =
             remove_at (int (length (before n ki)) + i) (inorder n)"
proof -
  from assms(6) obtain y k where k: "r = Some (y, k)" "at (inorder (kid n ki)) i = Some y"
    "inorder k = remove_at i (inorder (kid n ki))" "full h k" by (auto simp: deleted_def)
  have "cnt n ki - 1 = size234 k"
    using full_kid_size [OF assms(1-3)] length_remove_at [OF assms(4,5)] k(3) by simp
  from set_kid_full [OF assms(1-3) k(4) this] remove_at_middle [OF assms(4,5)]
    inorder_kid [OF assms(2,3)] k show ?thesis by simp
qed

text \<open>Cases 2a, 2b and 2c of the code: the element is replaced by a neighbour or pushed down.\<close>

lemma predecessor_case:
  assumes full: "full (Suc (Suc g)) n" and ei: "0 \<le> ei" "ei + 1 \<le> elements234 n"
    and x: "elm n ei = Some x" and p: "last_elem (kid n ei) = Some p"
    and del: "deleted False (Suc g) (inorder (kid n ei)) (size234 (kid n ei) - 1) r"
  shows "\<exists>y k. r = Some (y, k) \<and> full (Suc (Suc g)) (set_kid (set_elm n ei p) ei k (cnt n ei - 1)) \<and>
           inorder (set_kid (set_elm n ei p) ei k (cnt n ei - 1)) =
             (before n ei @ inorder (kid n ei)) @ inorder (kid n (ei + 1)) @ after n (ei + 1)"
proof -
  let ?n = "set_elm n ei p" and ?i = "size234 (kid n ei) - 1"
  have kid: "full (Suc g) (kid n ei)" using full_kid [OF full ei(1)] ei by simp
  have len: "0 \<le> ?i" "?i < size234 (kid n ei)"
    using full_nonempty [OF kid] by (auto simp: Suc_le_eq)
  note se = set_elm_full [OF full x, of p]
  have kidlist: "remove_at ?i (inorder (kid n ei)) @ [p] = inorder (kid n ei)"
    using last_elem_correct [OF kid] p full_nonempty [OF kid] by (simp add: remove_at_last)
  from deleted_below [of "Suc g" ?n ei ?i r] se ei len del obtain y k where
    k: "r = Some (y, k)" "full (Suc (Suc g)) (set_kid ?n ei k (cnt n ei - 1))"
      "inorder (set_kid ?n ei k (cnt n ei - 1)) =
         remove_at (int (length (before n ei)) + ?i) (inorder ?n)" by auto
  have "inorder ?n = before n ei @ inorder (kid n ei) @ p # inorder (kid n (ei + 1)) @ after n (ei + 1)"
    using elm_split [of ?n ei p] se by simp
  with k(3) remove_at_middle [OF len] kidlist have
    "inorder (set_kid ?n ei k (cnt n ei - 1)) =
       before n ei @ (remove_at ?i (inorder (kid n ei)) @ [p]) @ inorder (kid n (ei + 1)) @ after n (ei + 1)"
    by simp
  with k kidlist show ?thesis by simp
qed

lemma successor_case:
  assumes full: "full (Suc (Suc g)) n" and ei: "0 \<le> ei" "ei + 1 \<le> elements234 n"
    and x: "elm n ei = Some x" and p: "first_elem (kid n (ei + 1)) = Some p"
    and del: "deleted False (Suc g) (inorder (kid n (ei + 1))) 0 r"
  shows "\<exists>y k. r = Some (y, k) \<and>
           full (Suc (Suc g)) (set_kid (set_elm n ei p) (ei + 1) k (cnt n (ei + 1) - 1)) \<and>
           inorder (set_kid (set_elm n ei p) (ei + 1) k (cnt n (ei + 1) - 1)) =
             (before n ei @ inorder (kid n ei)) @ inorder (kid n (ei + 1)) @ after n (ei + 1)"
proof -
  let ?n = "set_elm n ei p"
  have kid: "full (Suc g) (kid n (ei + 1))" using full_kid [OF full _ ei(2)] ei by simp
  have len: "(0::int) \<le> 0" "0 < size234 (kid n (ei + 1))" using full_nonempty [OF kid] by auto
  note se = set_elm_full [OF full x, of p]
  have kidlist: "p # remove_at 0 (inorder (kid n (ei + 1))) = inorder (kid n (ei + 1))"
    using first_elem_correct [OF kid] p by (simp add: remove_at_first)
  have split: "before ?n (ei + 1) = before n ei @ inorder (kid n ei) @ [p]"
    "inorder ?n = (before n ei @ inorder (kid n ei) @ [p]) @ inorder (kid n (ei + 1)) @ after n (ei + 1)"
    using elm_split [of ?n ei p] se by simp_all
  from deleted_below [of "Suc g" ?n "ei + 1" 0 r] se ei len del obtain y k where
    k: "r = Some (y, k)" "full (Suc (Suc g)) (set_kid ?n (ei + 1) k (cnt n (ei + 1) - 1))"
      "inorder (set_kid ?n (ei + 1) k (cnt n (ei + 1) - 1)) =
         remove_at (int (length (before ?n (ei + 1))) + 0) (inorder ?n)" by auto
  note k(3)
  also have "remove_at (int (length (before ?n (ei + 1))) + 0) (inorder ?n) =
      (before n ei @ inorder (kid n ei)) @ (p # remove_at 0 (inorder (kid n (ei + 1)))) @ after n (ei + 1)"
    unfolding split using remove_at_middle [OF len, of "before n ei @ inorder (kid n ei) @ [p]"] by simp
  finally show ?thesis using k kidlist by simp
qed

lemma merge_case:
  assumes full: "full (Suc (Suc g)) n" and ei: "0 \<le> ei" "ei + 1 \<le> elements234 n"
    and x: "elm n ei = Some x" and root: "is_root \<or> elm n 1 \<noteq> None"
    and a: "full (Suc g) a" "inorder a = inorder (kid n ei) @ x # inorder (kid n (ei + 1))"
    and del: "deleted r (Suc g) (inorder a) (size234 (kid n ei)) res"
    and m: "m = set_kid n (ei + 1) a (countnode234 a)"
  defines "gone \<equiv> (before n ei @ inorder (kid n ei)) @ inorder (kid n (ei + 1)) @ after n (ei + 1)"
  shows "case remove_slot m ei of
           None \<Rightarrow> is_root \<and> (\<exists>y k. res = Some (y, k) \<and> (r \<longrightarrow> wf234 k) \<and> (inorder k = gone))
         | Some n' \<Rightarrow> \<not> r \<longrightarrow> (\<exists>y k. res = Some (y, k) \<and>
             full (Suc (Suc g)) (set_kid n' ei k (cnt n' ei - 1)) \<and>
             inorder (set_kid n' ei k (cnt n' ei - 1)) = gone)"
proof -
  let ?i = "size234 (kid n ei)"
  have len: "0 \<le> ?i" "?i < size234 a" using a(2) by simp_all
  have removed: "remove_at ?i (inorder a) = inorder (kid n ei) @ inorder (kid n (ei + 1))"
    unfolding a(2) by (rule remove_at_elem)
  note slot = remove_slot_correct [OF full ei x a(1,2), of "countnode234 a", folded m] countnode_full [OF a(1)]
  show ?thesis
  proof (cases "remove_slot m ei")
    case None
    with slot have "elm n 1 = None" "ei = 0" "inorder a = inorder n" by auto
    moreover from this have "after n (ei + 1) = []" using full by (cases n) auto
    ultimately show ?thesis using None root del removed
      by (auto simp: deleted_def gone_def intro: full_imp_wf)
  next
    case (Some n')
    with slot have n': "full (Suc (Suc g)) n'" "inorder n' = inorder n" "ei \<le> elements234 n'"
      "kid n' ei = a" "before n' ei = before n ei" by auto
    show ?thesis
    proof (cases r)
      case False
      with deleted_below [OF n'(1) ei(1) n'(3), of ?i res] del len n'
      obtain y k where k: "res = Some (y, k)" "full (Suc (Suc g)) (set_kid n' ei k (cnt n' ei - 1))"
        "inorder (set_kid n' ei k (cnt n' ei - 1)) = remove_at (int (length (before n ei)) + ?i) (inorder n)"
        by auto
      have "inorder n = before n ei @ inorder a @ after n (ei + 1)"
        using elm_split [OF x] a(2) by simp
      with k removed remove_at_middle [OF len] Some show ?thesis by (simp add: gone_def)
    qed (use Some in simp)
  qed
qed

lemma del_node_correct:
  "\<lbrakk>full (Suc h) n; is_root \<or> elm n 1 \<noteq> None; 0 \<le> index; index < size234 n\<rbrakk>
    \<Longrightarrow> deleted is_root (Suc h) (inorder n) index (del_node is_root n index)"
proof (induction h arbitrary: is_root n index)
  case (0 is_root n index)
  note full = 0(1) and root = 0(2) and range = 0(3,4)
  have nn: "n \<noteq> Null" and leaf: "kid n 0 = Null" using full by (cases n; auto)+
  from locate_correct [OF full range] full_kid [OF full]
  obtain ei where ei: "locate n index = Inl ei" "0 \<le> ei" "ei + 1 \<le> elements234 n"
    "index = int (length (before n ei))" "kid n ei = Null"
    by (cases "locate n index") (fastforce split: prod.splits)+
  obtain x where x: "elm n ei = Some x" using elm_exists [OF ei(2,3)] by blast
  have ki1: "kid n (ei + 1) = Null" using full_kid [OF full _ ei(3)] ei(2) by simp
  have list: "inorder n = before n ei @ x # after n (ei + 1)" using elm_split [OF x] ei(5) ki1 by simp
  have "int (length (before n ei)) = ei" using full ei(2,3) by (cases n) auto
  with ei(4) have index: "index = ei" by simp
  show ?case
  proof (cases "elm n 1 = None")
    case True
    with root have "is_root" by simp
    have "before n ei = []" "after n (ei + 1) = []" using True nn ei(2,3) by (cases n; simp)+
    then show ?thesis using True \<open>is_root\<close> nn leaf ei x list
      by (subst del_node.simps) (simp add: deleted_def remove_at_def)
  next
    case False
    have "at (inorder n) index = Some x" unfolding list ei(4) by (simp add: at_append)
    with leaf_remove_correct [OF full False ei(2,3)] False nn leaf ei(1) x index show ?thesis
      by (subst del_node.simps) (auto simp: deleted_def)
  qed
next
  case (Suc g)
  note full = Suc.prems(1) and root = Suc.prems(2) and range = Suc.prems(3,4)
  have nn: "n \<noteq> Null" and inner: "kid n 0 \<noteq> Null" using full by (cases n; auto)+
  show ?case
  proof (cases "locate n index")
    case (Inr z)
    obtain ki i where z: "z = (ki, i)" by (cases z)
    with locate_correct [OF full range] Inr have ki: "0 \<le> ki" "ki \<le> elements234 n"
      and i: "0 \<le> i" "i < size234 (kid n ki)" "index = int (length (before n ki)) + i" by auto
    obtain d where d: "repair n ki i = Some d" "good_descent is_root (Suc g) (inorder n) index d"
      using repair_correct [OF full root ki i(1,2)] i(3) by auto
    show ?thesis
    proof (cases d)
      case (NewRoot sub index')
      with d have s: "is_root" "full (Suc g) sub" "inorder sub = inorder n" "index' = index"
        by (auto simp: good_descent_def)
      from Suc.IH [OF s(2), of True index] s range
      have "deleted True (Suc g) (inorder n) index (del_node True sub index)" by simp
      moreover have "del_node is_root n index = del_node True sub index"
        using nn Inr z d NewRoot s by (subst del_node.simps) simp
      ultimately show ?thesis using s(1) by (auto simp: deleted_def intro: full_imp_wf)
    next
      case (Into n' ki' i')
      with d have n': "full (Suc (Suc g)) n'" "inorder n' = inorder n" "0 \<le> ki'" "ki' \<le> elements234 n'"
        "elm (kid n' ki') 1 \<noteq> None" "index = int (length (before n' ki')) + i'"
        "0 \<le> i'" "i' < size234 (kid n' ki')"
        by (auto simp: good_descent_def)
      have "deleted False (Suc g) (inorder (kid n' ki')) i' (del_node False (kid n' ki') i')"
        using Suc.IH [OF full_kid [OF n'(1,3,4)], of False i'] n'(5,7,8) by simp
      from deleted_below [OF n'(1,3,4,7,8) this] obtain y k where
        k: "del_node False (kid n' ki') i' = Some (y, k)" "at (inorder (kid n' ki')) i' = Some y"
        "full (Suc (Suc g)) (set_kid n' ki' k (cnt n' ki' - 1))"
        "inorder (set_kid n' ki' k (cnt n' ki' - 1)) = remove_at index (inorder n)"
        using n'(2,6) by auto
      have "at (inorder n) index = Some y"
        using inorder_kid [OF n'(3,4)] n'(2,6) at_middle [OF n'(7,8)] k(2) by metis
      with k nn Inr z d Into show ?thesis by (subst del_node.simps) (simp add: deleted_def)
    qed
  next
    case (Inl ei)
    with locate_correct [OF full range] have ei: "0 \<le> ei" "ei + 1 \<le> elements234 n"
      "index = int (length (before n ei)) + size234 (kid n ei)" by auto
    obtain x where x: "elm n ei = Some x" using elm_exists [OF ei(1,2)] by blast
    have kids: "full (Suc g) (kid n ei)" "full (Suc g) (kid n (ei + 1))"
      using full_kid [OF full] ei by simp_all
    have list: "inorder n = (before n ei @ inorder (kid n ei)) @ x # (inorder (kid n (ei + 1)) @ after n (ei + 1))"
      using elm_split [OF x] by simp
    have pos: "index = int (length (before n ei @ inorder (kid n ei)))" using ei(3) by simp
    have at: "at (inorder n) index = Some x" unfolding list pos by (simp add: at_append)
    have gone: "remove_at index (inorder n) =
        (before n ei @ inorder (kid n ei)) @ inorder (kid n (ei + 1)) @ after n (ei + 1)"
      unfolding list pos by (rule remove_at_elem)
    consider (a) "elm (kid n ei) 1 \<noteq> None" | (b) "elm (kid n ei) 1 = None" "elm (kid n (ei + 1)) 1 \<noteq> None"
      | (c) "elm (kid n ei) 1 = None" "elm (kid n (ei + 1)) 1 = None" by blast
    then show ?thesis
    proof cases
      case a
      let ?i = "size234 (kid n ei) - 1"
      have len: "0 \<le> ?i" "?i < size234 (kid n ei)"
        using full_nonempty [OF kids(1)] by (auto simp: Suc_le_eq)
      obtain p where p: "last_elem (kid n ei) = Some p"
        using last_elem_correct [OF kids(1)] at_nth [OF len] by auto
      have "deleted False (Suc g) (inorder (kid n ei)) ?i (del_node False (kid n ei) ?i)"
        using Suc.IH [OF kids(1), of False, OF _ len] a by simp
      from predecessor_case [OF full ei(1,2) x p this] gone
      show ?thesis using full_kid_size [OF full ei(1)] ei(2) at nn inner Inl x p a
        by (subst del_node.simps) (auto simp: deleted_def)
    next
      case b
      have len: "(0::int) \<le> 0" "0 < size234 (kid n (ei + 1))" using full_nonempty [OF kids(2)] by auto
      obtain p where p: "first_elem (kid n (ei + 1)) = Some p"
        using first_elem_correct [OF kids(2)] at_nth [OF len] by auto
      have "deleted False (Suc g) (inorder (kid n (ei + 1))) 0 (del_node False (kid n (ei + 1)) 0)"
        using Suc.IH [OF kids(2), of False, OF _ len] b by simp
      from successor_case [OF full ei(1,2) x p this] gone
      show ?thesis using at nn inner Inl x p b
        by (subst del_node.simps) (auto simp: deleted_def)
    next
      case c
      obtain a where m: "merge_kids (kid n ei) x (kid n (ei + 1)) = Some a" "full (Suc g) a"
        "elm a 1 \<noteq> None" "inorder a = inorder (kid n ei) @ x # inorder (kid n (ei + 1))"
        "cnt a 0 + cnt a 1 + 1 = size234 (kid n ei)"
        using merge_kids_correct [OF kids c] by blast
      have "deleted r (Suc g) (inorder a) (size234 (kid n ei)) (del_node r a (size234 (kid n ei)))" for r
        using Suc.IH [OF m(2), of r] m(3,4) by simp
      note mc = merge_case [OF full ei(1,2) x root m(2,4) this refl]
      from mc [of True] mc [of False] gone
      show ?thesis using at nn inner Inl x m c
        by (subst del_node.simps) (auto simp: deleted_def split: option.splits)
    qed
  qed
qed

text \<open>Deleting by index from a well-formed tree.\<close>

lemma delpos234_internal_correct:
  assumes wf: "wf234 (root t)" and range: "0 \<le> index" "index < int (length (inorder (root t)))"
  shows "\<exists>x t'. delpos234_internal t index = Some (Some x, t') \<and> at (inorder (root t)) index = Some x \<and>
           wf234 (root t') \<and> inorder (root t') = remove_at index (inorder (root t)) \<and> cmpfn t' = cmpfn t"
proof -
  from range have "root t \<noteq> Null" by auto
  then obtain g where g: "full (Suc g) (root t)"
    using wf by (metis full_0 not0_implies_Suc wf234_iff)
  from del_node_correct [OF this, of True index] range
  show ?thesis by (auto simp: delpos234_internal_def deleted_def intro: full_imp_wf)
qed

theorem delpos234_correct:
  assumes wf: "wf234 (root t)"
  shows "if 0 \<le> index \<and> index < int (length (inorder (root t)))
         then \<exists>x t'. delpos234 t index = Some (Some x, t') \<and> at (inorder (root t)) index = Some x \<and>
                wf234 (root t') \<and> inorder (root t') = remove_at index (inorder (root t)) \<and>
                cmpfn t' = cmpfn t
         else delpos234 t index = Some (None, t)"
proof (cases "0 \<le> index \<and> index < size234 (root t)")
  case True
  with delpos234_internal_correct [OF wf] countnode_wf [OF wf]
  show ?thesis by (simp add: delpos234_def)
next
  case False
  with countnode_wf [OF wf] show ?thesis by (auto simp: delpos234_def)
qed

end
