(* ===== verification/Sorted_Tree.thy ===== *)
theory Sorted_Tree
  imports Tree_Search Tree_Insert Tree_Delete
begin

text \<open>
  A 2-3-4 tree with a comparison function, as its clients see it: the contract of a sorted store
  (locale \<open>sorted_store\<close>), the deletion by key \<^verbatim>\<open>del234\<close>, and the proof that every
  comparison function that is a total preorder (locale \<open>cmp_order\<close>) makes the tree such a store.
  The configuration store and the timers get the contract by interpreting \<open>cmp_order\<close>.
\<close>

section \<open>Deletion by key\<close>

definition del234 :: "'a tree234 \<Rightarrow> 'a \<Rightarrow> ('a option \<times> 'a tree234) option" where
  "del234 t e =
     (case findrelpos234 t (Some e) REL234_EQ of
        None \<Rightarrow> None
      | Some None \<Rightarrow> Some (None, t)
      | Some (Some (_, index)) \<Rightarrow> delpos234_internal t index)"

section \<open>Orders given by a comparison function\<close>

locale cmp_order =
  fixes cmp :: "'a \<Rightarrow> 'a \<Rightarrow> int"
  assumes cmp_antisym: "cmp x y < 0 \<longleftrightarrow> cmp y x > 0"
    and cmp_trans: "\<lbrakk>cmp x y \<le> 0; cmp y z \<le> 0\<rbrakk> \<Longrightarrow> cmp x z \<le> 0"
begin

lemma cmp_refl [simp]: "cmp x x = 0"
  using cmp_antisym [of x x] by linarith

lemma cmp_eq_sym: "cmp x y = 0 \<longleftrightarrow> cmp y x = 0"
  using cmp_antisym [of x y] cmp_antisym [of y x] by linarith

lemma cmp_eq_iff: "cmp x y = 0 \<longleftrightarrow> cmp x y \<le> 0 \<and> cmp y x \<le> 0"
  using cmp_antisym [of x y] cmp_antisym [of y x] by linarith

lemma cmp_eq_trans: "\<lbrakk>cmp x y = 0; cmp y z = 0\<rbrakk> \<Longrightarrow> cmp x z = 0"
  using cmp_trans unfolding cmp_eq_iff by blast

lemma cmp_le_less_trans: "\<lbrakk>cmp x y \<le> 0; cmp y z < 0\<rbrakk> \<Longrightarrow> cmp x z < 0"
  using cmp_trans [of x y z] cmp_trans [of z x y] cmp_antisym [of y z] cmp_antisym [of x z]
    cmp_antisym [of z x] by linarith

lemma cmp_less_le_trans: "\<lbrakk>cmp x y < 0; cmp y z \<le> 0\<rbrakk> \<Longrightarrow> cmp x z < 0"
  using cmp_trans [of x y z] cmp_trans [of y z x] cmp_antisym [of x y] cmp_antisym [of x z]
    cmp_antisym [of z x] by linarith

text \<open>A strictly sorted list, and searching it with a key.\<close>

definition sorted_cmp :: "'a list \<Rightarrow> bool" where
  "sorted_cmp xs \<longleftrightarrow> sorted_wrt (\<lambda>x y. cmp x y < 0) xs"

lemma sorted_monotone: "sorted_cmp xs \<Longrightarrow> monotone_dir (cmp e) xs"
  unfolding sorted_cmp_def monotone_dir_def
  by (rule sorted_wrt_mono_rel [rotated], assumption)
    (metis cmp_antisym cmp_less_le_trans cmp_le_less_trans less_imp_le linorder_not_less)

lemma sorted_unique:
  "\<lbrakk>sorted_cmp xs; x \<in> set xs; y \<in> set xs; cmp x y = 0\<rbrakk> \<Longrightarrow> x = y"
proof -
  assume a: "sorted_cmp xs" "x \<in> set xs" "y \<in> set xs" "cmp x y = 0"
  then obtain i j where ij: "i < length xs" "xs ! i = x" "j < length xs" "xs ! j = y"
    by (metis in_set_conv_nth)
  have "i = j"
    using a(1,4) ij cmp_eq_sym [of x y]
    by (metis less_irrefl linorder_neqE_nat sorted_cmp_def sorted_wrt_iff_nth_less)
  with ij show "x = y" by simp
qed

lemma sorted_distinct: "sorted_cmp xs \<Longrightarrow> distinct xs"
  unfolding sorted_cmp_def by (induction xs) auto

lemma sorted_set_unique: "\<lbrakk>sorted_cmp xs; sorted_cmp ys; set xs = set ys\<rbrakk> \<Longrightarrow> xs = ys"
proof (induction xs arbitrary: ys)
  case (Cons x xs)
  then obtain y ys' where ys: "ys = y # ys'" by (cases ys) auto
  have "x = y"
  proof (rule ccontr)
    assume "x \<noteq> y"
    with Cons.prems(3) ys have "y \<in> set xs" "x \<in> set ys'" by auto
    with Cons.prems ys have "cmp x y < 0" "cmp y x < 0" by (auto simp: sorted_cmp_def)
    then show False using cmp_antisym [of x y] by linarith
  qed
  moreover have "distinct (x # xs)" "distinct (y # ys')"
    using Cons.prems ys by (simp_all only: sorted_distinct)
  ultimately show ?case
    using Cons.prems ys Cons.IH [of ys'] by (auto simp: sorted_cmp_def insert_ident)
qed simp

end

section \<open>The contract of a sorted store\<close>

text \<open>
  \<open>items\<close> is the content in order. Adding reports an equal element instead of a second copy;
  lookups and deletions go by the key.
\<close>

locale sorted_store = cmp_order +
  fixes inv :: "'t \<Rightarrow> bool"
    and items :: "'t \<Rightarrow> 'a list"
    and add :: "'t \<Rightarrow> 'a \<Rightarrow> ('a option \<times> 't) option"
    and del :: "'t \<Rightarrow> 'a \<Rightarrow> ('a option \<times> 't) option"
    and find :: "'t \<Rightarrow> 'a \<Rightarrow> 'a option option"
    and nth :: "'t \<Rightarrow> int \<Rightarrow> 'a option"
    and delnth :: "'t \<Rightarrow> int \<Rightarrow> ('a option \<times> 't) option"
  assumes items_sorted: "inv t \<Longrightarrow> sorted_cmp (items t)"
    and add_old: "\<lbrakk>inv t; x \<in> set (items t); cmp e x = 0\<rbrakk> \<Longrightarrow> add t e = Some (Some x, t)"
    and add_new: "\<lbrakk>inv t; \<forall>x\<in>set (items t). cmp e x \<noteq> 0\<rbrakk> \<Longrightarrow>
          \<exists>t'. add t e = Some (Some e, t') \<and> inv t' \<and> set (items t') = insert e (set (items t))"
    and del_old: "\<lbrakk>inv t; x \<in> set (items t); cmp e x = 0\<rbrakk> \<Longrightarrow>
          \<exists>t'. del t e = Some (Some x, t') \<and> inv t' \<and> set (items t') = set (items t) - {x}"
    and del_none: "\<lbrakk>inv t; \<forall>x\<in>set (items t). cmp e x \<noteq> 0\<rbrakk> \<Longrightarrow> del t e = Some (None, t)"
    and find_old: "\<lbrakk>inv t; x \<in> set (items t); cmp e x = 0\<rbrakk> \<Longrightarrow> find t e = Some (Some x)"
    and find_none: "\<lbrakk>inv t; \<forall>x\<in>set (items t). cmp e x \<noteq> 0\<rbrakk> \<Longrightarrow> find t e = Some None"
    and nth_at: "inv t \<Longrightarrow> nth t i = at (items t) i"
    and delnth_0: "inv t \<Longrightarrow>
          (case items t of [] \<Rightarrow> delnth t 0 = Some (None, t)
           | x # xs \<Rightarrow> \<exists>t'. delnth t 0 = Some (Some x, t') \<and> inv t' \<and> items t' = xs)"
begin

text \<open>
  What a client needs of the store is the partial function from keys to elements.
\<close>

definition lookup :: "'t \<Rightarrow> 'a \<Rightarrow> 'a option" where
  "lookup t e = List.find (\<lambda>x. cmp e x = 0) (items t)"

lemma lookup_None_iff: "lookup t e = None \<longleftrightarrow> (\<forall>x\<in>set (items t). cmp e x \<noteq> 0)"
  by (auto simp: lookup_def find_None_iff)

lemma lookup_Some_iff:
  assumes "inv t"
  shows "lookup t e = Some x \<longleftrightarrow> x \<in> set (items t) \<and> cmp e x = 0"
proof
  assume "lookup t e = Some x"
  then show "x \<in> set (items t) \<and> cmp e x = 0" by (auto simp: lookup_def find_Some_iff)
next
  assume x: "x \<in> set (items t) \<and> cmp e x = 0"
  then obtain y where y: "lookup t e = Some y" using lookup_None_iff [of t e] by (cases "lookup t e") auto
  then have "y \<in> set (items t)" "cmp e y = 0" by (auto simp: lookup_def find_Some_iff)
  moreover from this x have "cmp x y = 0"
    using cmp_trans [of x e y] cmp_trans [of y e x] cmp_antisym [of x y] cmp_eq_sym [of e]
    by (metis less_le linorder_not_less order_refl)
  ultimately show "lookup t e = Some x"
    using y x sorted_unique [OF items_sorted [OF assms]] by metis
qed

lemma find_lookup: "inv t \<Longrightarrow> find t e = Some (lookup t e)"
  by (cases "lookup t e") (simp_all add: lookup_None_iff [THEN iffD1] lookup_Some_iff [THEN iffD1] find_none find_old)

lemma lookup_cong: "cmp e e' = 0 \<Longrightarrow> lookup t e = lookup t e'"
proof -
  assume a: "cmp e e' = 0"
  have "cmp e x = 0 \<longleftrightarrow> cmp e' x = 0" for x
    using a cmp_eq_trans [of e e' x] cmp_eq_trans [of e' e x] cmp_eq_sym [of e e'] by blast
  then show ?thesis by (simp add: lookup_def)
qed

lemma lookup_after_replace:
  assumes "inv t" and that: "inv t'" "set (items t') = insert e (set (items t) - {x. cmp e x = 0})"
  shows "lookup t' k = (if cmp k e = 0 then Some e else lookup t k)"
proof (cases "cmp k e = 0")
  case True
  with that show ?thesis by (simp add: lookup_Some_iff)
next
  case False
  have "lookup t' k = lookup t k"
  proof (cases "lookup t k")
    case None
    with that False have "\<forall>x\<in>set (items t'). cmp k x \<noteq> 0" by (simp add: lookup_None_iff)
    with None show ?thesis by (simp add: lookup_None_iff [THEN iffD2])
  next
    case (Some y)
    with assms have "y \<in> set (items t)" "cmp k y = 0" by (auto simp: lookup_Some_iff)
    moreover from this False have "cmp e y \<noteq> 0"
      by (metis cmp_trans cmp_antisym cmp_eq_sym linorder_not_less order_refl less_le)
    ultimately show ?thesis using that Some by (simp add: lookup_Some_iff)
  qed
  with False show ?thesis by simp
qed

text \<open>
  The replacement pattern of \<^verbatim>\<open>conf_insert\<close>: add; if an older element with the same key was
  reported, delete it and add again.
\<close>

lemma replace_correct:
  assumes "inv t"
  shows "\<exists>t'. (case add t e of
                None \<Rightarrow> None
              | Some (old, t1) \<Rightarrow>
                  (case old of
                     None \<Rightarrow> Some t1
                   | Some x \<Rightarrow>
                       if x = e then Some t1
                       else case del t1 x of
                              None \<Rightarrow> None
                            | Some (_, t2) \<Rightarrow>
                                (case add t2 e of
                                   Some (Some y, t3) \<Rightarrow> if y = e then Some t3 else None
                                 | _ \<Rightarrow> None))) = Some t' \<and>
            inv t' \<and> (\<forall>k. lookup t' k = (if cmp k e = 0 then Some e else lookup t k))"
proof -
  note lookup_eq = lookup_after_replace [OF assms]
  show ?thesis
  proof (cases "lookup t e")
    case None
    then have n: "\<forall>x\<in>set (items t). cmp e x \<noteq> 0" by (simp add: lookup_None_iff)
    from add_new [OF assms n] obtain t' where
      "add t e = Some (Some e, t')" "inv t'" "set (items t') = insert e (set (items t))" by blast
    moreover from this(3) n have "set (items t') = insert e (set (items t) - {x. cmp e x = 0})" by auto
    ultimately show ?thesis using lookup_eq by auto
  next
    case (Some x)
    with assms have x: "x \<in> set (items t)" "cmp e x = 0" by (auto simp: lookup_Some_iff)
    have only: "y = x" if "y \<in> set (items t)" "cmp e y = 0" for y
      using that Some assms lookup_Some_iff by (metis option.inject)
    have add1: "add t e = Some (Some x, t)" by (rule add_old [OF assms x])
    show ?thesis
    proof (cases "x = e")
      case True
      have "set (items t) = insert e (set (items t) - {x. cmp e x = 0})" using x only True by auto
      from lookup_eq [OF assms this] assms add1 True show ?thesis by simp
    next
      case False
      from del_old [OF assms x(1), of x] obtain t2 where
        t2: "del t x = Some (Some x, t2)" "inv t2" "set (items t2) = set (items t) - {x}" by auto
      then have "\<forall>y\<in>set (items t2). cmp e y \<noteq> 0" using only by auto
      from add_new [OF t2(2) this] obtain t3 where
        t3: "add t2 e = Some (Some e, t3)" "inv t3" "set (items t3) = insert e (set (items t2))" by blast
      have "set (items t) - {y. cmp e y = 0} = set (items t) - {x}" using x only by blast
      with t3(3) t2(3) have "set (items t3) = insert e (set (items t) - {y. cmp e y = 0})" by simp
      from lookup_eq [OF t3(2) this] t3(2) add1 False t2(1) t3(1) show ?thesis by simp
    qed
  qed
qed

end

section \<open>The tree is a sorted store\<close>

text \<open>What add, find and delete do to a tree whose content is sorted by its own function.\<close>

definition sorted234 :: "('a \<Rightarrow> 'a \<Rightarrow> int) \<Rightarrow> 'a tree234 \<Rightarrow> bool" where
  "sorted234 cmp t \<longleftrightarrow> wf234 (root t) \<and> cmpfn t = Some cmp \<and>
     sorted_wrt (\<lambda>x y. cmp x y < 0) (inorder (root t))"

context cmp_order
begin

lemma tree_monotone: "sorted234 cmp t \<Longrightarrow> monotone_dir (cmp e) (inorder (root t))"
  by (rule sorted_monotone) (simp add: sorted234_def sorted_cmp_def)

lemma tree_add_cases:
  assumes "sorted234 cmp t"
  shows "(\<exists>x\<in>set (inorder (root t)). cmp e x = 0 \<and> add234 t e = Some (Some x, t)) \<or>
         (\<exists>t'. add234 t e = Some (Some e, t') \<and> sorted234 cmp t' \<and>
            (\<forall>x\<in>set (inorder (root t)). cmp e x \<noteq> 0) \<and>
            set (inorder (root t')) = insert e (set (inorder (root t))))"
proof -
  from assms have "wf234 (root t)" "cmpfn t = Some cmp" by (simp_all add: sorted234_def)
  from add234_correct [where c = cmp and e = e, OF this tree_monotone [OF assms]] show ?thesis
  proof (elim disjE exE conjE)
    fix us vs t'
    assume a: "inorder (root t) = us @ vs" "\<forall>x\<in>set us. cmp e x > 0" "\<forall>x\<in>set vs. cmp e x < 0"
      "add234 t e = Some (Some e, t')" "cmpfn t' = Some cmp" "wf234 (root t')"
      "inorder (root t') = us @ e # vs"
    with assms have "sorted234 cmp t'"
      by (auto simp: sorted234_def sorted_wrt_append cmp_antisym)
    with a show ?thesis by (intro disjI2 exI [of _ t']) auto
  qed blast
qed

lemma tree_find_cases:
  assumes "sorted234 cmp t"
  shows "(\<exists>x i. at (inorder (root t)) i = Some x \<and> cmp e x = 0 \<and>
            findrelpos234 t (Some e) REL234_EQ = Some (Some (x, i))) \<or>
         (\<forall>x\<in>set (inorder (root t)). cmp e x \<noteq> 0) \<and> findrelpos234 t (Some e) REL234_EQ = Some None"
proof -
  from assms have c: "wf234 (root t)" "cmpfn t = Some cmp" by (simp_all add: sorted234_def)
  from findrelpos234_by_correct [OF c(1), of "Some e" cmp REL234_EQ] tree_monotone [OF assms]
  obtain r where "findrelpos234_by t (Some e) cmp REL234_EQ = Some r"
    "rel_result REL234_EQ (Some (cmp e)) (inorder (root t)) r" by auto
  with c(2) show ?thesis
    by (cases r) (auto simp: findrelpos234_def rel_result_def)
qed

lemma tree_find_first:
  assumes "sorted234 cmp t" and "rel = REL234_GT \<or> rel = REL234_GE"
  shows "(\<exists>us x vs. inorder (root t) = us @ x # vs \<and>
            (\<forall>u\<in>set us. \<not> in_relation rel (Some (cmp e)) u) \<and> in_relation rel (Some (cmp e)) x \<and>
            findrelpos234_by t (Some e) cmp rel = Some (Some (x, int (length us)))) \<or>
         (\<forall>x\<in>set (inorder (root t)). \<not> in_relation rel (Some (cmp e)) x) \<and>
            findrelpos234_by t (Some e) cmp rel = Some None"
proof -
  let ?xs = "inorder (root t)" and ?R = "in_relation rel (Some (cmp e))"
  have s: "sorted_cmp ?xs" using assms(1) by (simp add: sorted234_def sorted_cmp_def)
  from findrelpos234_by_correct [of t "Some e" cmp rel] assms(1) tree_monotone [OF assms(1)]
  obtain r where r: "findrelpos234_by t (Some e) cmp rel = Some r" "rel_result rel (Some (cmp e)) ?xs r"
    by (auto simp: sorted234_def)
  show ?thesis
  proof (cases r)
    case None
    with r show ?thesis by (simp add: rel_result_def)
  next
    case (Some p)
    then obtain x i where x: "r = Some (x, i)" "at ?xs i = Some x" "?R x"
      using r(2) by (cases p) (auto simp: rel_result_def)
    from x(2) have i: "0 \<le> i" "i < int (length ?xs)" by (metis at_None_iff linorder_not_le option.distinct(1))+
    with x(2) have split: "?xs = take (nat i) ?xs @ x # drop (Suc (nat i)) ?xs"
      using at_nth [OF i] by (metis id_take_nth_drop nat_less_iff option.inject)
    have "\<not> ?R u" if u: "u \<in> set (take (nat i) ?xs)" for u
    proof
      assume R: "?R u"
      from u obtain j where j: "j < nat i" "?xs ! j = u" by (auto simp: in_set_conv_nth)
      then have "at ?xs (int j) = Some u" using i by (simp add: at_nth)
      with R r(2) x(1) assms(2) j(1) have "is_match (Some (cmp e)) x"
        by (auto simp: rel_result_def reldir_of_def)
      moreover have "cmp u x < 0"
        using s u split by (metis in_set_conv_decomp sorted_cmp_def sorted_wrt_append list.set_intros(1))
      ultimately have "cmp u e < 0"
        using cmp_less_le_trans [of u x e] cmp_eq_sym [of e x] by (simp add: is_match_def)
      with R assms(2) show False using cmp_antisym [of u e] by auto
    qed
    with split x r(1) i show ?thesis
      by (intro disjI1 exI [of _ "take (nat i) ?xs"] exI [of _ x] exI [of _ "drop (Suc (nat i)) ?xs"]) auto
  qed
qed

lemma tree_same_key:
  assumes "sorted234 cmp t" and "x \<in> set (inorder (root t))" and "y \<in> set (inorder (root t))"
    and "cmp e x = 0" and "cmp e y = 0"
  shows "x = y"
proof -
  have "cmp x y = 0"
    using assms(4,5) cmp_trans [of x e y] cmp_trans [of y e x] cmp_antisym [of x y] cmp_eq_sym [of e]
    by (metis less_le linorder_not_less order_refl)
  with sorted_unique [of "inorder (root t)" x y] assms show ?thesis
    by (simp add: sorted234_def sorted_cmp_def)
qed

lemma sorted234_remove:
  assumes "sorted234 cmp t" and "wf234 (root t')" and "cmpfn t' = cmpfn t"
    and "inorder (root t') = remove_at i (inorder (root t))" and "at (inorder (root t)) i = Some x"
  shows "sorted234 cmp t' \<and> set (inorder (root t')) = set (inorder (root t)) - {x}"
proof -
  let ?xs = "inorder (root t)"
  from assms(5) have i: "0 \<le> i" "i < int (length ?xs)" by (metis at_None_iff linorder_not_le option.distinct(1))+
  then have x: "?xs ! nat i = x" using at_nth assms(5) by fastforce
  have split: "?xs = take (nat i) ?xs @ x # drop (Suc (nat i)) ?xs"
    using i x by (metis id_take_nth_drop nat_less_iff)
  have s: "sorted_cmp ?xs" using assms(1) by (simp add: sorted234_def sorted_cmp_def)
  then have "distinct ?xs" by (rule sorted_distinct)
  then have "distinct (take (nat i) ?xs @ x # drop (Suc (nat i)) ?xs)" using split by simp
  moreover have "remove_at i ?xs = take (nat i) ?xs @ drop (Suc (nat i)) ?xs"
    using i by (simp add: remove_at_def nat_add_distrib)
  moreover have "sorted_cmp (take (nat i) ?xs @ x # drop (Suc (nat i)) ?xs)" using s split by simp
  moreover have "set ?xs = set (take (nat i) ?xs @ x # drop (Suc (nat i)) ?xs)" using split by simp
  ultimately show ?thesis
    using assms by (auto simp: sorted234_def sorted_cmp_def sorted_wrt_append)
qed

lemma tree_del:
  assumes "sorted234 cmp t" and "x \<in> set (inorder (root t))" and "cmp e x = 0"
  shows "\<exists>t'. del234 t e = Some (Some x, t') \<and> sorted234 cmp t' \<and>
           set (inorder (root t')) = set (inorder (root t)) - {x}"
proof -
  from tree_find_cases [OF assms(1), of e] assms(2,3) obtain y i where
    y: "at (inorder (root t)) i = Some y" "cmp e y = 0"
      "findrelpos234 t (Some e) REL234_EQ = Some (Some (y, i))" by blast
  have "y = x" using tree_same_key [OF assms(1)] at_mem [OF y(1)] assms y(2) by blast
  from y(1) have "0 \<le> i" "i < int (length (inorder (root t)))"
    by (metis at_None_iff linorder_not_le option.distinct(1))+
  from delpos234_internal_correct [OF _ this] assms(1) y(1) obtain t' where
    "delpos234_internal t i = Some (Some y, t')" "wf234 (root t')"
    "inorder (root t') = remove_at i (inorder (root t))" "cmpfn t' = cmpfn t"
    by (auto simp: sorted234_def)
  with sorted234_remove [OF assms(1) this(2,4,3) y(1)] y(3) \<open>y = x\<close> show ?thesis
    by (simp add: del234_def)
qed

lemma tree_delnth_0:
  assumes "sorted234 cmp t"
  shows "case inorder (root t) of [] \<Rightarrow> delpos234 t 0 = Some (None, t)
         | x # xs \<Rightarrow> \<exists>t'. delpos234 t 0 = Some (Some x, t') \<and> sorted234 cmp t' \<and> inorder (root t') = xs"
proof (cases "inorder (root t)")
  case Nil
  with delpos234_correct [of t 0] assms show ?thesis by (simp add: sorted234_def)
next
  case (Cons x xs)
  with delpos234_correct [of t 0] assms obtain t' where
    t': "delpos234 t 0 = Some (Some x, t')" "wf234 (root t')"
      "inorder (root t') = remove_at 0 (inorder (root t))" "cmpfn t' = cmpfn t"
    by (auto simp: sorted234_def)
  with sorted234_remove [OF assms t'(2,4,3)] Cons show ?thesis by (simp add: remove_at_def)
qed

end

sublocale cmp_order \<subseteq> tree: sorted_store cmp "sorted234 cmp" "\<lambda>t. inorder (root t)"
    add234 del234 find234 index234 delpos234
proof unfold_locales
  show "sorted234 cmp t \<Longrightarrow> sorted_cmp (inorder (root t))" for t
    by (simp add: sorted234_def sorted_cmp_def)
next
  show "add234 t e = Some (Some x, t)"
    if "sorted234 cmp t" "x \<in> set (inorder (root t))" "cmp e x = 0" for t x e
  proof -
    from tree_add_cases [OF that(1), of e] that(2,3) obtain y where
      y: "y \<in> set (inorder (root t))" "cmp e y = 0" "add234 t e = Some (Some y, t)" by blast
    with tree_same_key [OF that(1,2) y(1) that(3) y(2)] show ?thesis by simp
  qed
next
  show "\<exists>t'. add234 t e = Some (Some e, t') \<and> sorted234 cmp t' \<and>
      set (inorder (root t')) = insert e (set (inorder (root t)))"
    if "sorted234 cmp t" "\<forall>x\<in>set (inorder (root t)). cmp e x \<noteq> 0" for t e
    using tree_add_cases [OF that(1), of e] that by auto
next
  show "\<exists>t'. del234 t e = Some (Some x, t') \<and> sorted234 cmp t' \<and>
      set (inorder (root t')) = set (inorder (root t)) - {x}"
    if "sorted234 cmp t" "x \<in> set (inorder (root t))" "cmp e x = 0" for t x e
    using tree_del [OF that] .
next
  show "del234 t e = Some (None, t)"
    if "sorted234 cmp t" "\<forall>x\<in>set (inorder (root t)). cmp e x \<noteq> 0" for t e
    using tree_find_cases [OF that(1), of e] that at_mem by (fastforce simp: del234_def)
next
  show "find234 t e = Some (Some x)"
    if "sorted234 cmp t" "x \<in> set (inorder (root t))" "cmp e x = 0" for t x e
  proof -
    from tree_find_cases [OF that(1), of e] that(2,3) obtain y i where
      y: "at (inorder (root t)) i = Some y" "cmp e y = 0"
        "findrelpos234 t (Some e) REL234_EQ = Some (Some (y, i))" by blast
    with tree_same_key [OF that(1,2) at_mem [OF y(1)] that(3) y(2)] show ?thesis
      by (simp add: find234_def)
  qed
next
  show "find234 t e = Some None"
    if "sorted234 cmp t" "\<forall>x\<in>set (inorder (root t)). cmp e x \<noteq> 0" for t e
    using tree_find_cases [OF that(1), of e] that at_mem by (fastforce simp: find234_def)
next
  show "sorted234 cmp t \<Longrightarrow> index234 t i = at (inorder (root t)) i" for t i
    by (rule index234_at) (simp add: sorted234_def)
next
  show "sorted234 cmp t \<Longrightarrow> (case inorder (root t) of [] \<Rightarrow> delpos234 t 0 = Some (None, t)
      | x # xs \<Rightarrow> \<exists>t'. delpos234 t 0 = Some (Some x, t') \<and> sorted234 cmp t' \<and> inorder (root t') = xs)" for t
    by (rule tree_delnth_0)
qed

end
