(* ===== verification/Tree_Scripts.thy ===== *)
theory Tree_Scripts
  imports Sorted_Tree
begin

text \<open>
  The abstract specification of \<^verbatim>\<open>tree234.c\<close> and its refinement: whole sequences of calls
  on a tree give the results, and leave the content, of the same calls on a plain list. A sorted
  tree is specified by an ordered list (\<open>spec_op\<close>), an unsorted one by a list with insertion and
  deletion by index (\<open>spec_pos\<close>), and the relative searches by the first or the last element of
  the list that stands in the relation (\<open>spec_find\<close>).
\<close>

section \<open>Sorted trees\<close>

datatype 'a tree_op = Add 'a | Del 'a | Find 'a | Nth int | DelNth int

fun run_op :: "'a tree234 \<Rightarrow> 'a tree_op \<Rightarrow> ('a option \<times> 'a tree234) option" where
  "run_op t (Add e) = add234 t e"
| "run_op t (Del e) = del234 t e"
| "run_op t (Find e) = map_option (\<lambda>r. (r, t)) (find234 t e)"
| "run_op t (Nth i) = Some (index234 t i, t)"
| "run_op t (DelNth i) = delpos234 t i"

text \<open>The specification: an ordered list without two elements that compare equal.\<close>

definition match :: "('a \<Rightarrow> 'a \<Rightarrow> int) \<Rightarrow> 'a \<Rightarrow> 'a list \<Rightarrow> 'a option" where
  "match cmp e xs = List.find (\<lambda>x. cmp e x = 0) xs"

fun spec_op :: "('a \<Rightarrow> 'a \<Rightarrow> int) \<Rightarrow> 'a list \<Rightarrow> 'a tree_op \<Rightarrow> ('a option \<times> 'a list) option" where
  "spec_op cmp xs (Add e) = Some
     (case match cmp e xs of
        Some x \<Rightarrow> (Some x, xs)
      | None \<Rightarrow> (Some e, filter (\<lambda>x. cmp x e < 0) xs @ e # filter (\<lambda>x. cmp x e > 0) xs))"
| "spec_op cmp xs (Del e) = Some (match cmp e xs, filter (\<lambda>x. cmp e x \<noteq> 0) xs)"
| "spec_op cmp xs (Find e) = Some (match cmp e xs, xs)"
| "spec_op cmp xs (Nth i) = Some (at xs i, xs)"
| "spec_op cmp xs (DelNth i) = Some (at xs i, if at xs i = None then xs else remove_at i xs)"

lemma spec_op_defined: "\<exists>r ys. spec_op cmp xs p = Some (r, ys)"
  by (cases p) auto

lemma spec_ops_defined: "\<exists>rs ys. run_ops (spec_op cmp) xs ps = Some (rs, ys)"
proof (induction ps arbitrary: xs)
  case (Cons p ps)
  obtain r zs where "spec_op cmp xs p = Some (r, zs)" using spec_op_defined by blast
  moreover obtain rs ys where "run_ops (spec_op cmp) zs ps = Some (rs, ys)" using Cons.IH by blast
  ultimately show ?case by simp
qed simp

context cmp_order
begin

lemma tree_match: "sorted234 cmp t \<Longrightarrow> match cmp e (inorder (root t)) = tree.lookup t e"
  by (simp add: match_def tree.lookup_def)

lemma filter_matches:
  assumes "sorted_cmp xs" and "x \<in> set xs" and "cmp e x = 0"
  shows "set (filter (\<lambda>y. cmp e y \<noteq> 0) xs) = set xs - {x}"
proof -
  have "y = x" if "y \<in> set xs" "cmp e y = 0" for y
  proof -
    have "cmp y x = 0"
      using that(2) assms(3) cmp_trans [of y e x] cmp_trans [of x e y] cmp_antisym [of x y]
        cmp_antisym [of y e] cmp_antisym [of x e] cmp_antisym [of y x] cmp_antisym [of e y] cmp_antisym [of e x]
      by linarith
    with sorted_unique [OF assms(1) that(1) assms(2)] show ?thesis by simp
  qed
  with assms(3) show ?thesis by auto
qed

lemma sorted_filter: "sorted_cmp xs \<Longrightarrow> sorted_cmp (filter P xs)"
  by (simp add: sorted_cmp_def sorted_wrt_filter)

lemma sorted_insert:
  assumes "sorted_cmp xs"
  shows "sorted_cmp (filter (\<lambda>x. cmp x e < 0) xs @ e # filter (\<lambda>x. cmp x e > 0) xs)"
  using sorted_filter [OF assms] cmp_less_le_trans cmp_antisym
  by (auto simp: sorted_cmp_def sorted_wrt_append) (metis less_imp_le)

lemma run_add_spec:
  assumes "sorted234 cmp t"
  shows "\<exists>r ys u. spec_op cmp (inorder (root t)) (Add e) = Some (r, ys) \<and> add234 t e = Some (r, u) \<and>
           sorted234 cmp u \<and> inorder (root u) = ys"
proof (cases "tree.lookup t e")
  case None
  let ?xs = "inorder (root t)"
  have s: "sorted_cmp ?xs" using assms by (simp add: sorted234_def sorted_cmp_def)
  from None have n: "\<forall>x\<in>set ?xs. cmp e x \<noteq> 0" by (simp add: tree.lookup_None_iff)
  from tree.add_new [OF assms n] obtain u where
    u: "add234 t e = Some (Some e, u)" "sorted234 cmp u" "set (inorder (root u)) = insert e (set ?xs)" by blast
  have "cmp x e < 0 \<or> cmp x e > 0" if "x \<in> set ?xs" for x
    using n that cmp_eq_sym [of e x] by fastforce
  then have "set (inorder (root u)) = set (filter (\<lambda>x. cmp x e < 0) ?xs @ e # filter (\<lambda>x. cmp x e > 0) ?xs)"
    using u(3) by auto
  from sorted_set_unique [OF _ sorted_insert [OF s] this] u(2) u(1) None assms show ?thesis
    by (simp add: tree_match sorted234_def sorted_cmp_def)
next
  case (Some x)
  then have "x \<in> set (inorder (root t))" "cmp e x = 0" using assms by (simp_all add: tree.lookup_Some_iff)
  with tree.add_old [OF assms this] assms Some show ?thesis by (simp add: tree_match)
qed

lemma run_del_spec:
  assumes "sorted234 cmp t"
  shows "\<exists>r ys u. spec_op cmp (inorder (root t)) (Del e) = Some (r, ys) \<and> del234 t e = Some (r, u) \<and>
           sorted234 cmp u \<and> inorder (root u) = ys"
proof (cases "tree.lookup t e")
  case None
  then have n: "\<forall>x\<in>set (inorder (root t)). cmp e x \<noteq> 0" by (simp add: tree.lookup_None_iff)
  then have "filter (\<lambda>x. cmp e x \<noteq> 0) (inorder (root t)) = inorder (root t)" by simp
  with tree.del_none [OF assms n] assms None show ?thesis by (simp add: tree_match)
next
  case (Some x)
  let ?xs = "inorder (root t)"
  have s: "sorted_cmp ?xs" using assms by (simp add: sorted234_def sorted_cmp_def)
  from Some have x: "x \<in> set ?xs" "cmp e x = 0" using assms by (simp_all add: tree.lookup_Some_iff)
  from tree.del_old [OF assms x] obtain u where
    u: "del234 t e = Some (Some x, u)" "sorted234 cmp u" "set (inorder (root u)) = set ?xs - {x}" by blast
  then have "set (inorder (root u)) = set (filter (\<lambda>x. cmp e x \<noteq> 0) ?xs)"
    by (simp only: filter_matches [OF s x])
  from sorted_set_unique [OF _ sorted_filter [OF s] this] u(1,2) assms Some show ?thesis
    by (simp add: tree_match sorted234_def sorted_cmp_def)
qed

lemma run_delnth_spec:
  assumes "sorted234 cmp t"
  shows "\<exists>r ys u. spec_op cmp (inorder (root t)) (DelNth i) = Some (r, ys) \<and> delpos234 t i = Some (r, u) \<and>
           sorted234 cmp u \<and> inorder (root u) = ys"
proof (cases "at (inorder (root t)) i")
  case None
  then have "\<not> (0 \<le> i \<and> i < int (length (inorder (root t))))" by (auto simp: at_None_iff)
  with delpos234_correct [of t i] None assms show ?thesis by (auto simp: sorted234_def)
next
  case (Some x)
  then have "0 \<le> i \<and> i < int (length (inorder (root t)))"
    by (metis at_None_iff linorder_not_le option.distinct(1))
  with delpos234_correct [of t i] Some assms obtain u where
    u: "delpos234 t i = Some (Some x, u)" "wf234 (root u)"
      "inorder (root u) = remove_at i (inorder (root t))" "cmpfn u = cmpfn t" by (auto simp: sorted234_def)
  with sorted234_remove [OF assms u(2,4,3) Some] assms Some show ?thesis by simp
qed

lemma run_op_spec:
  assumes "sorted234 cmp t" and "spec_op cmp (inorder (root t)) p = Some (r, ys)"
  shows "\<exists>u. run_op t p = Some (r, u) \<and> sorted234 cmp u \<and> inorder (root u) = ys"
proof (cases p)
  case (Add e)
  with run_add_spec [OF assms(1), of e] assms(2) show ?thesis by auto
next
  case (Del e)
  with run_del_spec [OF assms(1), of e] assms(2) show ?thesis by auto
next
  case (Find e)
  with assms show ?thesis by (auto simp: tree_match tree.find_lookup)
next
  case (Nth i)
  with assms show ?thesis by (auto simp: tree.nth_at)
next
  case (DelNth i)
  with run_delnth_spec [OF assms(1), of i] assms(2) show ?thesis by auto
qed

end

section \<open>Searching by relation\<close>

text \<open>The first and the last element with a property, with their positions.\<close>

definition first_at :: "('a \<Rightarrow> bool) \<Rightarrow> 'a list \<Rightarrow> ('a \<times> int) option" where
  "first_at P xs = map_option (\<lambda>i. (xs ! i, int i)) (List.find (\<lambda>i. P (xs ! i)) [0..<length xs])"

definition last_at :: "('a \<Rightarrow> bool) \<Rightarrow> 'a list \<Rightarrow> ('a \<times> int) option" where
  "last_at P xs = map_option (\<lambda>i. (xs ! i, int i)) (List.find (\<lambda>i. P (xs ! i)) (rev [0..<length xs]))"

definition spec_find :: "rel234 \<Rightarrow> ('a \<Rightarrow> int) option \<Rightarrow> 'a list \<Rightarrow> ('a \<times> int) option" where
  "spec_find rel q xs =
     (if rel = REL234_LT \<or> rel = REL234_LE then last_at (in_relation rel q) xs
      else first_at (in_relation rel q) xs)"

lemma first_at_Some:
  assumes "at xs i = Some x" and "P x" and "\<And>j y. \<lbrakk>at xs j = Some y; P y\<rbrakk> \<Longrightarrow> i \<le> j"
  shows "first_at P xs = Some (x, i)"
proof -
  from assms(1) have i: "0 \<le> i" "i < int (length xs)" by (metis at_None_iff linorder_not_le option.distinct(1))+
  then have x: "xs ! nat i = x" using at_nth [OF i] assms(1) by simp
  have "\<not> P (xs ! j)" if "j < nat i" for j
    using assms(3) [of "int j" "xs ! j"] that i by (auto simp: at_nth)
  with i x assms(2) have "List.find (\<lambda>i. P (xs ! i)) [0..<length xs] = Some (nat i)"
    by (auto simp: find_Some_iff intro!: exI [of _ "nat i"])
  with i x show ?thesis by (simp add: first_at_def)
qed

lemma last_at_Some:
  assumes "at xs i = Some x" and "P x" and "\<And>j y. \<lbrakk>at xs j = Some y; P y\<rbrakk> \<Longrightarrow> j \<le> i"
  shows "last_at P xs = Some (x, i)"
proof -
  from assms(1) have i: "0 \<le> i" "i < int (length xs)" by (metis at_None_iff linorder_not_le option.distinct(1))+
  then have x: "xs ! nat i = x" using at_nth [OF i] assms(1) by simp
  let ?n = "length xs" and ?k = "length xs - 1 - nat i"
  have "\<not> P (xs ! j)" if "nat i < j" "j < ?n" for j
    using assms(3) [of "int j" "xs ! j"] that by (auto simp: at_nth)
  then have "\<not> P (xs ! (rev [0..<?n] ! j))" if "j < ?k" for j
    using that i by (simp add: rev_nth)
  with i x assms(2) have "List.find (\<lambda>i. P (xs ! i)) (rev [0..<?n]) = Some (nat i)"
    unfolding find_Some_iff by (intro exI [of _ ?k]) (auto simp: rev_nth)
  with i x show ?thesis by (simp add: last_at_def)
qed

lemma none_at: "\<forall>x\<in>set xs. \<not> P x \<Longrightarrow> first_at P xs = None \<and> last_at P xs = None"
  by (simp add: first_at_def last_at_def find_None_iff)

context cmp_order
begin

lemma rel_result_spec:
  assumes "sorted_cmp xs" and "rel_result rel (map_option cmp e) xs r"
  shows "r = spec_find rel (map_option cmp e) xs"
proof (cases r)
  case None
  with assms(2) show ?thesis by (auto simp: rel_result_def spec_find_def none_at)
next
  case (Some p)
  obtain x i where p: "p = (x, i)" by (cases p)
  let ?R = "in_relation rel (map_option cmp e)"
  from assms(2) Some p have x: "at xs i = Some x" "?R x"
    and closest: "\<And>j y. \<lbrakk>\<not> is_match (map_option cmp e) x; at xs j = Some y; ?R y\<rbrakk> \<Longrightarrow>
        (if reldir_of rel < 0 then j \<le> i else i \<le> j)" by (auto simp: rel_result_def)
  have "if reldir_of rel < 0 then j \<le> i else i \<le> j" if y: "at xs j = Some y" "?R y" for j y
  proof (cases "is_match (map_option cmp e) x")
    case False
    with closest y show ?thesis by blast
  next
    case True
    then obtain k where k: "e = Some k" "cmp k x = 0" by (cases e) (auto simp: is_match_def)
    have r: "0 \<le> i" "i < int (length xs)" "0 \<le> j" "j < int (length xs)"
      using x(1) y(1) by (metis at_None_iff linorder_not_le option.distinct(1))+
    then have v: "xs ! nat i = x" "xs ! nat j = y" using x(1) y(1) by (simp_all add: at_nth)
    have "cmp k y < 0" if "i < j"
    proof -
      have "cmp x y < 0" using assms(1) that r v unfolding sorted_cmp_def sorted_wrt_iff_nth_less
        by (metis nat_less_iff nat_mono_iff order_le_less_trans)
      with k(2) show ?thesis using cmp_le_less_trans [of k x y] by simp
    qed
    moreover have "cmp k y > 0" if "j < i"
    proof -
      have "cmp y x < 0" using assms(1) that r v unfolding sorted_cmp_def sorted_wrt_iff_nth_less
        by (metis nat_less_iff nat_mono_iff order_le_less_trans)
      then show ?thesis using cmp_less_le_trans [of y x k] cmp_eq_sym [of k x] k(2) cmp_antisym [of y k] by simp
    qed
    ultimately show ?thesis using y(2) k(1)
      by (cases i j rule: linorder_cases; cases rel) (auto simp: reldir_of_def)
  qed
  with x show ?thesis unfolding Some p
    by (cases rel) (auto simp: spec_find_def reldir_of_def intro!: first_at_Some [symmetric] last_at_Some [symmetric])
qed

lemma findrelpos_spec:
  assumes "sorted234 cmp t" and "e = None \<Longrightarrow> rel = REL234_LT \<or> rel = REL234_GT"
  shows "findrelpos234 t e rel = Some (spec_find rel (map_option cmp e) (inorder (root t)))"
proof -
  from findrelpos234_by_correct [of t e cmp rel] tree_monotone [OF assms(1)] assms
  obtain r where "findrelpos234_by t e cmp rel = Some r"
    "rel_result rel (map_option cmp e) (inorder (root t)) r" by (auto simp: sorted234_def)
  with rel_result_spec [of "inorder (root t)" rel e r] assms(1) show ?thesis
    by (simp add: findrelpos234_def sorted234_def sorted_cmp_def)
qed

end

section \<open>Unsorted trees\<close>

datatype 'a pos_op = InsertAt int 'a | DeleteAt int | ReadAt int

fun run_pos :: "'a tree234 \<Rightarrow> 'a pos_op \<Rightarrow> ('a option \<times> 'a tree234) option" where
  "run_pos t (InsertAt i e) = addpos234 t e i"
| "run_pos t (DeleteAt i) = delpos234 t i"
| "run_pos t (ReadAt i) = Some (index234 t i, t)"

fun spec_pos :: "'a list \<Rightarrow> 'a pos_op \<Rightarrow> ('a option \<times> 'a list) option" where
  "spec_pos xs (InsertAt i e) =
     (if i < 0 then Some (None, xs)
      else if i \<le> int (length xs) then Some (Some e, take (nat i) xs @ e # drop (nat i) xs)
      else None)"
| "spec_pos xs (DeleteAt i) = Some (at xs i, if at xs i = None then xs else remove_at i xs)"
| "spec_pos xs (ReadAt i) = Some (at xs i, xs)"

definition pos_refines :: "'a tree234 \<Rightarrow> 'a list \<Rightarrow> bool" where
  "pos_refines t xs \<longleftrightarrow> wf234 (root t) \<and> cmpfn t = None \<and> inorder (root t) = xs"

lemma run_pos_spec:
  assumes "pos_refines t xs" and "spec_pos xs p = Some (r, ys)"
  shows "\<exists>u. run_pos t p = Some (r, u) \<and> pos_refines u ys"
proof (cases p)
  case (InsertAt i e)
  show ?thesis
  proof (cases "i < 0")
    case False
    with assms InsertAt have "0 \<le> i" "i \<le> int (length (inorder (root t)))"
      by (auto simp: pos_refines_def split: if_splits)
    with addpos234_correct [of t i e] assms InsertAt False show ?thesis
      by (auto simp: pos_refines_def split: if_splits)
  qed (use assms InsertAt in \<open>auto simp: addpos234_def\<close>)
next
  case (DeleteAt i)
  show ?thesis
  proof (cases "at xs i")
    case None
    then have "\<not> (0 \<le> i \<and> i < int (length xs))" by (auto simp: at_None_iff)
    with delpos234_correct [of t i] None assms DeleteAt show ?thesis by (auto simp: pos_refines_def)
  next
    case (Some x)
    then have "0 \<le> i \<and> i < int (length xs)" by (metis at_None_iff linorder_not_le option.distinct(1))
    with delpos234_correct [of t i] Some assms DeleteAt show ?thesis by (auto simp: pos_refines_def)
  qed
next
  case (ReadAt i)
  with assms show ?thesis by (auto simp: pos_refines_def index234_at)
qed

section \<open>What the container promises\<close>

text \<open>
  C1: any sequence of insertions, deletions by key and by position, lookups by key and by position,
  started from an empty sorted tree, returns what the same sequence returns on an ordered list and
  leaves that list in the tree, which is balanced and has the right counts throughout.
\<close>

theorem sorted_tree_refines_list:
  assumes "cmp_order cmp"
  shows "\<exists>rs xs t. run_ops (spec_op cmp) [] ops = Some (rs, xs) \<and>
           run_ops run_op (newtree234 (Some cmp)) ops = Some (rs, t) \<and>
           sorted234 cmp t \<and> inorder (root t) = xs \<and> count234 t = int (length xs)"
proof -
  obtain rs xs where spec: "run_ops (spec_op cmp) [] ops = Some (rs, xs)"
    using spec_ops_defined by blast
  have "sorted234 cmp (newtree234 (Some cmp)) \<and> inorder (root (newtree234 (Some cmp))) = []"
    by (simp add: sorted234_def newtree234_def)
  from run_ops_simulation [where R = "\<lambda>t xs. sorted234 cmp t \<and> inorder (root t) = xs" and f = run_op,
      OF _ this spec] cmp_order.run_op_spec [OF assms]
  obtain t where t: "run_ops run_op (newtree234 (Some cmp)) ops = Some (rs, t)" "sorted234 cmp t"
    "inorder (root t) = xs" by blast
  then have "count234 t = int (length xs)"
    by (auto simp: count234_def sorted234_def countnode_wf)
  with spec t show ?thesis by blast
qed

lemma int_order: "cmp_order (\<lambda>x y :: int. x - y)"
  by unfold_locales auto

theorem sorted_tree_refines_list_witness:
  "\<exists>rs t. run_ops run_op (newtree234 (Some (\<lambda>x y :: int. x - y)))
      [Add 5, Add 3, Add 9, Add 3, Find 9, DelNth 0, Del 9, Nth 0] = Some (rs, t) \<and>
      rs = [Some 5, Some 3, Some 9, Some 3, Some 9, Some 3, Some 9, Some 5] \<and> inorder (root t) = [5]"
  using sorted_tree_refines_list [OF int_order, of "[Add 5, Add 3, Add 9, Add 3, Find 9, DelNth 0, Del 9, Nth 0]"]
  by (auto simp: match_def remove_at_def)

text \<open>
  C36: the same for a tree without a comparison function, whose elements are inserted, deleted and
  read by position: as long as no insertion position is beyond the end, the tree does what the
  list does.
\<close>

theorem unsorted_tree_refines_list:
  assumes "run_ops spec_pos [] ops = Some (rs, xs)"
  shows "\<exists>t. run_ops run_pos (newtree234 None) ops = Some (rs, t) \<and> wf234 (root t) \<and>
           inorder (root t) = xs"
proof -
  have "pos_refines (newtree234 None) []" by (simp add: pos_refines_def newtree234_def)
  then obtain t where "run_ops run_pos (newtree234 None) ops = Some (rs, t)" "pos_refines t xs"
    using run_ops_simulation [where R = pos_refines and f = run_pos and g = spec_pos] run_pos_spec assms
    by metis
  then show ?thesis by (auto simp: pos_refines_def)
qed

theorem unsorted_tree_refines_list_witness:
  "\<exists>t. run_ops run_pos (newtree234 None)
      [InsertAt 0 (7 :: int), InsertAt 0 4, InsertAt 1 5, DeleteAt 0, ReadAt 1, InsertAt (-1) 3]
      = Some ([Some 7, Some 4, Some 5, Some 4, Some 7, None], t) \<and> wf234 (root t) \<and> inorder (root t) = [5, 7]"
  by (rule unsorted_tree_refines_list) (simp add: remove_at_def)

text \<open>
  C14: the relative searches. On a tree sorted by a total preorder, searching for the closest
  element equal to, before or after a key (or, with the null key, for the last or the first one)
  ends, and finds the element and the position that a scan of the list finds.
\<close>

theorem findrelpos_is_list_search:
  assumes "cmp_order cmp" and "sorted234 cmp t"
    and "e = None \<Longrightarrow> rel = REL234_LT \<or> rel = REL234_GT"
  shows "findrelpos234 t e rel = Some (spec_find rel (map_option cmp e) (inorder (root t)))"
  using assms by (rule cmp_order.findrelpos_spec)

theorem findrelpos_is_list_search_witness:
  "findrelpos234 \<lparr>root = N2 (N2 Null 0 10 Null 0) 1 20 (N2 Null 0 30 Null 0) 1, cmpfn = Some (\<lambda>x y. x - y)\<rparr>
     (Some (20 :: int)) REL234_LT = Some (Some (10, 0))"
proof -
  let ?t = "\<lparr>root = N2 (N2 Null 0 10 Null 0) 1 20 (N2 Null 0 (30 :: int) Null 0) 1, cmpfn = Some (\<lambda>x y. x - y)\<rparr>"
  have "sorted234 (\<lambda>x y :: int. x - y) ?t" by (simp add: sorted234_def wf234_def)
  from findrelpos_is_list_search [OF int_order this, of "Some 20" REL234_LT] show ?thesis
    by (simp add: spec_find_def last_at_def)
qed

end
