(* ===== verification/Marshal.thy ===== *)
theory Marshal
  imports Prelude
begin

text \<open>
  The marshalling layer: fixed-width integers in network byte order (\<^verbatim>\<open>misc.h\<close>), the writing half
  \<^verbatim>\<open>BinarySink\<close> and the reading half \<^verbatim>\<open>BinarySource\<close> (\<^verbatim>\<open>marshal.h\<close>,
  \<^verbatim>\<open>utils/marshal.c\<close>). A sink is any object with a write function; its contract is the
  locale \<open>binary_sink\<close>, inside which the writing functions are shown to append their
  encodings. The string buffer and the buffer chain interpret it.
\<close>

unbundle bit_operations_syntax

section \<open>Integers in network byte order\<close>

definition put_16bit_msb_first :: "16 word \<Rightarrow> bytes" where
  "put_16bit_msb_first v = [ucast (drop_bit 8 v), ucast v]"

definition put_32bit_msb_first :: "uint32 \<Rightarrow> bytes" where
  "put_32bit_msb_first v =
     [ucast (drop_bit 24 v), ucast (drop_bit 16 v), ucast (drop_bit 8 v), ucast v]"

definition put_64bit_msb_first :: "uint64 \<Rightarrow> bytes" where
  "put_64bit_msb_first v =
     [ucast (drop_bit 56 v), ucast (drop_bit 48 v), ucast (drop_bit 40 v), ucast (drop_bit 32 v),
      ucast (drop_bit 24 v), ucast (drop_bit 16 v), ucast (drop_bit 8 v), ucast v]"

definition get_16bit_msb_first :: "bytes \<Rightarrow> 16 word" where
  "get_16bit_msb_first p = ucast (p ! 1) OR push_bit 8 (ucast (p ! 0))"

definition get_32bit_msb_first :: "bytes \<Rightarrow> uint32" where
  "get_32bit_msb_first p =
     ucast (p ! 3) OR push_bit 8 (ucast (p ! 2)) OR
     push_bit 16 (ucast (p ! 1)) OR push_bit 24 (ucast (p ! 0))"

definition get_64bit_msb_first :: "bytes \<Rightarrow> uint64" where
  "get_64bit_msb_first p =
     ucast (p ! 7) OR push_bit 8 (ucast (p ! 6)) OR
     push_bit 16 (ucast (p ! 5)) OR push_bit 24 (ucast (p ! 4)) OR
     push_bit 32 (ucast (p ! 3)) OR push_bit 40 (ucast (p ! 2)) OR
     push_bit 48 (ucast (p ! 1)) OR push_bit 56 (ucast (p ! 0))"

lemma nth_numeral_Cons: "(x # xs) ! numeral k = xs ! (pred_numeral k)"
  by (simp add: nth_Cons')

text \<open>Which byte a bit position falls in.\<close>

lemma octet: "\<exists>q m. n = 8 * q + m \<and> m < (8 :: nat)"
  by (rule exI [of _ "n div 8"], rule exI [of _ "n mod 8"]) simp

lemma less_8_cases:
  "q < 8 \<Longrightarrow> q = 0 \<or> q = 1 \<or> q = 2 \<or> q = 3 \<or> q = 4 \<or> q = 5 \<or> q = 6 \<or> q = (7 :: nat)"
  by linarith

lemma get_put_16 [simp]: "get_16bit_msb_first (put_16bit_msb_first v) = v"
proof (rule bit_word_eqI)
  fix n assume n: "n < LENGTH(16)"
  obtain q m where q: "n = 8 * q + m" "m < 8" using octet by blast
  with n have "q = 0 \<or> q = 1" by simp linarith
  with q show "bit (get_16bit_msb_first (put_16bit_msb_first v)) n = bit v n"
    unfolding get_16bit_msb_first_def put_16bit_msb_first_def
    by (elim disjE) (simp_all add: bit_simps)
qed

lemma get_put_32 [simp]: "get_32bit_msb_first (put_32bit_msb_first v) = v"
proof (rule bit_word_eqI)
  fix n assume n: "n < LENGTH(32)"
  obtain q m where q: "n = 8 * q + m" "m < 8" using octet by blast
  with n have "q = 0 \<or> q = 1 \<or> q = 2 \<or> q = 3" by simp linarith
  with q show "bit (get_32bit_msb_first (put_32bit_msb_first v)) n = bit v n"
    unfolding get_32bit_msb_first_def put_32bit_msb_first_def
    by (elim disjE) (simp_all add: bit_simps)
qed

lemma get_put_64 [simp]: "get_64bit_msb_first (put_64bit_msb_first v) = v"
proof (rule bit_word_eqI)
  fix n assume n: "n < LENGTH(64)"
  obtain q m where q: "n = 8 * q + m" "m < 8" using octet by blast
  with n have "q < 8" by simp
  from less_8_cases [OF this] q show "bit (get_64bit_msb_first (put_64bit_msb_first v)) n = bit v n"
    unfolding get_64bit_msb_first_def put_64bit_msb_first_def
    by (elim disjE) (simp_all add: bit_simps)
qed

lemma length_put_msb [simp]:
  "length (put_16bit_msb_first v) = 2" "length (put_32bit_msb_first w) = 4"
  "length (put_64bit_msb_first x) = 8"
  by (simp_all add: put_16bit_msb_first_def put_32bit_msb_first_def put_64bit_msb_first_def)

section \<open>Writing: the sink\<close>

text \<open>
  A sink's write function takes the sink and the data and gives the sink afterwards
  (\<open>None\<close>: a failed assertion). C strings are byte lists without the terminating zero;
  \<open>cstring\<close> says that no byte of them is zero.
\<close>

type_synonym 's sink_write = "'s \<Rightarrow> bytes \<Rightarrow> 's option"

definition cstring :: "bytes \<Rightarrow> bool" where
  "cstring s \<longleftrightarrow> 0 \<notin> set s"

definition put_data :: "'s sink_write \<Rightarrow> 's \<Rightarrow> bytes \<Rightarrow> 's option" where
  "put_data wr bs data = wr bs data"

function put_padding :: "'s sink_write \<Rightarrow> 's \<Rightarrow> nat \<Rightarrow> byte \<Rightarrow> 's option" where
  "put_padding wr bs len padbyte =
     (if len > 0 then
        let thislen = (if len < 16 then len else 16) in
        case wr bs (replicate thislen padbyte) of
          None \<Rightarrow> None
        | Some bs \<Rightarrow> put_padding wr bs (len - thislen) padbyte
      else Some bs)"
  by pat_completeness auto
termination by (relation "measure (\<lambda>(_, _, len, _). len)") auto

declare put_padding.simps [simp del]

definition put_byte :: "'s sink_write \<Rightarrow> 's \<Rightarrow> byte \<Rightarrow> 's option" where
  "put_byte wr bs val = wr bs [val]"

definition put_bool :: "'s sink_write \<Rightarrow> 's \<Rightarrow> bool \<Rightarrow> 's option" where
  "put_bool wr bs val = wr bs [if val then 1 else 0]"

definition put_uint16 :: "'s sink_write \<Rightarrow> 's \<Rightarrow> uint32 \<Rightarrow> 's option" where
  "put_uint16 wr bs val = wr bs (put_16bit_msb_first (ucast val))"

definition put_uint32 :: "'s sink_write \<Rightarrow> 's \<Rightarrow> uint32 \<Rightarrow> 's option" where
  "put_uint32 wr bs val = wr bs (put_32bit_msb_first val)"

definition put_uint64 :: "'s sink_write \<Rightarrow> 's \<Rightarrow> uint64 \<Rightarrow> 's option" where
  "put_uint64 wr bs val = wr bs (put_64bit_msb_first val)"

definition put_string :: "'s sink_write \<Rightarrow> 's \<Rightarrow> bytes \<Rightarrow> 's option" where
  "put_string wr bs data =
     (if drop_bit 31 (length data) < 2 then
        case put_uint32 wr bs (word_of_nat (length data)) of
          None \<Rightarrow> None
        | Some bs \<Rightarrow> wr bs data
      else None)"

definition put_asciz :: "'s sink_write \<Rightarrow> 's \<Rightarrow> bytes \<Rightarrow> 's option" where
  "put_asciz wr bs str = wr bs (str @ [0])"

text \<open>\<^verbatim>\<open>put_pstring\<close> refuses, with nothing written, a string of more than 255 bytes.\<close>

definition put_pstring :: "'s sink_write \<Rightarrow> 's \<Rightarrow> bytes \<Rightarrow> (bool \<times> 's) option" where
  "put_pstring wr bs str =
     (if length str > 255 then Some (False, bs)
      else
        case put_byte wr bs (word_of_nat (length str)) of
          None \<Rightarrow> None
        | Some bs \<Rightarrow>
            (case wr bs str of None \<Rightarrow> None | Some bs \<Rightarrow> Some (True, bs)))"

section \<open>Reading: the source\<close>

datatype BinarySourceError = BSE_NO_ERROR | BSE_OUT_OF_DATA | BSE_INVALID

text \<open>The block being decoded, the position in it, and the error state.\<close>

record BinarySource =
  src_data :: bytes
  src_pos :: nat
  src_err :: BinarySourceError

definition src_init :: "bytes \<Rightarrow> BinarySource" where
  "src_init d = \<lparr>src_data = d, src_pos = 0, src_err = BSE_NO_ERROR\<rparr>"

definition get_err :: "BinarySource \<Rightarrow> bool" where
  "get_err src \<longleftrightarrow> src_err src \<noteq> BSE_NO_ERROR"

definition get_avail :: "BinarySource \<Rightarrow> nat" where
  "get_avail src = length (src_data src) - src_pos src"

text \<open>What is still to be read, and reading \<open>n\<close> bytes of it.\<close>

definition src_rest :: "BinarySource \<Rightarrow> bytes" where
  "src_rest src = drop (src_pos src) (src_data src)"

definition advance :: "nat \<Rightarrow> BinarySource \<Rightarrow> BinarySource" where
  "advance n src = src\<lparr>src_pos := src_pos src + n\<rparr>"

definition data_avail :: "BinarySource \<Rightarrow> nat \<Rightarrow> bool \<times> BinarySource" where
  "data_avail src wanted =
     (if get_err src then (False, src)
      else if wanted \<le> get_avail src then (True, src)
      else (False, src\<lparr>src_err := BSE_OUT_OF_DATA\<rparr>))"

definition get_data :: "BinarySource \<Rightarrow> nat \<Rightarrow> bytes \<times> BinarySource" where
  "get_data src wanted =
     (case data_avail src wanted of
        (False, src) \<Rightarrow> ([], src)
      | (True, src) \<Rightarrow> (take wanted (src_rest src), advance wanted src))"

definition get_byte :: "BinarySource \<Rightarrow> byte \<times> BinarySource" where
  "get_byte src =
     (case data_avail src 1 of
        (False, src) \<Rightarrow> (0, src)
      | (True, src) \<Rightarrow> (src_rest src ! 0, advance 1 src))"

definition get_bool :: "BinarySource \<Rightarrow> bool \<times> BinarySource" where
  "get_bool src =
     (case data_avail src 1 of
        (False, src) \<Rightarrow> (False, src)
      | (True, src) \<Rightarrow> (src_rest src ! 0 \<noteq> 0, advance 1 src))"

definition get_uint16 :: "BinarySource \<Rightarrow> uint32 \<times> BinarySource" where
  "get_uint16 src =
     (case data_avail src 2 of
        (False, src) \<Rightarrow> (0, src)
      | (True, src) \<Rightarrow> (ucast (get_16bit_msb_first (src_rest src)), advance 2 src))"

definition get_uint32 :: "BinarySource \<Rightarrow> uint32 \<times> BinarySource" where
  "get_uint32 src =
     (case data_avail src 4 of
        (False, src) \<Rightarrow> (0, src)
      | (True, src) \<Rightarrow> (get_32bit_msb_first (src_rest src), advance 4 src))"

definition get_uint64 :: "BinarySource \<Rightarrow> uint64 \<times> BinarySource" where
  "get_uint64 src =
     (case data_avail src 8 of
        (False, src) \<Rightarrow> (0, src)
      | (True, src) \<Rightarrow> (get_64bit_msb_first (src_rest src), advance 8 src))"

definition get_string :: "BinarySource \<Rightarrow> bytes \<times> BinarySource" where
  "get_string src =
     (case data_avail src 4 of
        (False, src) \<Rightarrow> ([], src)
      | (True, src) \<Rightarrow>
          let len = unat (get_32bit_msb_first (src_rest src)); src = advance 4 src in
          case data_avail src len of
            (False, src) \<Rightarrow> ([], src)
          | (True, src) \<Rightarrow> (take len (src_rest src), advance len src))"

definition get_asciz :: "BinarySource \<Rightarrow> bytes \<times> BinarySource" where
  "get_asciz src =
     (if get_err src then ([], src)
      else if 0 \<notin> set (src_rest src) then ([], src\<lparr>src_err := BSE_OUT_OF_DATA\<rparr>)
      else let s = takeWhile (\<lambda>b. b \<noteq> 0) (src_rest src) in (s, advance (length s + 1) src))"

definition get_pstring :: "BinarySource \<Rightarrow> bytes \<times> BinarySource" where
  "get_pstring src =
     (case data_avail src 1 of
        (False, src) \<Rightarrow> ([], src)
      | (True, src) \<Rightarrow>
          let len = unat (src_rest src ! 0); src = advance 1 src in
          case data_avail src len of
            (False, src) \<Rightarrow> ([], src)
          | (True, src) \<Rightarrow> (take len (src_rest src), advance len src))"

text \<open>
  \<^verbatim>\<open>get_chars\<close> and \<^verbatim>\<open>get_nonchars\<close>. The membership test is \<^verbatim>\<open>strchr\<close>, which
  also finds the terminating zero of the set.
\<close>

definition in_cset :: "bytes \<Rightarrow> byte \<Rightarrow> bool" where
  "in_cset set' c \<longleftrightarrow> c \<in> set set' \<or> c = 0"

function get_chars_internal :: "BinarySource \<Rightarrow> bytes \<Rightarrow> bool \<Rightarrow> bytes \<times> BinarySource" where
  "get_chars_internal src set' include =
     (case data_avail src 1 of
        (False, src) \<Rightarrow> ([], src)
      | (True, src) \<Rightarrow>
          if in_cset set' (src_rest src ! 0) \<noteq> include then ([], src)
          else let (s, src') = get_chars_internal (advance 1 src) set' include
               in (src_rest src ! 0 # s, src'))"
  by pat_completeness auto
termination
  by (relation "measure (\<lambda>(src, _). get_avail src)")
    (auto simp: data_avail_def get_avail_def advance_def split: if_splits)

declare get_chars_internal.simps [simp del]

definition get_chars :: "BinarySource \<Rightarrow> bytes \<Rightarrow> bytes \<times> BinarySource" where
  "get_chars src include_set = get_chars_internal src include_set True"

definition get_nonchars :: "BinarySource \<Rightarrow> bytes \<Rightarrow> bytes \<times> BinarySource" where
  "get_nonchars src exclude_set = get_chars_internal src exclude_set False"

definition chomp_end :: "byte \<Rightarrow> bytes \<Rightarrow> bytes" where
  "chomp_end c s = (if s \<noteq> [] \<and> last s = c then butlast s else s)"

definition get_chomped_line :: "BinarySource \<Rightarrow> bytes \<times> BinarySource" where
  "get_chomped_line src =
     (if get_err src then ([], src)
      else
        let n = (if 10 \<in> set (src_rest src)
                 then length (takeWhile (\<lambda>b. b \<noteq> 10) (src_rest src)) + 1
                 else get_avail src)
        in (chomp_end 13 (chomp_end 10 (take n (src_rest src))), advance n src))"

definition src_rewind_to :: "BinarySource \<Rightarrow> nat \<Rightarrow> BinarySource" where
  "src_rewind_to src pos =
     (if pos \<le> length (src_data src)
      then src\<lparr>src_pos := pos, src_err := BSE_NO_ERROR\<rparr>
      else src\<lparr>src_pos := length (src_data src), src_err := BSE_OUT_OF_DATA\<rparr>)"

section \<open>Reading back what was written\<close>

text \<open>The source between two parts of its data, with no error.\<close>

definition src_at :: "bytes \<Rightarrow> bytes \<Rightarrow> BinarySource" where
  "src_at pre rest = \<lparr>src_data = pre @ rest, src_pos = length pre, src_err = BSE_NO_ERROR\<rparr>"

lemma src_init_at: "src_init d = src_at [] d"
  by (simp add: src_init_def src_at_def)

lemma src_at_simps [simp]:
  "get_err (src_at pre rest) = False"
  "src_rest (src_at pre rest) = rest"
  "get_avail (src_at pre rest) = length rest"
  by (simp_all add: src_at_def get_err_def src_rest_def get_avail_def)

lemma advance_src_at [simp]: "advance (length enc) (src_at pre (enc @ rest)) = src_at (pre @ enc) rest"
  by (simp add: src_at_def advance_def)

lemma avail_src_at [simp]: "n \<le> length rest \<Longrightarrow> data_avail (src_at pre rest) n = (True, src_at pre rest)"
  by (simp add: data_avail_def)

lemma advance_src_at_n: "length enc = n \<Longrightarrow> advance n (src_at pre (enc @ rest)) = src_at (pre @ enc) rest"
  using advance_src_at by blast

lemma get_16_append [simp]: "get_16bit_msb_first (put_16bit_msb_first v @ r) = v"
  using get_put_16 [of v] by (simp add: get_16bit_msb_first_def nth_append)

lemma get_32_append [simp]: "get_32bit_msb_first (put_32bit_msb_first v @ r) = v"
  using get_put_32 [of v] by (simp add: get_32bit_msb_first_def nth_append)

lemma get_64_append [simp]: "get_64bit_msb_first (put_64bit_msb_first v @ r) = v"
  using get_put_64 [of v] by (simp add: get_64bit_msb_first_def nth_append)

lemma get_data_at [sink_simps]:
  "get_data (src_at pre (d @ rest)) (length d) = (d, src_at (pre @ d) rest)"
  by (simp add: get_data_def)

lemma get_byte_at [sink_simps]: "get_byte (src_at pre (b # rest)) = (b, src_at (pre @ [b]) rest)"
  using advance_src_at [of "[b]" pre rest] by (simp add: get_byte_def)

lemma get_bool_at [sink_simps]:
  "get_bool (src_at pre ((if b then 1 else 0) # rest)) = (b, src_at (pre @ [if b then 1 else 0]) rest)"
  using advance_src_at [of "[if b then 1 else 0]" pre rest] by (simp add: get_bool_def)

lemma get_uint16_at [sink_simps]:
  "get_uint16 (src_at pre (put_16bit_msb_first v @ rest))
     = (ucast v, src_at (pre @ put_16bit_msb_first v) rest)"
  by (simp add: get_uint16_def advance_src_at_n)

lemma get_uint32_at [sink_simps]:
  "get_uint32 (src_at pre (put_32bit_msb_first v @ rest)) = (v, src_at (pre @ put_32bit_msb_first v) rest)"
  by (simp add: get_uint32_def advance_src_at_n)

lemma get_uint64_at [sink_simps]:
  "get_uint64 (src_at pre (put_64bit_msb_first v @ rest)) = (v, src_at (pre @ put_64bit_msb_first v) rest)"
  by (simp add: get_uint64_def advance_src_at_n)

lemma get_string_at [sink_simps]:
  assumes "length d < 2 ^ 32"
  shows "get_string (src_at pre (put_32bit_msb_first (word_of_nat (length d)) @ d @ rest))
           = (d, src_at (pre @ put_32bit_msb_first (word_of_nat (length d)) @ d) rest)"
proof -
  have "unat (word_of_nat (length d) :: uint32) = length d"
    using assms by (simp add: unat_of_nat take_bit_nat_eq_self)
  then show ?thesis
    by (simp add: get_string_def Let_def advance_src_at_n
        advance_src_at [of d "pre @ put_32bit_msb_first (word_of_nat (length d))" rest, simplified])
qed

lemma takeWhile_cstring: "cstring s \<Longrightarrow> takeWhile (\<lambda>b. b \<noteq> 0) (s @ 0 # rest) = s"
  by (subst takeWhile_append2) (auto simp: cstring_def)

lemma get_asciz_at [sink_simps]:
  "cstring s \<Longrightarrow> get_asciz (src_at pre (s @ 0 # rest)) = (s, src_at (pre @ s @ [0]) rest)"
  using advance_src_at [of "s @ [0]" pre rest]
  by (simp add: get_asciz_def takeWhile_cstring Let_def)

lemma get_pstring_at [sink_simps]:
  assumes "length d < 256"
  shows "get_pstring (src_at pre (word_of_nat (length d) # d @ rest))
           = (d, src_at (pre @ word_of_nat (length d) # d) rest)"
proof -
  have "unat (word_of_nat (length d) :: byte) = length d"
    using assms by (simp add: unat_of_nat take_bit_nat_eq_self)
  then show ?thesis
    using advance_src_at [of "[word_of_nat (length d)]" pre "d @ rest"]
      advance_src_at [of d "pre @ [word_of_nat (length d)]" rest]
    by (simp add: get_pstring_def Let_def)
qed

section \<open>Errors are sticky and positions stay inside the block\<close>

definition src_ok :: "BinarySource \<Rightarrow> bool" where
  "src_ok src \<longleftrightarrow> src_pos src \<le> length (src_data src)"

text \<open>What every reading function may do to the source.\<close>

definition src_moves :: "BinarySource \<Rightarrow> BinarySource \<Rightarrow> bool" where
  "src_moves src src' \<longleftrightarrow>
     src_data src' = src_data src \<and> src_pos src \<le> src_pos src' \<and>
     (src_ok src \<longrightarrow> src_ok src') \<and> (get_err src \<longrightarrow> src' = src)"

lemma src_moves_refl [simp]: "src_moves src src"
  by (simp add: src_moves_def)

lemma src_moves_trans: "\<lbrakk>src_moves a b; src_moves b c\<rbrakk> \<Longrightarrow> src_moves a c"
  by (auto simp: src_moves_def)

lemma src_moves_avail: "data_avail src n = (b, src') \<Longrightarrow> src_moves src src'"
  by (auto simp: data_avail_def src_moves_def src_ok_def split: if_splits)

lemma src_moves_advance: "data_avail src n = (True, src') \<Longrightarrow> src_ok src \<Longrightarrow> src_moves src (advance n src')"
  by (auto simp: data_avail_def src_moves_def src_ok_def advance_def get_avail_def split: if_splits)

lemma src_moves_get:
  assumes "src_ok src"
  shows "src_moves src (snd (get_data src n))" "src_moves src (snd (get_byte src))"
    "src_moves src (snd (get_bool src))" "src_moves src (snd (get_uint16 src))"
    "src_moves src (snd (get_uint32 src))" "src_moves src (snd (get_uint64 src))"
  using assms
  by (auto simp: get_data_def get_byte_def get_bool_def get_uint16_def get_uint32_def get_uint64_def
      intro: src_moves_avail src_moves_advance split: prod.splits bool.splits)

lemma src_moves_prefixed:
  assumes "src_ok src"
  shows "src_moves src (snd (get_string src))" "src_moves src (snd (get_pstring src))"
proof -
  have two: "src_moves src src3"
    if "data_avail src k = (True, src1)" "data_avail (advance k src1) n = (b, src2)"
      "src3 = src2 \<or> b \<and> src3 = advance n src2" for k n b src1 src2 src3
  proof -
    from that(1) assms have "src_moves src (advance k src1)" by (rule src_moves_advance)
    moreover from this assms have "src_ok (advance k src1)" by (simp add: src_moves_def)
    moreover from that(2,3) this have "src_moves (advance k src1) src3"
      by (cases b) (auto intro: src_moves_avail src_moves_advance)
    ultimately show ?thesis by (blast intro: src_moves_trans)
  qed
  have both: "src_moves src (snd (case data_avail src k of
        (False, src) \<Rightarrow> ([], src)
      | (True, src) \<Rightarrow>
          let len = f src; src = advance k src in
          case data_avail src len of
            (False, src) \<Rightarrow> ([], src)
          | (True, src) \<Rightarrow> (take len (src_rest src), advance len src)))" for k f
  proof (cases "data_avail src k")
    case 1: (Pair b1 src1)
    show ?thesis
    proof (cases b1)
      case True
      show ?thesis
        using 1 True two [of k src1 "f src1"]
        by (cases "data_avail (advance k src1) (f src1)") (auto simp: Let_def split: bool.splits)
    qed (use 1 src_moves_avail in auto)
  qed
  show "src_moves src (snd (get_string src))" unfolding get_string_def by (rule both)
  show "src_moves src (snd (get_pstring src))" unfolding get_pstring_def by (rule both)
qed

lemma src_moves_asciz:
  assumes "src_ok src"
  shows "src_moves src (snd (get_asciz src))"
proof (cases "0 \<in> set (src_rest src)")
  case True
  then have "length (takeWhile (\<lambda>b. b \<noteq> 0) (src_rest src)) < length (src_rest src)"
    by (metis (mono_tags, lifting) length_takeWhile_le nat_less_le takeWhile_eq_all_conv takeWhile_eq_take take_all_iff order_refl)
  then show ?thesis
    using assms True
    by (auto simp: get_asciz_def Let_def src_moves_def src_ok_def advance_def src_rest_def)
qed (auto simp: get_asciz_def src_moves_def src_ok_def)

section \<open>The contract of a sink\<close>

text \<open>
  \<open>limit\<close> bounds what a sink can hold (the size of the address space, for sinks in memory).
\<close>

locale binary_sink =
  fixes wr :: "'s sink_write"
    and ok :: "'s \<Rightarrow> bool"
    and contents :: "'s \<Rightarrow> bytes"
    and limit :: nat
  assumes write_appends:
    "\<lbrakk>ok s; length (contents s) + length data < limit\<rbrakk>
       \<Longrightarrow> \<exists>s'. wr s data = Some s' \<and> ok s' \<and> contents s' = contents s @ data"
begin

definition appends :: "'s option \<Rightarrow> 's \<Rightarrow> bytes \<Rightarrow> bool" where
  "appends r s enc \<longleftrightarrow> (\<exists>s'. r = Some s' \<and> ok s' \<and> contents s' = contents s @ enc)"

definition fits :: "'s \<Rightarrow> nat \<Rightarrow> bool" where
  "fits s n \<longleftrightarrow> ok s \<and> length (contents s) + n < limit"

lemma write_fits: "fits s (length d) \<Longrightarrow> appends (wr s d) s d"
  by (simp add: fits_def appends_def write_appends)

lemma fits_le: "\<lbrakk>fits s n; m \<le> n\<rbrakk> \<Longrightarrow> fits s m"
  by (simp add: fits_def)

lemma appends_bind:
  assumes "appends r s enc"
    and "\<And>s'. \<lbrakk>ok s'; contents s' = contents s @ enc\<rbrakk> \<Longrightarrow> appends (f s') s' enc'"
  shows "appends (case r of None \<Rightarrow> None | Some s' \<Rightarrow> f s') s (enc @ enc')"
  using assms by (fastforce simp: appends_def)

lemma put_padding_appends:
  "fits s n \<Longrightarrow> appends (put_padding wr s n b) s (replicate n b)"
proof (induction n arbitrary: s rule: less_induct)
  case (less n)
  show ?case
  proof (cases "n = 0")
    case True
    with less.prems show ?thesis by (subst put_padding.simps) (simp add: appends_def fits_def)
  next
    case False
    define k where "k = (if n < 16 then n else 16)"
    with False have k: "0 < k" "k \<le> n" by auto
    then have "appends (wr s (replicate k b)) s (replicate k b)"
      using less.prems by (intro write_fits [of s "replicate k b", simplified]) (auto elim: fits_le)
    moreover have "appends (put_padding wr s' (n - k) b) s' (replicate (n - k) b)"
      if "ok s'" "contents s' = contents s @ replicate k b" for s'
      using that less.prems k by (intro less.IH) (auto simp: fits_def)
    ultimately have "appends (case wr s (replicate k b) of None \<Rightarrow> None
        | Some bs \<Rightarrow> put_padding wr bs (n - k) b) s (replicate k b @ replicate (n - k) b)"
      by (rule appends_bind)
    moreover have "replicate k b @ replicate (n - k) b = replicate n b"
      using k by (simp flip: replicate_add)
    moreover have "put_padding wr s n b = (case wr s (replicate k b) of None \<Rightarrow> None
        | Some bs \<Rightarrow> put_padding wr bs (n - k) b)"
      using False by (subst put_padding.simps) (simp add: Let_def k_def cong: option.case_cong)
    ultimately show ?thesis by simp
  qed
qed

lemma put_integers_append:
  "fits s 1 \<Longrightarrow> appends (put_byte wr s b) s [b]"
  "fits s 1 \<Longrightarrow> appends (put_bool wr s v) s [if v then 1 else 0]"
  "fits s 2 \<Longrightarrow> appends (put_uint16 wr s w) s (put_16bit_msb_first (ucast w))"
  "fits s 4 \<Longrightarrow> appends (put_uint32 wr s w) s (put_32bit_msb_first w)"
  "fits s 8 \<Longrightarrow> appends (put_uint64 wr s x) s (put_64bit_msb_first x)"
  by (simp_all add: put_byte_def put_bool_def put_uint16_def put_uint32_def put_uint64_def write_fits)

lemma put_asciz_append: "fits s (length d + 1) \<Longrightarrow> appends (put_asciz wr s d) s (d @ [0])"
  by (simp add: put_asciz_def write_fits)

lemma put_string_append:
  assumes "fits s (length d + 4)" and "length d < 2 ^ 32"
  shows "appends (put_string wr s d) s (put_32bit_msb_first (word_of_nat (length d)) @ d)"
proof -
  have "drop_bit 31 (length d) < 2"
    using assms(2) by (simp add: drop_bit_eq_div less_mult_imp_div_less)
  moreover have "appends (case put_uint32 wr s (word_of_nat (length d)) of None \<Rightarrow> None
      | Some bs \<Rightarrow> wr bs d) s (put_32bit_msb_first (word_of_nat (length d)) @ d)"
    using assms(1) by (intro appends_bind put_integers_append) (auto simp: fits_def intro: write_fits)
  ultimately show ?thesis by (simp add: put_string_def)
qed

text \<open>Any data written as a string is what the source reads back as a string.\<close>

lemma put_string_get_string:
  assumes "fits s (length d + 4)" and "length d < 2 ^ 32"
  shows "\<exists>s'. put_string wr s d = Some s' \<and> ok s' \<and>
           get_string (src_rewind_to (src_init (contents s')) (length (contents s)))
             = (d, src_at (contents s') [])"
proof -
  from put_string_append [OF assms] obtain s' where
    "put_string wr s d = Some s'" "ok s'"
    "contents s' = contents s @ put_32bit_msb_first (word_of_nat (length d)) @ d"
    by (auto simp: appends_def)
  moreover from this(3)
  have "src_rewind_to (src_init (contents s')) (length (contents s))
    = src_at (contents s) (put_32bit_msb_first (word_of_nat (length d)) @ d @ [])"
    by (simp add: src_rewind_to_def src_init_def src_at_def)
  ultimately show ?thesis using get_string_at [OF assms(2), of "contents s" "[]"] by simp
qed

end

end
