(* ===== verification/Strbuf.thy ===== *)
theory Strbuf
  imports Marshal
begin

text \<open>
  Growable string buffers (\<^verbatim>\<open>utils/strbuf.c\<close>) over the array-growing helper
  \<^verbatim>\<open>safegrowarray\<close> (\<^verbatim>\<open>utils/memory.c\<close>), and the proof that a string buffer is a
  sink. Sizes are those of a 64-bit address space.
\<close>

section \<open>Growing an array\<close>

definition size_max :: nat where
  "size_max = 2 ^ 64 - 1"

text \<open>The new allocated size, \<open>None\<close> for a failed assertion.\<close>

definition safegrowarray :: "nat \<Rightarrow> nat \<Rightarrow> nat \<Rightarrow> nat \<Rightarrow> nat option" where
  "safegrowarray allocated eltsize oldlen extralen =
     (if \<not> eltsize > 0 then None
      else
        let maxsize = size_max div eltsize; oldsize = allocated in
        if \<not> (oldsize \<le> maxsize) \<or> \<not> (oldlen \<le> maxsize) \<or> \<not> (extralen \<le> maxsize - oldlen) then None
        else if oldsize > oldlen + extralen then Some oldsize
        else
          let increment = (oldlen + extralen) - oldsize;
              increment = (if increment < 256 div eltsize then 256 div eltsize else increment);
              increment = (if increment < oldsize div 16 then oldsize div 16 else increment);
              maxincr = maxsize - oldsize;
              increment = (if increment > maxincr then maxincr else increment)
          in Some (oldsize + increment))"

lemma safegrowarray_enough:
  assumes "0 < eltsize" and "allocated \<le> size_max div eltsize"
    and "oldlen + extralen \<le> size_max div eltsize"
  shows "\<exists>newsize. safegrowarray allocated eltsize oldlen extralen = Some newsize \<and>
           oldlen + extralen \<le> newsize \<and> allocated \<le> newsize \<and> newsize \<le> size_max div eltsize \<and>
           (newsize = allocated \<or> newsize = size_max div eltsize \<or>
            allocated + allocated div 16 \<le> newsize \<and> allocated + 256 div eltsize \<le> newsize)"
proof -
  define m where "m = size_max div eltsize"
  have "\<exists>newsize. safegrowarray allocated eltsize oldlen extralen = Some newsize \<and>
           oldlen + extralen \<le> newsize \<and> allocated \<le> newsize \<and> newsize \<le> m \<and>
           (newsize = allocated \<or> newsize = m \<or>
            allocated + allocated div 16 \<le> newsize \<and> allocated + 256 div eltsize \<le> newsize)"
  proof -
    have le: "allocated \<le> m" "oldlen \<le> m" "extralen \<le> m - oldlen"
      using assms by (simp_all add: m_def)
    define d e where "d = 256 div eltsize" and "e = allocated div 16"
    show ?thesis
      unfolding safegrowarray_def Let_def d_def [symmetric] e_def [symmetric] m_def [symmetric]
      using le assms(1) by (simp split del: if_split) (simp split: if_splits; linarith)
  qed
  then show ?thesis by (simp add: m_def)
qed

section \<open>The string buffer\<close>

text \<open>
  \<open>sb_mem\<close> is the allocated array, its length the C field \<^verbatim>\<open>size\<close>; a cell that was never written
  is \<open>None\<close>. \<open>sb_nm\<close> asks for resizes that leave no copy behind.
\<close>

record strbuf =
  sb_mem :: "byte option list"
  sb_len :: nat
  sb_nm :: bool

definition mem_write :: "byte option list \<Rightarrow> nat \<Rightarrow> bytes \<Rightarrow> byte option list option" where
  "mem_write mem pos d =
     (if pos + length d \<le> length mem
      then Some (take pos mem @ map Some d @ drop (pos + length d) mem) else None)"

definition strbuf_new_general :: "bool \<Rightarrow> strbuf" where
  "strbuf_new_general nm = \<lparr>sb_mem = Some 0 # replicate 511 None, sb_len = 0, sb_nm = nm\<rparr>"

definition strbuf_new :: strbuf where "strbuf_new = strbuf_new_general False"
definition strbuf_new_nm :: strbuf where "strbuf_new_nm = strbuf_new_general True"

text \<open>Make room for \<open>len\<close> more bytes; the caller writes them at the old length.\<close>

definition strbuf_append :: "strbuf \<Rightarrow> nat \<Rightarrow> strbuf option" where
  "strbuf_append buf len =
     (case safegrowarray (length (sb_mem buf)) 1 (sb_len buf + 1) len of
        None \<Rightarrow> None
      | Some newsize \<Rightarrow>
          let mem = sb_mem buf @ replicate (newsize - length (sb_mem buf)) None in
          case mem_write mem (sb_len buf + len) [0] of
            None \<Rightarrow> None
          | Some mem \<Rightarrow> Some (buf\<lparr>sb_mem := mem, sb_len := sb_len buf + len\<rparr>))"

definition strbuf_shrink_to :: "strbuf \<Rightarrow> nat \<Rightarrow> strbuf option" where
  "strbuf_shrink_to buf new_len =
     (if new_len \<le> sb_len buf
      then case mem_write (sb_mem buf) new_len [0] of
             None \<Rightarrow> None
           | Some mem \<Rightarrow> Some (buf\<lparr>sb_mem := mem, sb_len := new_len\<rparr>)
      else None)"

definition strbuf_shrink_by :: "strbuf \<Rightarrow> nat \<Rightarrow> strbuf option" where
  "strbuf_shrink_by buf amount_to_remove =
     (if amount_to_remove \<le> sb_len buf
      then case mem_write (sb_mem buf) (sb_len buf - amount_to_remove) [0] of
             None \<Rightarrow> None
           | Some mem \<Rightarrow> Some (buf\<lparr>sb_mem := mem, sb_len := sb_len buf - amount_to_remove\<rparr>)
      else None)"

definition strbuf_chomp :: "strbuf \<Rightarrow> byte \<Rightarrow> (bool \<times> strbuf) option" where
  "strbuf_chomp buf char_to_remove =
     (if sb_len buf > 0 \<and> sb_mem buf ! (sb_len buf - 1) = Some char_to_remove
      then case strbuf_shrink_by buf 1 of None \<Rightarrow> None | Some buf \<Rightarrow> Some (True, buf)
      else Some (False, buf))"

definition strbuf_write :: "strbuf sink_write" where
  "strbuf_write buf data =
     (case strbuf_append buf (length data) of
        None \<Rightarrow> None
      | Some buf' \<Rightarrow>
          (case mem_write (sb_mem buf') (sb_len buf) data of
             None \<Rightarrow> None
           | Some mem \<Rightarrow> Some (buf'\<lparr>sb_mem := mem\<rparr>)))"

text \<open>Agent queries: a length field is reserved first and filled in at the end.\<close>

definition strbuf_new_for_agent_query :: "strbuf option" where
  "strbuf_new_for_agent_query = strbuf_append strbuf_new 4"

definition strbuf_finalise_agent_query :: "strbuf \<Rightarrow> strbuf option" where
  "strbuf_finalise_agent_query buf =
     (if sb_len buf \<ge> 5
      then case mem_write (sb_mem buf) 0 (put_32bit_msb_first (word_of_nat (sb_len buf - 4))) of
             None \<Rightarrow> None
           | Some mem \<Rightarrow> Some (buf\<lparr>sb_mem := mem\<rparr>)
      else None)"

definition strbuf_dup :: "bytes \<Rightarrow> strbuf option" where
  "strbuf_dup string = put_data strbuf_write strbuf_new string"

definition strbuf_dup_nm :: "bytes \<Rightarrow> strbuf option" where
  "strbuf_dup_nm string = put_data strbuf_write strbuf_new_nm string"

section \<open>The invariant and the content\<close>

text \<open>
  The array has room for the terminating zero, which is there; every byte of the content has
  been written.
\<close>

definition strbuf_ok :: "strbuf \<Rightarrow> bool" where
  "strbuf_ok buf \<longleftrightarrow>
     sb_len buf < length (sb_mem buf) \<and> length (sb_mem buf) \<le> size_max \<and>
     sb_mem buf ! sb_len buf = Some 0 \<and> None \<notin> set (take (sb_len buf) (sb_mem buf))"

definition strbuf_contents :: "strbuf \<Rightarrow> bytes" where
  "strbuf_contents buf = map the (take (sb_len buf) (sb_mem buf))"

lemma strbuf_new_ok: "strbuf_ok (strbuf_new_general nm)" "strbuf_contents (strbuf_new_general nm) = []"
  by (simp_all add: strbuf_ok_def strbuf_contents_def strbuf_new_general_def size_max_def)

lemma length_contents: "strbuf_ok buf \<Longrightarrow> length (strbuf_contents buf) = sb_len buf"
  by (simp add: strbuf_ok_def strbuf_contents_def)

lemma strbuf_okI:
  assumes "sb_mem buf = map Some d @ Some 0 # rest" and "sb_len buf = length d"
    and "length (sb_mem buf) \<le> size_max"
  shows "strbuf_ok buf" "strbuf_contents buf = d"
  using assms by (auto simp: strbuf_ok_def strbuf_contents_def nth_append o_def)

lemma strbuf_okE:
  assumes "strbuf_ok buf"
  obtains rest where "sb_mem buf = map Some (strbuf_contents buf) @ Some 0 # rest"
    "sb_len buf = length (strbuf_contents buf)" "length (sb_mem buf) \<le> size_max"
proof -
  let ?n = "sb_len buf"
  have "map Some (map the (take ?n (sb_mem buf))) = take ?n (sb_mem buf)"
  proof -
    have "Some (the x) = x" if "x \<in> set (take ?n (sb_mem buf))" for x
      using that assms by (metis option.collapse strbuf_ok_def)
    then show ?thesis by (simp add: map_idI)
  qed
  then have "sb_mem buf = map Some (strbuf_contents buf) @ Some 0 # drop (Suc ?n) (sb_mem buf)"
    using assms id_take_nth_drop [of ?n "sb_mem buf"]
    by (simp add: strbuf_ok_def strbuf_contents_def)
  from that [OF this] assms length_contents [OF assms] show thesis by (simp add: strbuf_ok_def)
qed

lemma strbuf_write_ok:
  assumes "strbuf_ok buf" and "length (strbuf_contents buf) + length data < size_max"
  shows "\<exists>buf'. strbuf_write buf data = Some buf' \<and> strbuf_ok buf' \<and>
           strbuf_contents buf' = strbuf_contents buf @ data"
proof -
  define c where "c = strbuf_contents buf"
  from assms obtain rest where buf: "sb_mem buf = map Some c @ Some 0 # rest"
    "sb_len buf = length c" "length (sb_mem buf) \<le> size_max"
    by (auto elim: strbuf_okE simp: c_def)
  from safegrowarray_enough [of 1 "length (sb_mem buf)" "length c + 1" "length data"] assms(2) buf(3)
  obtain newsize where new: "safegrowarray (length (sb_mem buf)) 1 (length c + 1) (length data) = Some newsize"
    "length c + 1 + length data \<le> newsize" "length (sb_mem buf) \<le> newsize" "newsize \<le> size_max"
    by (auto simp: c_def)
  define mem where "mem = sb_mem buf @ replicate (newsize - length (sb_mem buf)) None"
  have mem: "length mem = newsize" "take (length c) mem = map Some c"
    using new(3) buf(1) by (simp_all add: mem_def)
  define r where "r = drop (length c + length data + 1) mem"
  have "mem_write mem (length c + length data) [0] = Some (take (length c + length data) mem @ Some 0 # r)"
    using mem new(2) by (simp add: mem_write_def r_def)
  moreover have "take (length c + length data) mem = map Some c @ take (length data) (drop (length c) mem)"
    using mem(2) by (simp add: take_add)
  ultimately have w1: "mem_write mem (length c + length data) [0]
      = Some (map Some c @ take (length data) (drop (length c) mem) @ Some 0 # r)" by simp
  have t: "length (take (length data) (drop (length c) mem)) = length data"
    using mem(1) new(2) by simp
  have w2: "mem_write (map Some c @ take (length data) (drop (length c) mem) @ Some 0 # r) (length c) data
      = Some (map Some (c @ data) @ Some 0 # r)"
    using t by (simp add: mem_write_def)
  have "length (map Some (c @ data) @ Some 0 # r) = newsize"
    using mem(1) new(2) by (simp add: r_def)
  then show ?thesis
    using new(1,4) w1 w2 buf(2) strbuf_okI [of "buf\<lparr>sb_len := length c + length data,
        sb_mem := map Some (c @ data) @ Some 0 # r\<rparr>" "c @ data" r]
    by (simp add: strbuf_write_def strbuf_append_def Let_def flip: mem_def c_def)
qed

interpretation sb: binary_sink strbuf_write strbuf_ok strbuf_contents size_max
  by unfold_locales (rule strbuf_write_ok)

lemma strbuf_shrink_to_ok:
  assumes "strbuf_ok buf"
  shows "if n \<le> length (strbuf_contents buf)
         then \<exists>buf'. strbuf_shrink_to buf n = Some buf' \<and> strbuf_ok buf' \<and>
                strbuf_contents buf' = take n (strbuf_contents buf)
         else strbuf_shrink_to buf n = None"
proof (cases "n \<le> length (strbuf_contents buf)")
  case True
  define c where "c = strbuf_contents buf"
  from assms obtain rest where buf: "sb_mem buf = map Some c @ Some 0 # rest"
    "sb_len buf = length c" "length (sb_mem buf) \<le> size_max"
    by (auto elim: strbuf_okE simp: c_def)
  define r where "r = drop (Suc n) (sb_mem buf)"
  have "mem_write (sb_mem buf) n [0] = Some (map Some (take n c) @ Some 0 # r)"
    using True buf(1) by (simp add: mem_write_def r_def take_map c_def)
  moreover have "length (map Some (take n c) @ Some 0 # r) \<le> size_max"
    using True buf by (simp add: r_def c_def)
  ultimately show ?thesis
    using True buf strbuf_okI [of "buf\<lparr>sb_mem := map Some (take n c) @ Some 0 # r, sb_len := n\<rparr>" "take n c" r]
    by (simp add: strbuf_shrink_to_def flip: c_def)
next
  case False
  with assms show ?thesis by (simp add: strbuf_shrink_to_def length_contents)
qed

lemma shrink_by_to: "n \<le> sb_len buf \<Longrightarrow> strbuf_shrink_by buf n = strbuf_shrink_to buf (sb_len buf - n)"
  by (simp add: strbuf_shrink_by_def strbuf_shrink_to_def)

lemma strbuf_chomp_ok:
  assumes "strbuf_ok buf"
  shows "\<exists>buf'. strbuf_chomp buf c = Some (strbuf_contents buf \<noteq> [] \<and> last (strbuf_contents buf) = c, buf') \<and>
           strbuf_ok buf' \<and> strbuf_contents buf' = chomp_end c (strbuf_contents buf)"
proof -
  define d where "d = strbuf_contents buf"
  from assms obtain rest where buf: "sb_mem buf = map Some d @ Some 0 # rest" "sb_len buf = length d"
    by (auto elim: strbuf_okE simp: d_def)
  show ?thesis
  proof (cases "d \<noteq> [] \<and> last d = c")
    case True
    then have "sb_mem buf ! (sb_len buf - 1) = Some c" "sb_len buf > 0"
      using buf by (auto simp: nth_append last_conv_nth)
    moreover from this(2) have "strbuf_shrink_by buf 1 = strbuf_shrink_to buf (sb_len buf - 1)"
      by (intro shrink_by_to) simp
    moreover from strbuf_shrink_to_ok [OF assms, of "sb_len buf - 1"] calculation(3) buf(2)
    obtain buf' where "strbuf_shrink_by buf 1 = Some buf'" "strbuf_ok buf'"
      "strbuf_contents buf' = take (sb_len buf - 1) d" by (auto simp flip: d_def)
    ultimately show ?thesis
      using True buf(2) by (simp add: strbuf_chomp_def chomp_end_def butlast_conv_take flip: d_def)
  next
    case False
    then have "\<not> (sb_len buf > 0 \<and> sb_mem buf ! (sb_len buf - 1) = Some c)"
      using buf by (auto simp: nth_append last_conv_nth)
    with False assms show ?thesis by (auto simp: strbuf_chomp_def chomp_end_def simp flip: d_def)
  qed
qed

end
