(* ===== verification/Marshal_Scripts.thy ===== *)
theory Marshal_Scripts
  imports Strbuf
begin

text \<open>
  What the marshalling layer promises its clients, over whole sequences of calls: reading never
  leaves the block and an error is never lost; what was written as a sequence of typed items is read
  back as the same sequence; and a string buffer is a byte list.
\<close>

section \<open>Sequences of reads\<close>

datatype read_op = RData nat | RByte | RBool | RUint16 | RUint32 | RUint64 | RString | RAsciz | RPString

fun run_read :: "BinarySource \<Rightarrow> read_op \<Rightarrow> BinarySource" where
  "run_read src (RData n) = snd (get_data src n)"
| "run_read src RByte = snd (get_byte src)"
| "run_read src RBool = snd (get_bool src)"
| "run_read src RUint16 = snd (get_uint16 src)"
| "run_read src RUint32 = snd (get_uint32 src)"
| "run_read src RUint64 = snd (get_uint64 src)"
| "run_read src RString = snd (get_string src)"
| "run_read src RAsciz = snd (get_asciz src)"
| "run_read src RPString = snd (get_pstring src)"

lemma run_read_moves: "src_ok src \<Longrightarrow> src_moves src (run_read src p)"
  by (cases p) (simp_all add: src_moves_get src_moves_prefixed src_moves_asciz)

lemma run_reads_move: "src_ok src \<Longrightarrow> src_moves src (foldl run_read src ps)"
proof (induction ps arbitrary: src)
  case (Cons p ps)
  from run_read_moves [OF Cons.prems, of p] have "src_moves src (run_read src p)" .
  moreover from this Cons.prems have "src_ok (run_read src p)" by (simp add: src_moves_def)
  ultimately show ?case using Cons.IH by (auto intro: src_moves_trans)
qed simp

section \<open>Sequences of typed items\<close>

datatype item =
    ByteI byte | BoolI bool | Uint16I "16 word" | Uint32I uint32 | Uint64I uint64
  | StringI bytes | AscizI bytes | PStringI bytes

fun item_fits :: "item \<Rightarrow> bool" where
  "item_fits (StringI d) \<longleftrightarrow> length d < 2 ^ 32"
| "item_fits (AscizI d) \<longleftrightarrow> cstring d"
| "item_fits (PStringI d) \<longleftrightarrow> length d < 256"
| "item_fits _ \<longleftrightarrow> True"

fun put_item :: "'s sink_write \<Rightarrow> 's \<Rightarrow> item \<Rightarrow> 's option" where
  "put_item wr s (ByteI b) = put_byte wr s b"
| "put_item wr s (BoolI b) = put_bool wr s b"
| "put_item wr s (Uint16I v) = put_uint16 wr s (ucast v)"
| "put_item wr s (Uint32I v) = put_uint32 wr s v"
| "put_item wr s (Uint64I v) = put_uint64 wr s v"
| "put_item wr s (StringI d) = put_string wr s d"
| "put_item wr s (AscizI d) = put_asciz wr s d"
| "put_item wr s (PStringI d) = map_option snd (put_pstring wr s d)"

text \<open>Reading an item of the same type.\<close>

fun get_item :: "BinarySource \<Rightarrow> item \<Rightarrow> item \<times> BinarySource" where
  "get_item src (ByteI _) = (let (b, src) = get_byte src in (ByteI b, src))"
| "get_item src (BoolI _) = (let (b, src) = get_bool src in (BoolI b, src))"
| "get_item src (Uint16I _) = (let (v, src) = get_uint16 src in (Uint16I (ucast v), src))"
| "get_item src (Uint32I _) = (let (v, src) = get_uint32 src in (Uint32I v, src))"
| "get_item src (Uint64I _) = (let (v, src) = get_uint64 src in (Uint64I v, src))"
| "get_item src (StringI _) = (let (d, src) = get_string src in (StringI d, src))"
| "get_item src (AscizI _) = (let (d, src) = get_asciz src in (AscizI d, src))"
| "get_item src (PStringI _) = (let (d, src) = get_pstring src in (PStringI d, src))"

fun item_bytes :: "item \<Rightarrow> bytes" where
  "item_bytes (ByteI b) = [b]"
| "item_bytes (BoolI b) = [if b then 1 else 0]"
| "item_bytes (Uint16I v) = put_16bit_msb_first v"
| "item_bytes (Uint32I v) = put_32bit_msb_first v"
| "item_bytes (Uint64I v) = put_64bit_msb_first v"
| "item_bytes (StringI d) = put_32bit_msb_first (word_of_nat (length d)) @ d"
| "item_bytes (AscizI d) = d @ [0]"
| "item_bytes (PStringI d) = word_of_nat (length d) # d"

fun put_items :: "'s sink_write \<Rightarrow> 's \<Rightarrow> item list \<Rightarrow> 's option" where
  "put_items wr s [] = Some s"
| "put_items wr s (x # xs) = (case put_item wr s x of None \<Rightarrow> None | Some s \<Rightarrow> put_items wr s xs)"

fun get_items :: "BinarySource \<Rightarrow> item list \<Rightarrow> item list \<times> BinarySource" where
  "get_items src [] = ([], src)"
| "get_items src (x # xs) =
     (let (y, src) = get_item src x; (ys, src) = get_items src xs in (y # ys, src))"

lemma ucast_16_32_16 [simp]: "ucast (ucast v :: uint32) = (v :: 16 word)"
  by (rule bit_word_eqI) (auto simp: bit_simps)

lemma get_item_at:
  "item_fits x \<Longrightarrow> get_item (src_at pre (item_bytes x @ rest)) x = (x, src_at (pre @ item_bytes x) rest)"
  by (cases x) (simp_all add: sink_simps)

lemma get_items_at:
  "\<forall>x\<in>set xs. item_fits x \<Longrightarrow>
     get_items (src_at pre (concat (map item_bytes xs) @ rest)) xs
       = (xs, src_at (pre @ concat (map item_bytes xs)) rest)"
  by (induction xs arbitrary: pre) (simp_all add: get_item_at)

context binary_sink
begin

lemma put_pstring_append:
  assumes "fits s (length d + 1)" and "length d < 256"
  shows "appends (map_option snd (put_pstring wr s d)) s (word_of_nat (length d) # d)"
proof -
  have "appends (case put_byte wr s (word_of_nat (length d)) of None \<Rightarrow> None | Some bs \<Rightarrow> wr bs d) s
      ([word_of_nat (length d)] @ d)"
    using assms(1) by (intro appends_bind put_integers_append) (auto simp: fits_def intro: write_fits)
  with assms(2) show ?thesis
    by (fastforce simp: put_pstring_def appends_def split: option.splits)
qed

lemma put_item_appends:
  "\<lbrakk>item_fits x; fits s (length (item_bytes x))\<rbrakk> \<Longrightarrow> appends (put_item wr s x) s (item_bytes x)"
  using put_integers_append(3) [of s "ucast (case x of Uint16I v \<Rightarrow> v | _ \<Rightarrow> 0)"]
  by (cases x) (auto simp: put_integers_append put_string_append put_asciz_append put_pstring_append add.commute)

lemma put_items_append:
  "\<lbrakk>\<forall>x\<in>set xs. item_fits x; fits s (length (concat (map item_bytes xs)))\<rbrakk>
     \<Longrightarrow> appends (put_items wr s xs) s (concat (map item_bytes xs))"
proof (induction xs arbitrary: s)
  case (Cons x xs)
  have "appends (put_item wr s x) s (item_bytes x)"
    using Cons.prems by (intro put_item_appends) (auto intro: fits_le)
  moreover have "appends (put_items wr t xs) t (concat (map item_bytes xs))"
    if "ok t" "contents t = contents s @ item_bytes x" for t
    using that Cons.prems by (intro Cons.IH) (auto simp: fits_def)
  ultimately show ?case by (auto intro: appends_bind)
qed (simp add: appends_def fits_def)

end

section \<open>A string buffer is a byte list\<close>

datatype buf_op = Write bytes | ShrinkTo nat | ShrinkBy nat | Chomp byte

fun run_buf :: "strbuf \<Rightarrow> buf_op \<Rightarrow> (bool \<times> strbuf) option" where
  "run_buf buf (Write d) = map_option (Pair False) (strbuf_write buf d)"
| "run_buf buf (ShrinkTo n) = map_option (Pair False) (strbuf_shrink_to buf n)"
| "run_buf buf (ShrinkBy n) = map_option (Pair False) (strbuf_shrink_by buf n)"
| "run_buf buf (Chomp c) = strbuf_chomp buf c"

fun spec_buf :: "bytes \<Rightarrow> buf_op \<Rightarrow> (bool \<times> bytes) option" where
  "spec_buf xs (Write d) = (if length xs + length d < size_max then Some (False, xs @ d) else None)"
| "spec_buf xs (ShrinkTo n) = (if n \<le> length xs then Some (False, take n xs) else None)"
| "spec_buf xs (ShrinkBy n) = (if n \<le> length xs then Some (False, take (length xs - n) xs) else None)"
| "spec_buf xs (Chomp c) = Some (xs \<noteq> [] \<and> last xs = c, chomp_end c xs)"

lemma strbuf_write_full:
  "\<lbrakk>strbuf_ok buf; \<not> length (strbuf_contents buf) + length d < size_max\<rbrakk> \<Longrightarrow> strbuf_write buf d = None"
  by (auto simp: strbuf_write_def strbuf_append_def safegrowarray_def length_contents Let_def)

lemma run_buf_spec:
  assumes "strbuf_ok buf"
  shows "case spec_buf (strbuf_contents buf) p of
           None \<Rightarrow> run_buf buf p = None
         | Some (r, ys) \<Rightarrow> \<exists>u. run_buf buf p = Some (r, u) \<and> strbuf_ok u \<and> strbuf_contents u = ys"
proof (cases p)
  case (Write d)
  with strbuf_write_ok [OF assms, of d] strbuf_write_full [OF assms, of d] show ?thesis by auto
next
  case (ShrinkTo n)
  with strbuf_shrink_to_ok [OF assms, of n] show ?thesis by auto
next
  case (ShrinkBy n)
  show ?thesis
  proof (cases "n \<le> sb_len buf")
    case True
    with strbuf_shrink_to_ok [OF assms, of "sb_len buf - n"] ShrinkBy show ?thesis
      by (auto simp: shrink_by_to length_contents [OF assms])
  qed (use ShrinkBy in \<open>simp add: strbuf_shrink_by_def length_contents [OF assms]\<close>)
next
  case (Chomp c)
  with strbuf_chomp_ok [OF assms, of c] show ?thesis by auto
qed

section \<open>What the layer promises\<close>

text \<open>
  C19: reading is safe on any data. After any sequence of typed reads the position has only moved
  forward and is still inside the block, the block is unchanged, and once an error has been
  recorded the source stays exactly as it was when the error occurred.
\<close>

theorem reads_stay_inside:
  assumes "src_pos src \<le> length (src_data src)"
  shows "let src' = foldl run_read src ps in
           src_data src' = src_data src \<and> src_pos src \<le> src_pos src' \<and>
           src_pos src' \<le> length (src_data src) \<and> (get_err src \<longrightarrow> src' = src)"
  using run_reads_move [of src ps] assms by (auto simp: src_moves_def src_ok_def Let_def)

theorem reads_stay_inside_witness:
  "let src' = foldl run_read (src_init [0, 0, 0, 9, 1]) [RByte, RString, RUint32] in
     src_data src' = [0, 0, 0, 9, 1] \<and> src_pos src' \<le> 5"
  using reads_stay_inside [of "src_init [0, 0, 0, 9, 1]" "[RByte, RString, RUint32]"]
  by (simp add: src_init_def Let_def)

text \<open>
  C17: marshalling round trip. Any sequence of items (integers of each width, booleans, strings of
  each format) written to an empty string buffer is read back from its bytes as the same sequence,
  with no error and nothing left over.
\<close>

theorem marshal_round_trip:
  assumes "\<forall>x\<in>set items. item_fits x" and "length (concat (map item_bytes items)) < size_max"
  shows "\<exists>buf. put_items strbuf_write strbuf_new items = Some buf \<and> strbuf_ok buf \<and>
           (\<exists>src. get_items (src_init (strbuf_contents buf)) items = (items, src) \<and>
              \<not> get_err src \<and> get_avail src = 0)"
proof -
  from assms(2) have "sb.fits strbuf_new (length (concat (map item_bytes items)))"
    by (simp add: sb.fits_def strbuf_new_def strbuf_new_ok)
  from sb.put_items_append [OF assms(1) this] obtain buf where
    "put_items strbuf_write strbuf_new items = Some buf" "strbuf_ok buf"
    "strbuf_contents buf = concat (map item_bytes items)"
    by (auto simp: sb.appends_def strbuf_new_def strbuf_new_ok)
  with get_items_at [OF assms(1), of "[]" "[]"] show ?thesis by (auto simp: src_init_at)
qed

theorem marshal_round_trip_witness:
  "\<exists>buf. put_items strbuf_write strbuf_new [Uint32I 0x12345678, StringI [104, 105], BoolI True, PStringI []]
      = Some buf \<and> strbuf_ok buf \<and>
      (\<exists>src. get_items (src_init (strbuf_contents buf)) [Uint32I 0x12345678, StringI [104, 105], BoolI True, PStringI []]
         = ([Uint32I 0x12345678, StringI [104, 105], BoolI True, PStringI []], src) \<and>
       \<not> get_err src \<and> get_avail src = 0)"
  by (rule marshal_round_trip) (simp_all add: size_max_def)

text \<open>
  C18: a string buffer refines a byte list. Any sequence of writes, truncations and chomps on a new
  buffer returns and leaves what it does on a list; the buffer's own assertions fail exactly where
  the list operation is impossible (shrinking beyond the length) or would outgrow the address space;
  and the byte after the content is always the terminating zero.
\<close>

theorem strbuf_refines_list:
  "case run_ops spec_buf [] ops of
     None \<Rightarrow> run_ops run_buf strbuf_new ops = None
   | Some (rs, xs) \<Rightarrow> \<exists>buf. run_ops run_buf strbuf_new ops = Some (rs, buf) \<and> strbuf_ok buf \<and>
       strbuf_contents buf = xs \<and> sb_mem buf ! length xs = Some 0"
proof -
  let ?R = "\<lambda>buf xs. strbuf_ok buf \<and> strbuf_contents buf = xs"
  have "?R strbuf_new []" by (simp add: strbuf_new_def strbuf_new_ok)
  from run_ops_agree [where R = ?R and f = run_buf and g = spec_buf and ps = ops, OF _ this] run_buf_spec
  have "case run_ops spec_buf [] ops of
     None \<Rightarrow> run_ops run_buf strbuf_new ops = None
   | Some (rs, xs) \<Rightarrow> \<exists>buf. run_ops run_buf strbuf_new ops = Some (rs, buf) \<and> ?R buf xs" by blast
  then show ?thesis by (fastforce simp: strbuf_ok_def length_contents split: option.splits)
qed

text \<open>
  C38: growing an array never loses an element, never exceeds the address space, and either leaves
  the allocation alone, exhausts the address space, or grows it by at least a sixteenth and by
  256 bytes, so that repeated appending takes amortised constant time.
\<close>

theorem safegrowarray_bounds:
  assumes "0 < eltsize" and "allocated \<le> size_max div eltsize" and "oldlen + extralen \<le> size_max div eltsize"
  shows "\<exists>newsize. safegrowarray allocated eltsize oldlen extralen = Some newsize \<and>
           oldlen + extralen \<le> newsize \<and> allocated \<le> newsize \<and> newsize \<le> size_max div eltsize \<and>
           (newsize = allocated \<or> newsize = size_max div eltsize \<or>
            allocated + allocated div 16 \<le> newsize \<and> allocated + 256 div eltsize \<le> newsize)"
  using assms by (rule safegrowarray_enough)

theorem safegrowarray_bounds_witness:
  "\<exists>newsize. safegrowarray 512 8 500 100 = Some newsize \<and> 600 \<le> newsize"
  using safegrowarray_bounds [of 8 512 500 100] by (auto simp: size_max_def)

end
