(* ===== verification/Bufchain.thy ===== *)
theory Bufchain
  imports Strbuf
begin

text \<open>
  Buffer chains (\<^verbatim>\<open>utils/bufchain.c\<close>): a queue of bytes kept as a linked list of granules, its
  refinement to one byte list, the contract \<open>byte_queue\<close> its clients rely on, and the sink
  that appends to a chain.
\<close>

section \<open>The chain\<close>

text \<open>
  A granule's live bytes (\<^verbatim>\<open>bufpos\<close> to \<^verbatim>\<open>bufend\<close>) and the free room after them
  (\<^verbatim>\<open>bufend\<close> to \<^verbatim>\<open>bufmax\<close>). The linked list is a list, its last element the
  \<^verbatim>\<open>tail\<close>. \<open>ch_ic\<close> is the idempotent callback, if one is set, and \<open>ch_queued\<close> counts how
  often the chain asked for it to be queued.
\<close>

record granule =
  gr_data :: bytes
  gr_room :: nat

record bufchain =
  ch_granules :: "granule list"
  ch_buffersize :: nat
  ch_ic :: bool
  ch_queued :: nat

definition BUFFER_MIN_GRANULE :: nat where "BUFFER_MIN_GRANULE = 512"
definition sizeof_granule :: nat where "sizeof_granule = 32"

definition bufchain_init :: bufchain where
  "bufchain_init = \<lparr>ch_granules = [], ch_buffersize = 0, ch_ic = False, ch_queued = 0\<rparr>"

definition bufchain_clear :: "bufchain \<Rightarrow> bufchain" where
  "bufchain_clear ch = ch\<lparr>ch_granules := [], ch_buffersize := 0\<rparr>"

definition bufchain_size :: "bufchain \<Rightarrow> nat" where
  "bufchain_size ch = ch_buffersize ch"

definition bufchain_set_callback :: "bufchain \<Rightarrow> bool \<Rightarrow> bufchain" where
  "bufchain_set_callback ch ic = ch\<lparr>ch_ic := ic\<rparr>"

text \<open>
  The copying loop of \<^verbatim>\<open>bufchain_add\<close>: fill the room of the tail; while data is left, append an
  empty granule that is large enough for it.
\<close>

definition fill_tail :: "granule list \<Rightarrow> bytes \<Rightarrow> granule list \<times> bytes" where
  "fill_tail gs buf =
     (if gs \<noteq> [] \<and> gr_room (last gs) > 0 then
        let copylen = min (length buf) (gr_room (last gs)) in
        (butlast gs @ [(last gs)\<lparr>gr_data := gr_data (last gs) @ take copylen buf,
                                  gr_room := gr_room (last gs) - copylen\<rparr>],
         drop copylen buf)
      else (gs, buf))"

definition new_granule :: "nat \<Rightarrow> granule" where
  "new_granule len =
     (let grainlen = max (sizeof_granule + len) BUFFER_MIN_GRANULE
      in \<lparr>gr_data = [], gr_room = grainlen - sizeof_granule\<rparr>)"

lemma fill_tail_length: "length (snd (fill_tail gs buf)) \<le> length buf"
  by (simp add: fill_tail_def Let_def)

lemma room_new_granule: "len \<le> gr_room (new_granule len)" "0 < gr_room (new_granule len)"
  by (simp_all add: new_granule_def Let_def sizeof_granule_def BUFFER_MIN_GRANULE_def)

function add_loop :: "granule list \<Rightarrow> bytes \<Rightarrow> granule list" where
  "add_loop gs buf =
     (if buf \<noteq> [] then
        let (gs, buf) = fill_tail gs buf in
        if buf \<noteq> [] then add_loop (gs @ [new_granule (length buf)]) buf
        else add_loop gs buf
      else gs)"
  by pat_completeness auto
termination
proof (relation "measure (\<lambda>(gs, buf). if buf = [] then 0 else if gs \<noteq> [] \<and> gr_room (last gs) > 0
    then 2 * length buf else 2 * length buf + 1)")
  fix gs buf x gs' buf' assume a: "buf \<noteq> []" "x = fill_tail gs buf" "(gs', buf') = x" "buf' \<noteq> []"
  then have "\<not> (gs \<noteq> [] \<and> gr_room (last gs) > 0) \<longrightarrow> buf' = buf"
    "gs \<noteq> [] \<and> gr_room (last gs) > 0 \<longrightarrow> length buf' < length buf"
    by (auto simp: fill_tail_def Let_def)
  with a(1,4) show "((gs' @ [new_granule (length buf')], buf'), (gs, buf))
      \<in> measure (\<lambda>(gs, buf). if buf = [] then 0 else if gs \<noteq> [] \<and> gr_room (last gs) > 0
          then 2 * length buf else 2 * length buf + 1)"
    by (simp add: room_new_granule(2))
next
  fix gs buf and x :: "granule list \<times> bytes" and gs' buf'
  assume "buf \<noteq> ([] :: bytes)" "\<not> buf' \<noteq> ([] :: bytes)"
  then show "((gs', buf'), (gs, buf))
      \<in> measure (\<lambda>(gs, buf). if buf = [] then 0 else if gs \<noteq> [] \<and> gr_room (last gs) > 0
          then 2 * length buf else 2 * length buf + 1)" by simp
qed simp

declare add_loop.simps [simp del]

definition bufchain_add :: "bufchain \<Rightarrow> bytes \<Rightarrow> bufchain" where
  "bufchain_add ch data =
     (if length data = 0 then ch
      else
        let ch = ch\<lparr>ch_buffersize := (ch_buffersize ch + length data) mod 2 ^ 64,
                    ch_granules := add_loop (ch_granules ch) data\<rparr>
        in if ch_ic ch then ch\<lparr>ch_queued := ch_queued ch + 1\<rparr> else ch)"

text \<open>
  Consuming. The code narrows the remaining \<^verbatim>\<open>size_t\<close> length to \<^verbatim>\<open>int\<close>; a negative
  result would move \<^verbatim>\<open>bufpos\<close> before the granule (\<open>None\<close>), and a zero one would loop for
  ever.
\<close>

partial_function (option) consume_loop :: "granule list \<Rightarrow> nat \<Rightarrow> nat \<Rightarrow> (granule list \<times> nat) option" where
  "consume_loop gs sz len =
     (if len > 0 then
        let remlen = c_int len in
        case gs of
          [] \<Rightarrow> None
        | g # gs' \<Rightarrow>
            if remlen \<ge> int (length (gr_data g)) then
              consume_loop gs' (sz - length (gr_data g)) (len - length (gr_data g))
            else if remlen < 0 then None
            else consume_loop (g\<lparr>gr_data := drop (nat remlen) (gr_data g)\<rparr> # gs')
                   (sz - nat remlen) (len - nat remlen)
      else Some (gs, sz))"

definition bufchain_consume :: "bufchain \<Rightarrow> nat \<Rightarrow> bufchain option" where
  "bufchain_consume ch len =
     (if ch_buffersize ch \<ge> len then
        case consume_loop (ch_granules ch) (ch_buffersize ch) len of
          None \<Rightarrow> None
        | Some (gs, sz) \<Rightarrow> Some (ch\<lparr>ch_granules := gs, ch_buffersize := sz\<rparr>)
      else None)"

definition bufchain_prefix :: "bufchain \<Rightarrow> bytes option" where
  "bufchain_prefix ch = (case ch_granules ch of [] \<Rightarrow> None | g # _ \<Rightarrow> Some (gr_data g))"

fun fetch_loop :: "granule list \<Rightarrow> nat \<Rightarrow> bytes option" where
  "fetch_loop gs len =
     (if len > 0 then
        let remlen = c_int len in
        case gs of
          [] \<Rightarrow> None
        | g # gs' \<Rightarrow>
            let remlen = (if remlen \<ge> int (length (gr_data g)) then int (length (gr_data g)) else remlen) in
            if remlen < 0 then None
            else
              case fetch_loop gs' (len - nat remlen) of
                None \<Rightarrow> None
              | Some d \<Rightarrow> Some (take (nat remlen) (gr_data g) @ d)
      else Some [])"

definition bufchain_fetch :: "bufchain \<Rightarrow> nat \<Rightarrow> bytes option" where
  "bufchain_fetch ch len =
     (if ch_buffersize ch \<ge> len then fetch_loop (ch_granules ch) len else None)"

definition bufchain_fetch_consume :: "bufchain \<Rightarrow> nat \<Rightarrow> (bytes \<times> bufchain) option" where
  "bufchain_fetch_consume ch len =
     (case bufchain_fetch ch len of
        None \<Rightarrow> None
      | Some d \<Rightarrow> (case bufchain_consume ch len of None \<Rightarrow> None | Some ch \<Rightarrow> Some (d, ch)))"

text \<open>The \<open>try\<close> forms return whether there was enough data; the inner option is that \<^verbatim>\<open>bool\<close>.\<close>

definition bufchain_try_fetch :: "bufchain \<Rightarrow> nat \<Rightarrow> bytes option option" where
  "bufchain_try_fetch ch len =
     (if ch_buffersize ch \<ge> len
      then (case bufchain_fetch ch len of None \<Rightarrow> None | Some d \<Rightarrow> Some (Some d))
      else Some None)"

definition bufchain_try_consume :: "bufchain \<Rightarrow> nat \<Rightarrow> (bool \<times> bufchain) option" where
  "bufchain_try_consume ch len =
     (if ch_buffersize ch \<ge> len
      then (case bufchain_consume ch len of None \<Rightarrow> None | Some ch \<Rightarrow> Some (True, ch))
      else Some (False, ch))"

definition bufchain_try_fetch_consume :: "bufchain \<Rightarrow> nat \<Rightarrow> (bytes option \<times> bufchain) option" where
  "bufchain_try_fetch_consume ch len =
     (if ch_buffersize ch \<ge> len
      then (case bufchain_fetch_consume ch len of None \<Rightarrow> None | Some (d, ch) \<Rightarrow> Some (Some d, ch))
      else Some (None, ch))"

definition bufchain_fetch_consume_up_to :: "bufchain \<Rightarrow> nat \<Rightarrow> (bytes \<times> bufchain) option" where
  "bufchain_fetch_consume_up_to ch len =
     (let len = (if len > ch_buffersize ch then ch_buffersize ch else len)
      in if len \<noteq> 0 then bufchain_fetch_consume ch len else Some ([], ch))"

declare fetch_loop.simps [simp del]

section \<open>Refinement to a byte list\<close>

definition chain_bytes :: "granule list \<Rightarrow> bytes" where
  "chain_bytes gs = concat (map gr_data gs)"

definition bufchain_contents :: "bufchain \<Rightarrow> bytes" where
  "bufchain_contents ch = chain_bytes (ch_granules ch)"

text \<open>No granule is empty, and the size field is the number of bytes.\<close>

definition bufchain_ok :: "bufchain \<Rightarrow> bool" where
  "bufchain_ok ch \<longleftrightarrow>
     (\<forall>g\<in>set (ch_granules ch). gr_data g \<noteq> []) \<and>
     ch_buffersize ch = length (bufchain_contents ch) \<and> ch_buffersize ch < 2 ^ 64"

lemma chain_bytes_simps [simp]:
  "chain_bytes [] = []" "chain_bytes (g # gs) = gr_data g @ chain_bytes gs"
  "chain_bytes (gs @ hs) = chain_bytes gs @ chain_bytes hs"
  by (simp_all add: chain_bytes_def)

lemma fill_tail_bytes: "chain_bytes (fst (fill_tail gs buf)) @ snd (fill_tail gs buf) = chain_bytes gs @ buf"
proof (cases "gs = []")
  case False
  then obtain hs g where "gs = hs @ [g]" by (metis append_butlast_last_id)
  then show ?thesis by (simp add: fill_tail_def Let_def)
qed (simp add: fill_tail_def)

lemma add_loop_bytes: "chain_bytes (add_loop gs buf) = chain_bytes gs @ buf"
proof (induction gs buf rule: add_loop.induct)
  case (1 gs buf)
  obtain gs' buf' where f: "fill_tail gs buf = (gs', buf')" by (cases "fill_tail gs buf")
  with 1 fill_tail_bytes [of gs buf] show ?case
    by (subst add_loop.simps) (auto simp: new_granule_def)
qed

text \<open>An empty granule is only ever the tail, and only while there is data left for it.\<close>

lemma fill_tail_nonempty:
  assumes "\<forall>g\<in>set (butlast gs). gr_data g \<noteq> []" and "gs \<noteq> [] \<longrightarrow> gr_data (last gs) \<noteq> [] \<or> gr_room (last gs) > 0"
    and "buf \<noteq> []"
  shows "\<forall>g\<in>set (fst (fill_tail gs buf)). gr_data g \<noteq> []"
proof (cases "gs = []")
  case False
  then obtain hs g where "gs = hs @ [g]" by (metis append_butlast_last_id)
  with assms show ?thesis by (auto simp: fill_tail_def Let_def)
qed (simp add: fill_tail_def)

lemma add_loop_nonempty:
  assumes "\<forall>g\<in>set (butlast gs). gr_data g \<noteq> []"
    and "gs \<noteq> [] \<longrightarrow> gr_data (last gs) \<noteq> [] \<or> buf \<noteq> [] \<and> gr_room (last gs) > 0"
  shows "\<forall>g\<in>set (add_loop gs buf). gr_data g \<noteq> []"
  using assms
proof (induction gs buf rule: add_loop.induct)
  case (1 gs buf)
  show ?case
  proof (cases "buf = []")
    case True
    with "1.prems" have "\<forall>g\<in>set gs. gr_data g \<noteq> []"
      by (metis append_butlast_last_id rotate1.simps(2) set_ConsD set_rotate1 empty_iff list.set(1))
    with True show ?thesis by (subst add_loop.simps) simp
  next
    case False
    obtain gs' buf' where f: "fill_tail gs buf = (gs', buf')" by (cases "fill_tail gs buf")
    with fill_tail_nonempty [of gs buf] "1.prems" False have ne: "\<forall>g\<in>set gs'. gr_data g \<noteq> []" by auto
    then have "\<forall>g\<in>set (butlast gs'). gr_data g \<noteq> []" "gs' \<noteq> [] \<longrightarrow> gr_data (last gs') \<noteq> []"
      by (auto dest: in_set_butlastD)
    with 1(1,2) f False ne show ?thesis
      by (subst add_loop.simps) (simp add: room_new_granule)
  qed
qed

lemma bufchain_add_ok [wf_intros]:
  assumes "bufchain_ok ch" and "length (bufchain_contents ch) + length data < 2 ^ 64"
  shows "bufchain_ok (bufchain_add ch data)"
    and "bufchain_contents (bufchain_add ch data) = bufchain_contents ch @ data"
proof -
  have "\<forall>g\<in>set (add_loop (ch_granules ch) data). gr_data g \<noteq> []"
    using assms(1) by (intro add_loop_nonempty) (auto simp: bufchain_ok_def dest: in_set_butlastD)
  with assms show "bufchain_ok (bufchain_add ch data)"
    by (auto simp: bufchain_add_def bufchain_ok_def bufchain_contents_def add_loop_bytes Let_def)
  show "bufchain_contents (bufchain_add ch data) = bufchain_contents ch @ data"
    by (auto simp: bufchain_add_def bufchain_contents_def add_loop_bytes Let_def)
qed

lemma consume_loop_ok:
  assumes "\<forall>g\<in>set gs. gr_data g \<noteq> []" and "len \<le> length (chain_bytes gs)" and "len < 2 ^ 31"
    and "len \<le> sz"
  shows "\<exists>gs'. consume_loop gs sz len = Some (gs', sz - len) \<and>
           (\<forall>g\<in>set gs'. gr_data g \<noteq> []) \<and> chain_bytes gs' = drop len (chain_bytes gs)"
  using assms
proof (induction gs arbitrary: sz len)
  case Nil
  then show ?case by (simp add: consume_loop.simps)
next
  case (Cons g gs)
  show ?case
  proof (cases "len = 0")
    case True
    with Cons.prems show ?thesis by (simp add: consume_loop.simps)
  next
    case pos: False
    show ?thesis
    proof (cases "length (gr_data g) \<le> len")
      case True
      with Cons.prems have "len - length (gr_data g) \<le> length (chain_bytes gs)"
        "len - length (gr_data g) < 2 ^ 31" "len - length (gr_data g) \<le> sz - length (gr_data g)"
        by (simp_all add: le_diff_conv)
      with Cons.prems Cons.IH [of "len - length (gr_data g)" "sz - length (gr_data g)"] True
      obtain gs' where
        "consume_loop gs (sz - length (gr_data g)) (len - length (gr_data g)) = Some (gs', sz - len)"
        "\<forall>g\<in>set gs'. gr_data g \<noteq> []"
        "chain_bytes gs' = drop (len - length (gr_data g)) (chain_bytes gs)" by auto
      with True pos Cons.prems show ?thesis by (subst consume_loop.simps) simp
    next
      case False
      with pos Cons.prems show ?thesis
        by (subst consume_loop.simps, subst consume_loop.simps) simp
    qed
  qed
qed

lemma bufchain_consume_ok [wf_intros]:
  assumes "bufchain_ok ch" and "n \<le> length (bufchain_contents ch)" and "n < 2 ^ 31"
  shows "\<exists>ch'. bufchain_consume ch n = Some ch' \<and> bufchain_ok ch' \<and>
           bufchain_contents ch' = drop n (bufchain_contents ch)"
proof -
  from consume_loop_ok [of "ch_granules ch" n "ch_buffersize ch"] assms show ?thesis
    by (auto simp: bufchain_consume_def bufchain_ok_def bufchain_contents_def)
qed

lemma fetch_loop_ok:
  "\<lbrakk>len \<le> length (chain_bytes gs); len < 2 ^ 31\<rbrakk> \<Longrightarrow> fetch_loop gs len = Some (take len (chain_bytes gs))"
proof (induction gs arbitrary: len)
  case (Cons g gs)
  show ?case
  proof (cases "length (gr_data g) \<le> len")
    case True
    with Cons.prems have "len - length (gr_data g) \<le> length (chain_bytes gs)"
      "len - length (gr_data g) < 2 ^ 31" by (simp_all add: le_diff_conv)
    from Cons.IH [OF this] True Cons.prems show ?thesis
      by (subst fetch_loop.simps) (auto simp: Let_def)
  next
    case False
    with Cons.prems show ?thesis
      by (subst fetch_loop.simps, subst fetch_loop.simps) (simp add: Let_def)
  qed
qed (simp add: fetch_loop.simps)

lemma bufchain_fetch_ok:
  assumes "bufchain_ok ch" and "n \<le> length (bufchain_contents ch)" and "n < 2 ^ 31"
  shows "bufchain_fetch ch n = Some (take n (bufchain_contents ch))"
  using assms fetch_loop_ok [of n "ch_granules ch"]
  by (simp add: bufchain_fetch_def bufchain_ok_def bufchain_contents_def)

lemma bufchain_prefix_ok:
  assumes "bufchain_ok ch" and "bufchain_contents ch \<noteq> []"
  shows "\<exists>p q. bufchain_prefix ch = Some p \<and> p \<noteq> [] \<and> bufchain_contents ch = p @ q"
  using assms
  by (cases "ch_granules ch") (auto simp: bufchain_prefix_def bufchain_ok_def bufchain_contents_def)

section \<open>The contract of a byte queue\<close>

locale byte_queue =
  fixes ok :: "'q \<Rightarrow> bool"
    and contents :: "'q \<Rightarrow> bytes"
    and add :: "'q \<Rightarrow> bytes \<Rightarrow> 'q"
    and consume :: "'q \<Rightarrow> nat \<Rightarrow> 'q option"
    and fetch :: "'q \<Rightarrow> nat \<Rightarrow> bytes option"
    and prefix :: "'q \<Rightarrow> bytes option"
    and capacity :: nat
    and chunk :: nat
  assumes add_ok: "\<lbrakk>ok q; length (contents q) + length d < capacity\<rbrakk> \<Longrightarrow> ok (add q d)"
    and add_contents: "\<lbrakk>ok q; length (contents q) + length d < capacity\<rbrakk>
          \<Longrightarrow> contents (add q d) = contents q @ d"
    and consume_ok: "\<lbrakk>ok q; n \<le> length (contents q); n < chunk\<rbrakk>
          \<Longrightarrow> \<exists>q'. consume q n = Some q' \<and> ok q' \<and> contents q' = drop n (contents q)"
    and fetch_ok: "\<lbrakk>ok q; n \<le> length (contents q); n < chunk\<rbrakk> \<Longrightarrow> fetch q n = Some (take n (contents q))"
    and prefix_ok: "\<lbrakk>ok q; contents q \<noteq> []\<rbrakk>
          \<Longrightarrow> \<exists>p r. prefix q = Some p \<and> p \<noteq> [] \<and> contents q = p @ r"
begin

text \<open>Taking data off the front, and a queue carries what is put in it, in order.\<close>

lemma fetch_then_consume:
  "\<lbrakk>ok q; n \<le> length (contents q); n < chunk\<rbrakk>
     \<Longrightarrow> \<exists>q'. (case fetch q n of
                 None \<Rightarrow> None
               | Some d \<Rightarrow> (case consume q n of None \<Rightarrow> None | Some q \<Rightarrow> Some (d, q)))
               = Some (take n (contents q), q') \<and> ok q' \<and> contents q' = drop n (contents q)"
  using consume_ok [of q n] fetch_ok [of q n] by auto

lemma fifo:
  assumes "ok q" and "contents q = d" and "length d < chunk" and "length d + length e < capacity"
  shows "\<exists>q'. consume (add q e) (length d) = Some q' \<and> ok q' \<and> contents q' = e"
  using assms consume_ok [of "add q e" "length d"] by (simp add: add_ok add_contents)

lemma sink: "binary_sink (\<lambda>q d. Some (add q d)) ok contents capacity"
  by unfold_locales (simp add: add_ok add_contents)

end

interpretation bc: byte_queue bufchain_ok bufchain_contents bufchain_add bufchain_consume
    bufchain_fetch bufchain_prefix "2 ^ 64" "2 ^ 31"
  by unfold_locales ((rule bufchain_add_ok bufchain_consume_ok bufchain_fetch_ok bufchain_prefix_ok; assumption)+)

definition bufchain_sink_write :: "bufchain sink_write" where
  "bufchain_sink_write ch data = Some (bufchain_add ch data)"

interpretation bcs: binary_sink bufchain_sink_write bufchain_ok bufchain_contents "2 ^ 64"
  using bc.sink by (simp add: bufchain_sink_write_def [abs_def])

lemma bufchain_init_ok: "bufchain_ok bufchain_init" "bufchain_contents bufchain_init = []"
  by (simp_all add: bufchain_ok_def bufchain_init_def bufchain_contents_def)

lemma bufchain_fetch_consume_ok:
  "\<lbrakk>bufchain_ok ch; n \<le> length (bufchain_contents ch); n < 2 ^ 31\<rbrakk>
     \<Longrightarrow> \<exists>ch'. bufchain_fetch_consume ch n = Some (take n (bufchain_contents ch), ch') \<and>
           bufchain_ok ch' \<and> bufchain_contents ch' = drop n (bufchain_contents ch)"
  unfolding bufchain_fetch_consume_def by (rule bc.fetch_then_consume)

lemma bufchain_up_to_ok:
  assumes "bufchain_ok ch" and "n < 2 ^ 31"
  shows "\<exists>ch'. bufchain_fetch_consume_up_to ch n = Some (take n (bufchain_contents ch), ch') \<and>
           bufchain_ok ch' \<and> bufchain_contents ch' = drop n (bufchain_contents ch)"
proof -
  have s: "ch_buffersize ch = length (bufchain_contents ch)" using assms(1) by (simp add: bufchain_ok_def)
  show ?thesis
  proof (cases "min n (ch_buffersize ch) = 0")
    case True
    with s assms show ?thesis by (auto simp: bufchain_fetch_consume_up_to_def Let_def min_def split: if_splits)
  next
    case False
    with bufchain_fetch_consume_ok [OF assms(1), of "min n (ch_buffersize ch)"] s assms
    show ?thesis by (auto simp: bufchain_fetch_consume_up_to_def Let_def min_def split: if_splits)
  qed
qed

section \<open>What the chain promises\<close>

datatype chain_op = AddData bytes | FetchConsume nat | FetchConsumeUpTo nat | TryFetchConsume nat

fun run_chain :: "bufchain \<Rightarrow> chain_op \<Rightarrow> (bytes option \<times> bufchain) option" where
  "run_chain ch (AddData d) = Some (None, bufchain_add ch d)"
| "run_chain ch (FetchConsume n) = map_option (\<lambda>(d, ch). (Some d, ch)) (bufchain_fetch_consume ch n)"
| "run_chain ch (FetchConsumeUpTo n) = map_option (\<lambda>(d, ch). (Some d, ch)) (bufchain_fetch_consume_up_to ch n)"
| "run_chain ch (TryFetchConsume n) = bufchain_try_fetch_consume ch n"

text \<open>A queue of bytes; chunks are limited to what fits the narrowed length of the code.\<close>

fun spec_chain :: "bytes \<Rightarrow> chain_op \<Rightarrow> (bytes option \<times> bytes) option" where
  "spec_chain xs (AddData d) = (if length xs + length d < 2 ^ 64 then Some (None, xs @ d) else None)"
| "spec_chain xs (FetchConsume n) =
     (if n \<le> length xs \<and> n < 2 ^ 31 then Some (Some (take n xs), drop n xs) else None)"
| "spec_chain xs (FetchConsumeUpTo n) = (if n < 2 ^ 31 then Some (Some (take n xs), drop n xs) else None)"
| "spec_chain xs (TryFetchConsume n) =
     (if \<not> n < 2 ^ 31 then None
      else if n \<le> length xs then Some (Some (take n xs), drop n xs) else Some (None, xs))"

fun added :: "chain_op \<Rightarrow> bytes" where
  "added (AddData d) = d"
| "added _ = []"

lemma run_chain_spec:
  assumes "bufchain_ok ch \<and> bufchain_contents ch = xs" and "spec_chain xs p = Some (r, ys)"
  shows "\<exists>u. run_chain ch p = Some (r, u) \<and> bufchain_ok u \<and> bufchain_contents u = ys"
proof -
  from assms(1) have ok: "bufchain_ok ch" and c: "bufchain_contents ch = xs" by simp_all
  have s: "ch_buffersize ch = length xs" using ok c by (simp add: bufchain_ok_def)
  show ?thesis
  proof (cases p)
    case (AddData d)
    with assms(2) bufchain_add_ok [OF ok, of d] c show ?thesis by (auto split: if_splits)
  next
    case (FetchConsume n)
    with assms(2) bufchain_fetch_consume_ok [OF ok, of n] c show ?thesis by (auto split: if_splits)
  next
    case (FetchConsumeUpTo n)
    with assms(2) bufchain_up_to_ok [OF ok, of n] c show ?thesis by (auto split: if_splits)
  next
    case (TryFetchConsume n)
    with assms(2) bufchain_fetch_consume_ok [OF ok, of n] c s ok show ?thesis
      by (auto simp: bufchain_try_fetch_consume_def split: if_splits)
  qed
qed

lemma spec_chain_conserves:
  assumes "run_ops spec_chain xs ops = Some (rs, ys)"
  shows "concat (map (\<lambda>r. case r of Some d \<Rightarrow> d | None \<Rightarrow> []) rs) @ ys = xs @ concat (map added ops)"
  using assms
proof (induction ops arbitrary: xs rs)
  case (Cons p ops)
  from Cons.prems obtain r zs rs' where r: "spec_chain xs p = Some (r, zs)"
    "run_ops spec_chain zs ops = Some (rs', ys)" "rs = r # rs'" by (auto split: option.splits)
  from r(1) have "(case r of Some d \<Rightarrow> d | None \<Rightarrow> []) @ zs = xs @ added p"
    by (cases p) (auto split: if_splits)
  with Cons.IH [OF r(2)] r(3) show ?case by simp
qed simp

text \<open>
  C13: a buffer chain is a first-in first-out queue of bytes. Any sequence of additions and
  reads, each read shorter than 2^31 bytes, gives what it gives on a byte list; so what was read,
  followed by what is left, is exactly what was added, in order.
\<close>

theorem bufchain_is_fifo:
  assumes "run_ops spec_chain [] ops = Some (rs, xs)"
  shows "\<exists>ch. run_ops run_chain bufchain_init ops = Some (rs, ch) \<and> bufchain_ok ch \<and>
           bufchain_size ch = length xs \<and>
           concat (map (\<lambda>r. case r of Some d \<Rightarrow> d | None \<Rightarrow> []) rs) @ bufchain_contents ch
             = concat (map added ops)"
proof -
  have init: "bufchain_ok bufchain_init \<and> bufchain_contents bufchain_init = []" by (simp add: bufchain_init_ok)
  have "\<exists>ch. run_ops run_chain bufchain_init ops = Some (rs, ch) \<and> bufchain_ok ch \<and> bufchain_contents ch = xs"
    by (rule run_ops_simulation [where g = spec_chain and R = "\<lambda>ch xs. bufchain_ok ch \<and> bufchain_contents ch = xs"])
      (rule run_chain_spec, assumption+, rule init, rule assms)
  then obtain ch where "run_ops run_chain bufchain_init ops = Some (rs, ch)" "bufchain_ok ch"
    "bufchain_contents ch = xs" by blast
  with spec_chain_conserves [OF assms] show ?thesis
    by (auto simp: bufchain_size_def bufchain_ok_def)
qed

theorem bufchain_is_fifo_witness:
  "\<exists>ch. run_ops run_chain bufchain_init
      [AddData [1, 2, 3], FetchConsume 2, AddData [4], TryFetchConsume 5, FetchConsumeUpTo 9, AddData [7]]
      = Some ([None, Some [1, 2], None, None, Some [3, 4], None], ch) \<and> bufchain_ok ch \<and> bufchain_size ch = 1 \<and>
      [1, 2, 3, 4] @ bufchain_contents ch = [1, 2, 3, 4, 7]"
  using bufchain_is_fifo [of "[AddData [1, 2, 3], FetchConsume 2, AddData [4], TryFetchConsume 5,
      FetchConsumeUpTo 9, AddData [7]]" "[None, Some [1, 2], None, None, Some [3, 4], None]" "[7]"]
  by simp

end
