(* ===== verification/Conf_Model.thy ===== *)
theory Conf_Model
  imports Sorted_Tree Strbuf
begin

text \<open>
  The configuration store (\<^verbatim>\<open>utils/conf.c\<close>, with the option table of \<^verbatim>\<open>putty.h\<close>
  and the Windows forms of file names and fonts): entries with typed keys and values in a 2-3-4
  tree, the accessors with their assertions, copying, enumeration of string subkeys, and the
  serialised form.
\<close>

section \<open>The option table\<close>

datatype Type = TYPE_NONE | TYPE_BOOL | TYPE_INT | TYPE_STR | TYPE_FILENAME | TYPE_FONT

text \<open>Value type, subkey type and keyword of every option, in the order of the enumeration.\<close>

definition config_options_session :: "(Type \<times> Type \<times> string) list" where
  "config_options_session = [
     (TYPE_STR, TYPE_NONE, ''host''), (TYPE_INT, TYPE_NONE, ''port''),
     (TYPE_INT, TYPE_NONE, ''protocol''), (TYPE_INT, TYPE_NONE, ''addressfamily''),
     (TYPE_INT, TYPE_NONE, ''close_on_exit''), (TYPE_BOOL, TYPE_NONE, ''warn_on_close''),
     (TYPE_INT, TYPE_NONE, ''ping_interval''), (TYPE_BOOL, TYPE_NONE, ''tcp_nodelay''),
     (TYPE_BOOL, TYPE_NONE, ''tcp_keepalives''), (TYPE_STR, TYPE_NONE, ''loghost''),
     (TYPE_STR, TYPE_NONE, ''proxy_exclude_list''), (TYPE_INT, TYPE_NONE, ''proxy_dns''),
     (TYPE_BOOL, TYPE_NONE, ''even_proxy_localhost''), (TYPE_INT, TYPE_NONE, ''proxy_type''),
     (TYPE_STR, TYPE_NONE, ''proxy_host''), (TYPE_INT, TYPE_NONE, ''proxy_port''),
     (TYPE_STR, TYPE_NONE, ''proxy_username''), (TYPE_STR, TYPE_NONE, ''proxy_password''),
     (TYPE_STR, TYPE_NONE, ''proxy_telnet_command''), (TYPE_INT, TYPE_NONE, ''proxy_log_to_term''),
     (TYPE_STR, TYPE_NONE, ''remote_cmd''), (TYPE_STR, TYPE_NONE, ''remote_cmd2''),
     (TYPE_BOOL, TYPE_NONE, ''nopty''), (TYPE_BOOL, TYPE_NONE, ''compression''),
     (TYPE_INT, TYPE_INT, ''ssh_kexlist''), (TYPE_INT, TYPE_INT, ''ssh_hklist''),
     (TYPE_BOOL, TYPE_NONE, ''ssh_prefer_known_hostkeys''),
     (TYPE_INT, TYPE_NONE, ''ssh_rekey_time''), (TYPE_STR, TYPE_NONE, ''ssh_rekey_data''),
     (TYPE_BOOL, TYPE_NONE, ''tryagent''), (TYPE_BOOL, TYPE_NONE, ''agentfwd''),
     (TYPE_BOOL, TYPE_NONE, ''change_username''), (TYPE_INT, TYPE_INT, ''ssh_cipherlist''),
     (TYPE_FILENAME, TYPE_NONE, ''keyfile''), (TYPE_FILENAME, TYPE_NONE, ''detached_cert''),
     (TYPE_STR, TYPE_NONE, ''auth_plugin''), (TYPE_INT, TYPE_NONE, ''sshprot''),
     (TYPE_BOOL, TYPE_NONE, ''ssh2_des_cbc''), (TYPE_BOOL, TYPE_NONE, ''ssh_no_userauth''),
     (TYPE_BOOL, TYPE_NONE, ''ssh_no_trivial_userauth''),
     (TYPE_BOOL, TYPE_NONE, ''ssh_show_banner''), (TYPE_BOOL, TYPE_NONE, ''try_tis_auth''),
     (TYPE_BOOL, TYPE_NONE, ''try_ki_auth''), (TYPE_BOOL, TYPE_NONE, ''try_gssapi_auth''),
     (TYPE_BOOL, TYPE_NONE, ''try_gssapi_kex''), (TYPE_BOOL, TYPE_NONE, ''gssapifwd''),
     (TYPE_INT, TYPE_NONE, ''gssapirekey''), (TYPE_INT, TYPE_INT, ''ssh_gsslist''),
     (TYPE_FILENAME, TYPE_NONE, ''ssh_gss_custom''), (TYPE_BOOL, TYPE_NONE, ''ssh_subsys''),
     (TYPE_BOOL, TYPE_NONE, ''ssh_subsys2''), (TYPE_BOOL, TYPE_NONE, ''ssh_no_shell''),
     (TYPE_STR, TYPE_NONE, ''ssh_nc_host''), (TYPE_INT, TYPE_NONE, ''ssh_nc_port''),
     (TYPE_STR, TYPE_NONE, ''termtype''), (TYPE_STR, TYPE_NONE, ''termspeed''),
     (TYPE_STR, TYPE_STR, ''ttymodes''), (TYPE_STR, TYPE_STR, ''environmt''),
     (TYPE_STR, TYPE_NONE, ''username''), (TYPE_BOOL, TYPE_NONE, ''username_from_env''),
     (TYPE_STR, TYPE_NONE, ''localusername''), (TYPE_BOOL, TYPE_NONE, ''rfc_environ''),
     (TYPE_BOOL, TYPE_NONE, ''passive_telnet''), (TYPE_STR, TYPE_NONE, ''serline''),
     (TYPE_INT, TYPE_NONE, ''serspeed''), (TYPE_INT, TYPE_NONE, ''serdatabits''),
     (TYPE_INT, TYPE_NONE, ''serstopbits''), (TYPE_INT, TYPE_NONE, ''serparity''),
     (TYPE_INT, TYPE_NONE, ''serflow''), (TYPE_STR, TYPE_NONE, ''supdup_location''),
     (TYPE_INT, TYPE_NONE, ''supdup_ascii_set''), (TYPE_BOOL, TYPE_NONE, ''supdup_more''),
     (TYPE_BOOL, TYPE_NONE, ''supdup_scroll''), (TYPE_BOOL, TYPE_NONE, ''bksp_is_delete''),
     (TYPE_BOOL, TYPE_NONE, ''rxvt_homeend''), (TYPE_INT, TYPE_NONE, ''funky_type''),
     (TYPE_INT, TYPE_NONE, ''sharrow_type''), (TYPE_BOOL, TYPE_NONE, ''no_applic_c''),
     (TYPE_BOOL, TYPE_NONE, ''no_applic_k''), (TYPE_BOOL, TYPE_NONE, ''no_mouse_rep''),
     (TYPE_BOOL, TYPE_NONE, ''no_remote_resize''), (TYPE_BOOL, TYPE_NONE, ''no_alt_screen''),
     (TYPE_BOOL, TYPE_NONE, ''no_remote_wintitle''),
     (TYPE_BOOL, TYPE_NONE, ''no_remote_clearscroll''), (TYPE_BOOL, TYPE_NONE, ''no_dbackspace''),
     (TYPE_BOOL, TYPE_NONE, ''no_remote_charset''),
     (TYPE_INT, TYPE_NONE, ''remote_qtitle_action''), (TYPE_BOOL, TYPE_NONE, ''app_cursor''),
     (TYPE_BOOL, TYPE_NONE, ''app_keypad''), (TYPE_BOOL, TYPE_NONE, ''nethack_keypad''),
     (TYPE_BOOL, TYPE_NONE, ''telnet_keyboard''), (TYPE_BOOL, TYPE_NONE, ''telnet_newline''),
     (TYPE_BOOL, TYPE_NONE, ''alt_f4''), (TYPE_BOOL, TYPE_NONE, ''alt_space''),
     (TYPE_BOOL, TYPE_NONE, ''alt_only''), (TYPE_INT, TYPE_NONE, ''localecho''),
     (TYPE_INT, TYPE_NONE, ''localedit''), (TYPE_BOOL, TYPE_NONE, ''alwaysontop''),
     (TYPE_BOOL, TYPE_NONE, ''fullscreenonaltenter''), (TYPE_BOOL, TYPE_NONE, ''scroll_on_key''),
     (TYPE_BOOL, TYPE_NONE, ''scroll_on_disp''), (TYPE_BOOL, TYPE_NONE, ''erase_to_scrollback''),
     (TYPE_BOOL, TYPE_NONE, ''compose_key''), (TYPE_BOOL, TYPE_NONE, ''ctrlaltkeys''),
     (TYPE_BOOL, TYPE_NONE, ''osx_option_meta''), (TYPE_BOOL, TYPE_NONE, ''osx_command_meta''),
     (TYPE_STR, TYPE_NONE, ''wintitle'')]"

definition config_options_terminal :: "(Type \<times> Type \<times> string) list" where
  "config_options_terminal = [
     (TYPE_INT, TYPE_NONE, ''savelines''), (TYPE_BOOL, TYPE_NONE, ''dec_om''),
     (TYPE_BOOL, TYPE_NONE, ''wrap_mode''), (TYPE_BOOL, TYPE_NONE, ''lfhascr''),
     (TYPE_INT, TYPE_NONE, ''cursor_type''), (TYPE_BOOL, TYPE_NONE, ''blink_cur''),
     (TYPE_INT, TYPE_NONE, ''beep''), (TYPE_INT, TYPE_NONE, ''beep_ind''),
     (TYPE_BOOL, TYPE_NONE, ''bellovl''), (TYPE_INT, TYPE_NONE, ''bellovl_n''),
     (TYPE_INT, TYPE_NONE, ''bellovl_t''), (TYPE_INT, TYPE_NONE, ''bellovl_s''),
     (TYPE_FILENAME, TYPE_NONE, ''bell_wavefile''), (TYPE_BOOL, TYPE_NONE, ''scrollbar''),
     (TYPE_BOOL, TYPE_NONE, ''scrollbar_in_fullscreen''), (TYPE_INT, TYPE_NONE, ''resize_action''),
     (TYPE_BOOL, TYPE_NONE, ''bce''), (TYPE_BOOL, TYPE_NONE, ''blinktext''),
     (TYPE_BOOL, TYPE_NONE, ''win_name_always''), (TYPE_INT, TYPE_NONE, ''width''),
     (TYPE_INT, TYPE_NONE, ''height''), (TYPE_FONT, TYPE_NONE, ''font''),
     (TYPE_INT, TYPE_NONE, ''font_quality''), (TYPE_FILENAME, TYPE_NONE, ''logfilename''),
     (TYPE_INT, TYPE_NONE, ''logtype''), (TYPE_INT, TYPE_NONE, ''logxfovr''),
     (TYPE_BOOL, TYPE_NONE, ''logflush''), (TYPE_BOOL, TYPE_NONE, ''logheader''),
     (TYPE_BOOL, TYPE_NONE, ''logomitpass''), (TYPE_BOOL, TYPE_NONE, ''logomitdata''),
     (TYPE_BOOL, TYPE_NONE, ''hide_mouseptr''), (TYPE_BOOL, TYPE_NONE, ''sunken_edge''),
     (TYPE_INT, TYPE_NONE, ''window_border''), (TYPE_STR, TYPE_NONE, ''answerback''),
     (TYPE_STR, TYPE_NONE, ''printer''), (TYPE_BOOL, TYPE_NONE, ''no_arabicshaping''),
     (TYPE_BOOL, TYPE_NONE, ''no_bidi''), (TYPE_BOOL, TYPE_NONE, ''ansi_colour''),
     (TYPE_BOOL, TYPE_NONE, ''xterm_256_colour''), (TYPE_BOOL, TYPE_NONE, ''true_colour''),
     (TYPE_BOOL, TYPE_NONE, ''system_colour''), (TYPE_BOOL, TYPE_NONE, ''try_palette''),
     (TYPE_INT, TYPE_NONE, ''bold_style''), (TYPE_INT, TYPE_INT, ''colours''),
     (TYPE_INT, TYPE_NONE, ''mouse_is_xterm''), (TYPE_BOOL, TYPE_NONE, ''rect_select''),
     (TYPE_BOOL, TYPE_NONE, ''paste_controls''), (TYPE_BOOL, TYPE_NONE, ''rawcnp''),
     (TYPE_BOOL, TYPE_NONE, ''utf8linedraw''), (TYPE_BOOL, TYPE_NONE, ''rtf_paste''),
     (TYPE_BOOL, TYPE_NONE, ''mouse_override''), (TYPE_INT, TYPE_INT, ''wordness''),
     (TYPE_BOOL, TYPE_NONE, ''mouseautocopy''), (TYPE_INT, TYPE_NONE, ''mousepaste''),
     (TYPE_INT, TYPE_NONE, ''ctrlshiftins''), (TYPE_INT, TYPE_NONE, ''ctrlshiftcv''),
     (TYPE_STR, TYPE_NONE, ''mousepaste_custom''), (TYPE_STR, TYPE_NONE, ''ctrlshiftins_custom''),
     (TYPE_STR, TYPE_NONE, ''ctrlshiftcv_custom''), (TYPE_INT, TYPE_NONE, ''vtmode''),
     (TYPE_STR, TYPE_NONE, ''line_codepage''), (TYPE_BOOL, TYPE_NONE, ''cjk_ambig_wide''),
     (TYPE_BOOL, TYPE_NONE, ''utf8_override''), (TYPE_BOOL, TYPE_NONE, ''xlat_capslockcyr''),
     (TYPE_BOOL, TYPE_NONE, ''x11_forward''), (TYPE_STR, TYPE_NONE, ''x11_display''),
     (TYPE_INT, TYPE_NONE, ''x11_auth''), (TYPE_FILENAME, TYPE_NONE, ''xauthfile''),
     (TYPE_BOOL, TYPE_NONE, ''lport_acceptall''), (TYPE_BOOL, TYPE_NONE, ''rport_acceptall''),
     (TYPE_STR, TYPE_STR, ''portfwd''), (TYPE_INT, TYPE_NONE, ''sshbug_ignore1''),
     (TYPE_INT, TYPE_NONE, ''sshbug_plainpw1''), (TYPE_INT, TYPE_NONE, ''sshbug_rsa1''),
     (TYPE_INT, TYPE_NONE, ''sshbug_hmac2''), (TYPE_INT, TYPE_NONE, ''sshbug_derivekey2''),
     (TYPE_INT, TYPE_NONE, ''sshbug_rsapad2''), (TYPE_INT, TYPE_NONE, ''sshbug_pksessid2''),
     (TYPE_INT, TYPE_NONE, ''sshbug_rekey2''), (TYPE_INT, TYPE_NONE, ''sshbug_maxpkt2''),
     (TYPE_INT, TYPE_NONE, ''sshbug_ignore2''), (TYPE_INT, TYPE_NONE, ''sshbug_oldgex2''),
     (TYPE_INT, TYPE_NONE, ''sshbug_winadj''), (TYPE_INT, TYPE_NONE, ''sshbug_chanreq''),
     (TYPE_INT, TYPE_NONE, ''sshbug_dropstart''), (TYPE_INT, TYPE_NONE, ''sshbug_filter_kexinit''),
     (TYPE_INT, TYPE_NONE, ''sshbug_rsa_sha2_cert_userauth''),
     (TYPE_BOOL, TYPE_NONE, ''ssh_simple''), (TYPE_BOOL, TYPE_NONE, ''ssh_connection_sharing''),
     (TYPE_BOOL, TYPE_NONE, ''ssh_connection_sharing_upstream''),
     (TYPE_BOOL, TYPE_NONE, ''ssh_connection_sharing_downstream''),
     (TYPE_STR, TYPE_STR, ''ssh_manual_hostkeys''), (TYPE_BOOL, TYPE_NONE, ''stamp_utmp''),
     (TYPE_BOOL, TYPE_NONE, ''login_shell''), (TYPE_BOOL, TYPE_NONE, ''scrollbar_on_left''),
     (TYPE_BOOL, TYPE_NONE, ''shadowbold''), (TYPE_FONT, TYPE_NONE, ''boldfont''),
     (TYPE_FONT, TYPE_NONE, ''widefont''), (TYPE_FONT, TYPE_NONE, ''wideboldfont''),
     (TYPE_INT, TYPE_NONE, ''shadowboldoffset''), (TYPE_BOOL, TYPE_NONE, ''crhaslf''),
     (TYPE_STR, TYPE_NONE, ''winclass'')]"

definition config_options :: "(Type \<times> Type \<times> string) list" where
  "config_options = config_options_session @ config_options_terminal"

definition N_CONFIG_OPTIONS :: nat where
  "N_CONFIG_OPTIONS = length config_options"

text \<open>
  The type arrays; past their end, where the C code would read out of bounds, the accessors
  check the bound themselves (\<open>has_types\<close>).
\<close>

definition subkeytypes :: "nat \<Rightarrow> Type" where
  "subkeytypes primary = (if primary < N_CONFIG_OPTIONS then fst (snd (config_options ! primary)) else TYPE_NONE)"

definition valuetypes :: "nat \<Rightarrow> Type" where
  "valuetypes primary = (if primary < N_CONFIG_OPTIONS then fst (config_options ! primary) else TYPE_NONE)"

definition has_types :: "nat \<Rightarrow> Type \<Rightarrow> Type \<Rightarrow> bool" where
  "has_types primary st vt \<longleftrightarrow>
     primary < N_CONFIG_OPTIONS \<and> subkeytypes primary = st \<and> valuetypes primary = vt"

section \<open>Keys, values and entries\<close>

text \<open>
  A C \<^verbatim>\<open>int\<close> is a 32-bit word read with \<open>sint\<close>. Both members of the key's union are fields;
  the one that the subkey type does not select is never read, and is the default (zero, empty)
  in the keys the accessors build.
\<close>

record key =
  primary :: nat
  secondary_i :: uint32
  secondary_s :: bytes

record FontSpec =
  font_name :: bytes
  font_isbold :: bool
  font_height :: uint32
  font_charset :: uint32

datatype conf_value =
    BoolV bool
  | IntV uint32
  | StrV bytes
  | FileV bytes
  | FontV FontSpec

record conf_entry =
  e_key :: key
  e_value :: conf_value

type_synonym conf = "conf_entry tree234"

definition key_none :: "nat \<Rightarrow> key" where
  "key_none p = \<lparr>primary = p, secondary_i = 0, secondary_s = []\<rparr>"
definition key_int :: "nat \<Rightarrow> uint32 \<Rightarrow> key" where
  "key_int p i = \<lparr>primary = p, secondary_i = i, secondary_s = []\<rparr>"
definition key_str :: "nat \<Rightarrow> bytes \<Rightarrow> key" where
  "key_str p s = \<lparr>primary = p, secondary_i = 0, secondary_s = s\<rparr>"

fun strcmp :: "bytes \<Rightarrow> bytes \<Rightarrow> int" where
  "strcmp [] [] = 0"
| "strcmp [] (y # ys) = -1"
| "strcmp (x # xs) [] = 1"
| "strcmp (x # xs) (y # ys) = (if x < y then -1 else if x > y then 1 else strcmp xs ys)"

text \<open>
  The comparison function, on keys and, by the pointer cast of the code, on entries. The
  variant for lookups with a constant key does the same.
\<close>

definition conf_cmp_key :: "key \<Rightarrow> key \<Rightarrow> int" where
  "conf_cmp_key a b =
     (if primary a < primary b then -1
      else if primary a > primary b then 1
      else case subkeytypes (primary a) of
        TYPE_INT \<Rightarrow>
          if sint (secondary_i a) < sint (secondary_i b) then -1
          else if sint (secondary_i a) > sint (secondary_i b) then 1
          else 0
      | TYPE_STR \<Rightarrow> strcmp (secondary_s a) (secondary_s b)
      | _ \<Rightarrow> 0)"

definition conf_cmp :: "conf_entry \<Rightarrow> conf_entry \<Rightarrow> int" where
  "conf_cmp av bv = conf_cmp_key (e_key av) (e_key bv)"

definition conf_cmp_constkey :: "conf_entry \<Rightarrow> conf_entry \<Rightarrow> int" where
  "conf_cmp_constkey av bv =
     (let a = e_key av; b = e_key bv in
      if primary a < primary b then -1
      else if primary a > primary b then 1
      else case subkeytypes (primary a) of
        TYPE_INT \<Rightarrow>
          if sint (secondary_i a) < sint (secondary_i b) then -1
          else if sint (secondary_i a) > sint (secondary_i b) then 1
          else 0
      | TYPE_STR \<Rightarrow> strcmp (secondary_s a) (secondary_s b)
      | _ \<Rightarrow> 0)"

definition copy_key :: "key \<Rightarrow> key" where
  "copy_key from =
     (case subkeytypes (primary from) of
        TYPE_INT \<Rightarrow> key_int (primary from) (secondary_i from)
      | TYPE_STR \<Rightarrow> key_str (primary from) (secondary_s from)
      | _ \<Rightarrow> key_none (primary from))"

definition fontspec_copy :: "FontSpec \<Rightarrow> FontSpec" where
  "fontspec_copy f =
     \<lparr>font_name = font_name f, font_isbold = font_isbold f, font_height = font_height f,
      font_charset = font_charset f\<rparr>"

text \<open>Reading a member of the value's union that was not the one written is undefined.\<close>

definition copy_value :: "conf_value \<Rightarrow> Type \<Rightarrow> conf_value option" where
  "copy_value from type =
     (case (type, from) of
        (TYPE_BOOL, BoolV b) \<Rightarrow> Some (BoolV b)
      | (TYPE_INT, IntV i) \<Rightarrow> Some (IntV i)
      | (TYPE_STR, StrV s) \<Rightarrow> Some (StrV s)
      | (TYPE_FILENAME, FileV f) \<Rightarrow> Some (FileV f)
      | (TYPE_FONT, FontV f) \<Rightarrow> Some (FontV (fontspec_copy f))
      | _ \<Rightarrow> None)"

section \<open>The store\<close>

definition conf_new :: conf where
  "conf_new = newtree234 (Some conf_cmp)"

partial_function (option) conf_clear :: "conf \<Rightarrow> conf option" where
  "conf_clear conf =
     (case delpos234 conf 0 of
        None \<Rightarrow> None
      | Some (None, conf) \<Rightarrow> Some conf
      | Some (Some entry, conf) \<Rightarrow> conf_clear conf)"

text \<open>
  Entries are compared by content where the code compares the pointers \<^verbatim>\<open>oldentry\<close> and
  \<^verbatim>\<open>entry\<close>: replacing an entry by an equal one is the same as leaving it.
\<close>

definition conf_insert :: "conf \<Rightarrow> conf_entry \<Rightarrow> conf option" where
  "conf_insert conf entry =
     (case add234 conf entry of
        None \<Rightarrow> None
      | Some (oldentry, conf) \<Rightarrow>
          (case oldentry of
             None \<Rightarrow> Some conf
           | Some old \<Rightarrow>
               if old = entry then Some conf
               else case del234 conf old of
                      None \<Rightarrow> None
                    | Some (_, conf) \<Rightarrow>
                        (case add234 conf entry of
                           Some (Some new, conf) \<Rightarrow> if new = entry then Some conf else None
                         | _ \<Rightarrow> None)))"

partial_function (option) conf_copy_loop :: "conf \<Rightarrow> conf \<Rightarrow> int \<Rightarrow> conf option" where
  "conf_copy_loop newconf oldconf i =
     (case index234 oldconf i of
        None \<Rightarrow> Some newconf
      | Some entry \<Rightarrow>
          (case copy_value (e_value entry) (valuetypes (primary (e_key entry))) of
             None \<Rightarrow> None
           | Some v \<Rightarrow>
               (case add234 newconf \<lparr>e_key = copy_key (e_key entry), e_value = v\<rparr> of
                  None \<Rightarrow> None
                | Some (_, newconf) \<Rightarrow> conf_copy_loop newconf oldconf (i + 1))))"

definition conf_copy_into :: "conf \<Rightarrow> conf \<Rightarrow> conf option" where
  "conf_copy_into newconf oldconf =
     (case conf_clear newconf of
        None \<Rightarrow> None
      | Some newconf \<Rightarrow> conf_copy_loop newconf oldconf 0)"

definition conf_copy :: "conf \<Rightarrow> conf option" where
  "conf_copy oldconf = conf_copy_into conf_new oldconf"

section \<open>Accessors\<close>

text \<open>A search passes a key where the tree expects an entry; the value is never looked at.\<close>

definition search_entry :: "key \<Rightarrow> conf_entry" where
  "search_entry k = \<lparr>e_key = k, e_value = BoolV False\<rparr>"

definition conf_find :: "conf \<Rightarrow> key \<Rightarrow> conf_value option option" where
  "conf_find conf k = map_option (map_option e_value) (find234 conf (search_entry k))"

definition conf_get_bool :: "conf \<Rightarrow> nat \<Rightarrow> bool option" where
  "conf_get_bool conf p =
     (if has_types p TYPE_NONE TYPE_BOOL then
        case conf_find conf (key_none p) of Some (Some (BoolV b)) \<Rightarrow> Some b | _ \<Rightarrow> None
      else None)"

definition conf_get_int :: "conf \<Rightarrow> nat \<Rightarrow> uint32 option" where
  "conf_get_int conf p =
     (if has_types p TYPE_NONE TYPE_INT then
        case conf_find conf (key_none p) of Some (Some (IntV i)) \<Rightarrow> Some i | _ \<Rightarrow> None
      else None)"

definition conf_get_int_int :: "conf \<Rightarrow> nat \<Rightarrow> uint32 \<Rightarrow> uint32 option" where
  "conf_get_int_int conf p secondary =
     (if has_types p TYPE_INT TYPE_INT then
        case conf_find conf (key_int p secondary) of Some (Some (IntV i)) \<Rightarrow> Some i | _ \<Rightarrow> None
      else None)"

definition conf_get_str :: "conf \<Rightarrow> nat \<Rightarrow> bytes option" where
  "conf_get_str conf p =
     (if has_types p TYPE_NONE TYPE_STR then
        case conf_find conf (key_none p) of Some (Some (StrV s)) \<Rightarrow> Some s | _ \<Rightarrow> None
      else None)"

definition conf_get_str_str_opt :: "conf \<Rightarrow> nat \<Rightarrow> bytes \<Rightarrow> bytes option option" where
  "conf_get_str_str_opt conf p secondary =
     (if has_types p TYPE_STR TYPE_STR then
        case conf_find conf (key_str p secondary) of
          Some None \<Rightarrow> Some None
        | Some (Some (StrV s)) \<Rightarrow> Some (Some s)
        | _ \<Rightarrow> None
      else None)"

definition conf_get_str_str :: "conf \<Rightarrow> nat \<Rightarrow> bytes \<Rightarrow> bytes option" where
  "conf_get_str_str conf p secondary =
     (case conf_get_str_str_opt conf p secondary of Some (Some ret) \<Rightarrow> Some ret | _ \<Rightarrow> None)"

definition conf_get_filename :: "conf \<Rightarrow> nat \<Rightarrow> bytes option" where
  "conf_get_filename conf p =
     (if has_types p TYPE_NONE TYPE_FILENAME then
        case conf_find conf (key_none p) of Some (Some (FileV f)) \<Rightarrow> Some f | _ \<Rightarrow> None
      else None)"

definition conf_get_fontspec :: "conf \<Rightarrow> nat \<Rightarrow> FontSpec option" where
  "conf_get_fontspec conf p =
     (if has_types p TYPE_NONE TYPE_FONT then
        case conf_find conf (key_none p) of Some (Some (FontV f)) \<Rightarrow> Some f | _ \<Rightarrow> None
      else None)"

text \<open>
  Enumeration of the string subkeys of an option: the first one, or the one after a given one
  (with its value), and the one with a given number.
\<close>

definition str_entry :: "nat \<Rightarrow> conf_entry option \<Rightarrow> (bytes \<times> bytes) option option" where
  "str_entry p entry =
     (case entry of
        None \<Rightarrow> Some None
      | Some e \<Rightarrow>
          if primary (e_key e) \<noteq> p then Some None
          else case e_value e of StrV v \<Rightarrow> Some (Some (secondary_s (e_key e), v)) | _ \<Rightarrow> None)"

definition conf_get_str_strs :: "conf \<Rightarrow> nat \<Rightarrow> bytes option \<Rightarrow> (bytes \<times> bytes) option option" where
  "conf_get_str_strs conf p subkeyin =
     (if has_types p TYPE_STR TYPE_STR then
        case (case subkeyin of
                Some s \<Rightarrow> findrelpos234 conf (Some (search_entry (key_str p s))) REL234_GT
              | None \<Rightarrow> findrelpos234_by conf (Some (search_entry (key_str p []))) conf_cmp_constkey REL234_GE) of
          None \<Rightarrow> None
        | Some r \<Rightarrow> str_entry p (map_option fst r)
      else None)"

definition conf_get_str_nthstrkey :: "conf \<Rightarrow> nat \<Rightarrow> int \<Rightarrow> bytes option option" where
  "conf_get_str_nthstrkey conf p n =
     (if has_types p TYPE_STR TYPE_STR then
        case findrelpos234_by conf (Some (search_entry (key_str p []))) conf_cmp_constkey REL234_GE of
          None \<Rightarrow> None
        | Some None \<Rightarrow> Some None
        | Some (Some (entry, index)) \<Rightarrow>
            if primary (e_key entry) \<noteq> p then Some None
            else case index234 conf (index + n) of
                   None \<Rightarrow> Some None
                 | Some entry \<Rightarrow>
                     if primary (e_key entry) \<noteq> p then Some None
                     else Some (Some (secondary_s (e_key entry)))
      else None)"

definition conf_set_bool :: "conf \<Rightarrow> nat \<Rightarrow> bool \<Rightarrow> conf option" where
  "conf_set_bool conf p v =
     (if has_types p TYPE_NONE TYPE_BOOL
      then conf_insert conf \<lparr>e_key = key_none p, e_value = BoolV v\<rparr> else None)"

definition conf_set_int :: "conf \<Rightarrow> nat \<Rightarrow> uint32 \<Rightarrow> conf option" where
  "conf_set_int conf p v =
     (if has_types p TYPE_NONE TYPE_INT
      then conf_insert conf \<lparr>e_key = key_none p, e_value = IntV v\<rparr> else None)"

definition conf_set_int_int :: "conf \<Rightarrow> nat \<Rightarrow> uint32 \<Rightarrow> uint32 \<Rightarrow> conf option" where
  "conf_set_int_int conf p secondary v =
     (if has_types p TYPE_INT TYPE_INT
      then conf_insert conf \<lparr>e_key = key_int p secondary, e_value = IntV v\<rparr> else None)"

definition conf_set_str :: "conf \<Rightarrow> nat \<Rightarrow> bytes \<Rightarrow> conf option" where
  "conf_set_str conf p v =
     (if has_types p TYPE_NONE TYPE_STR
      then conf_insert conf \<lparr>e_key = key_none p, e_value = StrV v\<rparr> else None)"

definition conf_set_str_str :: "conf \<Rightarrow> nat \<Rightarrow> bytes \<Rightarrow> bytes \<Rightarrow> conf option" where
  "conf_set_str_str conf p secondary v =
     (if has_types p TYPE_STR TYPE_STR
      then conf_insert conf \<lparr>e_key = key_str p secondary, e_value = StrV v\<rparr> else None)"

definition conf_del_str_str :: "conf \<Rightarrow> nat \<Rightarrow> bytes \<Rightarrow> conf option" where
  "conf_del_str_str conf p secondary =
     (if has_types p TYPE_STR TYPE_STR then
        case find234 conf (search_entry (key_str p secondary)) of
          None \<Rightarrow> None
        | Some None \<Rightarrow> Some conf
        | Some (Some entry) \<Rightarrow>
            (case del234 conf entry of None \<Rightarrow> None | Some (_, conf) \<Rightarrow> Some conf)
      else None)"

definition conf_set_filename :: "conf \<Rightarrow> nat \<Rightarrow> bytes \<Rightarrow> conf option" where
  "conf_set_filename conf p v =
     (if has_types p TYPE_NONE TYPE_FILENAME
      then conf_insert conf \<lparr>e_key = key_none p, e_value = FileV v\<rparr> else None)"

definition conf_set_fontspec :: "conf \<Rightarrow> nat \<Rightarrow> FontSpec \<Rightarrow> conf option" where
  "conf_set_fontspec conf p v =
     (if has_types p TYPE_NONE TYPE_FONT
      then conf_insert conf \<lparr>e_key = key_none p, e_value = FontV (fontspec_copy v)\<rparr> else None)"
end
