(* ===== verification/Conf.thy ===== *)
theory Conf
  imports Conf_Model
begin

text \<open>
  What the configuration store promises: it is a finite map from typed keys to values of the
  option's type, its accessors read and update that map, and its enumerations list the string
  subkeys of an option in order.
\<close>

section \<open>The order of the entries\<close>

lemma strcmp_antisym: "strcmp a b < 0 \<longleftrightarrow> strcmp b a > 0"
  by (induction a b rule: strcmp.induct) auto

lemma strcmp_eq_iff [simp]: "strcmp a b = 0 \<longleftrightarrow> a = b"
  by (induction a b rule: strcmp.induct) auto

lemma strcmp_trans: "\<lbrakk>strcmp a b \<le> 0; strcmp b c \<le> 0\<rbrakk> \<Longrightarrow> strcmp a c \<le> 0"
proof (induction a b arbitrary: c rule: strcmp.induct)
  case (4 x xs y ys)
  then show ?case by (cases c) (auto split: if_splits)
next
  case (1 c) then show ?case by (cases c) auto
next
  case (2 y ys c) then show ?case by (cases c) auto
qed auto

lemma strcmp_Nil: "strcmp [] s \<le> 0"
  by (cases s) auto

lemma conf_cmp_key_antisym: "conf_cmp_key a b < 0 \<longleftrightarrow> conf_cmp_key b a > 0"
  by (auto simp: conf_cmp_key_def strcmp_antisym split: Type.split)

lemma conf_cmp_key_trans:
  "\<lbrakk>conf_cmp_key a b \<le> 0; conf_cmp_key b c \<le> 0\<rbrakk> \<Longrightarrow> conf_cmp_key a c \<le> 0"
  by (cases "subkeytypes (primary a)"; cases "primary a < primary b"; cases "primary b < primary c";
      auto simp: conf_cmp_key_def split: if_splits intro: strcmp_trans)

interpretation cc: cmp_order conf_cmp
  by unfold_locales (auto simp: conf_cmp_def conf_cmp_key_antisym intro: conf_cmp_key_trans)

section \<open>Well-formed stores and what they hold\<close>

fun value_ok :: "Type \<Rightarrow> conf_value \<Rightarrow> bool" where
  "value_ok TYPE_BOOL (BoolV b) = True"
| "value_ok TYPE_INT (IntV i) = True"
| "value_ok TYPE_STR (StrV s) = cstring s"
| "value_ok TYPE_FILENAME (FileV f) = cstring f"
| "value_ok TYPE_FONT (FontV f) = cstring (font_name f)"
| "value_ok _ _ = False"

definition key_ok :: "key \<Rightarrow> bool" where
  "key_ok k \<longleftrightarrow> primary k < N_CONFIG_OPTIONS \<and> copy_key k = k \<and> cstring (secondary_s k)"

definition entry_ok :: "conf_entry \<Rightarrow> bool" where
  "entry_ok e \<longleftrightarrow> key_ok (e_key e) \<and> value_ok (valuetypes (primary (e_key e))) (e_value e)"

definition conf_entries :: "conf \<Rightarrow> conf_entry list" where
  "conf_entries c = inorder (root c)"

definition conf_ok :: "conf \<Rightarrow> bool" where
  "conf_ok c \<longleftrightarrow> sorted234 conf_cmp c \<and> (\<forall>e\<in>set (conf_entries c). entry_ok e)"

text \<open>The abstract content: a finite map from keys to values.\<close>

definition conf_map :: "conf \<Rightarrow> key \<rightharpoonup> conf_value" where
  "conf_map c = map_of (map (\<lambda>e. (e_key e, e_value e)) (conf_entries c))"

lemma sint_cmp_eq:
  "(if sint a < sint b then - 1 else if sint a > sint b then 1 else (0 :: int)) = 0 \<longleftrightarrow> a = b"
  for a b :: uint32
  using word_eq_iff_signed [of a b] by auto

lemma conf_cmp_key_eq:
  assumes "copy_key a = a" and "copy_key b = b"
  shows "conf_cmp_key a b = 0 \<longleftrightarrow> a = b"
proof
  assume z: "conf_cmp_key a b = 0"
  then have p: "primary a = primary b" by (simp add: conf_cmp_key_def split: if_splits)
  have "copy_key a = copy_key b"
  proof (cases "subkeytypes (primary b)")
    case TYPE_INT
    with z p have "secondary_i a = secondary_i b" by (simp add: conf_cmp_key_def sint_cmp_eq)
    with p TYPE_INT show ?thesis by (simp add: copy_key_def)
  next
    case TYPE_STR
    with z p show ?thesis by (simp add: conf_cmp_key_def copy_key_def)
  qed (use p in \<open>simp_all add: copy_key_def\<close>)
  with assms show "a = b" by metis
next
  assume "a = b"
  then show "conf_cmp_key a b = 0" by (cases "subkeytypes (primary b)") (simp_all add: conf_cmp_key_def)
qed

lemma copy_key_simps [simp]:
  "subkeytypes p = TYPE_NONE \<Longrightarrow> copy_key (key_none p) = key_none p"
  "subkeytypes p = TYPE_INT \<Longrightarrow> copy_key (key_int p i) = key_int p i"
  "subkeytypes p = TYPE_STR \<Longrightarrow> copy_key (key_str p s) = key_str p s"
  by (simp_all add: copy_key_def key_none_def key_int_def key_str_def)

lemma key_ok_simps [simp]:
  "has_types p TYPE_NONE vt \<Longrightarrow> key_ok (key_none p)"
  "has_types p TYPE_INT vt \<Longrightarrow> key_ok (key_int p i)"
  "\<lbrakk>has_types p TYPE_STR vt; cstring s\<rbrakk> \<Longrightarrow> key_ok (key_str p s)"
  by (simp_all add: key_ok_def has_types_def)
    (simp_all add: cstring_def key_none_def key_int_def key_str_def)

lemma primary_key [simp]:
  "primary (key_none p) = p" "primary (key_int p i) = p" "primary (key_str p s) = p"
  by (simp_all add: key_none_def key_int_def key_str_def)

lemma entry_eta: "\<lparr>e_key = e_key x, e_value = e_value x\<rparr> = x"
  by simp

lemma conf_map_find:
  assumes "\<forall>e\<in>set xs. copy_key (e_key e) = e_key e" and "copy_key k = k"
  shows "map_of (map (\<lambda>e. (e_key e, e_value e)) xs) k
           = map_option e_value (List.find (\<lambda>x. conf_cmp (search_entry k) x = 0) xs)"
  using assms
  by (induction xs) (auto simp: conf_cmp_def search_entry_def conf_cmp_key_eq)

lemma conf_map_lookup:
  assumes "conf_ok c" and "copy_key k = k"
  shows "conf_map c k = map_option e_value (cc.tree.lookup c (search_entry k))"
  using assms conf_map_find [of "conf_entries c" k]
  by (simp add: conf_map_def cc.tree.lookup_def conf_ok_def entry_ok_def key_ok_def conf_entries_def)

lemma conf_map_Some:
  assumes "conf_ok c"
  shows "conf_map c k = Some v \<longleftrightarrow> \<lparr>e_key = k, e_value = v\<rparr> \<in> set (conf_entries c)"
proof
  assume "conf_map c k = Some v"
  then obtain e where e: "e \<in> set (conf_entries c)" "e_key e = k" "e_value e = v"
    unfolding conf_map_def by (drule_tac map_of_SomeD) auto
  then have "e = \<lparr>e_key = k, e_value = v\<rparr>" by simp
  with e(1) show "\<lparr>e_key = k, e_value = v\<rparr> \<in> set (conf_entries c)" by simp
next
  let ?e = "\<lparr>e_key = k, e_value = v\<rparr>"
  assume e: "?e \<in> set (conf_entries c)"
  with assms have k: "copy_key k = k" by (auto simp: conf_ok_def entry_ok_def key_ok_def)
  have "cc.tree.lookup c (search_entry k) = Some ?e"
    using assms e cc.tree.lookup_Some_iff [of c "search_entry k" ?e] k
    by (simp add: conf_ok_def conf_entries_def conf_cmp_def search_entry_def conf_cmp_key_eq)
  with conf_map_lookup [OF assms k] show "conf_map c k = Some v" by simp
qed

lemma conf_find_map:
  assumes "conf_ok c" and "copy_key k = k"
  shows "conf_find c k = Some (conf_map c k)"
  using assms cc.tree.find_lookup [of c "search_entry k"] conf_map_lookup [OF assms]
  by (simp add: conf_find_def conf_ok_def)

lemma conf_map_value_ok:
  "\<lbrakk>conf_ok c; conf_map c k = Some v\<rbrakk> \<Longrightarrow> key_ok k \<and> value_ok (valuetypes (primary k)) v"
  by (auto simp: conf_map_Some conf_ok_def entry_ok_def)

section \<open>Insertion and deletion update the map\<close>

lemma conf_insert_map:
  assumes "conf_ok c" and "entry_ok e"
  shows "\<exists>c'. conf_insert c e = Some c' \<and> conf_ok c' \<and> conf_map c' = (conf_map c)(e_key e \<mapsto> e_value e)"
proof -
  from assms(1) have "sorted234 conf_cmp c" by (simp add: conf_ok_def)
  from cc.tree.replace_correct [OF this, of e] obtain c' where
    c': "conf_insert c e = Some c'" "sorted234 conf_cmp c'"
      "\<And>k. cc.tree.lookup c' k = (if conf_cmp k e = 0 then Some e else cc.tree.lookup c k)"
    unfolding conf_insert_def by blast
  have members: "x = e \<or> x \<in> set (conf_entries c)" if "x \<in> set (conf_entries c')" for x
  proof -
    have "cc.tree.lookup c' x = Some x"
      using that c'(2) by (simp add: cc.tree.lookup_Some_iff conf_entries_def)
    with c'(3) [of x] have "x = e \<or> cc.tree.lookup c x = Some x" by (auto split: if_splits)
    with assms(1) show ?thesis
      by (auto simp: cc.tree.lookup_Some_iff conf_ok_def conf_entries_def)
  qed
  with assms c'(2) have ok: "conf_ok c'" by (auto simp: conf_ok_def)
  have "conf_map c' k = ((conf_map c)(e_key e \<mapsto> e_value e)) k" for k
  proof (cases "copy_key k = k")
    case True
    moreover have "copy_key (e_key e) = e_key e" using assms(2) by (simp add: entry_ok_def key_ok_def)
    ultimately show ?thesis
      using conf_map_lookup [OF ok True] conf_map_lookup [OF assms(1) True] c'(3) [of "search_entry k"]
      by (auto simp: conf_cmp_def search_entry_def conf_cmp_key_eq)
  next
    case False
    then have "conf_map c' k = None" "conf_map c k = None" "k \<noteq> e_key e"
      using conf_map_value_ok [OF ok] conf_map_value_ok [OF assms(1)] assms(2)
      by (auto simp: key_ok_def entry_ok_def) (meson option.exhaust)+
    then show ?thesis by simp
  qed
  with c'(1) ok show ?thesis by (auto simp: fun_eq_iff)
qed

lemma option_eqI: "(\<And>v. a = Some v \<longleftrightarrow> b = Some v) \<Longrightarrow> a = b"
  by (metis option.exhaust)

lemma conf_map_eqI:
  assumes "conf_ok c" and "conf_ok d"
    and "set (conf_entries d) = set (conf_entries c) - {x}" and "x \<in> set (conf_entries c)"
  shows "conf_map d = (conf_map c)(e_key x := None)"
proof
  fix k
  have x: "conf_map c (e_key x) = Some (e_value x)"
    unfolding conf_map_Some [OF assms(1)] entry_eta by (rule assms(4))
  have "conf_map d k = Some v \<longleftrightarrow> k \<noteq> e_key x \<and> conf_map c k = Some v" for v
  proof
    let ?e = "\<lparr>e_key = k, e_value = v\<rparr>"
    assume "conf_map d k = Some v"
    then have e: "?e \<in> set (conf_entries c)" "?e \<noteq> x"
      unfolding conf_map_Some [OF assms(2)] assms(3) by blast+
    from e(1) have "conf_map c k = Some v" unfolding conf_map_Some [OF assms(1)] .
    moreover have "k \<noteq> e_key x"
      using calculation x e(2) entry_eta [of x] by (metis option.inject)
    ultimately show "k \<noteq> e_key x \<and> conf_map c k = Some v" by blast
  next
    let ?e = "\<lparr>e_key = k, e_value = v\<rparr>"
    assume a: "k \<noteq> e_key x \<and> conf_map c k = Some v"
    then have "?e \<in> set (conf_entries c)" unfolding conf_map_Some [OF assms(1)] by blast
    moreover have "?e \<noteq> x" using a by (metis conf_entry.select_convs(1))
    ultimately show "conf_map d k = Some v" unfolding conf_map_Some [OF assms(2)] assms(3) by blast
  qed
  then show "conf_map d k = ((conf_map c)(e_key x := None)) k"
    by (intro option_eqI) simp
qed

lemma conf_del_map:
  assumes "conf_ok c" and "x \<in> set (conf_entries c)"
  shows "\<exists>c'. del234 c x = Some (Some x, c') \<and> conf_ok c' \<and> conf_map c' = (conf_map c)(e_key x := None)"
proof -
  from cc.tree_del [of c x x] assms obtain c' where
    c': "del234 c x = Some (Some x, c')" "sorted234 conf_cmp c'"
      "set (conf_entries c') = set (conf_entries c) - {x}"
    by (auto simp: conf_ok_def conf_entries_def)
  with assms(1) have "conf_ok c'" by (auto simp: conf_ok_def)
  with c' conf_map_eqI [OF assms(1) this c'(3) assms(2)] show ?thesis by blast
qed

section \<open>Clearing and copying\<close>

lemma conf_new_ok: "conf_ok conf_new" "conf_entries conf_new = []"
  by (simp_all add: conf_ok_def conf_entries_def conf_new_def newtree234_def sorted234_def)

lemma conf_clear_new:
  "sorted234 conf_cmp c \<Longrightarrow> \<exists>c'. conf_clear c = Some c' \<and> sorted234 conf_cmp c' \<and> conf_entries c' = []"
proof (induction "conf_entries c" arbitrary: c)
  case Nil
  with cc.tree_delnth_0 [of c] show ?case
    by (subst conf_clear.simps) (simp add: conf_entries_def)
next
  case (Cons x xs)
  with cc.tree_delnth_0 [of c] obtain d where
    "delpos234 c 0 = Some (Some x, d)" "sorted234 conf_cmp d" "conf_entries d = xs"
    by (auto simp: conf_entries_def split: list.splits)
  with Cons.hyps(1) [of d] show ?case by (subst conf_clear.simps) simp
qed

lemma copy_value_ok: "value_ok t v \<Longrightarrow> copy_value v t = Some v"
  by (cases "(t, v)" rule: value_ok.cases) (simp_all add: copy_value_def fontspec_copy_def)

lemma copy_entry_ok:
  "entry_ok e \<Longrightarrow> copy_value (e_value e) (valuetypes (primary (e_key e))) = Some (e_value e) \<and>
     copy_key (e_key e) = e_key e"
  by (simp add: entry_ok_def key_ok_def copy_value_ok)

lemma conf_copy_loop_ok:
  assumes "conf_ok old" and "sorted234 conf_cmp new"
    and "conf_entries old = us @ vs" and "set (conf_entries new) = set us"
  shows "\<exists>c. conf_copy_loop new old (int (length us)) = Some c \<and> sorted234 conf_cmp c \<and>
           set (conf_entries c) = set (conf_entries old)"
  using assms(2-4)
proof (induction vs arbitrary: us new)
  case Nil
  have "index234 old (int (length us)) = None"
    using assms(1) Nil by (simp add: index234_at conf_ok_def sorted234_def conf_entries_def)
  with Nil show ?case by (subst conf_copy_loop.simps) simp
next
  case (Cons x vs)
  have i: "index234 old (int (length us)) = Some x"
    using assms(1) Cons.prems(2) by (simp add: index234_at conf_ok_def sorted234_def conf_entries_def at_append)
  have x: "entry_ok x" using assms(1) Cons.prems(2) by (simp add: conf_ok_def)
  have "sorted_wrt (\<lambda>x y. conf_cmp x y < 0) (us @ x # vs)"
    using assms(1) Cons.prems(2) by (simp add: conf_ok_def sorted234_def conf_entries_def)
  then have "\<forall>y\<in>set (conf_entries new). conf_cmp x y \<noteq> 0"
    using Cons.prems(3) cc.cmp_eq_sym [of x] by (fastforce simp: sorted_wrt_append)
  with cc.tree_add_cases [OF Cons.prems(1), of x] obtain new' where
    "add234 new x = Some (Some x, new')" "sorted234 conf_cmp new'"
    "set (conf_entries new') = insert x (set (conf_entries new))" by (auto simp: conf_entries_def)
  with Cons.IH [of new' "us @ [x]"] Cons.prems i copy_entry_ok [OF x]
  show ?case by (subst conf_copy_loop.simps) (simp add: add.commute entry_eta)
qed

lemma conf_copy_into_ok:
  assumes "sorted234 conf_cmp new" and "conf_ok old"
  shows "\<exists>c. conf_copy_into new old = Some c \<and> conf_ok c \<and> conf_entries c = conf_entries old"
proof -
  from conf_clear_new [OF assms(1)] obtain n where
    n: "conf_clear new = Some n" "sorted234 conf_cmp n" "conf_entries n = []" by blast
  from conf_copy_loop_ok [OF assms(2) n(2), of "[]" "conf_entries old"] n(3) obtain c where
    c: "conf_copy_loop n old 0 = Some c" "sorted234 conf_cmp c" "set (conf_entries c) = set (conf_entries old)"
    by auto
  have "conf_entries c = conf_entries old"
    using c(2,3) assms(2) cc.sorted_set_unique [of "conf_entries c" "conf_entries old"]
    by (simp add: sorted234_def conf_ok_def conf_entries_def cc.sorted_cmp_def)
  with n c assms(2) show ?thesis by (simp add: conf_copy_into_def conf_ok_def)
qed

section \<open>Accessors\<close>

lemma conf_get_map:
  assumes "conf_ok c"
  shows
    "has_types p TYPE_NONE TYPE_BOOL \<Longrightarrow> conf_map c (key_none p) = Some (BoolV b) \<Longrightarrow> conf_get_bool c p = Some b"
    "has_types p TYPE_NONE TYPE_INT \<Longrightarrow> conf_map c (key_none p) = Some (IntV i) \<Longrightarrow> conf_get_int c p = Some i"
    "has_types p TYPE_INT TYPE_INT \<Longrightarrow> conf_map c (key_int p j) = Some (IntV i) \<Longrightarrow> conf_get_int_int c p j = Some i"
    "has_types p TYPE_NONE TYPE_STR \<Longrightarrow> conf_map c (key_none p) = Some (StrV s) \<Longrightarrow> conf_get_str c p = Some s"
    "has_types p TYPE_NONE TYPE_FILENAME \<Longrightarrow> conf_map c (key_none p) = Some (FileV s) \<Longrightarrow> conf_get_filename c p = Some s"
    "has_types p TYPE_NONE TYPE_FONT \<Longrightarrow> conf_map c (key_none p) = Some (FontV f) \<Longrightarrow> conf_get_fontspec c p = Some f"
  using assms
  by (simp_all add: conf_get_bool_def conf_get_int_def conf_get_int_int_def conf_get_str_def
      conf_get_filename_def conf_get_fontspec_def conf_find_map has_types_def)

lemma conf_get_str_str_opt_map:
  assumes "conf_ok c" and "has_types p TYPE_STR TYPE_STR"
  shows "conf_get_str_str_opt c p s
           = Some (case conf_map c (key_str p s) of Some (StrV v) \<Rightarrow> Some v | _ \<Rightarrow> None)"
proof -
  have "\<exists>v. x = StrV v" if "conf_map c (key_str p s) = Some x" for x
    using conf_map_value_ok [OF assms(1) that] assms(2)
    by (cases x) (simp_all add: has_types_def)
  then show ?thesis
    using assms conf_find_map [OF assms(1), of "key_str p s"]
    by (cases "conf_map c (key_str p s)")
      (fastforce simp: conf_get_str_str_opt_def has_types_def)+
qed

section \<open>Enumerating the string subkeys\<close>

definition sub_entries :: "conf \<Rightarrow> nat \<Rightarrow> conf_entry list" where
  "sub_entries c p = filter (\<lambda>e. primary (e_key e) = p) (conf_entries c)"

lemma conf_cmp_constkey_eq: "conf_cmp_constkey = conf_cmp"
  by (simp add: fun_eq_iff conf_cmp_constkey_def conf_cmp_def conf_cmp_key_def Let_def)

lemma conf_cmp_primary: "conf_cmp a b \<le> 0 \<Longrightarrow> primary (e_key a) \<le> primary (e_key b)"
  by (auto simp: conf_cmp_def conf_cmp_key_def split: if_splits)

lemma conf_cmp_str:
  assumes "subkeytypes p = TYPE_STR"
  shows "conf_cmp (search_entry (key_str p s)) e =
     (if p < primary (e_key e) then -1 else if p > primary (e_key e) then 1
      else strcmp s (secondary_s (e_key e)))"
  using assms
  by (cases "p = primary (e_key e)") (simp_all add: conf_cmp_def conf_cmp_key_def search_entry_def key_str_def)

lemma find_first:
  "\<lbrakk>xs = us @ x # vs; \<forall>u\<in>set us. \<not> P u; P x\<rbrakk> \<Longrightarrow> List.find P xs = Some x"
  by (induction us arbitrary: xs) auto

lemma find_filter: "List.find P (filter Q xs) = List.find (\<lambda>x. Q x \<and> P x) xs"
  by (induction xs) auto

lemma entries_sorted:
  "conf_ok c \<Longrightarrow> sorted_wrt (\<lambda>x y. conf_cmp x y < 0) (conf_entries c)"
  by (simp add: conf_ok_def sorted234_def conf_entries_def)

lemma entry_str: "\<lbrakk>entry_ok e; valuetypes (primary (e_key e)) = TYPE_STR\<rbrakk> \<Longrightarrow> \<exists>v. e_value e = StrV v"
  by (cases "e_value e") (simp_all add: entry_ok_def)

text \<open>
  The first entry at or after a position of the order is the first of the option's own entries
  that satisfies the condition, or belongs to another option and then there is none.
\<close>

lemma str_entry_first:
  assumes "conf_ok c" and "has_types p TYPE_STR TYPE_STR"
    and "rel = REL234_GT \<or> rel = REL234_GE"
    and P: "\<And>e. primary (e_key e) = p \<Longrightarrow>
          P e \<longleftrightarrow> in_relation rel (Some (conf_cmp (search_entry (key_str p s)))) e"
    and "findrelpos234_by c (Some (search_entry (key_str p s))) conf_cmp rel = Some r"
  shows "str_entry p (map_option fst r) =
     Some (map_option (\<lambda>e. (secondary_s (e_key e), case e_value e of StrV v \<Rightarrow> v | _ \<Rightarrow> []))
       (List.find P (sub_entries c p)))"
proof -
  let ?q = "search_entry (key_str p s)" and ?xs = "inorder (root c)"
  let ?R = "in_relation rel (Some (conf_cmp ?q))"
  have st: "subkeytypes p = TYPE_STR" using assms(2) by (simp add: has_types_def)
  have sort: "sorted234 conf_cmp c" using assms(1) by (simp add: conf_ok_def)
  have find: "List.find P (sub_entries c p) = List.find (\<lambda>e. primary (e_key e) = p \<and> ?R e) ?xs"
    using P by (simp add: sub_entries_def find_filter conf_entries_def cong: conj_cong)
  from cc.tree_find_first [OF sort assms(3), of ?q] assms(5) show ?thesis
  proof (elim disjE exE conjE)
    fix us x vs
    assume a: "?xs = us @ x # vs" "\<forall>u\<in>set us. \<not> ?R u" "?R x"
      "findrelpos234_by c (Some ?q) conf_cmp rel = Some (Some (x, int (length us)))"
    then have r: "r = Some (x, int (length us))" using assms(5) by simp
    have x: "entry_ok x" using assms(1) a(1) by (simp add: conf_ok_def conf_entries_def)
    show ?thesis
    proof (cases "primary (e_key x) = p")
      case True
      then have "List.find (\<lambda>e. primary (e_key e) = p \<and> ?R e) ?xs = Some x"
        using a by (intro find_first [of _ us x vs]) auto
      moreover obtain v where "e_value x = StrV v"
        using entry_str [OF x] True assms(2) by (auto simp: has_types_def)
      ultimately show ?thesis using True r find by (simp add: str_entry_def)
    next
      case False
      have "p \<le> primary (e_key x)" using a(3) assms(3) st by (auto simp: conf_cmp_str split: if_splits)
      with False have gt: "p < primary (e_key x)" by simp
      have "primary (e_key x) \<le> primary (e_key y)" if "y \<in> set vs" for y
        using sort a(1) that by (intro conf_cmp_primary) (simp add: sorted234_def sorted_wrt_append less_imp_le)
      with gt have "\<forall>y\<in>set (x # vs). primary (e_key y) \<noteq> p" by fastforce
      then have "List.find (\<lambda>e. primary (e_key e) = p \<and> ?R e) ?xs = None"
        using a by (auto simp: find_None_iff)
      with False r find show ?thesis by (simp add: str_entry_def)
    qed
  next
    assume a: "\<forall>x\<in>set ?xs. \<not> ?R x" "findrelpos234_by c (Some ?q) conf_cmp rel = Some None"
    then have "List.find (\<lambda>e. primary (e_key e) = p \<and> ?R e) ?xs = None" by (auto simp: find_None_iff)
    with a find assms(5) show ?thesis by (simp add: str_entry_def)
  qed
qed

lemma conf_get_str_strs_first:
  assumes "conf_ok c" and "has_types p TYPE_STR TYPE_STR"
  shows "conf_get_str_strs c p subkeyin =
     Some (map_option (\<lambda>e. (secondary_s (e_key e), case e_value e of StrV v \<Rightarrow> v | _ \<Rightarrow> []))
       (List.find (\<lambda>e. case subkeyin of None \<Rightarrow> True | Some s \<Rightarrow> strcmp s (secondary_s (e_key e)) < 0)
          (sub_entries c p)))"
proof -
  have sort: "sorted234 conf_cmp c" using assms(1) by (simp add: conf_ok_def)
  then have cmp: "cmpfn c = Some conf_cmp" by (simp add: sorted234_def)
  have st: "subkeytypes p = TYPE_STR" using assms(2) by (simp add: has_types_def)
  have total: "\<exists>r. findrelpos234_by c (Some e) conf_cmp rel = Some r" if "rel = REL234_GT \<or> rel = REL234_GE" for e rel
    using cc.tree_find_first [OF sort that, of e] by blast
  show ?thesis
  proof (cases subkeyin)
    case None
    obtain r where r: "findrelpos234_by c (Some (search_entry (key_str p []))) conf_cmp REL234_GE = Some r"
      using total by blast
    have "str_entry p (map_option fst r) =
       Some (map_option (\<lambda>e. (secondary_s (e_key e), case e_value e of StrV v \<Rightarrow> v | _ \<Rightarrow> []))
         (List.find (\<lambda>e. True) (sub_entries c p)))"
      using assms st r by (intro str_entry_first [where rel = REL234_GE and s = "[]"]) (auto simp: conf_cmp_str strcmp_Nil)
    with None r assms(2) show ?thesis by (simp add: conf_get_str_strs_def conf_cmp_constkey_eq)
  next
    case (Some s)
    obtain r where r: "findrelpos234_by c (Some (search_entry (key_str p s))) conf_cmp REL234_GT = Some r"
      using total by blast
    have "str_entry p (map_option fst r) =
       Some (map_option (\<lambda>e. (secondary_s (e_key e), case e_value e of StrV v \<Rightarrow> v | _ \<Rightarrow> []))
         (List.find (\<lambda>e. strcmp s (secondary_s (e_key e)) < 0) (sub_entries c p)))"
      using assms st r by (intro str_entry_first [where rel = REL234_GT and s = s]) (auto simp: conf_cmp_str)
    with Some r assms(2) cmp show ?thesis by (simp add: conf_get_str_strs_def findrelpos234_def)
  qed
qed

lemma at_filter_block:
  assumes "sorted_wrt (\<lambda>x y. f x \<le> f y) zs" and "\<forall>z\<in>set zs. p \<le> (f z :: nat)" and "0 \<le> n"
  shows "at (filter (\<lambda>z. f z = p) zs) n = (case at zs n of None \<Rightarrow> None | Some z \<Rightarrow> if f z = p then Some z else None)"
  using assms
proof (induction zs arbitrary: n)
  case (Cons z zs)
  show ?case
  proof (cases "f z = p")
    case True
    with Cons show ?thesis by simp
  next
    case False
    with Cons.prems have "\<forall>y\<in>set (z # zs). f y \<noteq> p" by fastforce
    moreover from this have "filter (\<lambda>z. f z = p) (z # zs) = []" by (simp add: filter_empty_conv)
    ultimately show ?thesis by (simp only:) (auto split: option.splits dest: at_mem)
  qed
qed simp

lemma conf_get_str_nthstrkey_at:
  assumes "conf_ok c" and "has_types p TYPE_STR TYPE_STR"
  shows "conf_get_str_nthstrkey c p n = Some (map_option (\<lambda>e. secondary_s (e_key e)) (at (sub_entries c p) n))"
proof -
  let ?q = "search_entry (key_str p [])" and ?xs = "inorder (root c)"
  let ?R = "in_relation REL234_GE (Some (conf_cmp ?q))"
  have st: "subkeytypes p = TYPE_STR" using assms(2) by (simp add: has_types_def)
  have sort: "sorted234 conf_cmp c" using assms(1) by (simp add: conf_ok_def)
  have R: "?R e \<longleftrightarrow> p \<le> primary (e_key e)" for e
    using strcmp_Nil st by (auto simp: conf_cmp_str)
  have prim: "sorted_wrt (\<lambda>x y. primary (e_key x) \<le> primary (e_key y)) ?xs"
    using sort unfolding sorted234_def
    by (auto elim!: sorted_wrt_mono_rel [rotated] intro: conf_cmp_primary less_imp_le)
  have idx: "index234 c i = at ?xs i" for i using sort by (simp add: sorted234_def index234_at)
  from cc.tree_find_first [OF sort disjI2 [OF refl], of ?q] show ?thesis
  proof (elim disjE exE conjE)
    fix us x vs
    assume a: "?xs = us @ x # vs" "\<forall>u\<in>set us. \<not> ?R u" "?R x"
      "findrelpos234_by c (Some ?q) conf_cmp REL234_GE = Some (Some (x, int (length us)))"
    have us: "\<forall>u\<in>set us. primary (e_key u) < p" using a(2) unfolding R by (simp add: not_le)
    then have sub: "sub_entries c p = filter (\<lambda>e. primary (e_key e) = p) (x # vs)"
      by (auto simp: sub_entries_def conf_entries_def a(1) filter_empty_conv)
    have ge: "\<forall>z\<in>set (x # vs). p \<le> primary (e_key z)"
      using a(3) prim unfolding R by (auto simp: a(1) sorted_wrt_append)
    have srt: "sorted_wrt (\<lambda>x y. primary (e_key x) \<le> primary (e_key y)) (x # vs)"
      using prim by (simp add: a(1) sorted_wrt_append)
    show ?thesis
    proof (cases "primary (e_key x) = p")
      case False
      with ge srt have "\<forall>z\<in>set (x # vs). primary (e_key z) \<noteq> p" by fastforce
      then have "sub_entries c p = []" by (simp add: sub)
      with False a(4) assms(2) show ?thesis by (simp add: conf_get_str_nthstrkey_def conf_cmp_constkey_eq)
    next
      case True
      show ?thesis
      proof (cases "0 \<le> n")
        case pos: True
        have "at ?xs (int (length us) + n) = at (x # vs) n" using pos by (simp only: a(1) at_append) simp
        with at_filter_block [OF srt ge pos] True a(4) assms(2) show ?thesis
          by (simp add: conf_get_str_nthstrkey_def conf_cmp_constkey_eq idx sub split: option.splits del: at.simps)
      next
        case neg: False
        have "at ?xs (int (length us) + n) = at us (int (length us) + n)" using neg by (simp add: a(1) at_append)
        moreover have "primary (e_key y) \<noteq> p" if "at us i = Some y" for i y
          using us at_mem [OF that] by auto
        ultimately show ?thesis using True neg a(4) assms(2)
          by (auto simp: conf_get_str_nthstrkey_def conf_cmp_constkey_eq idx split: option.splits)
      qed
    qed
  next
    assume a: "\<forall>x\<in>set ?xs. \<not> ?R x" "findrelpos234_by c (Some ?q) conf_cmp REL234_GE = Some None"
    then have "sub_entries c p = []" unfolding R by (auto simp: sub_entries_def conf_entries_def filter_empty_conv)
    with a assms(2) show ?thesis by (simp add: conf_get_str_nthstrkey_def conf_cmp_constkey_eq)
  qed
qed

end
