(* ===== verification/Conf_Serial.thy ===== *)
theory Conf_Serial
  imports Conf
begin

text \<open>
  The serialised form of a configuration (\<^verbatim>\<open>conf_serialise\<close>, \<^verbatim>\<open>conf_deserialise\<close>), used to
  duplicate a session: writing to any sink, reading back, and what reading arbitrary bytes does.
\<close>

section \<open>Writing\<close>

definition filename_serialise :: "'s sink_write \<Rightarrow> 's \<Rightarrow> bytes \<Rightarrow> 's option" where
  "filename_serialise wr bs f = put_asciz wr bs f"

definition fontspec_serialise :: "'s sink_write \<Rightarrow> 's \<Rightarrow> FontSpec \<Rightarrow> 's option" where
  "fontspec_serialise wr bs f =
     (case put_asciz wr bs (font_name f) of None \<Rightarrow> None | Some bs \<Rightarrow>
     (case put_uint32 wr bs (if font_isbold f then 1 else 0) of None \<Rightarrow> None | Some bs \<Rightarrow>
     (case put_uint32 wr bs (font_height f) of None \<Rightarrow> None | Some bs \<Rightarrow>
      put_uint32 wr bs (font_charset f))))"

definition serialise_subkey :: "'s sink_write \<Rightarrow> 's \<Rightarrow> key \<Rightarrow> 's option" where
  "serialise_subkey wr bs k =
     (case subkeytypes (primary k) of
        TYPE_INT \<Rightarrow> put_uint32 wr bs (secondary_i k)
      | TYPE_STR \<Rightarrow> put_asciz wr bs (secondary_s k)
      | _ \<Rightarrow> Some bs)"

definition serialise_value :: "'s sink_write \<Rightarrow> 's \<Rightarrow> Type \<Rightarrow> conf_value \<Rightarrow> 's option" where
  "serialise_value wr bs type v =
     (case (type, v) of
        (TYPE_BOOL, BoolV b) \<Rightarrow> put_bool wr bs b
      | (TYPE_INT, IntV i) \<Rightarrow> put_uint32 wr bs i
      | (TYPE_STR, StrV s) \<Rightarrow> put_asciz wr bs s
      | (TYPE_FILENAME, FileV f) \<Rightarrow> filename_serialise wr bs f
      | (TYPE_FONT, FontV f) \<Rightarrow> fontspec_serialise wr bs f
      | _ \<Rightarrow> None)"

definition serialise_entry :: "'s sink_write \<Rightarrow> 's \<Rightarrow> conf_entry \<Rightarrow> 's option" where
  "serialise_entry wr bs entry =
     (case put_uint32 wr bs (word_of_nat (primary (e_key entry))) of None \<Rightarrow> None | Some bs \<Rightarrow>
     (case serialise_subkey wr bs (e_key entry) of None \<Rightarrow> None | Some bs \<Rightarrow>
      serialise_value wr bs (valuetypes (primary (e_key entry))) (e_value entry)))"

partial_function (option) conf_serialise_loop :: "'s sink_write \<Rightarrow> 's \<Rightarrow> conf \<Rightarrow> int \<Rightarrow> 's option" where
  "conf_serialise_loop wr bs conf i =
     (case index234 conf i of
        None \<Rightarrow> Some bs
      | Some entry \<Rightarrow>
          (case serialise_entry wr bs entry of
             None \<Rightarrow> None
           | Some bs \<Rightarrow> conf_serialise_loop wr bs conf (i + 1)))"

definition conf_serialise :: "'s sink_write \<Rightarrow> 's \<Rightarrow> conf \<Rightarrow> 's option" where
  "conf_serialise wr bs conf =
     (case conf_serialise_loop wr bs conf 0 of
        None \<Rightarrow> None
      | Some bs \<Rightarrow> put_uint32 wr bs 0xFFFFFFFF)"

section \<open>Reading\<close>

definition toint :: "uint32 \<Rightarrow> uint32" where
  "toint u = (if u \<le> 0x7FFFFFFF then u else if u \<ge> 0x80000000 then 0x80000000 + (u - 0x80000000)
              else 0x80000000)"

definition filename_deserialise :: "BinarySource \<Rightarrow> bytes \<times> BinarySource" where
  "filename_deserialise src = get_asciz src"

definition fontspec_deserialise :: "BinarySource \<Rightarrow> FontSpec \<times> BinarySource" where
  "fontspec_deserialise src =
     (let (name, src) = get_asciz src;
          (isbold, src) = get_uint32 src;
          (height, src) = get_uint32 src;
          (charset, src) = get_uint32 src
      in (\<lparr>font_name = name, font_isbold = (isbold \<noteq> 0), font_height = height,
           font_charset = charset\<rparr>, src))"

definition deserialise_key :: "nat \<Rightarrow> BinarySource \<Rightarrow> key \<times> BinarySource" where
  "deserialise_key p src =
     (case subkeytypes p of
        TYPE_INT \<Rightarrow> (let (i, src) = get_uint32 src in (key_int p (toint i), src))
      | TYPE_STR \<Rightarrow> (let (s, src) = get_asciz src in (key_str p s, src))
      | _ \<Rightarrow> (key_none p, src))"

text \<open>No option has the value type \<^verbatim>\<open>TYPE_NONE\<close>.\<close>

definition deserialise_value :: "Type \<Rightarrow> BinarySource \<Rightarrow> conf_value \<times> BinarySource" where
  "deserialise_value type src =
     (case type of
        TYPE_INT \<Rightarrow> (let (i, src) = get_uint32 src in (IntV (toint i), src))
      | TYPE_STR \<Rightarrow> (let (s, src) = get_asciz src in (StrV s, src))
      | TYPE_FILENAME \<Rightarrow> (let (f, src) = filename_deserialise src in (FileV f, src))
      | TYPE_FONT \<Rightarrow> (let (f, src) = fontspec_deserialise src in (FontV f, src))
      | _ \<Rightarrow> (let (b, src) = get_bool src in (BoolV b, src)))"

partial_function (option) conf_deserialise :: "conf \<Rightarrow> BinarySource \<Rightarrow> (bool \<times> conf \<times> BinarySource) option" where
  "conf_deserialise conf src =
     (let (primary, src) = get_uint32 src in
      if get_err src then Some (False, conf, src)
      else if primary = 0xFFFFFFFF then Some (True, conf, src)
      else if unat primary \<ge> N_CONFIG_OPTIONS then Some (False, conf, src)
      else
        let (k, src) = deserialise_key (unat primary) src;
            (v, src) = deserialise_value (valuetypes (unat primary)) src in
        if get_err src then Some (False, conf, src)
        else
          case conf_insert conf \<lparr>e_key = k, e_value = v\<rparr> of
            None \<Rightarrow> None
          | Some conf \<Rightarrow> conf_deserialise conf src)"

section \<open>The encoding\<close>

definition subkey_bytes :: "key \<Rightarrow> bytes" where
  "subkey_bytes k =
     (case subkeytypes (primary k) of
        TYPE_INT \<Rightarrow> put_32bit_msb_first (secondary_i k)
      | TYPE_STR \<Rightarrow> secondary_s k @ [0]
      | _ \<Rightarrow> [])"

definition font_bytes :: "FontSpec \<Rightarrow> bytes" where
  "font_bytes f =
     (font_name f @ [0]) @ put_32bit_msb_first (if font_isbold f then 1 else 0) @
     put_32bit_msb_first (font_height f) @ put_32bit_msb_first (font_charset f)"

fun value_bytes :: "conf_value \<Rightarrow> bytes" where
  "value_bytes (BoolV b) = [if b then 1 else 0]"
| "value_bytes (IntV i) = put_32bit_msb_first i"
| "value_bytes (StrV s) = s @ [0]"
| "value_bytes (FileV f) = f @ [0]"
| "value_bytes (FontV f) = font_bytes f"

definition entry_bytes :: "conf_entry \<Rightarrow> bytes" where
  "entry_bytes e =
     put_32bit_msb_first (word_of_nat (primary (e_key e))) @ subkey_bytes (e_key e) @ value_bytes (e_value e)"

definition conf_bytes :: "conf \<Rightarrow> bytes" where
  "conf_bytes c = concat (map entry_bytes (conf_entries c)) @ put_32bit_msb_first 0xFFFFFFFF"

lemma toint_id [simp]: "toint u = u"
proof (cases "u \<le> 0x7FFFFFFF")
  case False
  then have "u \<ge> 0x80000000" by (simp add: word_le_nat_alt word_less_nat_alt not_le)
  with False show ?thesis by (simp add: toint_def)
qed (simp add: toint_def)

context binary_sink
begin

lemma font_appends: "fits s (length (font_bytes f)) \<Longrightarrow> appends (fontspec_serialise wr s f) s (font_bytes f)"
  unfolding fontspec_serialise_def font_bytes_def
  by (intro appends_bind put_integers_append put_asciz_append) (auto simp: fits_def)

lemma subkey_appends:
  "fits s (length (subkey_bytes k)) \<Longrightarrow> appends (serialise_subkey wr s k) s (subkey_bytes k)"
  by (auto simp: serialise_subkey_def subkey_bytes_def put_integers_append put_asciz_append
      split: Type.splits) (auto simp: appends_def fits_def)

lemma value_appends:
  "\<lbrakk>value_ok t v; fits s (length (value_bytes v))\<rbrakk> \<Longrightarrow> appends (serialise_value wr s t v) s (value_bytes v)"
  using put_integers_append(2) put_integers_append(4) put_asciz_append font_appends
  by (cases "(t, v)" rule: value_ok.cases)
    (auto simp: serialise_value_def filename_serialise_def)

lemma entry_appends:
  assumes "entry_ok e" and "fits s (length (entry_bytes e))"
  shows "appends (serialise_entry wr s e) s (entry_bytes e)"
  unfolding serialise_entry_def entry_bytes_def
  using assms
  by (intro appends_bind put_integers_append subkey_appends value_appends)
    (auto simp: fits_def entry_ok_def entry_bytes_def)

lemma conf_serialise_loop_appends:
  assumes "conf_ok c" and "conf_entries c = us @ vs"
    and "fits s (length (concat (map entry_bytes vs)))"
  shows "appends (conf_serialise_loop wr s c (int (length us))) s (concat (map entry_bytes vs))"
  using assms(2,3)
proof (induction vs arbitrary: us s)
  case Nil
  have "index234 c (int (length us)) = None"
    using assms(1) Nil by (simp add: index234_at conf_ok_def sorted234_def conf_entries_def)
  with Nil show ?case by (subst conf_serialise_loop.simps) (simp add: appends_def fits_def)
next
  case (Cons e vs)
  have i: "index234 c (int (length us)) = Some e"
    using assms(1) Cons.prems(1) by (simp add: index234_at conf_ok_def sorted234_def conf_entries_def at_append)
  have e: "entry_ok e" using assms(1) Cons.prems(1) by (simp add: conf_ok_def)
  have "appends (case serialise_entry wr s e of None \<Rightarrow> None
      | Some bs \<Rightarrow> conf_serialise_loop wr bs c (int (length (us @ [e])))) s
      (entry_bytes e @ concat (map entry_bytes vs))"
    using Cons.prems e by (intro appends_bind entry_appends Cons.IH) (auto simp: fits_def)
  with i show ?case by (subst conf_serialise_loop.simps) (simp add: add.commute cong: option.case_cong)
qed

lemma conf_serialise_appends:
  assumes "conf_ok c" and "fits s (length (conf_bytes c))"
  shows "appends (conf_serialise wr s c) s (conf_bytes c)"
  unfolding conf_serialise_def conf_bytes_def
  using assms conf_serialise_loop_appends [of c "[]" "conf_entries c"]
  by (intro appends_bind put_integers_append) (auto simp: fits_def conf_bytes_def)

end

section \<open>Reading back\<close>

lemma N_CONFIG_OPTIONS_value: "N_CONFIG_OPTIONS = 209"
  by (simp add: N_CONFIG_OPTIONS_def config_options_def config_options_session_def config_options_terminal_def)

lemma get_uint32_toint:
  "get_uint32 (src_at pre (put_32bit_msb_first v @ rest)) = (v, src_at (pre @ put_32bit_msb_first v) rest)"
  by (rule get_uint32_at)

lemma deserialise_key_at:
  assumes "key_ok k"
  shows "deserialise_key (primary k) (src_at pre (subkey_bytes k @ rest)) = (k, src_at (pre @ subkey_bytes k) rest)"
proof -
  from assms have k: "copy_key k = k" "cstring (secondary_s k)" by (simp_all add: key_ok_def)
  show ?thesis
    using k get_asciz_at [OF k(2), of pre rest]
    by (cases "subkeytypes (primary k)")
      (simp_all add: deserialise_key_def subkey_bytes_def copy_key_def get_uint32_at)
qed

lemma font_at:
  assumes "cstring (font_name f)"
  shows "fontspec_deserialise (src_at pre (font_bytes f @ rest)) = (f, src_at (pre @ font_bytes f) rest)"
proof -
  have "(if font_isbold f then 1 else 0 :: uint32) \<noteq> 0 \<longleftrightarrow> font_isbold f" by simp
  then show ?thesis
    using get_asciz_at [OF assms] get_uint32_at
    by (simp add: fontspec_deserialise_def font_bytes_def Let_def)
qed

lemma deserialise_value_at:
  assumes "value_ok t v"
  shows "deserialise_value t (src_at pre (value_bytes v @ rest)) = (v, src_at (pre @ value_bytes v) rest)"
  using assms get_asciz_at [of _ pre rest] get_bool_at [of pre _ rest] get_uint32_at [of pre _ rest]
    font_at [of _ pre rest]
  by (cases "(t, v)" rule: value_ok.cases)
    (simp_all add: deserialise_value_def filename_deserialise_def)

lemma conf_deserialise_entry:
  assumes "entry_ok e"
  shows "conf_deserialise c (src_at pre (entry_bytes e @ rest)) =
     (case conf_insert c e of
        None \<Rightarrow> None
      | Some c \<Rightarrow> conf_deserialise c (src_at (pre @ entry_bytes e) rest))"
proof -
  let ?p = "primary (e_key e)"
  from assms have e: "key_ok (e_key e)" "value_ok (valuetypes ?p) (e_value e)" "?p < 209"
    by (auto simp: entry_ok_def key_ok_def N_CONFIG_OPTIONS_value)
  have u: "unat (word_of_nat ?p :: uint32) = ?p"
    using e(3) by (simp add: unat_of_nat take_bit_nat_eq_self)
  have "(word_of_nat ?p :: uint32) \<noteq> 0xFFFFFFFF"
  proof
    assume "(word_of_nat ?p :: uint32) = 0xFFFFFFFF"
    then have "unat (word_of_nat ?p :: uint32) = unat (0xFFFFFFFF :: uint32)" by simp
    with u e(3) show False by simp
  qed
  then show ?thesis
    using e u deserialise_key_at [OF e(1)] deserialise_value_at [OF e(2)]
    by (subst conf_deserialise.simps)
      (simp add: entry_bytes_def get_uint32_at Let_def N_CONFIG_OPTIONS_value entry_eta
        cong: option.case_cong)
qed

lemma conf_deserialise_end:
  "conf_deserialise c (src_at pre (put_32bit_msb_first 0xFFFFFFFF @ rest)) =
     Some (True, c, src_at (pre @ put_32bit_msb_first 0xFFFFFFFF) rest)"
  by (subst conf_deserialise.simps) (simp add: get_uint32_at)

text \<open>
  Reading a serialised configuration into a store adds its entries, overriding those with the
  same keys.
\<close>

lemma conf_deserialise_bytes:
  assumes "conf_ok c" and "\<forall>e\<in>set es. entry_ok e"
  shows "\<exists>c'. conf_deserialise c (src_at pre (concat (map entry_bytes es) @ put_32bit_msb_first 0xFFFFFFFF @ rest))
             = Some (True, c', src_at (pre @ concat (map entry_bytes es) @ put_32bit_msb_first 0xFFFFFFFF) rest) \<and>
           conf_ok c' \<and> conf_map c' = conf_map c ++ map_of (rev (map (\<lambda>e. (e_key e, e_value e)) es))"
  using assms
proof (induction es arbitrary: c pre)
  case Nil
  then show ?case by (simp add: conf_deserialise_end)
next
  case (Cons e es)
  then obtain c1 where c1: "conf_insert c e = Some c1" "conf_ok c1"
    "conf_map c1 = (conf_map c)(e_key e \<mapsto> e_value e)"
    using conf_insert_map [of c e] by auto
  have "conf_map c ++ map_of (rev (map (\<lambda>e. (e_key e, e_value e)) (e # es)))
      = conf_map c1 ++ map_of (rev (map (\<lambda>e. (e_key e, e_value e)) es))"
    by (simp add: c1(3))
  with Cons.IH [OF c1(2), of "pre @ entry_bytes e"] Cons.prems(2) c1(1)
  show ?case by (simp add: conf_deserialise_entry del: fun_upd_apply)
qed

lemma map_of_rev_entries:
  assumes "conf_ok c"
  shows "map_of (rev (map (\<lambda>e. (e_key e, e_value e)) (conf_entries c))) = conf_map c"
proof -
  have "distinct (map e_key (conf_entries c))"
  proof (subst distinct_map, intro conjI inj_onI)
    show "distinct (conf_entries c)"
      using entries_sorted [OF assms] cc.sorted_distinct by (simp add: cc.sorted_cmp_def)
    fix x y assume "x \<in> set (conf_entries c)" "y \<in> set (conf_entries c)" "e_key x = e_key y"
    moreover from this have "conf_cmp x y = 0" by (metis cc.cmp_refl conf_cmp_def)
    ultimately show "x = y"
      using cc.sorted_unique entries_sorted [OF assms] by (simp add: cc.sorted_cmp_def)
  qed
  then have d: "distinct (map fst (map (\<lambda>e. (e_key e, e_value e)) (conf_entries c)))" by (simp add: o_def)
  then have d2: "distinct (map fst (rev (map (\<lambda>e. (e_key e, e_value e)) (conf_entries c))))"
    by (simp add: rev_map [symmetric] del: map_map)
  show ?thesis
    unfolding conf_map_def
    by (intro ext option_eqI) (simp only: map_of_eq_Some_iff [OF d] map_of_eq_Some_iff [OF d2] set_rev)
qed

section \<open>Reading arbitrary bytes\<close>

lemma get_asciz_cstring: "cstring (fst (get_asciz src))"
  by (auto simp: get_asciz_def Let_def cstring_def dest: set_takeWhileD)

lemma fontspec_deserialise_eq:
  "fontspec_deserialise src =
     (\<lparr>font_name = fst (get_asciz src),
       font_isbold = (fst (get_uint32 (snd (get_asciz src))) \<noteq> 0),
       font_height = fst (get_uint32 (snd (get_uint32 (snd (get_asciz src))))),
       font_charset = fst (get_uint32 (snd (get_uint32 (snd (get_uint32 (snd (get_asciz src)))))))\<rparr>,
      snd (get_uint32 (snd (get_uint32 (snd (get_uint32 (snd (get_asciz src))))))))"
  by (simp add: fontspec_deserialise_def Let_def split_beta)

lemma src_ok_get:
  "src_ok src \<Longrightarrow> src_ok (snd (get_uint32 src))" "src_ok src \<Longrightarrow> src_ok (snd (get_asciz src))"
  using src_moves_get(5) [of src] src_moves_asciz [of src] by (simp_all add: src_moves_def)

lemma font_moves:
  assumes "src_ok src"
  shows "src_moves src (snd (fontspec_deserialise src))"
proof -
  define s1 where "s1 = snd (get_asciz src)"
  define s2 where "s2 = snd (get_uint32 s1)"
  define s3 where "s3 = snd (get_uint32 s2)"
  have ok: "src_ok s1" "src_ok s2" "src_ok s3"
    using assms by (simp_all add: s1_def s2_def s3_def src_ok_get)
  have "src_moves src s1" unfolding s1_def by (rule src_moves_asciz [OF assms])
  moreover have "src_moves s1 s2" unfolding s2_def by (rule src_moves_get(5) [OF ok(1)])
  moreover have "src_moves s2 s3" unfolding s3_def by (rule src_moves_get(5) [OF ok(2)])
  moreover have "src_moves s3 (snd (fontspec_deserialise src))"
    using src_moves_get(5) [OF ok(3)] by (simp only: fontspec_deserialise_eq snd_conv s1_def s2_def s3_def)
  ultimately show ?thesis by (blast intro: src_moves_trans)
qed

lemma deserialise_key_moves:
  assumes "src_ok src" and "p < N_CONFIG_OPTIONS"
  shows "src_moves src (snd (deserialise_key p src)) \<and> key_ok (fst (deserialise_key p src)) \<and>
    primary (fst (deserialise_key p src)) = p"
proof -
  obtain i s1 where i: "get_uint32 src = (i, s1)" by (cases "get_uint32 src")
  obtain s s2 where s: "get_asciz src = (s, s2)" by (cases "get_asciz src")
  have "src_moves src s1" "src_moves src s2" "cstring s"
    using src_moves_get(5) [OF assms(1)] src_moves_asciz [OF assms(1)] get_asciz_cstring [of src] i s
    by simp_all
  then show ?thesis
    using assms(2) i s
    by (cases "subkeytypes p") (simp_all add: deserialise_key_def key_ok_def,
      simp_all add: cstring_def copy_key_def key_none_def key_int_def key_str_def)
qed

lemma deserialise_value_moves:
  assumes "src_ok src" and "t \<noteq> TYPE_NONE"
  shows "src_moves src (snd (deserialise_value t src)) \<and> value_ok t (fst (deserialise_value t src))"
proof -
  obtain i s1 where i: "get_uint32 src = (i, s1)" by (cases "get_uint32 src")
  obtain s s2 where s: "get_asciz src = (s, s2)" by (cases "get_asciz src")
  obtain b s3 where b: "get_bool src = (b, s3)" by (cases "get_bool src")
  obtain f s4 where f: "fontspec_deserialise src = (f, s4)" by (cases "fontspec_deserialise src")
  then have fs: "font_name f = s" using s by (simp only: fontspec_deserialise_eq) auto
  have "src_moves src s1" "src_moves src s2" "src_moves src s3" "src_moves src s4" "cstring s"
    using src_moves_get(3,5) [OF assms(1)] src_moves_asciz [OF assms(1)] get_asciz_cstring [of src]
      font_moves [OF assms(1)] i s b f by simp_all
  then show ?thesis
    using assms(2) i s b f fs
    by (cases t) (simp_all add: deserialise_value_def filename_deserialise_def)
qed

lemma valuetypes_some: "p < N_CONFIG_OPTIONS \<Longrightarrow> valuetypes p \<noteq> TYPE_NONE"
proof -
  have "list_all (\<lambda>x. fst x \<noteq> TYPE_NONE) config_options"
    by (simp add: config_options_def config_options_session_def config_options_terminal_def)
  then show "p < N_CONFIG_OPTIONS \<Longrightarrow> valuetypes p \<noteq> TYPE_NONE"
    by (simp add: valuetypes_def N_CONFIG_OPTIONS_def list_all_length)
qed

lemma get_uint32_progress:
  assumes "src_ok src" and "\<not> get_err (snd (get_uint32 src))"
  shows "get_avail (snd (get_uint32 src)) < get_avail src"
  using assms
  by (auto simp: get_uint32_def data_avail_def get_avail_def advance_def get_err_def src_ok_def split: if_splits)

lemma src_moves_avail_le: "src_moves src src' \<Longrightarrow> get_avail src' \<le> get_avail src"
  by (auto simp: src_moves_def get_avail_def)

text \<open>Whatever the bytes, reading returns, and it leaves a well-formed store.\<close>

lemma conf_deserialise_total:
  assumes "conf_ok c" and "src_ok src"
  shows "\<exists>b c' src'. conf_deserialise c src = Some (b, c', src') \<and> conf_ok c' \<and> src_ok src' \<and>
           src_data src' = src_data src"
  using assms
proof (induction "get_avail src" arbitrary: c src rule: less_induct)
  case less
  obtain p src1 where 1: "get_uint32 src = (p, src1)" by (cases "get_uint32 src")
  with src_moves_get(5) [OF less.prems(2)] have m1: "src_moves src src1" by simp
  then have ok1: "src_ok src1" and d1: "src_data src1 = src_data src"
    using less.prems(2) by (simp_all add: src_moves_def)
  show ?case
  proof (cases "get_err src1 \<or> p = 0xFFFFFFFF \<or> unat p \<ge> N_CONFIG_OPTIONS")
    case True
    with 1 less.prems(1) ok1 d1 show ?thesis by (subst conf_deserialise.simps) auto
  next
    case False
    then have p: "unat p < N_CONFIG_OPTIONS" by simp
    obtain k src2 where 2: "deserialise_key (unat p) src1 = (k, src2)" by (cases "deserialise_key (unat p) src1")
    with deserialise_key_moves [OF ok1 p] have k: "src_moves src1 src2" "key_ok k" "primary k = unat p" by simp_all
    then have ok2: "src_ok src2" and d2: "src_data src2 = src_data src" using ok1 d1 by (simp_all add: src_moves_def)
    obtain v src3 where 3: "deserialise_value (valuetypes (unat p)) src2 = (v, src3)"
      by (cases "deserialise_value (valuetypes (unat p)) src2")
    with deserialise_value_moves [OF ok2 valuetypes_some [OF p]]
    have v: "src_moves src2 src3" "value_ok (valuetypes (unat p)) v" by simp_all
    then have ok3: "src_ok src3" and d3: "src_data src3 = src_data src" using ok2 d2 by (simp_all add: src_moves_def)
    show ?thesis
    proof (cases "get_err src3")
      case True
      with 1 2 3 False less.prems(1) ok3 d3 show ?thesis by (subst conf_deserialise.simps) auto
    next
      case ne: False
      have "entry_ok \<lparr>e_key = k, e_value = v\<rparr>" using k v by (simp add: entry_ok_def)
      from conf_insert_map [OF less.prems(1) this] obtain c1 where
        c1: "conf_insert c \<lparr>e_key = k, e_value = v\<rparr> = Some c1" "conf_ok c1" by blast
      have "get_avail src3 < get_avail src"
        using get_uint32_progress [OF less.prems(2)] 1 False src_moves_avail_le [OF k(1)]
          src_moves_avail_le [OF v(1)] by simp
      from less.hyps [OF this c1(2) ok3] c1(1) 1 2 3 d3 False ne show ?thesis
        by (subst conf_deserialise.simps) auto
    qed
  qed
qed

end
