(* ===== verification/Conf_Scripts.thy ===== *)
theory Conf_Scripts
  imports Conf_Serial
begin

text \<open>
  What the configuration store promises: it is a map from typed keys to typed values, a copy holds
  the same entries, enumerating the string subkeys of an option lists each exactly once in order,
  the serialised form is read back as the same map, and reading arbitrary bytes is safe.
\<close>

section \<open>The store is a map\<close>

datatype conf_op =
    SetBool nat bool | SetInt nat uint32 | SetIntInt nat uint32 uint32 | SetStr nat bytes
  | SetStrStr nat bytes bytes | DelStrStr nat bytes | SetFilename nat bytes | SetFontspec nat FontSpec
  | GetBool nat | GetInt nat | GetIntInt nat uint32 | GetStr nat | GetStrStrOpt nat bytes
  | GetFilename nat | GetFontspec nat

fun run_conf :: "conf \<Rightarrow> conf_op \<Rightarrow> (conf_value option \<times> conf) option" where
  "run_conf c (SetBool p b) = map_option (Pair None) (conf_set_bool c p b)"
| "run_conf c (SetInt p i) = map_option (Pair None) (conf_set_int c p i)"
| "run_conf c (SetIntInt p j i) = map_option (Pair None) (conf_set_int_int c p j i)"
| "run_conf c (SetStr p s) = map_option (Pair None) (conf_set_str c p s)"
| "run_conf c (SetStrStr p k s) = map_option (Pair None) (conf_set_str_str c p k s)"
| "run_conf c (DelStrStr p k) = map_option (Pair None) (conf_del_str_str c p k)"
| "run_conf c (SetFilename p f) = map_option (Pair None) (conf_set_filename c p f)"
| "run_conf c (SetFontspec p f) = map_option (Pair None) (conf_set_fontspec c p f)"
| "run_conf c (GetBool p) = map_option (\<lambda>b. (Some (BoolV b), c)) (conf_get_bool c p)"
| "run_conf c (GetInt p) = map_option (\<lambda>i. (Some (IntV i), c)) (conf_get_int c p)"
| "run_conf c (GetIntInt p j) = map_option (\<lambda>i. (Some (IntV i), c)) (conf_get_int_int c p j)"
| "run_conf c (GetStr p) = map_option (\<lambda>s. (Some (StrV s), c)) (conf_get_str c p)"
| "run_conf c (GetStrStrOpt p k) = map_option (\<lambda>r. (map_option StrV r, c)) (conf_get_str_str_opt c p k)"
| "run_conf c (GetFilename p) = map_option (\<lambda>f. (Some (FileV f), c)) (conf_get_filename c p)"
| "run_conf c (GetFontspec p) = map_option (\<lambda>f. (Some (FontV f), c)) (conf_get_fontspec c p)"

text \<open>
  The specification. Setting and deleting update the map at the option's key; a plain get of an
  option that was never set is an assertion failure, \<^verbatim>\<open>conf_get_str_str_opt\<close> reports it.
\<close>

definition spec_set :: "(key \<rightharpoonup> conf_value) \<Rightarrow> bool \<Rightarrow> key \<Rightarrow> conf_value option \<Rightarrow> (conf_value option \<times> (key \<rightharpoonup> conf_value)) option" where
  "spec_set m typed k v = (if typed then Some (None, m(k := v)) else None)"

definition spec_get :: "(key \<rightharpoonup> conf_value) \<Rightarrow> bool \<Rightarrow> key \<Rightarrow> (conf_value option \<times> (key \<rightharpoonup> conf_value)) option" where
  "spec_get m typed k = (if typed \<and> m k \<noteq> None then Some (m k, m) else None)"

fun spec_conf :: "(key \<rightharpoonup> conf_value) \<Rightarrow> conf_op \<Rightarrow> (conf_value option \<times> (key \<rightharpoonup> conf_value)) option" where
  "spec_conf m (SetBool p b) = spec_set m (has_types p TYPE_NONE TYPE_BOOL) (key_none p) (Some (BoolV b))"
| "spec_conf m (SetInt p i) = spec_set m (has_types p TYPE_NONE TYPE_INT) (key_none p) (Some (IntV i))"
| "spec_conf m (SetIntInt p j i) = spec_set m (has_types p TYPE_INT TYPE_INT) (key_int p j) (Some (IntV i))"
| "spec_conf m (SetStr p s) = spec_set m (has_types p TYPE_NONE TYPE_STR \<and> cstring s) (key_none p) (Some (StrV s))"
| "spec_conf m (SetStrStr p k s) =
     spec_set m (has_types p TYPE_STR TYPE_STR \<and> cstring k \<and> cstring s) (key_str p k) (Some (StrV s))"
| "spec_conf m (DelStrStr p k) = spec_set m (has_types p TYPE_STR TYPE_STR \<and> cstring k) (key_str p k) None"
| "spec_conf m (SetFilename p f) =
     spec_set m (has_types p TYPE_NONE TYPE_FILENAME \<and> cstring f) (key_none p) (Some (FileV f))"
| "spec_conf m (SetFontspec p f) =
     spec_set m (has_types p TYPE_NONE TYPE_FONT \<and> cstring (font_name f)) (key_none p) (Some (FontV f))"
| "spec_conf m (GetBool p) = spec_get m (has_types p TYPE_NONE TYPE_BOOL) (key_none p)"
| "spec_conf m (GetInt p) = spec_get m (has_types p TYPE_NONE TYPE_INT) (key_none p)"
| "spec_conf m (GetIntInt p j) = spec_get m (has_types p TYPE_INT TYPE_INT) (key_int p j)"
| "spec_conf m (GetStr p) = spec_get m (has_types p TYPE_NONE TYPE_STR) (key_none p)"
| "spec_conf m (GetStrStrOpt p k) =
     (if has_types p TYPE_STR TYPE_STR then Some (m (key_str p k), m) else None)"
| "spec_conf m (GetFilename p) = spec_get m (has_types p TYPE_NONE TYPE_FILENAME) (key_none p)"
| "spec_conf m (GetFontspec p) = spec_get m (has_types p TYPE_NONE TYPE_FONT) (key_none p)"

lemma set_run:
  assumes "conf_ok c" and "typed \<Longrightarrow> entry_ok \<lparr>e_key = k, e_value = v\<rparr>"
    and "spec_set (conf_map c) typed k (Some v) = Some (r, m)"
  shows "\<exists>c'. map_option (Pair None) (conf_insert c \<lparr>e_key = k, e_value = v\<rparr>) = Some (r, c') \<and>
           conf_ok c' \<and> conf_map c' = m"
proof -
  from assms(3) have t: "typed" "r = None" "m = (conf_map c)(k \<mapsto> v)" by (auto simp: spec_set_def split: if_splits)
  from conf_insert_map [OF assms(1) assms(2) [OF t(1)]] t show ?thesis by auto
qed

lemma conf_insert_none: "conf_insert c e = Some c' \<Longrightarrow> map_option (Pair None) (conf_insert c e) = Some (None, c')"
  by simp

lemma del_run:
  assumes "conf_ok c" and "has_types p TYPE_STR TYPE_STR"
  shows "\<exists>c'. conf_del_str_str c p k = Some c' \<and> conf_ok c' \<and> conf_map c' = (conf_map c)(key_str p k := None)"
proof -
  let ?e = "search_entry (key_str p k)"
  have s: "sorted234 conf_cmp c" using assms(1) by (simp add: conf_ok_def)
  have ck: "copy_key (key_str p k) = key_str p k" using assms(2) by (simp add: has_types_def)
  have f: "find234 c ?e = Some (cc.tree.lookup c ?e)" by (rule cc.tree.find_lookup [OF s])
  have m: "conf_map c (key_str p k) = map_option e_value (cc.tree.lookup c ?e)"
    by (rule conf_map_lookup [OF assms(1) ck])
  show ?thesis
  proof (cases "cc.tree.lookup c ?e")
    case None
    then have "(conf_map c)(key_str p k := None) = conf_map c" using m by auto
    with None f assms show ?thesis by (simp add: conf_del_str_str_def)
  next
    case (Some x)
    then have x: "x \<in> set (conf_entries c)" "conf_cmp ?e x = 0"
      using s by (auto simp: cc.tree.lookup_Some_iff conf_entries_def)
    have "copy_key (e_key x) = e_key x" using assms(1) x(1) by (auto simp: conf_ok_def entry_ok_def key_ok_def)
    with conf_cmp_key_eq [OF ck this] x(2) have "e_key x = key_str p k"
      by (auto simp: conf_cmp_def search_entry_def)
    with conf_del_map [OF assms(1) x(1)] Some f assms(2) show ?thesis by (auto simp: conf_del_str_str_def)
  qed
qed

lemma get_typed:
  assumes "conf_ok c" and "spec_get (conf_map c) (has_types p st vt) k = Some (r, m)" and "primary k = p"
  shows "\<exists>v. conf_map c k = Some v \<and> r = Some v \<and> m = conf_map c \<and> has_types p st vt \<and> value_ok vt v"
proof -
  from assms(2) obtain v where v: "conf_map c k = Some v" "r = Some v" "m = conf_map c" "has_types p st vt"
    by (auto simp: spec_get_def split: if_splits)
  with conf_map_value_ok [OF assms(1) v(1)] assms(3) show ?thesis by (auto simp: has_types_def)
qed

lemma value_ok_cases:
  "value_ok TYPE_BOOL v \<Longrightarrow> \<exists>b. v = BoolV b" "value_ok TYPE_INT v \<Longrightarrow> \<exists>i. v = IntV i"
  "value_ok TYPE_STR v \<Longrightarrow> \<exists>s. v = StrV s" "value_ok TYPE_FILENAME v \<Longrightarrow> \<exists>f. v = FileV f"
  "value_ok TYPE_FONT v \<Longrightarrow> \<exists>f. v = FontV f"
  by (cases v; simp)+

lemma get_run:
  assumes "conf_ok c"
  shows "spec_conf (conf_map c) (GetBool p) = Some (r, m) \<Longrightarrow> run_conf c (GetBool p) = Some (r, c) \<and> m = conf_map c"
    "spec_conf (conf_map c) (GetInt p) = Some (r, m) \<Longrightarrow> run_conf c (GetInt p) = Some (r, c) \<and> m = conf_map c"
    "spec_conf (conf_map c) (GetIntInt p j) = Some (r, m) \<Longrightarrow> run_conf c (GetIntInt p j) = Some (r, c) \<and> m = conf_map c"
    "spec_conf (conf_map c) (GetStr p) = Some (r, m) \<Longrightarrow> run_conf c (GetStr p) = Some (r, c) \<and> m = conf_map c"
    "spec_conf (conf_map c) (GetFilename p) = Some (r, m) \<Longrightarrow> run_conf c (GetFilename p) = Some (r, c) \<and> m = conf_map c"
    "spec_conf (conf_map c) (GetFontspec p) = Some (r, m) \<Longrightarrow> run_conf c (GetFontspec p) = Some (r, c) \<and> m = conf_map c"
  using conf_get_map [OF assms]
  by (auto dest!: get_typed [OF assms] value_ok_cases)

lemma get_str_str_run:
  assumes "conf_ok c" and "has_types p TYPE_STR TYPE_STR"
  shows "map_option (\<lambda>r. (map_option StrV r, c)) (conf_get_str_str_opt c p k) = Some (conf_map c (key_str p k), c)"
proof (cases "conf_map c (key_str p k)")
  case (Some v)
  with conf_map_value_ok [OF assms(1) Some] assms(2) obtain s where "v = StrV s"
    by (cases v) (auto simp: has_types_def)
  with Some conf_get_str_str_opt_map [OF assms, of k] show ?thesis by simp
qed (simp add: conf_get_str_str_opt_map [OF assms])

lemma fontspec_copy_id: "fontspec_copy f = f"
  by (simp add: fontspec_copy_def)

lemma set_runs:
  assumes "conf_ok c" and "spec_conf (conf_map c) p = Some (r, m)"
    and "p \<in> {SetBool q b, SetInt q i, SetIntInt q j i, SetStr q s, SetStrStr q k s, SetFilename q s, SetFontspec q f}"
  shows "\<exists>c'. run_conf c p = Some (r, c') \<and> conf_ok c' \<and> conf_map c' = m"
proof -
  note insert = conf_insert_map [OF assms(1)]
  have "p = SetBool q b \<Longrightarrow> ?thesis" "p = SetInt q i \<Longrightarrow> ?thesis" "p = SetIntInt q j i \<Longrightarrow> ?thesis"
    using assms(2) insert [of "\<lparr>e_key = key_none q, e_value = BoolV b\<rparr>"]
      insert [of "\<lparr>e_key = key_none q, e_value = IntV i\<rparr>"] insert [of "\<lparr>e_key = key_int q j, e_value = IntV i\<rparr>"]
    by (auto simp: spec_set_def conf_set_bool_def conf_set_int_def conf_set_int_int_def entry_ok_def has_types_def
        split: if_splits)
  moreover have "p = SetStr q s \<Longrightarrow> ?thesis" "p = SetStrStr q k s \<Longrightarrow> ?thesis"
    using assms(2) insert [of "\<lparr>e_key = key_none q, e_value = StrV s\<rparr>"]
      insert [of "\<lparr>e_key = key_str q k, e_value = StrV s\<rparr>"]
    by (auto simp: spec_set_def conf_set_str_def conf_set_str_str_def entry_ok_def has_types_def split: if_splits)
  moreover have "p = SetFilename q s \<Longrightarrow> ?thesis" "p = SetFontspec q f \<Longrightarrow> ?thesis"
    using assms(2) insert [of "\<lparr>e_key = key_none q, e_value = FileV s\<rparr>"]
      insert [of "\<lparr>e_key = key_none q, e_value = FontV f\<rparr>"]
    by (auto simp: spec_set_def conf_set_filename_def conf_set_fontspec_def fontspec_copy_id entry_ok_def
        has_types_def split: if_splits)
  ultimately show ?thesis using assms(3) by blast
qed

lemma run_conf_spec:
  assumes "conf_ok c \<and> conf_map c = n" and "spec_conf n p = Some (r, m)"
  shows "\<exists>c'. run_conf c p = Some (r, c') \<and> conf_ok c' \<and> conf_map c' = m"
proof -
  from assms have c: "conf_ok c" and s: "spec_conf (conf_map c) p = Some (r, m)" by simp_all
  show ?thesis
  proof (cases p)
    case (DelStrStr q k)
    with s have "has_types q TYPE_STR TYPE_STR" "r = None" "m = (conf_map c)(key_str q k := None)"
      by (auto simp: spec_set_def split: if_splits)
    with del_run [OF c, of q k] DelStrStr show ?thesis by auto
  next
    case (GetStrStrOpt q k)
    with s get_str_str_run [OF c, of q k] c show ?thesis by (auto split: if_splits)
  next
    case (GetBool q) with s show ?thesis using get_run(1) [OF c] c by blast
  next
    case (GetInt q) with s show ?thesis using get_run(2) [OF c] c by blast
  next
    case (GetIntInt q j) with s show ?thesis using get_run(3) [OF c] c by blast
  next
    case (GetStr q) with s show ?thesis using get_run(4) [OF c] c by blast
  next
    case (GetFilename q) with s show ?thesis using get_run(5) [OF c] c by blast
  next
    case (GetFontspec q) with s show ?thesis using get_run(6) [OF c] c by blast
  qed (rule set_runs [OF c s]; simp)+
qed

section \<open>Enumerating the string subkeys\<close>

text \<open>
  The clients' loop: ask for the first subkey, then for the one after each, until there is none.
  The fuel is one more than the number of entries.
\<close>

fun walk :: "nat \<Rightarrow> conf \<Rightarrow> nat \<Rightarrow> bytes option \<Rightarrow> (bytes \<times> bytes) list option" where
  "walk 0 c p k = None"
| "walk (Suc n) c p k =
     (case conf_get_str_strs c p k of
        None \<Rightarrow> None
      | Some None \<Rightarrow> Some []
      | Some (Some (s, v)) \<Rightarrow> map_option (Cons (s, v)) (walk n c p (Some s)))"

definition str_pair :: "conf_entry \<Rightarrow> bytes \<times> bytes" where
  "str_pair e = (secondary_s (e_key e), case e_value e of StrV v \<Rightarrow> v | _ \<Rightarrow> [])"

lemma sub_entries_sorted:
  assumes "conf_ok c" and "has_types p TYPE_STR TYPE_STR"
  shows "sorted_wrt (\<lambda>x y. strcmp (secondary_s (e_key x)) (secondary_s (e_key y)) < 0) (sub_entries c p)"
proof -
  have "sorted_wrt (\<lambda>x y. conf_cmp x y < 0) (sub_entries c p)"
    unfolding sub_entries_def by (rule sorted_wrt_filter [OF entries_sorted [OF assms(1)]])
  moreover have "strcmp (secondary_s (e_key x)) (secondary_s (e_key y)) < 0"
    if "x \<in> set (sub_entries c p)" "y \<in> set (sub_entries c p)" "conf_cmp x y < 0" for x y
  proof -
    have e: "primary (e_key x) = p" "primary (e_key y) = p" using that by (auto simp: sub_entries_def)
    have "conf_cmp x y = conf_cmp (search_entry (key_str p (secondary_s (e_key x)))) y"
      using e assms(2) by (simp add: conf_cmp_def conf_cmp_key_def search_entry_def key_str_def has_types_def)
    with conf_cmp_str [of p "secondary_s (e_key x)" y] assms(2) e that(3) show ?thesis
      by (simp add: has_types_def)
  qed
  ultimately show ?thesis by (rule sorted_wrt_mono_rel [rotated])
qed

lemma before_last:
  "\<lbrakk>sorted_wrt (\<lambda>x y. strcmp (f x) (f y) < 0) us; u \<in> set us\<rbrakk> \<Longrightarrow> \<not> strcmp (f (last us)) (f u) < 0"
proof (induction us rule: rev_induct)
  case (snoc x us)
  then show ?case using strcmp_antisym [of "f u" "f x"] by (auto simp: sorted_wrt_append)
qed simp

lemma walk_suffix:
  assumes "conf_ok c" and "has_types p TYPE_STR TYPE_STR" and "sub_entries c p = us @ vs"
    and "k = (if us = [] then None else Some (secondary_s (e_key (last us))))" and "length vs < n"
  shows "walk n c p k = Some (map str_pair vs)"
  using assms(3-5)
proof (induction vs arbitrary: us k n)
  case Nil
  let ?P = "\<lambda>e. case k of None \<Rightarrow> True | Some s \<Rightarrow> strcmp s (secondary_s (e_key e)) < 0"
  have "sorted_wrt (\<lambda>x y. strcmp (secondary_s (e_key x)) (secondary_s (e_key y)) < 0) us"
    using sub_entries_sorted [OF assms(1,2)] Nil.prems(1) by simp
  from before_last [OF this] have "\<forall>u\<in>set us. \<not> ?P u" using Nil.prems(2) by auto
  with Nil have "List.find ?P (sub_entries c p) = None" by (auto simp: find_None_iff)
  with conf_get_str_strs_first [OF assms(1,2), of k] Nil.prems(3) show ?case by (cases n) auto
next
  case (Cons e vs)
  let ?P = "\<lambda>e. case k of None \<Rightarrow> True | Some s \<Rightarrow> strcmp s (secondary_s (e_key e)) < 0"
  note sorted = sub_entries_sorted [OF assms(1,2), unfolded Cons.prems(1) sorted_wrt_append]
  from before_last [OF sorted [THEN conjunct1]] have "\<forall>u\<in>set us. \<not> ?P u" using Cons.prems(2) by auto
  moreover have "?P e" using sorted Cons.prems(2) by (auto split: option.splits)
  ultimately have "List.find ?P (sub_entries c p) = Some e" by (intro find_first [OF Cons.prems(1)])
  with conf_get_str_strs_first [OF assms(1,2), of k]
  have get: "conf_get_str_strs c p k = Some (Some (str_pair e))" by (simp add: str_pair_def)
  from Cons.prems(3) obtain m where n: "n = Suc m" "length vs < m" by (cases n) auto
  have "walk m c p (Some (fst (str_pair e))) = Some (map str_pair vs)"
    using Cons.prems(1) n(2) by (intro Cons.IH [of "us @ [e]"]) (auto simp: str_pair_def)
  with get n(1) show ?case by (cases "str_pair e") auto
qed

lemma str_pairs_map:
  assumes "conf_ok c" and "has_types p TYPE_STR TYPE_STR"
  shows "set (map str_pair (sub_entries c p)) = {(s, v). conf_map c (key_str p s) = Some (StrV v)}"
proof (intro equalityI subsetI)
  fix x assume "x \<in> set (map str_pair (sub_entries c p))"
  then obtain e where e: "e \<in> set (conf_entries c)" "primary (e_key e) = p" "x = str_pair e"
    by (auto simp: sub_entries_def)
  then have ok: "entry_ok e" using assms(1) by (simp add: conf_ok_def)
  with e(2) assms(2) obtain v where v: "e_value e = StrV v" using entry_str by (auto simp: has_types_def)
  have "copy_key (e_key e) = e_key e" using ok by (simp add: entry_ok_def key_ok_def)
  then have k: "e_key e = key_str p (secondary_s (e_key e))"
    using e(2) assms(2) by (cases "e_key e") (auto simp: copy_key_def key_str_def has_types_def)
  have "\<lparr>e_key = e_key e, e_value = StrV v\<rparr> \<in> set (conf_entries c)" using e(1)
    by (simp only: v [symmetric] entry_eta)
  with k show "x \<in> {(s, v). conf_map c (key_str p s) = Some (StrV v)}"
    using e(3) v conf_map_Some [OF assms(1)] by (simp add: str_pair_def)
next
  fix x assume "x \<in> {(s, v). conf_map c (key_str p s) = Some (StrV v)}"
  then obtain s v where x: "x = (s, v)" "\<lparr>e_key = key_str p s, e_value = StrV v\<rparr> \<in> set (conf_entries c)"
    using conf_map_Some [OF assms(1)] by auto
  then have "\<lparr>e_key = key_str p s, e_value = StrV v\<rparr> \<in> set (sub_entries c p)" by (simp add: sub_entries_def)
  then show "x \<in> set (map str_pair (sub_entries c p))"
    using x(1) by (force simp: str_pair_def key_str_def)
qed

section \<open>What the store promises\<close>

text \<open>
  C2: the configuration store refines a map from keys to values. Any sequence of well-typed sets,
  deletions and reads, on a new store, gives what it gives on a map: each read returns the last
  value set for its option and subkey, whatever else was set in between.
\<close>

theorem conf_refines_map:
  assumes "run_ops spec_conf Map.empty ops = Some (rs, m)"
  shows "\<exists>c. run_ops run_conf conf_new ops = Some (rs, c) \<and> conf_ok c \<and> conf_map c = m"
proof -
  have "conf_ok conf_new \<and> conf_map conf_new = Map.empty"
    by (simp add: conf_new_ok conf_map_def)
  from run_ops_simulation [where R = "\<lambda>c m. conf_ok c \<and> conf_map c = m" and f = run_conf and g = spec_conf,
      OF run_conf_spec this assms] show ?thesis by simp
qed

theorem conf_refines_map_witness:
  "\<exists>c. run_ops run_conf conf_new
      [SetInt 1 22, SetBool 5 True, SetInt 1 2222, GetInt 1, SetStrStr 57 [65] [66], GetStrStrOpt 57 [65],
       DelStrStr 57 [65], GetStrStrOpt 57 [65]]
      = Some ([None, None, None, Some (IntV 2222), None, Some (StrV [66]), None, None], c) \<and> conf_ok c \<and>
      conf_map c = (Map.empty (key_none 1 \<mapsto> IntV 2222, key_none 5 \<mapsto> BoolV True, key_str 57 [65] := None))"
proof (rule conf_refines_map)
  have t: "has_types 1 TYPE_NONE TYPE_INT" "has_types 5 TYPE_NONE TYPE_BOOL" "has_types 57 TYPE_STR TYPE_STR"
    by code_simp+
  show "run_ops spec_conf Map.empty
      [SetInt 1 22, SetBool 5 True, SetInt 1 2222, GetInt 1, SetStrStr 57 [65] [66], GetStrStrOpt 57 [65],
       DelStrStr 57 [65], GetStrStrOpt 57 [65]]
      = Some ([None, None, None, Some (IntV 2222), None, Some (StrV [66]), None, None],
         Map.empty (key_none 1 \<mapsto> IntV 2222, key_none 5 \<mapsto> BoolV True, key_str 57 [65] := None))"
    using t [THEN eqTrueI] by (simp add: spec_set_def spec_get_def cstring_def key_none_def key_str_def fun_upd_twist)
qed

text \<open>A store with one entry, for the examples.\<close>

definition sample_conf :: conf where
  "sample_conf = \<lparr>root = N2 Null 0 \<lparr>e_key = key_str 57 [65], e_value = StrV [66]\<rparr> Null 0,
     cmpfn = Some conf_cmp\<rparr>"

lemma sample_types: "has_types 57 TYPE_STR TYPE_STR"
  by code_simp

lemma sample_entries: "conf_entries sample_conf = [\<lparr>e_key = key_str 57 [65], e_value = StrV [66]\<rparr>]"
  by (simp add: conf_entries_def sample_conf_def)

lemma sample_conf_ok: "conf_ok sample_conf"
  using sample_types sample_entries
  by (simp add: conf_ok_def sorted234_def wf234_def entry_ok_def cstring_def)
    (simp add: sample_conf_def has_types_def cstring_def)

text \<open>
  C34: copying a store gives a well-formed store with exactly the same entries in the same order.
\<close>

theorem conf_copy_same:
  assumes "conf_ok c"
  shows "\<exists>d. conf_copy c = Some d \<and> conf_ok d \<and> conf_entries d = conf_entries c"
proof -
  have "sorted234 conf_cmp conf_new" using conf_new_ok by (simp add: conf_ok_def)
  from conf_copy_into_ok [OF this assms] show ?thesis by (simp add: conf_copy_def)
qed

theorem conf_copy_same_witness:
  "\<exists>d. conf_copy sample_conf = Some d \<and> conf_ok d \<and>
     conf_entries d = [\<lparr>e_key = key_str 57 [65], e_value = StrV [66]\<rparr>]"
  using conf_copy_same [OF sample_conf_ok] by (simp add: sample_entries)

text \<open>
  C33: enumerating the string subkeys of an option, by asking for the first and then for the one
  after each, ends and lists every subkey that has a value, with its value, exactly once and in
  strictly increasing order.
\<close>

theorem conf_enumeration_complete:
  assumes "conf_ok c" and "has_types p TYPE_STR TYPE_STR" and "length (conf_entries c) < n"
  shows "\<exists>kvs. walk n c p None = Some kvs \<and>
           sorted_wrt (\<lambda>x y. strcmp (fst x) (fst y) < 0) kvs \<and>
           set kvs = {(s, v). conf_map c (key_str p s) = Some (StrV v)}"
proof -
  have "length (sub_entries c p) < n"
    using assms(3) by (simp add: sub_entries_def le_less_trans [OF length_filter_le])
  with walk_suffix [OF assms(1,2), of "[]" "sub_entries c p" None n]
  have "walk n c p None = Some (map str_pair (sub_entries c p))" by simp
  moreover have "sorted_wrt (\<lambda>x y. strcmp (fst x) (fst y) < 0) (map str_pair (sub_entries c p))"
    using sub_entries_sorted [OF assms(1,2)] by (simp add: sorted_wrt_map str_pair_def)
  ultimately show ?thesis using str_pairs_map [OF assms(1,2)] by blast
qed

theorem conf_enumeration_complete_witness:
  "\<exists>kvs. walk 2 sample_conf 57 None = Some kvs \<and> set kvs = {([65], [66])}"
  using conf_enumeration_complete [OF sample_conf_ok sample_types, of 2]
  by (auto simp: sample_entries conf_map_def key_str_def split: if_splits)

text \<open>
  C3: the serialised form. Whatever is in a store, serialising it into a string buffer succeeds,
  and reading the bytes into a new store succeeds, consumes them all and gives the same map.
\<close>

theorem conf_serialise_round_trip:
  assumes "conf_ok c" and "length (conf_bytes c) < size_max"
  shows "\<exists>buf c' src. conf_serialise strbuf_write strbuf_new c = Some buf \<and>
           conf_deserialise conf_new (src_init (strbuf_contents buf)) = Some (True, c', src) \<and>
           get_avail src = 0 \<and> conf_ok c' \<and> conf_map c' = conf_map c"
proof -
  from assms have "sb.fits strbuf_new (length (conf_bytes c))"
    by (simp add: sb.fits_def strbuf_new_def strbuf_new_ok)
  from sb.conf_serialise_appends [OF assms(1) this] obtain buf where
    buf: "conf_serialise strbuf_write strbuf_new c = Some buf" "strbuf_contents buf = conf_bytes c"
    by (auto simp: sb.appends_def strbuf_new_def strbuf_new_ok)
  have "\<forall>e\<in>set (conf_entries c). entry_ok e" using assms(1) by (simp add: conf_ok_def)
  from conf_deserialise_bytes [OF conf_new_ok(1) this, of "[]" "[]"] map_of_rev_entries [OF assms(1)]
  show ?thesis using buf by (auto simp: src_init_at conf_bytes_def conf_map_def conf_new_ok)
qed

theorem conf_serialise_round_trip_witness:
  "\<exists>buf c' src. conf_serialise strbuf_write strbuf_new sample_conf = Some buf \<and>
     conf_deserialise conf_new (src_init (strbuf_contents buf)) = Some (True, c', src) \<and>
     get_avail src = 0 \<and> conf_ok c' \<and> conf_map c' = conf_map sample_conf"
  using sample_types
  by (intro conf_serialise_round_trip sample_conf_ok)
    (simp add: sample_entries conf_bytes_def entry_bytes_def subkey_bytes_def has_types_def size_max_def key_str_def)

text \<open>
  C25: reading a store from arbitrary bytes is safe. It always ends, without a failed assertion, and
  leaves a store in which every entry has the type its option asks for.
\<close>

theorem conf_deserialise_safe:
  "\<exists>b c src. conf_deserialise conf_new (src_init d) = Some (b, c, src) \<and>
     sorted234 conf_cmp c \<and> list_all entry_ok (conf_entries c) \<and> src_pos src \<le> length d"
proof -
  obtain b c src where "conf_deserialise conf_new (src_init d) = Some (b, c, src)" "conf_ok c" "src_ok src"
    "src_data src = d"
    using conf_deserialise_total [OF conf_new_ok(1), of "src_init d"] by (auto simp: src_ok_def src_init_def)
  then show ?thesis by (auto simp: conf_ok_def src_ok_def list_all_iff)
qed

end
