(* ===== verification/Ldisc_Model.thy ===== *)
theory Ldisc_Model
  imports Bufchain Conf
begin

text \<open>
  The line discipline (\<^verbatim>\<open>ldisc.c\<close>): local echo and line editing of what the user types, and the
  queue that holds input, in an escaped form, while the back end does not want any.
\<close>

section \<open>State and environment\<close>

text \<open>
  What the line discipline does to the outside, in order: text on the terminal
  (\<^verbatim>\<open>seat_stdout\<close>), data and session specials to the back end, and the interruption of a paste.
\<close>

datatype ld_event =
    Stdout bytes
  | BackendSend bytes
  | BackendSpecial uint32 uint32
  | NoPaste

text \<open>
  What it asks of the outside, as functions of what has happened so far: whether the back end takes
  data, its echo and editing options, and whether the terminal is in UTF-8 mode.
\<close>

record ld_env =
  env_sendok :: "ld_event list \<Rightarrow> bool"
  env_echo :: "ld_event list \<Rightarrow> bool"
  env_edit :: "ld_event list \<Rightarrow> bool"
  env_utf :: "ld_event list \<Rightarrow> bool"

text \<open>
  The state. \<open>ld_buf\<close> is the line being edited, the bytes of \<^verbatim>\<open>buf\<close> below \<^verbatim>\<open>buflen\<close>;
  \<open>ld_out\<close> the events so far.
\<close>

record ldisc =
  ld_has_term :: bool
  ld_input_queue :: bufchain
  ld_telnet_keyboard :: bool
  ld_telnet_newline :: bool
  ld_protocol :: uint32
  ld_localecho :: uint32
  ld_localedit :: uint32
  ld_buf :: bytes
  ld_quotenext :: bool
  ld_out :: "ld_event list"

abbreviation (input) "FORCE_ON \<equiv> 0 :: uint32"
abbreviation (input) "FORCE_OFF \<equiv> 1 :: uint32"
abbreviation (input) "AUTO \<equiv> 2 :: uint32"
abbreviation (input) "PROT_RAW \<equiv> 0 :: uint32"
abbreviation (input) "PROT_TELNET \<equiv> 1 :: uint32"

abbreviation (input) "SS_EOF \<equiv> 1 :: uint32"
abbreviation (input) "SS_EC \<equiv> 6 :: uint32"
abbreviation (input) "SS_EL \<equiv> 7 :: uint32"
abbreviation (input) "SS_ABORT \<equiv> 9 :: uint32"
abbreviation (input) "SS_IP \<equiv> 11 :: uint32"
abbreviation (input) "SS_SUSP \<equiv> 12 :: uint32"
abbreviation (input) "SS_EOL \<equiv> 14 :: uint32"

definition conf_index :: "string \<Rightarrow> nat" where
  "conf_index name = length (takeWhile (\<lambda>(_, _, k). k \<noteq> name) config_options)"

definition ldisc_configure :: "ldisc \<Rightarrow> conf \<Rightarrow> ldisc option" where
  "ldisc_configure ld conf =
     (case (conf_get_bool conf (conf_index ''telnet_keyboard''),
            conf_get_bool conf (conf_index ''telnet_newline''),
            conf_get_int conf (conf_index ''protocol''),
            conf_get_int conf (conf_index ''localecho''),
            conf_get_int conf (conf_index ''localedit'')) of
        (Some tk, Some tn, Some pr, Some le, Some ed) \<Rightarrow>
          Some (ld\<lparr>ld_telnet_keyboard := tk, ld_telnet_newline := tn, ld_protocol := pr,
                   ld_localecho := le, ld_localedit := ed\<rparr>)
      | _ \<Rightarrow> None)"

definition ldisc_create :: "conf \<Rightarrow> bool \<Rightarrow> ldisc option" where
  "ldisc_create conf has_term =
     ldisc_configure
       \<lparr>ld_has_term = has_term, ld_input_queue = bufchain_set_callback bufchain_init True,
        ld_telnet_keyboard = False, ld_telnet_newline = False, ld_protocol = 0,
        ld_localecho = 0, ld_localedit = 0, ld_buf = [], ld_quotenext = False, ld_out = []\<rparr> conf"

definition echoing :: "ld_env \<Rightarrow> ldisc \<Rightarrow> bool" where
  "echoing env ld \<longleftrightarrow> ld_localecho ld = FORCE_ON \<or> ld_localecho ld = AUTO \<and> env_echo env (ld_out ld)"

definition editing :: "ld_env \<Rightarrow> ldisc \<Rightarrow> bool" where
  "editing env ld \<longleftrightarrow> ld_localedit ld = FORCE_ON \<or> ld_localedit ld = AUTO \<and> env_edit env (ld_out ld)"

definition in_utf :: "ld_env \<Rightarrow> ldisc \<Rightarrow> bool" where
  "in_utf env ld = env_utf env (ld_out ld)"

definition emit :: "ld_event \<Rightarrow> ldisc \<Rightarrow> ldisc" where
  "emit e ld = ld\<lparr>ld_out := ld_out ld @ [e]\<rparr>"

section \<open>Echo\<close>

definition plen :: "bool \<Rightarrow> byte \<Rightarrow> nat" where
  "plen utf c =
     (if 32 \<le> c \<and> c \<le> 126 \<or> 160 \<le> c \<and> \<not> utf then 1
      else if c < 128 then 2
      else if utf \<and> 0xC0 \<le> c then 1
      else if utf \<and> 0x80 \<le> c \<and> c < 0xC0 then 0
      else 4)"

definition hex_digit :: "byte \<Rightarrow> byte" where
  "hex_digit d = (if d < 10 then 48 + d else 55 + d)"

definition pwrite :: "bool \<Rightarrow> byte \<Rightarrow> bytes" where
  "pwrite utf c =
     (if 32 \<le> c \<and> c \<le> 126 \<or> \<not> utf \<and> 0xA0 \<le> c \<or> utf \<and> 0x80 \<le> c then [c]
      else if c < 128 then [94, if c = 127 then 63 else c + 0x40]
      else [60, hex_digit (c div 16), hex_digit (c mod 16), 62])"

definition char_start :: "bool \<Rightarrow> byte \<Rightarrow> bool" where
  "char_start utf c \<longleftrightarrow> (if utf then c < 0x80 \<or> 0xC0 \<le> c else True)"

fun bsb :: "nat \<Rightarrow> ldisc \<Rightarrow> ldisc" where
  "bsb 0 ld = ld"
| "bsb (Suc n) ld = bsb n (emit (Stdout [8, 32, 8]) ld)"

section \<open>Sending to the back end, or into the queue\<close>

text \<open>
  The escaping loop, as it is in the code: the call that stores a chunk passes the whole remaining
  length, not the length of the chunk.
\<close>

function enqueue_raw :: "bufchain \<Rightarrow> bytes \<Rightarrow> bufchain" where
  "enqueue_raw q buf =
     (if buf = [] then q
      else
        let this_len = length (takeWhile (\<lambda>b. b \<noteq> 0xFF) buf) in
        if this_len > 0 then enqueue_raw (bufchain_add q buf) (drop this_len buf)
        else enqueue_raw (bufchain_add q [0xFF, 0xFF]) (drop 1 buf))"
  by pat_completeness auto
termination
  by (relation "measure (\<lambda>(_, buf). length buf)") auto

declare enqueue_raw.simps [simp del]

definition ldisc_to_backend_raw :: "ld_env \<Rightarrow> bytes \<Rightarrow> ldisc \<Rightarrow> ldisc" where
  "ldisc_to_backend_raw env buf ld =
     (if env_sendok env (ld_out ld) then emit (BackendSend buf) ld
      else ld\<lparr>ld_input_queue := enqueue_raw (ld_input_queue ld) buf\<rparr>)"

definition ldisc_to_backend_special :: "ld_env \<Rightarrow> uint32 \<Rightarrow> uint32 \<Rightarrow> ldisc \<Rightarrow> ldisc option" where
  "ldisc_to_backend_special env code arg ld =
     (if env_sendok env (ld_out ld) then Some (emit (BackendSpecial code arg) ld)
      else
        let data = 0xFF # put_32bit_msb_first code @ put_32bit_msb_first arg in
        if data ! 1 \<noteq> 0xFF
        then Some (ld\<lparr>ld_input_queue := bufchain_add (ld_input_queue ld) data\<rparr>)
        else None)"

definition ldisc_has_input_buffered :: "ldisc \<Rightarrow> bool" where
  "ldisc_has_input_buffered ld \<longleftrightarrow> bufchain_size (ld_input_queue ld) > 0"

datatype LdiscInputToken = TokChr byte | TokSpecial uint32 uint32

definition get_input_token :: "bufchain \<Rightarrow> (LdiscInputToken \<times> bufchain) option" where
  "get_input_token q =
     (if bufchain_size q > 0 then
        case bufchain_fetch_consume q 1 of
          None \<Rightarrow> None
        | Some (c, q) \<Rightarrow>
            if c ! 0 \<noteq> 0xFF then Some (TokChr (c ! 0), q)
            else
              (case bufchain_fetch_consume q 1 of
                 None \<Rightarrow> None
               | Some (d0, q) \<Rightarrow>
                   if d0 ! 0 = 0xFF then Some (TokChr 0xFF, q)
                   else
                     (case bufchain_fetch_consume q 7 of
                        None \<Rightarrow> None
                      | Some (d1, q) \<Rightarrow>
                          let data = d0 @ d1 in
                          Some (TokSpecial (get_32bit_msb_first data)
                                  (get_32bit_msb_first (drop 4 data)), q)))
      else None)"

definition ldisc_get_input_token :: "ldisc \<Rightarrow> (LdiscInputToken \<times> ldisc) option" where
  "ldisc_get_input_token ld =
     map_option (\<lambda>(tok, q). (tok, ld\<lparr>ld_input_queue := q\<rparr>)) (get_input_token (ld_input_queue ld))"

fun emit_token :: "LdiscInputToken \<Rightarrow> ldisc \<Rightarrow> ldisc" where
  "emit_token (TokSpecial code arg) ld = emit (BackendSpecial code arg) ld"
| "emit_token (TokChr c) ld = emit (BackendSend [c]) ld"

partial_function (option) flush_queue :: "ldisc \<Rightarrow> ldisc option" where
  "flush_queue ld =
     (if bufchain_size (ld_input_queue ld) > 0 then
        case bufchain_prefix (ld_input_queue ld) of
          None \<Rightarrow> None
        | Some data \<Rightarrow>
            let data = takeWhile (\<lambda>b. b \<noteq> 0xFF) data in
            if data \<noteq> [] then
              (case bufchain_consume (ld_input_queue ld) (length data) of
                 None \<Rightarrow> None
               | Some q \<Rightarrow> flush_queue (emit (BackendSend data) ld\<lparr>ld_input_queue := q\<rparr>))
            else
              (case ldisc_get_input_token ld of
                 None \<Rightarrow> None
               | Some (tok, ld) \<Rightarrow> flush_queue (emit_token tok ld))
      else Some ld)"

definition ldisc_check_sendok_callback :: "ld_env \<Rightarrow> ldisc \<Rightarrow> ldisc option" where
  "ldisc_check_sendok_callback env ld =
     (if \<not> env_sendok env (ld_out ld) then Some ld else flush_queue ld)"

section \<open>Line editing\<close>

text \<open>Remove the last byte of the line, erasing its echo. There must be one.\<close>

definition erase_last :: "ld_env \<Rightarrow> ldisc \<Rightarrow> (byte \<times> ldisc) option" where
  "erase_last env ld =
     (if ld_buf ld = [] then None
      else
        let c = last (ld_buf ld);
            ld = (if echoing env ld then bsb (plen (in_utf env ld) c) ld else ld)
        in Some (c, ld\<lparr>ld_buf := butlast (ld_buf ld)\<rparr>))"

lemma bsb_fields [simp]:
  "ld_buf (bsb n ld) = ld_buf ld" "ld_input_queue (bsb n ld) = ld_input_queue ld"
  by (induction n arbitrary: ld) (simp_all add: emit_def)

lemma erase_last_shrinks: "erase_last env ld = Some (c, ld') \<Longrightarrow> length (ld_buf ld') < length (ld_buf ld)"
  by (auto simp: erase_last_def Let_def split: if_splits)

text \<open>
  \<^verbatim>\<open>do \<dots> while (!char_start(\<dots>))\<close>: the loop goes on past the beginning of the line when the line
  starts with continuation bytes.
\<close>

function erase_char :: "ld_env \<Rightarrow> ldisc \<Rightarrow> ldisc option" where
  "erase_char env ld =
     (case erase_last env ld of
        None \<Rightarrow> None
      | Some (c, ld) \<Rightarrow> if char_start (in_utf env ld) c then Some ld else erase_char env ld)"
  by pat_completeness auto
termination
  by (relation "measure (\<lambda>(_, ld). length (ld_buf ld))") (auto dest: erase_last_shrinks)

definition isspace :: "byte \<Rightarrow> bool" where
  "isspace c \<longleftrightarrow> c = 32 \<or> 9 \<le> c \<and> c \<le> 13"

function erase_word :: "ld_env \<Rightarrow> ldisc \<Rightarrow> ldisc option" where
  "erase_word env ld =
     (if ld_buf ld = [] then Some ld
      else
        case erase_last env ld of
          None \<Rightarrow> None
        | Some (c, ld) \<Rightarrow>
            if ld_buf ld \<noteq> [] \<and> isspace (last (ld_buf ld)) \<and> \<not> isspace c then Some ld
            else erase_word env ld)"
  by pat_completeness auto
termination
  by (relation "measure (\<lambda>(_, ld). length (ld_buf ld))") (auto dest: erase_last_shrinks)

function erase_line :: "ld_env \<Rightarrow> ldisc \<Rightarrow> ldisc option" where
  "erase_line env ld =
     (if ld_buf ld = [] then Some ld
      else case erase_last env ld of None \<Rightarrow> None | Some (c, ld) \<Rightarrow> erase_line env ld)"
  by pat_completeness auto
termination
  by (relation "measure (\<lambda>(_, ld). length (ld_buf ld))") (auto dest: erase_last_shrinks)

declare erase_char.simps [simp del] erase_word.simps [simp del] erase_line.simps [simp del]

fun echo_line :: "ld_env \<Rightarrow> bytes \<Rightarrow> ldisc \<Rightarrow> ldisc" where
  "echo_line env [] ld = ld"
| "echo_line env (c # cs) ld = echo_line env cs (emit (Stdout (pwrite (in_utf env ld) c)) ld)"

text \<open>
  The key values of the switch: a character 0 to 255, plus 256 for the keys that are not plain
  characters (\<^verbatim>\<open>KCTRL\<close>).
\<close>

definition CTRL :: "byte \<Rightarrow> nat" where "CTRL x = unat (x XOR 64)"
definition KCTRL :: "byte \<Rightarrow> nat" where "KCTRL x = unat (x XOR 64) + 256"

definition insert_char :: "ld_env \<Rightarrow> nat \<Rightarrow> ldisc \<Rightarrow> ldisc" where
  "insert_char env c ld =
     (let ch = word_of_nat c :: byte;
          ld = ld\<lparr>ld_buf := ld_buf ld @ [ch]\<rparr>;
          ld = (if echoing env ld then emit (Stdout (pwrite (in_utf env ld) ch)) ld else ld)
      in ld\<lparr>ld_quotenext := False\<rparr>)"

definition send_line :: "ld_env \<Rightarrow> ldisc \<Rightarrow> ldisc option" where
  "send_line env ld =
     (let ld = (if ld_buf ld \<noteq> [] then ldisc_to_backend_raw env (ld_buf ld) ld else ld) in
      case (if ld_protocol ld = PROT_RAW then Some (ldisc_to_backend_raw env [13, 10] ld)
            else if ld_protocol ld = PROT_TELNET \<and> ld_telnet_newline ld
            then ldisc_to_backend_special env SS_EOL 0 ld
            else Some (ldisc_to_backend_raw env [13] ld)) of
        None \<Rightarrow> None
      | Some ld \<Rightarrow>
          let ld = (if echoing env ld then emit (Stdout [13, 10]) ld else ld)
          in Some (ld\<lparr>ld_buf := []\<rparr>))"

definition interrupt_key :: "ld_env \<Rightarrow> nat \<Rightarrow> ldisc \<Rightarrow> ldisc option" where
  "interrupt_key env c ld =
     (case erase_line env ld of
        None \<Rightarrow> None
      | Some ld \<Rightarrow>
          if c = CTRL 85 then Some ld
          else
            case ldisc_to_backend_special env SS_EL 0 ld of
              None \<Rightarrow> None
            | Some ld \<Rightarrow>
                if \<not> ld_telnet_keyboard ld then Some (insert_char env c ld)
                else if c = CTRL 67 then ldisc_to_backend_special env SS_IP 0 ld
                else if c = CTRL 90 then ldisc_to_backend_special env SS_SUSP 0 ld
                else if c = CTRL 92 then ldisc_to_backend_special env SS_ABORT 0 ld
                else Some ld)"

text \<open>One character with editing on; \<open>sw\<close> is what the switch looks at.\<close>

definition edit_char :: "ld_env \<Rightarrow> nat \<Rightarrow> ldisc \<Rightarrow> ldisc option" where
  "edit_char env c ld =
     (let sw = (if ld_quotenext ld then 32 else c) in
      if sw = KCTRL 72 \<or> sw = KCTRL 63 then
        (if ld_buf ld \<noteq> [] then erase_char env ld else Some ld)
      else if sw = CTRL 87 then erase_word env ld
      else if sw = CTRL 85 \<or> sw = CTRL 67 \<or> sw = CTRL 92 \<or> sw = CTRL 90 then interrupt_key env c ld
      else if sw = CTRL 82 then
        (if echoing env ld
         then Some (echo_line env (ld_buf ld) (emit (Stdout [94, 82, 13, 10]) ld)) else Some ld)
      else if sw = CTRL 86 then Some (ld\<lparr>ld_quotenext := True\<rparr>)
      else if sw = CTRL 68 then
        (if ld_buf ld = [] then ldisc_to_backend_special env SS_EOF 0 ld
         else Some (ldisc_to_backend_raw env (ld_buf ld) ld\<lparr>ld_buf := []\<rparr>))
      else if sw = CTRL 74 then
        (if ld_protocol ld = PROT_RAW \<and> ld_buf ld \<noteq> [] \<and> last (ld_buf ld) = 13 then
           (case erase_last env ld of None \<Rightarrow> None | Some (_, ld) \<Rightarrow> send_line env ld)
         else Some (insert_char env c ld))
      else if sw = KCTRL 77 then send_line env ld
      else Some (insert_char env c ld))"

fun edit_loop :: "ld_env \<Rightarrow> bool \<Rightarrow> nat \<Rightarrow> bytes \<Rightarrow> ldisc \<Rightarrow> ldisc option" where
  "edit_loop env interactive keyflag [] ld = Some ld"
| "edit_loop env interactive keyflag (b # bs) ld =
     (let c = unat b + keyflag;
          c = (if \<not> interactive \<and> c = 13 then c + KCTRL 64 else c)
      in case edit_char env c ld of
           None \<Rightarrow> None
         | Some ld \<Rightarrow> edit_loop env interactive keyflag bs ld)"

section \<open>Without editing\<close>

function drop_line :: "ld_env \<Rightarrow> ldisc \<Rightarrow> ldisc" where
  "drop_line env ld =
     (if ld_buf ld \<noteq> [] then
        let ld = bsb (plen (in_utf env ld) (last (ld_buf ld))) ld
        in drop_line env (ld\<lparr>ld_buf := butlast (ld_buf ld)\<rparr>)
      else ld)"
  by pat_completeness auto
termination
  by (relation "measure (\<lambda>(_, ld). length (ld_buf ld))") auto

declare drop_line.simps [simp del]

text \<open>The switch on a single special key in a Telnet session, with its fall-throughs.\<close>

definition telnet_key :: "ld_env \<Rightarrow> bytes \<Rightarrow> ldisc \<Rightarrow> ldisc option" where
  "telnet_key env buf ld =
     (let k = buf ! 0 in
      if k = 13 then
        (if ld_protocol ld = PROT_TELNET \<and> ld_telnet_newline ld
         then ldisc_to_backend_special env SS_EOL 0 ld
         else Some (ldisc_to_backend_raw env [13] ld))
      else if (k = 127 \<or> k = 8) \<and> ld_telnet_keyboard ld then ldisc_to_backend_special env SS_EC 0 ld
      else if (k = 127 \<or> k = 8 \<or> k = 3) \<and> ld_telnet_keyboard ld then ldisc_to_backend_special env SS_IP 0 ld
      else if (k = 127 \<or> k = 8 \<or> k = 3 \<or> k = 26) \<and> ld_telnet_keyboard ld
      then ldisc_to_backend_special env SS_SUSP 0 ld
      else Some (ldisc_to_backend_raw env buf ld))"

definition send_direct :: "ld_env \<Rightarrow> nat \<Rightarrow> bytes \<Rightarrow> ldisc \<Rightarrow> ldisc option" where
  "send_direct env keyflag buf ld =
     (let ld = (if ld_buf ld \<noteq> [] then drop_line env (ldisc_to_backend_raw env (ld_buf ld) ld) else ld) in
      if length buf > 0 then
        let ld = (if echoing env ld then emit (Stdout buf) ld else ld) in
        if keyflag \<noteq> 0 \<and> ld_protocol ld = PROT_TELNET \<and> length buf = 1 then telnet_key env buf ld
        else Some (ldisc_to_backend_raw env buf ld)
      else Some ld)"

text \<open>
  \<^verbatim>\<open>ldisc_send\<close>: \<open>special\<close> stands for the negative length that marks a null-terminated string of
  special keys; \<open>buf\<close> is the data the pointer and length, or the terminator, delimit.
\<close>

definition ldisc_send :: "ld_env \<Rightarrow> bytes \<Rightarrow> bool \<Rightarrow> bool \<Rightarrow> ldisc \<Rightarrow> ldisc option" where
  "ldisc_send env buf special interactive ld =
     (if \<not> ld_has_term ld then None
      else
        let ld = (if interactive then emit NoPaste ld else ld);
            keyflag = (if special then KCTRL 64 else 0)
        in if editing env ld then edit_loop env interactive keyflag buf ld
           else send_direct env keyflag buf ld)"
end
