(* ===== verification/Ldisc.thy ===== *)
theory Ldisc
  imports Ldisc_Model
begin

text \<open>
  What the line discipline promises: queued input comes out of the queue as the same characters
  and specials in the same order, erasing removes whole characters, and a line typed and sent
  reaches the back end.
\<close>

section \<open>The encoding of the queue\<close>

fun enc_token :: "LdiscInputToken \<Rightarrow> bytes" where
  "enc_token (TokChr c) = (if c = 0xFF then [0xFF, 0xFF] else [c])"
| "enc_token (TokSpecial code arg) = 0xFF # put_32bit_msb_first code @ put_32bit_msb_first arg"

definition enc_tokens :: "LdiscInputToken list \<Rightarrow> bytes" where
  "enc_tokens ts = concat (map enc_token ts)"

fun token_ok :: "LdiscInputToken \<Rightarrow> bool" where
  "token_ok (TokChr c) = True"
| "token_ok (TokSpecial code arg) = (put_32bit_msb_first code ! 0 \<noteq> 0xFF)"

text \<open>What the back end has been given, as one sequence of characters and specials.\<close>

fun event_tokens :: "ld_event \<Rightarrow> LdiscInputToken list" where
  "event_tokens (BackendSend bs) = map TokChr bs"
| "event_tokens (BackendSpecial code arg) = [TokSpecial code arg]"
| "event_tokens _ = []"

definition backend_tokens :: "ldisc \<Rightarrow> LdiscInputToken list" where
  "backend_tokens ld = concat (map event_tokens (ld_out ld))"

lemma enc_tokens_simps [simp]:
  "enc_tokens [] = []" "enc_tokens (t # ts) = enc_token t @ enc_tokens ts"
  "enc_tokens (ts @ us) = enc_tokens ts @ enc_tokens us"
  by (simp_all add: enc_tokens_def)

lemma enc_plain: "0xFF \<notin> set d \<Longrightarrow> enc_tokens (map TokChr d) = d"
  by (induction d) auto

lemma backend_tokens_emit [simp]: "backend_tokens (emit e ld) = backend_tokens ld @ event_tokens e"
  by (simp add: backend_tokens_def emit_def)

lemma backend_tokens_queue [simp]: "backend_tokens (ld\<lparr>ld_input_queue := q\<rparr>) = backend_tokens ld"
  by (simp add: backend_tokens_def)

lemma take_put_32 [simp]:
  "take (Suc 0) (put_32bit_msb_first v) = [put_32bit_msb_first v ! 0]"
  by (simp add: put_32bit_msb_first_def)

lemma put_32_Cons: "put_32bit_msb_first v = put_32bit_msb_first v ! 0 # tl (put_32bit_msb_first v)"
  by (simp add: put_32bit_msb_first_def)

lemma get_input_token_enc:
  assumes "bufchain_ok q" and "bufchain_contents q = enc_token t @ rest" and "token_ok t"
  shows "\<exists>q'. get_input_token q = Some (t, q') \<and> bufchain_ok q' \<and> bufchain_contents q' = rest"
proof -
  have size: "bufchain_size q = length (enc_token t @ rest)"
    using assms(1,2) by (simp add: bufchain_size_def bufchain_ok_def)
  have ne: "enc_token t \<noteq> []" by (cases t) auto
  from assms(2) ne have "1 \<le> length (bufchain_contents q)" by (cases "enc_token t") auto
  from bufchain_fetch_consume_ok [OF assms(1) this] assms(2) obtain q1 where
    q1: "bufchain_fetch_consume q 1 = Some (take 1 (enc_token t @ rest), q1)" "bufchain_ok q1"
      "bufchain_contents q1 = drop 1 (enc_token t @ rest)" by auto
  show ?thesis
  proof (cases "\<exists>c. t = TokChr c \<and> c \<noteq> 0xFF")
    case True
    with size q1 show ?thesis by (auto simp: get_input_token_def)
  next
    case False
    have q1': "bufchain_fetch_consume q 1 = Some ([0xFF], q1)"
      using False q1(1) by (cases t) auto
    have "1 \<le> length (bufchain_contents q1)" using False q1(3) by (cases t) auto
    from bufchain_fetch_consume_ok [OF q1(2) this] obtain q2 where
      q2: "bufchain_fetch_consume q1 1 = Some (take 1 (bufchain_contents q1), q2)" "bufchain_ok q2"
        "bufchain_contents q2 = drop 1 (bufchain_contents q1)" by auto
    show ?thesis
    proof (cases t)
      case (TokChr c)
      with False q1 have "bufchain_contents q1 = 0xFF # rest" by simp
      with TokChr False q1' q2 size show ?thesis by (simp add: get_input_token_def)
    next
      case (TokSpecial code arg)
      let ?d = "put_32bit_msb_first code @ put_32bit_msb_first arg"
      from TokSpecial q1(3) have c1: "bufchain_contents q1 = ?d @ rest" by simp
      have c2: "bufchain_contents q2 = drop 1 ?d @ rest" using q2(3) c1 by simp
      then have "7 \<le> length (bufchain_contents q2)" by simp
      from bufchain_fetch_consume_ok [OF q2(2) this] c2 obtain q3 where
        q3: "bufchain_fetch_consume q2 7 = Some (drop 1 ?d, q3)" "bufchain_ok q3" "bufchain_contents q3 = rest"
        by auto
      have h: "take 1 (bufchain_contents q1) = [put_32bit_msb_first code ! 0]" using c1 by simp
      have whole: "[put_32bit_msb_first code ! 0] @ drop 1 ?d = ?d"
        by (simp add: put_32bit_msb_first_def)
      have "drop 4 ?d = put_32bit_msb_first arg @ []" by simp
      then have g: "get_32bit_msb_first ?d = code" "get_32bit_msb_first (drop 4 ?d) = arg"
        by (simp_all only: get_32_append)
      show ?thesis
        using TokSpecial size assms(3) q1' q2(1) h q3 whole g
        by (simp add: get_input_token_def Let_def del: drop_append)
    qed
  qed
qed

lemma plain_prefix:
  "\<lbrakk>enc_tokens ts = d @ r; 0xFF \<notin> set d\<rbrakk> \<Longrightarrow> \<exists>us. ts = map TokChr d @ us \<and> enc_tokens us = r"
proof (induction d arbitrary: ts)
  case (Cons c d)
  then obtain t us where ts: "ts = t # us" by (cases ts) auto
  with Cons.prems have "t = TokChr c" "enc_tokens us = d @ r" by (cases t; auto split: if_splits)+
  with Cons.IH [of us] Cons.prems ts show ?case by auto
qed auto

lemma takeWhile_prefix: "\<exists>r. xs = takeWhile P xs @ r"
  by (metis takeWhile_dropWhile_id)

text \<open>Flushing the queue gives the back end the tokens it encodes.\<close>

lemma flush_queue_tokens:
  assumes "bufchain_ok (ld_input_queue ld)" and "bufchain_contents (ld_input_queue ld) = enc_tokens ts"
    and "\<forall>t\<in>set ts. token_ok t" and "length (enc_tokens ts) < 2 ^ 31"
  shows "\<exists>ld'. flush_queue ld = Some ld' \<and> bufchain_ok (ld_input_queue ld') \<and>
           bufchain_contents (ld_input_queue ld') = [] \<and>
           backend_tokens ld' = backend_tokens ld @ ts"
  using assms
proof (induction "length ts" arbitrary: ld ts rule: less_induct)
  case less
  let ?q = "ld_input_queue ld"
  have size: "bufchain_size ?q = length (enc_tokens ts)"
    using less.prems(1,2) by (simp add: bufchain_size_def bufchain_ok_def)
  show ?case
  proof (cases ts)
    case Nil
    with less.prems size show ?thesis by (subst flush_queue.simps) simp
  next
    case (Cons t us)
    have ne: "enc_token t \<noteq> []" by (cases t) auto
    then have pos: "bufchain_size ?q > 0" "bufchain_contents ?q \<noteq> []" using size Cons less.prems(2) by auto
    from bufchain_prefix_ok [OF less.prems(1) pos(2)] obtain p r where
      p: "bufchain_prefix ?q = Some p" "p \<noteq> []" "bufchain_contents ?q = p @ r" by blast
    define d where "d = takeWhile (\<lambda>b. b \<noteq> 0xFF) p"
    show ?thesis
    proof (cases "d = []")
      case True
      from get_input_token_enc [of ?q t "enc_tokens us"] less.prems Cons obtain q' where
        q': "get_input_token ?q = Some (t, q')" "bufchain_ok q'" "bufchain_contents q' = enc_tokens us" by auto
      define ld1 where "ld1 = emit_token t (ld\<lparr>ld_input_queue := q'\<rparr>)"
      have ld1: "ld_input_queue ld1 = q'" "backend_tokens ld1 = backend_tokens ld @ [t]"
        by (cases t; simp add: ld1_def emit_def backend_tokens_def)+
      from less.hyps [of us ld1] less.prems Cons q' ld1 obtain ld' where
        "flush_queue ld1 = Some ld'" "bufchain_ok (ld_input_queue ld')"
        "bufchain_contents (ld_input_queue ld') = []" "backend_tokens ld' = backend_tokens ld @ ts" by auto
      with pos(1) p(1) True q'(1) show ?thesis
        by (subst flush_queue.simps)
          (simp add: ldisc_get_input_token_def d_def [symmetric] ld1_def)
    next
      case False
      obtain r' where "p = d @ r'" using takeWhile_prefix [of p "\<lambda>b. b \<noteq> 0xFF"] by (auto simp: d_def)
      then have split: "enc_tokens ts = d @ r' @ r" using p(3) less.prems(2) by simp
      have "0xFF \<notin> set d" by (auto simp: d_def dest: set_takeWhileD)
      from plain_prefix [OF split this] obtain vs where
        vs: "ts = map TokChr d @ vs" "enc_tokens vs = r' @ r" by blast
      have "length d \<le> length (bufchain_contents ?q)" "length d < 2 ^ 31"
        using split less.prems(2,4) by simp_all
      from bufchain_consume_ok [OF less.prems(1) this] obtain q' where
        q': "bufchain_consume ?q (length d) = Some q'" "bufchain_ok q'" "bufchain_contents q' = enc_tokens vs"
        using split less.prems(2) vs by auto
      define ld1 where "ld1 = (emit (BackendSend d) ld)\<lparr>ld_input_queue := q'\<rparr>"
      have ld1: "ld_input_queue ld1 = q'" "backend_tokens ld1 = backend_tokens ld @ map TokChr d"
        by (simp_all add: ld1_def emit_def backend_tokens_def)
      have "length vs < length ts" "\<forall>t\<in>set vs. token_ok t" "length (enc_tokens vs) < 2 ^ 31"
        using vs(1) False less.prems(3,4) by auto
      from less.hyps [OF this(1), of ld1] this(2,3) q' ld1 vs(1) obtain ld' where
        "flush_queue ld1 = Some ld'" "bufchain_ok (ld_input_queue ld')"
        "bufchain_contents (ld_input_queue ld') = []" "backend_tokens ld' = backend_tokens ld @ ts" by auto
      with pos(1) p(1) False q'(1) show ?thesis
        by (subst flush_queue.simps) (simp add: d_def [symmetric] ld1_def)
    qed
  qed
qed

section \<open>Filling the queue\<close>

text \<open>
  What the loop stores for a chunk. Where a chunk starts with other bytes and holds a 0xFF later, all
  of what is left goes into the queue as it is, and only the bytes before the 0xFF are skipped.
\<close>

function stored_raw :: "bytes \<Rightarrow> bytes" where
  "stored_raw d =
     (if d = [] then []
      else if hd d = 0xFF then [0xFF, 0xFF] @ stored_raw (tl d)
      else d @ stored_raw (dropWhile (\<lambda>b. b \<noteq> 0xFF) d))"
  by pat_completeness auto
termination
proof (relation "measure length")
  fix d :: bytes
  assume "d \<noteq> []" "hd d \<noteq> 0xFF"
  then show "(dropWhile (\<lambda>b. b \<noteq> 0xFF) d, d) \<in> measure length"
    by (cases d) (auto simp: le_imp_less_Suc length_dropWhile_le)
qed auto

declare stored_raw.simps [simp del]

lemma enqueue_raw_stored:
  assumes "bufchain_ok q" and "length (bufchain_contents q) + length (stored_raw d) < 2 ^ 64"
  shows "bufchain_ok (enqueue_raw q d) \<and> bufchain_contents (enqueue_raw q d) = bufchain_contents q @ stored_raw d"
  using assms
proof (induction d arbitrary: q rule: stored_raw.induct)
  case (1 d)
  consider "d = []" | r where "d = 0xFF # r" | "d \<noteq> []" "hd d \<noteq> 0xFF" by (cases d) auto
  then show ?case
  proof cases
    case 1
    then show ?thesis using "1.prems" by (subst (1 2) enqueue_raw.simps) (simp add: stored_raw.simps)
  next
    case (2 r)
    have st: "stored_raw d = [0xFF, 0xFF] @ stored_raw r" unfolding 2 by (subst stored_raw.simps) simp
    have "enqueue_raw q d = enqueue_raw (bufchain_add q [0xFF, 0xFF]) r"
      unfolding 2 by (subst enqueue_raw.simps) simp
    moreover have "bufchain_ok (bufchain_add q [0xFF, 0xFF]) \<and>
        bufchain_contents (bufchain_add q [0xFF, 0xFF]) = bufchain_contents q @ [0xFF, 0xFF]"
      using "1.prems" by (intro conjI bufchain_add_ok) (simp_all add: st)
    ultimately show ?thesis using "1.IH"(1) [of "bufchain_add q [0xFF, 0xFF]"] "1.prems" st by (simp add: 2)
  next
    case 3
    let ?r = "dropWhile (\<lambda>b. b \<noteq> 0xFF) d"
    have st: "stored_raw d = d @ stored_raw ?r" using 3 by (subst stored_raw.simps) simp
    have "enqueue_raw q d = enqueue_raw (bufchain_add q d) ?r"
      using 3 by (subst enqueue_raw.simps) (cases d; simp add: Let_def flip: dropWhile_eq_drop)
    moreover have "bufchain_ok (bufchain_add q d) \<and> bufchain_contents (bufchain_add q d) = bufchain_contents q @ d"
      using "1.prems" by (intro conjI bufchain_add_ok) (simp_all add: st)
    ultimately show ?thesis using "1.IH"(2) [OF 3, of "bufchain_add q d"] "1.prems" st by simp
  qed
qed

text \<open>That is the encoding which the reader of the queue expects just when every 0xFF leads the chunk.\<close>

definition leading_0xFF :: "bytes \<Rightarrow> bool" where
  "leading_0xFF d \<longleftrightarrow> 0xFF \<notin> set (dropWhile (\<lambda>b. b = 0xFF) d)"

lemma enc_length: "length (enc_tokens (map TokChr d)) \<le> 2 * length d"
  by (induction d) auto

lemma stored_raw_length: "length d \<le> length (stored_raw d)"
proof (induction d rule: stored_raw.induct)
  case (1 d)
  then show ?case by (subst stored_raw.simps) (cases d; auto)
qed

lemma stored_raw_enc:
  "length d \<le> length (stored_raw d) \<and> length (stored_raw d) \<le> length d * (length d + 2) \<and>
   (stored_raw d = enc_tokens (map TokChr d) \<longleftrightarrow> leading_0xFF d)"
proof (induction d rule: stored_raw.induct)
  case (1 d)
  consider "d = []" | r where "d = 0xFF # r" | "d \<noteq> []" "hd d \<noteq> 0xFF" by (cases d) auto
  then show ?case
  proof cases
    case 1
    then show ?thesis by (simp add: stored_raw.simps leading_0xFF_def)
  next
    case (2 r)
    have st: "stored_raw d = [0xFF, 0xFF] @ stored_raw r" unfolding 2 by (subst stored_raw.simps) simp
    then show ?thesis using "1.IH"(1) by (simp add: 2 leading_0xFF_def)
  next
    case 3
    let ?r = "dropWhile (\<lambda>b. b \<noteq> 0xFF) d"
    have st: "stored_raw d = d @ stored_raw ?r" using 3 by (subst stored_raw.simps) simp
    have lead: "leading_0xFF d \<longleftrightarrow> ?r = []" using 3 by (cases d) (auto simp: leading_0xFF_def dropWhile_eq_Nil_conv)
    have len: "length ?r < length d" using 3 by (cases d) (auto simp: le_imp_less_Suc length_dropWhile_le)
    have IH: "length ?r \<le> length (stored_raw ?r)" "length (stored_raw ?r) \<le> length ?r * (length ?r + 2)"
      using "1.IH"(2) [OF 3] by simp_all
    have "length ?r * (length ?r + 2) \<le> (length d - 1) * (length d + 1)" using len by (intro mult_le_mono) simp_all
    also have "length d + (length d - 1) * (length d + 1) \<le> length d * (length d + 2)"
      using 3(1) by (cases d) (simp_all add: algebra_simps)
    finally have ub: "length (stored_raw d) \<le> length d * (length d + 2)" using IH(2) by (simp add: st)
    have "stored_raw d = enc_tokens (map TokChr d) \<longleftrightarrow> ?r = []"
    proof
      assume r: "?r = []"
      then have "0xFF \<notin> set d" by (auto simp: dropWhile_eq_Nil_conv)
      then have "enc_tokens (map TokChr d) = d" by (rule enc_plain)
      then show "stored_raw d = enc_tokens (map TokChr d)" by (simp add: st r stored_raw.simps [of "[]"])
    next
      assume e: "stored_raw d = enc_tokens (map TokChr d)"
      show "?r = []"
      proof (rule ccontr)
        assume r: "?r \<noteq> []"
        then have "hd ?r = 0xFF" using hd_dropWhile [OF r] by simp
        then obtain r' where r': "?r = 0xFF # r'" using r by (cases ?r) auto
        have more: "length ?r < length (stored_raw ?r)"
          using stored_raw_length [of r'] by (simp add: r' stored_raw.simps [of "0xFF # r'"])
        let ?p = "takeWhile (\<lambda>b. b \<noteq> 0xFF) d"
        have "enc_tokens (map TokChr ?p) = ?p" by (rule enc_plain) (auto dest: set_takeWhileD)
        moreover have "enc_tokens (map TokChr d) = enc_tokens (map TokChr ?p) @ enc_tokens (map TokChr ?r)"
          by (simp flip: enc_tokens_simps(3) map_append)
        ultimately have "length (enc_tokens (map TokChr d)) \<le> length ?p + 2 * length ?r"
          using enc_length [of ?r] by simp
        moreover have "length d = length ?p + length ?r" by (simp flip: length_append)
        ultimately show False using more arg_cong [OF e, of length] by (simp add: st)
      qed
    qed
    with lead ub IH(1) show ?thesis by (simp add: st)
  qed
qed

text \<open>One thing to send: characters, or a special.\<close>

datatype send_item = SendRaw bytes | SendSpecial uint32 uint32

fun ldisc_send_item :: "ld_env \<Rightarrow> send_item \<Rightarrow> ldisc \<Rightarrow> ldisc option" where
  "ldisc_send_item env (SendRaw d) ld = Some (ldisc_to_backend_raw env d ld)"
| "ldisc_send_item env (SendSpecial code arg) ld = ldisc_to_backend_special env code arg ld"

fun send_items :: "ld_env \<Rightarrow> send_item list \<Rightarrow> ldisc \<Rightarrow> ldisc option" where
  "send_items env [] ld = Some ld"
| "send_items env (i # xs) ld =
     (case ldisc_send_item env i ld of None \<Rightarrow> None | Some ld \<Rightarrow> send_items env xs ld)"

fun item_tokens :: "send_item \<Rightarrow> LdiscInputToken list" where
  "item_tokens (SendRaw d) = map TokChr d"
| "item_tokens (SendSpecial code arg) = [TokSpecial code arg]"

fun item_ok :: "send_item \<Rightarrow> bool" where
  "item_ok (SendRaw d) = leading_0xFF d"
| "item_ok (SendSpecial code arg) = (code \<le> 0xFEFFFFFF)"

lemma special_code_ok:
  assumes "code \<le> 0xFEFFFFFF"
  shows "put_32bit_msb_first code ! 0 \<noteq> 0xFF"
proof
  assume "put_32bit_msb_first code ! 0 = 0xFF"
  then have "unat (ucast (drop_bit 24 code) :: byte) = 255" by (simp add: put_32bit_msb_first_def)
  moreover have "unat (drop_bit 24 code) = unat code div 2 ^ 24"
    by (subst unat_drop_bit_eq) (rule drop_bit_eq_div)
  moreover have "unat code div 2 ^ 24 \<le> 4278190079 div 2 ^ 24"
    using assms by (intro div_le_mono) (simp add: word_le_nat_alt)
  ultimately show False by (simp add: unsigned_ucast_eq take_bit_nat_eq_self)
qed

lemma item_tokens_ok: "item_ok i \<Longrightarrow> \<forall>t\<in>set (item_tokens i). token_ok t"
  by (cases i) (auto simp: special_code_ok)

lemma send_item_queued:
  assumes "bufchain_ok (ld_input_queue ld)" and "\<not> env_sendok env (ld_out ld)" and "item_ok i"
    and "length (bufchain_contents (ld_input_queue ld)) + length (enc_tokens (item_tokens i)) < 2 ^ 64"
  shows "\<exists>ld'. ldisc_send_item env i ld = Some ld' \<and> ld_out ld' = ld_out ld \<and> bufchain_ok (ld_input_queue ld') \<and>
           bufchain_contents (ld_input_queue ld') =
             bufchain_contents (ld_input_queue ld) @ enc_tokens (item_tokens i)"
proof (cases i)
  case (SendRaw d)
  with assms enqueue_raw_stored [OF assms(1), of d] stored_raw_enc [of d] show ?thesis
    by (simp add: ldisc_to_backend_raw_def)
next
  case (SendSpecial code arg)
  with assms special_code_ok [of code] bufchain_add_ok [OF assms(1), of "enc_token (TokSpecial code arg)"]
  show ?thesis by (simp add: ldisc_to_backend_special_def Let_def nth_append)
qed

lemma send_items_queued:
  assumes "bufchain_ok (ld_input_queue ld)" and "\<not> env_sendok env (ld_out ld)" and "\<forall>i\<in>set xs. item_ok i"
    and "length (bufchain_contents (ld_input_queue ld)) + length (enc_tokens (concat (map item_tokens xs))) < 2 ^ 64"
  shows "\<exists>ld'. send_items env xs ld = Some ld' \<and> ld_out ld' = ld_out ld \<and> bufchain_ok (ld_input_queue ld') \<and>
           bufchain_contents (ld_input_queue ld') =
             bufchain_contents (ld_input_queue ld) @ enc_tokens (concat (map item_tokens xs))"
  using assms
proof (induction xs arbitrary: ld)
  case (Cons i xs)
  from Cons.prems send_item_queued [OF Cons.prems(1,2), of i] obtain ld1 where
    ld1: "ldisc_send_item env i ld = Some ld1" "ld_out ld1 = ld_out ld" "bufchain_ok (ld_input_queue ld1)"
      "bufchain_contents (ld_input_queue ld1) = bufchain_contents (ld_input_queue ld) @ enc_tokens (item_tokens i)"
    by auto
  with Cons.IH [of ld1] Cons.prems show ?case by auto
qed simp

section \<open>Erasing\<close>

lemma ld_buf_update [simp]: "ld_buf (emit e ld) = ld_buf ld"
  by (simp add: emit_def)

text \<open>The terminal's character set does not change while a key is handled.\<close>

definition utf_fixed :: "ld_env \<Rightarrow> bool \<Rightarrow> bool" where
  "utf_fixed env utf \<longleftrightarrow> (\<forall>evs. env_utf env evs = utf)"

lemma in_utf_fixed: "utf_fixed env utf \<Longrightarrow> in_utf env ld = utf"
  by (simp add: utf_fixed_def in_utf_def)

lemma erase_last_buf: "ld_buf ld = us @ [c] \<Longrightarrow> \<exists>ld'. erase_last env ld = Some (c, ld') \<and> ld_buf ld' = us"
  by (simp add: erase_last_def Let_def)

lemma erase_char_whole:
  assumes "utf_fixed env utf" and "char_start utf c" and "\<forall>b\<in>set conts. \<not> char_start utf b"
    and "ld_buf ld = us @ c # conts"
  shows "\<exists>ld'. erase_char env ld = Some ld' \<and> ld_buf ld' = us"
  using assms(3,4)
proof (induction conts arbitrary: ld rule: rev_induct)
  case Nil
  with erase_last_buf [of ld us c env] obtain ld' where
    "erase_last env ld = Some (c, ld')" "ld_buf ld' = us" by auto
  with assms(1,2) show ?case by (subst erase_char.simps) (simp add: in_utf_fixed)
next
  case (snoc b conts)
  with erase_last_buf [of ld "us @ c # conts" b env] obtain ld' where
    "erase_last env ld = Some (b, ld')" "ld_buf ld' = us @ c # conts" by auto
  with assms(1) snoc show ?case by (subst erase_char.simps) (simp add: in_utf_fixed)
qed

lemma erase_char_underflow:
  assumes "utf_fixed env utf" and "\<forall>b\<in>set (ld_buf ld). \<not> char_start utf b"
  shows "erase_char env ld = None"
  using assms(2)
proof (induction "ld_buf ld" arbitrary: ld rule: rev_induct)
  case Nil
  then show ?case by (subst erase_char.simps) (simp add: erase_last_def)
next
  case (snoc b us)
  from erase_last_buf [OF snoc.hyps(2) [symmetric], of env] obtain ld' where
    ld': "erase_last env ld = Some (b, ld')" "ld_buf ld' = us" by blast
  have "\<not> char_start utf b" "\<forall>b\<in>set us. \<not> char_start utf b"
    using snoc.prems snoc.hyps(2) by (metis Un_iff list.set_intros(1) set_append)+
  with snoc.hyps(1) [of ld'] ld' assms(1) show ?case
    by (subst erase_char.simps) (simp add: in_utf_fixed)
qed

lemma erase_line_empty: "\<exists>ld'. erase_line env ld = Some ld' \<and> ld_buf ld' = []"
proof (induction "length (ld_buf ld)" arbitrary: ld)
  case 0
  then show ?case by (subst erase_line.simps) simp
next
  case (Suc n)
  then obtain us c where "ld_buf ld = us @ [c]" by (metis length_0_conv nat.distinct(1) rev_exhaust)
  with erase_last_buf [of ld us c env] obtain ld' where
    ld': "erase_last env ld = Some (c, ld')" "ld_buf ld' = us" by blast
  have "n = length (ld_buf ld')" using Suc.hyps(2) ld'(2) \<open>ld_buf ld = us @ [c]\<close> by simp
  from Suc.hyps(1) [OF this] ld' \<open>ld_buf ld = us @ [c]\<close> show ?case
    by (subst erase_line.simps) simp
qed

section \<open>Typing a line\<close>

text \<open>
  The keys that editing treats as text: everything that is not one of the control keys of the
  switch.
\<close>

definition text_key :: "byte \<Rightarrow> bool" where
  "text_key b \<longleftrightarrow> b \<notin> {3, 4, 10, 18, 21, 22, 23, 26, 28}"

lemma ctrl_values [simp]:
  "CTRL 87 = 23" "CTRL 85 = 21" "CTRL 67 = 3" "CTRL 92 = 28" "CTRL 90 = 26" "CTRL 82 = 18" "CTRL 86 = 22"
  "CTRL 68 = 4" "CTRL 74 = 10" "KCTRL 72 = 264" "KCTRL 63 = 383" "KCTRL 77 = 269" "KCTRL 64 = 256"
  by (simp_all add: CTRL_def KCTRL_def)

lemma insert_char_fields:
  "ld_buf (insert_char env (unat b) ld) = ld_buf ld @ [b]"
  "ld_quotenext (insert_char env (unat b) ld) = False"
  "ld_protocol (insert_char env (unat b) ld) = ld_protocol ld"
  "ld_telnet_newline (insert_char env (unat b) ld) = ld_telnet_newline ld"
  "ld_has_term (insert_char env (unat b) ld) = ld_has_term ld"
  "ld_localedit (insert_char env (unat b) ld) = ld_localedit ld"
  "backend_tokens (insert_char env (unat b) ld) = backend_tokens ld"
  by (simp_all add: insert_char_def Let_def emit_def backend_tokens_def)

lemma unat_byte_neq: "unat (b :: byte) \<noteq> n" if "256 \<le> n"
  using unsigned_less [of b, where ?'a = nat] that by simp

lemma byte_of_unat: "unat b = n \<Longrightarrow> b = word_of_nat n" for b :: byte
  by auto

lemma edit_text_key:
  assumes "text_key b"
  shows "edit_char env (unat b) ld = Some (insert_char env (unat b) ld)"
proof (cases "ld_quotenext ld")
  case True
  then show ?thesis by (simp add: edit_char_def Let_def)
next
  case False
  have "unat b \<noteq> 3" "unat b \<noteq> 4" "unat b \<noteq> 10" "unat b \<noteq> 18" "unat b \<noteq> 21" "unat b \<noteq> 22" "unat b \<noteq> 23"
    "unat b \<noteq> 26" "unat b \<noteq> 28"
    using assms by (auto simp: text_key_def dest!: byte_of_unat)
  with False unat_byte_neq [of 264 b] unat_byte_neq [of 383 b] unat_byte_neq [of 269 b]
  show ?thesis by (simp add: edit_char_def Let_def)
qed

lemma edit_loop_text:
  assumes "\<forall>b\<in>set bs. text_key b"
  shows "\<exists>ld'. edit_loop env True 0 bs ld = Some ld' \<and> ld_buf ld' = ld_buf ld @ bs \<and>
           (bs \<noteq> [] \<longrightarrow> \<not> ld_quotenext ld') \<and> (\<not> ld_quotenext ld \<longrightarrow> \<not> ld_quotenext ld') \<and>
           ld_protocol ld' = ld_protocol ld \<and> ld_telnet_newline ld' = ld_telnet_newline ld \<and>
           ld_has_term ld' = ld_has_term ld \<and> ld_localedit ld' = ld_localedit ld \<and>
           backend_tokens ld' = backend_tokens ld"
  using assms
proof (induction bs arbitrary: ld)
  case (Cons b bs)
  from Cons.IH [of "insert_char env (unat b) ld"] Cons.prems show ?case
    by (auto simp: edit_text_key insert_char_fields)
qed simp
definition line_end :: "ldisc \<Rightarrow> LdiscInputToken list" where
  "line_end ld =
     (if ld_protocol ld = 0 then [TokChr 13, TokChr 10]
      else if ld_protocol ld = 1 \<and> ld_telnet_newline ld then [TokSpecial 14 0]
      else [TokChr 13])"

lemma emit_fields [simp]:
  "ld_has_term (emit e ld) = ld_has_term ld" "ld_protocol (emit e ld) = ld_protocol ld"
  "ld_telnet_newline (emit e ld) = ld_telnet_newline ld" "ld_quotenext (emit e ld) = ld_quotenext ld"
  "ld_localedit (emit e ld) = ld_localedit ld" "backend_tokens (ld\<lparr>ld_buf := b\<rparr>) = backend_tokens ld"
  by (simp_all add: emit_def backend_tokens_def)

text \<open>Editing is on whatever happens: forced on, or automatic with a session that edits.\<close>

definition always_editing :: "ld_env \<Rightarrow> ldisc \<Rightarrow> bool" where
  "always_editing env ld \<longleftrightarrow> ld_localedit ld = 0 \<or> ld_localedit ld = 2 \<and> (\<forall>evs. env_edit env evs)"

lemma always_editing_now: "\<lbrakk>always_editing env ld; ld_localedit ld' = ld_localedit ld\<rbrakk> \<Longrightarrow> editing env ld'"
  by (auto simp: always_editing_def editing_def)

lemma send_line_tokens:
  assumes "\<And>evs. env_sendok env evs"
  shows "\<exists>ld'. send_line env ld = Some ld' \<and> ld_buf ld' = [] \<and>
           backend_tokens ld' = backend_tokens ld @ map TokChr (ld_buf ld) @ line_end ld"
  using assms
  by (simp add: send_line_def ldisc_to_backend_raw_def ldisc_to_backend_special_def line_end_def Let_def)

section \<open>What the line discipline promises\<close>

text \<open>
  C12: input that the back end does not want yet is kept. While sending is not possible, any
  sequence of chunks of characters and of session specials goes into the queue and nothing reaches
  the back end; when sending becomes possible, flushing the queue ends and gives the back end exactly
  those characters and specials, in the order they were sent, the escaped bytes 0xFF included. In
  each chunk the bytes 0xFF must come before all others: that is exactly where the code escapes them
  as it means to. Special codes must not start with the byte 0xFF, as the code asserts.
\<close>

theorem queued_input_in_order:
  assumes "bufchain_ok (ld_input_queue ld)" and "bufchain_contents (ld_input_queue ld) = []"
    and "\<not> env_sendok env (ld_out ld)" and "env_sendok env' (ld_out ld)"
    and "\<forall>i\<in>set xs. item_ok i" and "length (enc_tokens (concat (map item_tokens xs))) < 2 ^ 31"
  shows "\<exists>ld1 ld2. send_items env xs ld = Some ld1 \<and> ld_out ld1 = ld_out ld \<and>
           ldisc_check_sendok_callback env' ld1 = Some ld2 \<and> \<not> ldisc_has_input_buffered ld2 \<and>
           backend_tokens ld2 = backend_tokens ld @ concat (map item_tokens xs)"
proof -
  let ?ts = "concat (map item_tokens xs)"
  from send_items_queued [OF assms(1,3,5)] assms(2,6) obtain ld1 where
    ld1: "send_items env xs ld = Some ld1" "ld_out ld1 = ld_out ld" "bufchain_ok (ld_input_queue ld1)"
      "bufchain_contents (ld_input_queue ld1) = enc_tokens ?ts" by auto
  have "\<forall>t\<in>set ?ts. token_ok t" using assms(5) item_tokens_ok by auto
  from flush_queue_tokens [OF ld1(3,4) this assms(6)] obtain ld2 where
    ld2: "flush_queue ld1 = Some ld2" "bufchain_ok (ld_input_queue ld2)"
      "bufchain_contents (ld_input_queue ld2) = []" "backend_tokens ld2 = backend_tokens ld1 @ ?ts" by blast
  have "backend_tokens ld1 = backend_tokens ld" using ld1(2) by (simp add: backend_tokens_def)
  moreover have "\<not> ldisc_has_input_buffered ld2"
    using ld2(2,3) by (simp add: ldisc_has_input_buffered_def bufchain_size_def bufchain_ok_def)
  ultimately show ?thesis using ld1(1,2) ld2(1,4) assms(4) by (auto simp: ldisc_check_sendok_callback_def)
qed

definition sample_ldisc :: ldisc where
  "sample_ldisc = \<lparr>ld_has_term = True, ld_input_queue = bufchain_init, ld_telnet_keyboard = False,
     ld_telnet_newline = False, ld_protocol = 3, ld_localecho = 2, ld_localedit = 0, ld_buf = [],
     ld_quotenext = False, ld_out = []\<rparr>"

definition sample_env :: "bool \<Rightarrow> ld_env" where
  "sample_env sendok = \<lparr>env_sendok = (\<lambda>_. sendok), env_echo = (\<lambda>_. True), env_edit = (\<lambda>_. True),
     env_utf = (\<lambda>_. True)\<rparr>"

theorem queued_input_in_order_witness:
  "\<exists>ld1 ld2. send_items (sample_env False) [SendRaw [0xFF, 104, 105], SendSpecial 11 0, SendRaw [13, 0]] sample_ldisc = Some ld1 \<and>
     ldisc_check_sendok_callback (sample_env True) ld1 = Some ld2 \<and>
     backend_tokens ld2 = [TokChr 0xFF, TokChr 104, TokChr 105, TokSpecial 11 0, TokChr 13, TokChr 0]"
  using queued_input_in_order [of sample_ldisc "sample_env False" "sample_env True"
      "[SendRaw [0xFF, 104, 105], SendSpecial 11 0, SendRaw [13, 0]]"]
  by (auto simp: leading_0xFF_def sample_ldisc_def sample_env_def bufchain_init_ok backend_tokens_def)

text \<open>
  C39: what a chunk leaves in the queue is the encoding that the reader of the queue expects if and
  only if all its bytes 0xFF stand before all its other bytes. Otherwise the loop stores the whole
  remaining chunk where it should store only the part before the next 0xFF, so that this part of
  the queue is unescaped and followed by a second copy of its tail.
\<close>

theorem queue_encoding_is_right_iff:
  assumes "bufchain_ok q" and "length (bufchain_contents q) + length d * (length d + 2) < 2 ^ 64"
  shows "bufchain_contents (enqueue_raw q d) = bufchain_contents q @ enc_tokens (map TokChr d) \<longleftrightarrow>
           0xFF \<notin> set (dropWhile (\<lambda>b. b = 0xFF) d)"
  using enqueue_raw_stored [OF assms(1), of d] stored_raw_enc [of d] assms(2) by (simp add: leading_0xFF_def)

theorem queue_encoding_is_right_iff_witness:
  "bufchain_contents (enqueue_raw bufchain_init [65, 0xFF]) \<noteq> enc_tokens [TokChr 65, TokChr 0xFF] \<and>
   bufchain_contents (enqueue_raw bufchain_init [0xFF, 65]) = enc_tokens [TokChr 0xFF, TokChr 65]"
  using queue_encoding_is_right_iff [of bufchain_init "[65, 0xFF]"] queue_encoding_is_right_iff [of bufchain_init "[0xFF, 65]"]
  by (simp add: bufchain_init_ok)

text \<open>
  C35: a backspace erases exactly one character of the line being edited: in UTF-8 mode, a lead
  byte with all the continuation bytes after it, otherwise one byte.
\<close>

theorem backspace_erases_character:
  assumes "utf_fixed env utf" and "char_start utf c" and "\<forall>b\<in>set conts. \<not> char_start utf b"
    and "ld_buf ld = us @ c # conts" and "\<not> ld_quotenext ld" and "k = KCTRL 72 \<or> k = KCTRL 63"
  shows "\<exists>ld'. edit_char env k ld = Some ld' \<and> ld_buf ld' = us"
  using erase_char_whole [OF assms(1-4)] assms(4-6) by (auto simp: edit_char_def Let_def)

theorem backspace_erases_character_witness:
  "\<exists>ld'. edit_char (sample_env True) (KCTRL 72) (sample_ldisc\<lparr>ld_buf := [104, 0xE2, 0x82, 0xAC]\<rparr>) = Some ld' \<and>
     ld_buf ld' = [104]"
  by (rule backspace_erases_character [of _ True "0xE2" "[0x82, 0xAC]"])
    (auto simp: utf_fixed_def sample_env_def char_start_def sample_ldisc_def)

text \<open>
  C16: a line typed with editing on stays local until Return is pressed, and then reaches the back
  end whole and once, followed by the line ending of the protocol (carriage return and line feed for
  raw connections, the Telnet end-of-line special where that is configured, a carriage return
  otherwise), and the line buffer is empty.
\<close>

theorem typed_line_is_sent:
  assumes "ld_has_term ld" and "\<not> ld_quotenext ld" and "always_editing env ld" and "\<And>evs. env_sendok env evs"
    and "\<forall>b\<in>set bs. text_key b"
  shows "\<exists>ld1 ld2. ldisc_send env bs False True ld = Some ld1 \<and> backend_tokens ld1 = backend_tokens ld \<and>
           ldisc_send env [13] True True ld1 = Some ld2 \<and> ld_buf ld2 = [] \<and>
           backend_tokens ld2 = backend_tokens ld @ map TokChr (ld_buf ld @ bs) @ line_end ld"
proof -
  obtain ld1 where ld1: "edit_loop env True 0 bs (emit NoPaste ld) = Some ld1"
    "ld_buf ld1 = ld_buf ld @ bs" "\<not> ld_quotenext ld1" "ld_protocol ld1 = ld_protocol ld"
    "ld_telnet_newline ld1 = ld_telnet_newline ld" "ld_has_term ld1" "ld_localedit ld1 = ld_localedit ld"
    "backend_tokens ld1 = backend_tokens ld"
    using edit_loop_text [OF assms(5), of env "emit NoPaste ld"] assms(1,2) by auto
  have send1: "ldisc_send env bs False True ld = Some ld1"
    using ld1(1) assms(1) always_editing_now [OF assms(3)] by (simp add: ldisc_send_def)
  from send_line_tokens [OF assms(4), of "emit NoPaste ld1"] ld1 obtain ld2 where
    ld2: "send_line env (emit NoPaste ld1) = Some ld2" "ld_buf ld2 = []"
      "backend_tokens ld2 = backend_tokens ld @ map TokChr (ld_buf ld @ bs) @ line_end ld"
    by (auto simp: line_end_def)
  have "edit_char env 269 (emit NoPaste ld1) = Some ld2"
    using ld1(3) ld2(1) by (simp add: edit_char_def)
  then have "ldisc_send env [13] True True ld1 = Some ld2"
    using ld1(6,7) always_editing_now [OF assms(3)] by (simp add: ldisc_send_def)
  with send1 ld1(8) ld2(2,3) show ?thesis by blast
qed

theorem typed_line_is_sent_witness:
  "\<exists>ld1 ld2. ldisc_send (sample_env True) [108, 115] False True sample_ldisc = Some ld1 \<and>
     backend_tokens ld1 = [] \<and> ldisc_send (sample_env True) [13] True True ld1 = Some ld2 \<and> ld_buf ld2 = [] \<and>
     backend_tokens ld2 = [TokChr 108, TokChr 115, TokChr 13]"
  using typed_line_is_sent [of sample_ldisc "sample_env True" "[108, 115]"]
  by (simp add: sample_ldisc_def sample_env_def always_editing_def text_key_def line_end_def backend_tokens_def)

end
