(* ===== verification/Base64.thy ===== *)
theory Base64
  imports Bufchain
begin

text \<open>
  Base64 (\<^verbatim>\<open>utils/base64_encode_atom.c\<close>, \<^verbatim>\<open>base64_encode.c\<close>,
  \<^verbatim>\<open>base64_decode_atom.c\<close>, \<^verbatim>\<open>base64_decode.c\<close>, \<^verbatim>\<open>base64_valid.c\<close>): encoding
  with optional line breaks, decoding, and the validity test.
\<close>

unbundle bit_operations_syntax

section \<open>Encoding\<close>

definition base64_chars :: bytes where
  "base64_chars = map of_char ''ABCDEFGHIJKLMNOPQRSTUVWXYZabcdefghijklmnopqrstuvwxyz0123456789+/''"

definition base64_char :: "uint32 \<Rightarrow> byte" where
  "base64_char v = base64_chars ! unat (v AND 0x3F)"

text \<open>The length argument of the code is the length of \<open>data\<close>.\<close>

definition base64_encode_atom :: "bytes \<Rightarrow> bytes" where
  "base64_encode_atom data =
     (let n = length data;
          w = push_bit 16 (ucast (data ! 0) :: uint32);
          w = (if n > 1 then w OR push_bit 8 (ucast (data ! 1)) else w);
          w = (if n > 2 then w OR ucast (data ! 2) else w)
      in [base64_char (drop_bit 18 w),
          base64_char (drop_bit 12 w),
          if n > 1 then base64_char (drop_bit 6 w) else 61,
          if n > 2 then base64_char w else 61])"

text \<open>The four characters of an atom, with a line break wherever a line is full.\<close>

fun put_wrapped :: "'s sink_write \<Rightarrow> int \<Rightarrow> bytes \<Rightarrow> int \<times> 's \<Rightarrow> (int \<times> 's) option" where
  "put_wrapped wr cpl [] (linelen, bs) = Some (linelen, bs)"
| "put_wrapped wr cpl (c # cs) (linelen, bs) =
     (case (if cpl > 0 \<and> linelen \<ge> cpl
            then (case put_byte wr bs 10 of None \<Rightarrow> None | Some bs \<Rightarrow> Some (0, bs))
            else Some (linelen, bs)) of
        None \<Rightarrow> None
      | Some (linelen, bs) \<Rightarrow>
          (case put_byte wr bs c of
             None \<Rightarrow> None
           | Some bs \<Rightarrow> put_wrapped wr cpl cs (linelen + 1, bs)))"

function encode_loop :: "'s sink_write \<Rightarrow> int \<Rightarrow> bytes \<Rightarrow> int \<times> 's \<Rightarrow> (int \<times> 's) option" where
  "encode_loop wr cpl input st =
     (if input \<noteq> [] then
        let n = (if length input < 3 then length input else 3) in
        case put_wrapped wr cpl (base64_encode_atom (take n input)) st of
          None \<Rightarrow> None
        | Some st \<Rightarrow> encode_loop wr cpl (drop n input) st
      else Some st)"
  by pat_completeness auto
termination
  by (relation "measure (\<lambda>(_, _, input, _). length input)") auto

declare encode_loop.simps [simp del]

definition base64_encode_bs :: "'s sink_write \<Rightarrow> 's \<Rightarrow> bytes \<Rightarrow> int \<Rightarrow> 's option" where
  "base64_encode_bs wr bs input cpl =
     (case encode_loop wr cpl input (0, bs) of
        None \<Rightarrow> None
      | Some (_, bs) \<Rightarrow> if cpl > 0 then put_byte wr bs 10 else Some bs)"

definition base64_encode_sb :: "bytes \<Rightarrow> int \<Rightarrow> strbuf option" where
  "base64_encode_sb input cpl = base64_encode_bs strbuf_write strbuf_new_nm input cpl"

section \<open>Decoding\<close>

text \<open>The value of a character: \<open>-1\<close>, as a word, for the padding sign; \<open>None\<close> if it is invalid.\<close>

definition base64_value :: "byte \<Rightarrow> uint32 option" where
  "base64_value c =
     (if 65 \<le> c \<and> c \<le> 90 then Some (ucast (c - 65))
      else if 97 \<le> c \<and> c \<le> 122 then Some (ucast (c - 97) + 26)
      else if 48 \<le> c \<and> c \<le> 57 then Some (ucast (c - 48) + 52)
      else if c = 43 then Some 62
      else if c = 47 then Some 63
      else if c = 61 then Some (- 1)
      else None)"

text \<open>The bytes an atom stands for, as many as the code's return value says; none if it is invalid.\<close>

definition base64_decode_atom :: "bytes \<Rightarrow> bytes" where
  "base64_decode_atom atom =
     (case (base64_value (atom ! 0), base64_value (atom ! 1),
            base64_value (atom ! 2), base64_value (atom ! 3)) of
        (Some v0, Some v1, Some v2, Some v3) \<Rightarrow>
          if v0 = - 1 \<or> v1 = - 1 then []
          else if v2 = - 1 \<and> v3 \<noteq> - 1 then []
          else
            let len = (if v3 \<noteq> - 1 then 3 else if v2 \<noteq> - 1 then 2 else 1 :: nat);
                w = push_bit 18 v0 OR push_bit 12 v1 OR push_bit 6 (v2 AND 0x3F) OR (v3 AND 0x3F)
            in take len [ucast (drop_bit 16 w), ucast (drop_bit 8 w), ucast w]
      | _ \<Rightarrow> [])"

text \<open>The next four characters: newlines are skipped, the end of the data reads as padding.\<close>

fun read_atom :: "nat \<Rightarrow> bytes \<Rightarrow> bytes \<times> bytes" where
  "read_atom i [] = (replicate i 61, [])"
| "read_atom i (c # cs) =
     (case i of
        0 \<Rightarrow> ([], c # cs)
      | Suc j \<Rightarrow>
          if c = 10 \<or> c = 13 then read_atom i cs
          else let (a, r) = read_atom j cs in (c # a, r))"

lemma read_atom_length: "length (snd (read_atom i cs)) \<le> length cs"
  by (induction i cs rule: read_atom.induct) (auto split: nat.splits prod.splits)

lemma read_atom_shrinks: "\<lbrakk>0 < i; cs \<noteq> []\<rbrakk> \<Longrightarrow> length (snd (read_atom i cs)) < length cs"
  using read_atom_length [of "i - 1" "tl cs"] read_atom_length [of i "tl cs"]
  by (cases cs; cases i) (auto simp: split_beta)

function base64_decode_bs :: "'s sink_write \<Rightarrow> 's \<Rightarrow> bytes \<Rightarrow> 's option" where
  "base64_decode_bs wr bs input =
     (if input \<noteq> [] then
        let (b64atom, rest) = read_atom 4 input in
        case put_data wr bs (base64_decode_atom b64atom) of
          None \<Rightarrow> None
        | Some bs \<Rightarrow> base64_decode_bs wr bs rest
      else Some bs)"
  by pat_completeness auto
termination
  by (relation "measure (\<lambda>(_, _, input). length input)") (auto dest: sym, metis read_atom_shrinks snd_conv zero_less_numeral)

declare base64_decode_bs.simps [simp del]

definition base64_decode_sb :: "bytes \<Rightarrow> strbuf option" where
  "base64_decode_sb input = base64_decode_bs strbuf_write strbuf_new_nm input"

section \<open>The validity test\<close>

definition valid_char_main :: "byte \<Rightarrow> bool" where
  "valid_char_main c \<longleftrightarrow>
     65 \<le> c \<and> c \<le> 90 \<or> 97 \<le> c \<and> c \<le> 122 \<or> 48 \<le> c \<and> c \<le> 57 \<or> c = 43 \<or> c = 47"

fun valid_loop :: "nat \<Rightarrow> nat \<Rightarrow> bytes \<Rightarrow> bool" where
  "valid_loop blocklen nequals [] \<longleftrightarrow> blocklen = 0 \<or> blocklen = 2 \<or> blocklen = 3"
| "valid_loop blocklen nequals (c # cs) \<longleftrightarrow>
     (if c = 10 \<or> c = 13 then valid_loop blocklen nequals cs
      else if valid_char_main c then
        (if nequals \<noteq> 0 then False
         else valid_loop (if blocklen + 1 = 4 then 0 else blocklen + 1) nequals cs)
      else if c = 61 then
        (if blocklen = 0 \<and> nequals \<noteq> 0 then False
         else if blocklen + 1 = 4 then
           (if nequals + 1 > 2 then False else valid_loop 0 (nequals + 1) cs)
         else valid_loop (blocklen + 1) (nequals + 1) cs)
      else False)"

definition base64_valid :: "bytes \<Rightarrow> bool" where
  "base64_valid data = valid_loop 0 0 data"

section \<open>Atoms\<close>

lemma base64_values: "list_all (\<lambda>k. base64_value (base64_chars ! k) = Some (word_of_nat k)) [0..<64]"
  by code_simp

lemma base64_value_nth: "k < 64 \<Longrightarrow> base64_value (base64_chars ! k) = Some (word_of_nat k)"
  using base64_values by (simp add: list_all_iff)

lemma and_63_less: "unat (v AND 0x3F :: uint32) < 64"
proof -
  have "v AND 0x3F \<le> (0x3F :: uint32)" by (simp add: word_and_le1)
  then show ?thesis by (simp add: word_le_nat_alt)
qed

lemma base64_value_char [simp]: "base64_value (base64_char v) = Some (v AND 0x3F)"
  by (simp add: base64_char_def base64_value_nth [OF and_63_less])

lemma base64_value_pad [simp]: "base64_value 61 = Some (- 1)"
  by (simp add: base64_value_def)

lemma and_63_neq [simp]: "v AND 0x3F \<noteq> (- 1 :: uint32)"
proof
  assume "v AND 0x3F = (- 1 :: uint32)"
  also have "(- 1 :: uint32) = 0xFFFFFFFF" by simp
  finally have "unat (v AND 0x3F) = unat (0xFFFFFFFF :: uint32)" by simp
  with and_63_less [of v] show False by simp
qed

text \<open>Four groups of six bits put together again are the 24 bits they were taken from.\<close>

lemma and_63: "v AND 0x3F = take_bit 6 v" for v :: uint32
  by (simp add: take_bit_eq_mask mask_eq_exp_minus_1)

lemma take_6_neq [simp]: "take_bit 6 v \<noteq> (- 1 :: uint32)"
  using and_63_neq [of v] by (simp only: and_63) simp

lemma sextets:
  "push_bit 18 (take_bit 6 (drop_bit 18 w)) OR push_bit 12 (take_bit 6 (drop_bit 12 w)) OR
     push_bit 6 (take_bit 6 (drop_bit 6 w)) OR take_bit 6 w = take_bit 24 (w :: uint32)"
proof (rule bit_word_eqI)
  fix n assume n: "n < LENGTH(32)"
  have "n < 6 \<or> (6 \<le> n \<and> n < 12) \<or> (12 \<le> n \<and> n < 18) \<or> (18 \<le> n \<and> n < 24) \<or> 24 \<le> n" by linarith
  then show "bit (push_bit 18 (take_bit 6 (drop_bit 18 w)) OR push_bit 12 (take_bit 6 (drop_bit 12 w)) OR
     push_bit 6 (take_bit 6 (drop_bit 6 w)) OR take_bit 6 w) n = bit (take_bit 24 w) n"
    using n by (elim disjE conjE) (auto simp: bit_simps)
qed

lemma byte_bit: "bit (a :: byte) n \<Longrightarrow> n < 8"
  using bit_imp_le_length [of a n] by simp

lemma octets_of_24:
  fixes a b c :: byte
  defines "w \<equiv> push_bit 16 (ucast a) OR push_bit 8 (ucast b) OR ucast c :: uint32"
  shows "ucast (drop_bit 16 w) = a" "ucast (drop_bit 8 w) = b" "ucast w = c" "take_bit 24 w = w"
  unfolding w_def
  by (rule bit_word_eqI; auto simp: bit_simps dest: byte_bit)+

lemma atom_value:
  "base64_decode_atom [base64_char (drop_bit 18 w), base64_char (drop_bit 12 w),
       base64_char (drop_bit 6 w), base64_char w]
     = (let v = take_bit 24 w in [ucast (drop_bit 16 v), ucast (drop_bit 8 v), ucast v])"
  using sextets [of w] by (simp add: base64_decode_atom_def Let_def and_63)

text \<open>Padding reads as ones in the positions the shortened atoms do not use.\<close>

lemma top_octet:
  "ucast (drop_bit 16 (push_bit 18 (take_bit 6 (drop_bit 18 w)) OR push_bit 12 (take_bit 6 (drop_bit 12 w)) OR
     push_bit 6 (take_bit 6 x) OR take_bit 6 y)) = (ucast (drop_bit 16 (w :: uint32)) :: byte)"
proof (rule bit_word_eqI)
  fix n assume "n < LENGTH(8)"
  then have "n < 2 \<or> 2 \<le> n \<and> n < 8" by auto
  then show "bit (ucast (drop_bit 16 (push_bit 18 (take_bit 6 (drop_bit 18 w)) OR push_bit 12 (take_bit 6 (drop_bit 12 w)) OR
     push_bit 6 (take_bit 6 x) OR take_bit 6 y)) :: byte) n = bit (ucast (drop_bit 16 w) :: byte) n"
    by (elim disjE conjE) (auto simp: bit_simps)
qed

lemma middle_octet:
  "ucast (drop_bit 8 (push_bit 18 (take_bit 6 (drop_bit 18 w)) OR push_bit 12 (take_bit 6 (drop_bit 12 w)) OR
     push_bit 6 (take_bit 6 (drop_bit 6 w)) OR take_bit 6 y)) = (ucast (drop_bit 8 (w :: uint32)) :: byte)"
proof (rule bit_word_eqI)
  fix n assume "n < LENGTH(8)"
  then have "n < 4 \<or> 4 \<le> n \<and> n < 8" by auto
  then show "bit (ucast (drop_bit 8 (push_bit 18 (take_bit 6 (drop_bit 18 w)) OR push_bit 12 (take_bit 6 (drop_bit 12 w)) OR
     push_bit 6 (take_bit 6 (drop_bit 6 w)) OR take_bit 6 y)) :: byte) n = bit (ucast (drop_bit 8 w) :: byte) n"
    by (elim disjE conjE) (auto simp: bit_simps)
qed

lemma base64_atom_1: "base64_decode_atom (base64_encode_atom [a]) = [a]"
proof -
  define w where "w = (push_bit 16 (ucast a) :: uint32)"
  have "ucast (drop_bit 16 w) = a" using octets_of_24(1) [of a 0 0] by (simp add: w_def)
  then show ?thesis
    using top_octet [of w "- 1" "- 1"]
    by (simp add: base64_encode_atom_def base64_decode_atom_def Let_def and_63 flip: w_def)
qed

lemma base64_atom_2: "base64_decode_atom (base64_encode_atom [a, b]) = [a, b]"
proof -
  define w where "w = (push_bit 16 (ucast a) OR push_bit 8 (ucast b) :: uint32)"
  have "ucast (drop_bit 16 w) = a" "ucast (drop_bit 8 w) = b"
    using octets_of_24(1,2) [of a b 0] by (simp_all add: w_def)
  then show ?thesis
    using top_octet [of w "drop_bit 6 w" "- 1"] middle_octet [of w "- 1"]
    by (simp add: base64_encode_atom_def base64_decode_atom_def Let_def and_63 flip: w_def)
qed

lemma base64_atom_3: "base64_decode_atom (base64_encode_atom [a, b, c]) = [a, b, c]"
proof -
  define w where "w = (push_bit 16 (ucast a) OR push_bit 8 (ucast b) OR ucast c :: uint32)"
  have "ucast (drop_bit 16 w) = a" "ucast (drop_bit 8 w) = b" "ucast w = c" "take_bit 24 w = w"
    using octets_of_24 [of a b c] by (simp_all add: w_def)
  moreover have "base64_encode_atom [a, b, c]
      = [base64_char (drop_bit 18 w), base64_char (drop_bit 12 w), base64_char (drop_bit 6 w), base64_char w]"
    by (simp add: base64_encode_atom_def Let_def w_def or.assoc)
  ultimately show ?thesis using atom_value [of w] by simp
qed

section \<open>Whole strings\<close>

definition strip_newlines :: "bytes \<Rightarrow> bytes" where
  "strip_newlines = filter (\<lambda>c. c \<noteq> 10 \<and> c \<noteq> 13)"

function encode_chars :: "bytes \<Rightarrow> bytes" where
  "encode_chars input =
     (if input = [] then [] else base64_encode_atom (take 3 input) @ encode_chars (drop 3 input))"
  by pat_completeness auto
termination by (relation "measure length") auto

declare encode_chars.simps [simp del]

function decode_bytes :: "bytes \<Rightarrow> bytes" where
  "decode_bytes input =
     (if input = [] then []
      else base64_decode_atom (fst (read_atom 4 input)) @ decode_bytes (snd (read_atom 4 input)))"
  by pat_completeness auto
termination by (relation "measure length") (auto simp: read_atom_shrinks)

declare decode_bytes.simps [simp del]

lemma base64_char_no_newline: "base64_char v \<noteq> 10 \<and> base64_char v \<noteq> 13"
proof -
  have "base64_value 10 = None" "base64_value 13 = None" by (simp_all add: base64_value_def)
  with base64_value_char [of v] show ?thesis by (metis option.distinct(1))
qed

lemma strip_atom [simp]: "strip_newlines (base64_encode_atom d) = base64_encode_atom d"
  using base64_char_no_newline
  by (simp add: strip_newlines_def base64_encode_atom_def Let_def)

lemma length_atom [simp]: "length (base64_encode_atom d) = 4"
  by (simp add: base64_encode_atom_def Let_def)

lemma atom_round_trip:
  assumes "d \<noteq> []" and "length d \<le> 3"
  shows "base64_decode_atom (base64_encode_atom d) = d"
proof -
  consider a where "d = [a]" | a b where "d = [a, b]" | a b c where "d = [a, b, c]"
    using assms by (auto simp: neq_Nil_conv le_Suc_eq length_Suc_conv numeral_3_eq_3)
  then show ?thesis by cases (simp_all add: base64_atom_1 base64_atom_2 base64_atom_3)
qed

lemma read_atom_strip:
  "\<lbrakk>strip_newlines s = as @ rest; length as = i\<rbrakk> \<Longrightarrow> \<exists>r. read_atom i s = (as, r) \<and> strip_newlines r = rest"
proof (induction i s arbitrary: as rule: read_atom.induct)
  case (1 i)
  then show ?case by (simp add: strip_newlines_def)
next
  case (2 i c cs)
  show ?case
  proof (cases i)
    case 0
    with 2 show ?thesis by simp
  next
    case (Suc j)
    show ?thesis
    proof (cases "c = 10 \<or> c = 13")
      case True
      with 2 Suc show ?thesis by (auto simp: strip_newlines_def)
    next
      case False
      with "2.prems" Suc obtain as' where "as = c # as'" "strip_newlines cs = as' @ rest" "length as' = j"
        by (cases as) (auto simp: strip_newlines_def)
      with 2(2) [OF Suc False, of as'] Suc False show ?thesis by auto
    qed
  qed
qed

lemma read_atom_all_newlines: "strip_newlines s = [] \<Longrightarrow> read_atom (Suc i) s = (replicate (Suc i) 61, [])"
  by (induction s) (auto simp: strip_newlines_def split: if_splits)

text \<open>Decoding sees through line breaks anywhere.\<close>

lemma decode_encoded: "strip_newlines s = encode_chars x \<Longrightarrow> decode_bytes s = x"
proof (induction "length s" arbitrary: s x rule: less_induct)
  case less
  show ?case
  proof (cases "x = []")
    case True
    with less.prems have "strip_newlines s = []" by (simp add: encode_chars.simps)
    then have "read_atom 4 s = (replicate 4 61, [])"
      using read_atom_all_newlines [of s 3] by (simp add: numeral_eq_Suc)
    with True show ?thesis
      by (subst decode_bytes.simps, subst decode_bytes.simps)
        (simp add: base64_decode_atom_def numeral_eq_Suc)
  next
    case False
    then have "strip_newlines s = base64_encode_atom (take 3 x) @ encode_chars (drop 3 x)"
      using less.prems by (simp add: encode_chars.simps [of x])
    from read_atom_strip [OF this length_atom] obtain r where
      r: "read_atom 4 s = (base64_encode_atom (take 3 x), r)" "strip_newlines r = encode_chars (drop 3 x)"
      by blast
    have "length (strip_newlines s) \<ge> 4"
      using \<open>strip_newlines s = base64_encode_atom (take 3 x) @ encode_chars (drop 3 x)\<close> by simp
    then have "s \<noteq> []" by (auto simp: strip_newlines_def)
    moreover from this have "length r < length s" using read_atom_shrinks [of 4 s] r(1) by simp
    moreover have "base64_decode_atom (base64_encode_atom (take 3 x)) = take 3 x"
      using False by (intro atom_round_trip) simp_all
    ultimately show ?thesis
      using less.hyps [OF _ r(2)] r(1) by (subst decode_bytes.simps) simp
  qed
qed

context binary_sink
begin

lemma put_wrapped_appends:
  "fits s (2 * length cs) \<Longrightarrow> \<exists>n s' es. put_wrapped wr cpl cs (linelen, s) = Some (n, s') \<and> ok s' \<and>
     contents s' = contents s @ es \<and> length es \<le> 2 * length cs \<and> filter (\<lambda>c. c \<noteq> 10) es = filter (\<lambda>c. c \<noteq> 10) cs"
proof (induction cs arbitrary: linelen s)
  case Nil
  then show ?case by (simp add: fits_def)
next
  case (Cons c cs)
  have "\<exists>n s1 es. (if cpl > 0 \<and> linelen \<ge> cpl
            then (case put_byte wr s 10 of None \<Rightarrow> None | Some bs \<Rightarrow> Some (0, bs))
            else Some (linelen, s)) = Some (n, s1) \<and> ok s1 \<and> contents s1 = contents s @ es \<and>
            length es \<le> 1 \<and> filter (\<lambda>c. c \<noteq> 10) es = []"
  proof (cases "cpl > 0 \<and> linelen \<ge> cpl")
    case True
    have "appends (put_byte wr s 10) s [10]" using Cons.prems by (intro put_integers_append) (auto simp: fits_def)
    then obtain s1 where "put_byte wr s 10 = Some s1" "ok s1" "contents s1 = contents s @ [10]"
      by (auto simp: appends_def)
    with True show ?thesis by (intro exI [of _ 0] exI [of _ s1] exI [of _ "[10]"]) simp
  next
    case False
    with Cons.prems show ?thesis by (intro exI [of _ linelen] exI [of _ s] exI [of _ "[]"]) (auto simp: fits_def)
  qed
  then obtain n s1 es1 where 1: "(if cpl > 0 \<and> linelen \<ge> cpl
            then (case put_byte wr s 10 of None \<Rightarrow> None | Some bs \<Rightarrow> Some (0, bs))
            else Some (linelen, s)) = Some (n, s1)" "ok s1" "contents s1 = contents s @ es1"
    "length es1 \<le> 1" "filter (\<lambda>c. c \<noteq> 10) es1 = []" by blast
  then have "appends (put_byte wr s1 c) s1 [c]" using Cons.prems by (intro put_integers_append) (auto simp: fits_def)
  then obtain s2 where 2: "put_byte wr s1 c = Some s2" "ok s2" "contents s2 = contents s1 @ [c]"
    by (auto simp: appends_def)
  have "fits s2 (2 * length cs)" using Cons.prems 1 2 by (auto simp: fits_def)
  from Cons.IH [OF this, of "n + 1"] obtain n' s3 es3 where
    3: "put_wrapped wr cpl cs (n + 1, s2) = Some (n', s3)" "ok s3" "contents s3 = contents s2 @ es3"
      "length es3 \<le> 2 * length cs" "filter (\<lambda>c. c \<noteq> 10) es3 = filter (\<lambda>c. c \<noteq> 10) cs" by blast
  have "put_wrapped wr cpl (c # cs) (linelen, s) = Some (n', s3)"
    by (subst put_wrapped.simps, subst 1(1)) (simp add: 2(1) 3(1))
  with 1 2 3 show ?case
    by (intro exI [of _ n'] exI [of _ s3] exI [of _ "es1 @ c # es3"]) auto
qed

lemma encode_loop_appends:
  "fits s (8 * length input) \<Longrightarrow> \<exists>n s' es. encode_loop wr cpl input (linelen, s) = Some (n, s') \<and> ok s' \<and>
     contents s' = contents s @ es \<and> length es \<le> 8 * length input \<and>
     strip_newlines es = encode_chars input"
proof (induction input arbitrary: linelen s rule: encode_chars.induct)
  case (1 input)
  show ?case
  proof (cases "input = []")
    case True
    with "1.prems" show ?thesis
      by (subst encode_loop.simps) (simp add: fits_def strip_newlines_def encode_chars.simps)
  next
    case False
    then have pos: "1 \<le> length input" by (cases input) simp_all
    let ?a = "base64_encode_atom (take 3 input)"
    have "fits s (2 * length ?a)" using "1.prems" pos by (auto simp: fits_def)
    from put_wrapped_appends [OF this, of cpl linelen] obtain n s1 es1 where
      s1: "put_wrapped wr cpl ?a (linelen, s) = Some (n, s1)" "ok s1" "contents s1 = contents s @ es1"
        "length es1 \<le> 8" "filter (\<lambda>c. c \<noteq> 10) es1 = filter (\<lambda>c. c \<noteq> 10) ?a" by auto
    have st: "strip_newlines es1 = ?a"
    proof -
      have "strip_newlines es1 = filter (\<lambda>c. c \<noteq> 13) (filter (\<lambda>c. c \<noteq> 10) es1)"
        by (simp add: strip_newlines_def conj_commute)
      also have "\<dots> = strip_newlines ?a" by (simp add: s1(5) strip_newlines_def conj_commute)
      finally show ?thesis by simp
    qed
    have len: "8 * length (drop 3 input) + 8 \<le> 8 * length input" using pos by simp
    have "fits s1 (8 * length (drop 3 input))" using "1.prems" s1 len by (auto simp: fits_def)
    from "1.IH" [OF False this, of n] obtain n' s2 es2 where
      s2: "encode_loop wr cpl (drop 3 input) (n, s1) = Some (n', s2)" "ok s2" "contents s2 = contents s1 @ es2"
        "length es2 \<le> 8 * length (drop 3 input)" "strip_newlines es2 = encode_chars (drop 3 input)" by blast
    have k: "take (if length input < 3 then length input else 3) input = take 3 input"
      "drop (if length input < 3 then length input else 3) input = drop 3 input" by simp_all
    have "encode_loop wr cpl input (linelen, s) = Some (n', s2)"
      by (subst encode_loop.simps) (simp only: Let_def k s1(1) s2(1) False option.case not_False_eq_True if_True)
    moreover have "strip_newlines (es1 @ es2) = encode_chars input"
      using False st s2(5) by (simp add: encode_chars.simps [of input] strip_newlines_def)
    ultimately show ?thesis
      using s1(3,4) s2(2-4) len
      by (intro exI [of _ n'] exI [of _ s2] exI [of _ "es1 @ es2"]) auto
  qed
qed

lemma base64_encode_appends:
  assumes "fits s (8 * length input + 1)"
  shows "\<exists>s' es. base64_encode_bs wr s input cpl = Some s' \<and> ok s' \<and> contents s' = contents s @ es \<and>
           length es \<le> 8 * length input + 1 \<and> strip_newlines es = encode_chars input"
proof -
  from assms have "fits s (8 * length input)" by (auto simp: fits_def)
  from encode_loop_appends [OF this, of cpl 0] obtain n s1 es1 where
    s1: "encode_loop wr cpl input (0, s) = Some (n, s1)" "ok s1" "contents s1 = contents s @ es1"
      "length es1 \<le> 8 * length input" "strip_newlines es1 = encode_chars input" by blast
  show ?thesis
  proof (cases "cpl > 0")
    case True
    have "appends (put_byte wr s1 10) s1 [10]" using assms s1 by (intro put_integers_append) (auto simp: fits_def)
    then obtain s2 where "put_byte wr s1 10 = Some s2" "ok s2" "contents s2 = contents s1 @ [10]"
      by (auto simp: appends_def)
    with s1 True show ?thesis
      by (intro exI [of _ s2] exI [of _ "es1 @ [10]"]) (simp add: base64_encode_bs_def strip_newlines_def)
  next
    case False
    with s1 show ?thesis by (intro exI [of _ s1] exI [of _ es1]) (simp add: base64_encode_bs_def)
  qed
qed

lemma base64_decode_appends:
  "fits s (length (decode_bytes input)) \<Longrightarrow> appends (base64_decode_bs wr s input) s (decode_bytes input)"
proof (induction input arbitrary: s rule: decode_bytes.induct)
  case (1 input)
  show ?case
  proof (cases "input = []")
    case True
    with "1.prems" show ?thesis
      by (subst base64_decode_bs.simps) (simp add: decode_bytes.simps appends_def fits_def)
  next
    case False
    let ?d = "base64_decode_atom (fst (read_atom 4 input))" and ?r = "snd (read_atom 4 input)"
    have eq: "decode_bytes input = ?d @ decode_bytes ?r" using False by (simp add: decode_bytes.simps [of input])
    have "appends (case put_data wr s ?d of None \<Rightarrow> None | Some bs \<Rightarrow> base64_decode_bs wr bs ?r) s
        (?d @ decode_bytes ?r)"
      using "1.prems" False unfolding eq put_data_def
      by (intro appends_bind write_fits "1.IH") (auto simp: fits_def)
    with False eq show ?thesis
      by (subst base64_decode_bs.simps) (simp add: split_beta)
  qed
qed

end

lemma base64_sb_round_trip:
  assumes "8 * length x + 1 < size_max"
  shows "\<exists>e d. base64_encode_sb x cpl = Some e \<and> base64_decode_sb (strbuf_contents e) = Some d \<and>
           strbuf_ok d \<and> strbuf_contents d = x"
proof -
  have new: "strbuf_ok strbuf_new_nm" "strbuf_contents strbuf_new_nm = []"
    by (simp_all add: strbuf_new_nm_def strbuf_new_ok)
  have "sb.fits strbuf_new_nm (8 * length x + 1)" using assms new by (simp add: sb.fits_def)
  from sb.base64_encode_appends [OF this, of cpl] obtain e es where
    e: "base64_encode_bs strbuf_write strbuf_new_nm x cpl = Some e" "strbuf_contents e = es"
      "strip_newlines es = encode_chars x" using new by auto
  then have dec: "decode_bytes es = x" by (intro decode_encoded)
  have "sb.fits strbuf_new_nm (length (decode_bytes es))"
    using assms new dec by (simp add: sb.fits_def)
  from sb.base64_decode_appends [OF this] e dec new show ?thesis
    by (auto simp: base64_encode_sb_def base64_decode_sb_def sb.appends_def)
qed

section \<open>What the encoding promises\<close>

text \<open>
  C28: base64 round trip. Any data, encoded with any line length (or none), is what decoding the
  text gives back, through the string buffers of the real functions.
\<close>

theorem base64_round_trip:
  assumes "8 * length x + 1 < size_max"
  shows "\<exists>e d. base64_encode_sb x cpl = Some e \<and> base64_decode_sb (strbuf_contents e) = Some d \<and>
           strbuf_ok d \<and> strbuf_contents d = x"
  using assms by (rule base64_sb_round_trip)

theorem base64_round_trip_witness:
  "\<exists>e d. base64_encode_sb [0, 255, 7, 9] 4 = Some e \<and> base64_decode_sb (strbuf_contents e) = Some d \<and>
     strbuf_ok d \<and> strbuf_contents d = [0, 255, 7, 9]"
  by (rule base64_round_trip) (simp add: size_max_def)

end
