(* ===== verification/Utf8.thy ===== *)
theory Utf8
  imports Prelude
begin

text \<open>
  UTF-8 (\<^verbatim>\<open>utils/decode_utf8.c\<close>, \<^verbatim>\<open>utils/encode_utf8.c\<close>, and the incremental reader
  and the writer of \<^verbatim>\<open>charset/utf8.c\<close>): decoding inverts encoding, and whatever is decoded
  without an error was encoded in the only legal way.
\<close>

unbundle bit_operations_syntax

section \<open>One character\<close>

text \<open>
  The input is the memory from the pointer on. Reading past its end is undefined; the callers pass
  zero-terminated strings, and a zero is never a continuation byte.
\<close>

fun decode_cont :: "nat \<Rightarrow> uint32 \<Rightarrow> bytes \<Rightarrow> (uint32 option \<times> bytes) option" where
  "decode_cont 0 wc utf8 = Some (Some wc, utf8)"
| "decode_cont (Suc ncont) wc [] = None"
| "decode_cont (Suc ncont) wc (cont # utf8) =
     (if \<not> (0x80 \<le> cont \<and> cont < 0xC0) then Some (None, cont # utf8)
      else decode_cont ncont (push_bit 6 wc OR (ucast cont AND 0x3F)) utf8)"

definition decode_utf8 :: "bytes \<Rightarrow> (uint32 \<times> bytes) option" where
  "decode_utf8 utf8 =
     (case utf8 of
        [] \<Rightarrow> None
      | c # utf8 \<Rightarrow>
          if c < 0x80 then Some (ucast c, utf8)
          else if c < 0xC0 then Some (0xFFFD, utf8)
          else if c \<ge> 0xFE then Some (0xFFFD, utf8)
          else
            let (wc, ncont, least) =
                  (if c < 0xE0 then (ucast c AND 0x1F, 1, 0x80)
                   else if c < 0xF0 then (ucast c AND 0x0F, 2, 0x800)
                   else if c < 0xF8 then (ucast c AND 0x07, 3, 0x10000)
                   else if c < 0xFC then (ucast c AND 0x03, 4, 0x200000)
                   else (ucast c AND 0x01, 5, 0x4000000))
            in case decode_cont ncont wc utf8 of
                 None \<Rightarrow> None
               | Some (None, utf8) \<Rightarrow> Some (0xFFFD, utf8)
               | Some (Some wc, utf8) \<Rightarrow>
                   Some (if wc < least then 0xFFFD
                         else if 0xD800 \<le> wc \<and> wc < 0xE000 then 0xFFFD
                         else if wc > 0x10FFFF then 0xFFFD
                         else wc, utf8))"

definition encode_utf8 :: "uint32 \<Rightarrow> bytes option" where
  "encode_utf8 ch =
     (if ch < 0x80 then Some [ucast ch]
      else if ch < 0x800 then
        Some [ucast (0xC0 OR drop_bit 6 ch), ucast (0x80 OR (ch AND 0x3F))]
      else if ch < 0x10000 then
        Some [ucast (0xE0 OR drop_bit 12 ch), ucast (0x80 OR (drop_bit 6 ch AND 0x3F)),
              ucast (0x80 OR (ch AND 0x3F))]
      else if ch \<le> 0x10FFFF then
        Some [ucast (0xF0 OR drop_bit 18 ch), ucast (0x80 OR (drop_bit 12 ch AND 0x3F)),
              ucast (0x80 OR (drop_bit 6 ch AND 0x3F)), ucast (0x80 OR (ch AND 0x3F))]
      else None)"

section \<open>Reading the bits as numbers\<close>

lemma step_unat:
  assumes "unat w < 2 ^ 26"
  shows "unat (push_bit 6 w OR (ucast (c :: byte) AND 0x3F) :: uint32) = unat w * 64 + unat c mod 64"
proof -
  have w: "unat (push_bit 6 w) = unat w * 2 ^ 6"
    using assms by (subst unsigned_push_bit_eq) (simp add: take_bit_nat_eq_self push_bit_eq_mult)
  have c: "unat (ucast c AND 0x3F :: uint32) = unat c mod 64"
    by (simp only: and_low_bits unat_take_bit unat_ucast_byte) simp
  show ?thesis using unat_or_add [OF w, of "ucast c AND 0x3F"] c w by simp
qed

lemma lead_unat:
  "unat x < 32 \<Longrightarrow> unat (ucast (0xC0 OR x :: uint32) :: byte) = 0xC0 + unat x"
  "unat x < 16 \<Longrightarrow> unat (ucast (0xE0 OR x :: uint32) :: byte) = 0xE0 + unat x"
  "unat x < 8 \<Longrightarrow> unat (ucast (0xF0 OR x :: uint32) :: byte) = 0xF0 + unat x"
  "unat x < 64 \<Longrightarrow> unat (ucast (0x80 OR x :: uint32) :: byte) = 0x80 + unat x"
  using unat_or_add [of "0xC0" 6 5 x] unat_or_add [of "0xE0" 14 4 x] unat_or_add [of "0xF0" 30 3 x]
    unat_or_add [of "0x80" 2 6 x]
  by (simp_all add: unsigned_ucast_eq take_bit_nat_eq_self)

lemma cont_unat: "unat (ucast (0x80 OR (x AND 0x3F) :: uint32) :: byte) = 0x80 + unat x mod 64"
  using lead_unat(4) [of "x AND 0x3F"] by (simp only: and_low_bits unat_take_bit) simp

section \<open>The code points of the bytes\<close>

text \<open>Decoding and encoding as arithmetic on numbers.\<close>

definition scalar :: "nat \<Rightarrow> bool" where
  "scalar n \<longleftrightarrow> n < 0xD800 \<or> 0xE000 \<le> n \<and> n \<le> 0x10FFFF"

definition is_cont :: "byte \<Rightarrow> bool" where
  "is_cont b \<longleftrightarrow> 128 \<le> unat b \<and> unat b < 192"

lemma is_cont_iff: "0x80 \<le> b \<and> b < 0xC0 \<longleftrightarrow> is_cont b"
  by (simp add: is_cont_def word_le_nat_alt word_less_nat_alt)

fun cont_value :: "nat \<Rightarrow> bytes \<Rightarrow> nat" where
  "cont_value n [] = n"
| "cont_value n (b # bs) = cont_value (n * 64 + unat b mod 64) bs"

lemma decode_cont_full:
  assumes "\<forall>b\<in>set cs. is_cont b" and "(unat w + 1) * 64 ^ length cs \<le> 2 ^ 32"
  shows "\<exists>v. decode_cont (length cs) w (cs @ rest) = Some (Some v, rest) \<and> unat v = cont_value (unat w) cs"
  using assms
proof (induction cs arbitrary: w)
  case (Cons c cs)
  let ?w = "push_bit 6 w OR (ucast c AND 0x3F)"
  have "(unat w + 1) * 64 * 1 \<le> (unat w + 1) * 64 * 64 ^ length cs" by (intro mult_le_mono2) simp
  also have "\<dots> \<le> 2 ^ 32" using Cons.prems(2) by (simp add: algebra_simps)
  finally have "unat w < 2 ^ 26" by simp
  then have w: "unat ?w = unat w * 64 + unat c mod 64" by (rule step_unat)
  then have "unat ?w + 1 \<le> (unat w + 1) * 64" using mod_less_divisor [of 64 "unat c"] by simp
  then have "(unat ?w + 1) * 64 ^ length cs \<le> (unat w + 1) * 64 * 64 ^ length cs" by (rule mult_le_mono1)
  then have "(unat ?w + 1) * 64 ^ length cs \<le> 2 ^ 32" using Cons.prems(2) by (simp add: algebra_simps)
  moreover have "\<not> \<not> (0x80 \<le> c \<and> c < 0xC0)" using Cons.prems(1) is_cont_iff [of c] by simp
  ultimately show ?case using Cons.IH [of ?w] Cons.prems(1) w by simp
qed simp

text \<open>What the loop returns tells which bytes it read.\<close>

lemma decode_cont_shape:
  "decode_cont n w bs = Some (Some v, rest) \<Longrightarrow>
     \<exists>cs. bs = cs @ rest \<and> length cs = n \<and> (\<forall>b\<in>set cs. is_cont b)"
proof (induction n w bs rule: decode_cont.induct)
  case (3 n w c bs)
  then obtain cs where "bs = cs @ rest" "length cs = n" "\<forall>b\<in>set cs. is_cont b" "is_cont c"
    by (auto split: if_splits simp: is_cont_iff)
  then show ?case by (intro exI [of _ "c # cs"]) simp
qed auto

text \<open>Lead bytes: how many bytes follow, the bits they carry, and the least legal value.\<close>

definition lead_class :: "nat \<Rightarrow> (nat \<times> nat \<times> nat) option" where
  "lead_class c =
     (if c < 0xC0 then None
      else if c < 0xE0 then Some (c - 0xC0, 1, 0x80)
      else if c < 0xF0 then Some (c - 0xE0, 2, 0x800)
      else if c < 0xF8 then Some (c - 0xF0, 3, 0x10000)
      else if c < 0xFC then Some (c - 0xF8, 4, 0x200000)
      else if c < 0xFE then Some (c - 0xFC, 5, 0x4000000)
      else None)"

lemma mod_range: "\<lbrakk>a * m \<le> x; x < a * m + m\<rbrakk> \<Longrightarrow> x mod m = x - a * m" for x :: nat
proof -
  assume a: "a * m \<le> x" "x < a * m + m"
  then obtain r where "x = a * m + r" by (metis le_Suc_ex)
  with a(2) show ?thesis by simp
qed

lemma lead_bits:
  fixes c :: byte
  shows "0xC0 \<le> unat c \<Longrightarrow> unat c < 0xE0 \<Longrightarrow> unat (ucast c AND 0x1F :: uint32) = unat c - 0xC0"
    "0xE0 \<le> unat c \<Longrightarrow> unat c < 0xF0 \<Longrightarrow> unat (ucast c AND 0x0F :: uint32) = unat c - 0xE0"
    "0xF0 \<le> unat c \<Longrightarrow> unat c < 0xF8 \<Longrightarrow> unat (ucast c AND 0x07 :: uint32) = unat c - 0xF0"
    "0xF8 \<le> unat c \<Longrightarrow> unat c < 0xFC \<Longrightarrow> unat (ucast c AND 0x03 :: uint32) = unat c - 0xF8"
    "0xFC \<le> unat c \<Longrightarrow> unat c < 0xFE \<Longrightarrow> unat (ucast c AND 0x01 :: uint32) = unat c - 0xFC"
  unfolding and_low_bits unat_take_bit unat_ucast_byte
  using mod_range [of 6 32 "unat c"] mod_range [of 14 16 "unat c"] mod_range [of 30 8 "unat c"]
    mod_range [of 62 4 "unat c"] mod_range [of 126 2 "unat c"]
  by simp_all

definition decode_rest :: "uint32 \<Rightarrow> nat \<Rightarrow> nat \<Rightarrow> bytes \<Rightarrow> (uint32 \<times> bytes) option" where
  "decode_rest w n least bs =
     (case decode_cont n w bs of
        None \<Rightarrow> None
      | Some (None, bs) \<Rightarrow> Some (0xFFFD, bs)
      | Some (Some v, bs) \<Rightarrow> Some (if unat v < least \<or> \<not> scalar (unat v) then 0xFFFD else v, bs))"

lemma lead_class_bits:
  "lead_class (unat c) = Some (w, n, least) \<Longrightarrow> (w + 1) * 64 ^ n \<le> 2 ^ 31 \<and> n \<le> 5"
  by (auto simp: lead_class_def split: if_splits)

lemma decode_utf8_class:
  "decode_utf8 (c # bs) =
     (if unat c < 0x80 then Some (ucast c, bs)
      else case lead_class (unat c) of
             None \<Rightarrow> Some (0xFFFD, bs)
           | Some (w, n, least) \<Rightarrow> decode_rest (word_of_nat w) n least bs)"
proof -
  have w: "word_of_nat (unat x) = x" for x :: uint32 by simp
  consider "unat c < 0xC0" | "0xC0 \<le> unat c" "unat c < 0xE0" | "0xE0 \<le> unat c" "unat c < 0xF0"
    | "0xF0 \<le> unat c" "unat c < 0xF8" | "0xF8 \<le> unat c" "unat c < 0xFC"
    | "0xFC \<le> unat c" "unat c < 0xFE" | "0xFE \<le> unat c" by linarith
  then show ?thesis
  proof cases
    case 1
    then show ?thesis by (simp add: decode_utf8_def lead_class_def word_less_nat_alt)
  next
    case 2
    then have "word_of_nat (unat c - 0xC0) = (ucast c AND 0x1F :: uint32)" using lead_bits(1) [of c] w by metis
    with 2 show ?thesis
      by (auto simp: decode_utf8_def lead_class_def decode_rest_def scalar_def word_less_nat_alt
          word_le_nat_alt split: option.splits)
  next
    case 3
    then have "word_of_nat (unat c - 0xE0) = (ucast c AND 0x0F :: uint32)" using lead_bits(2) [of c] w by metis
    with 3 show ?thesis
      by (auto simp: decode_utf8_def lead_class_def decode_rest_def scalar_def word_less_nat_alt
          word_le_nat_alt split: option.splits)
  next
    case 4
    then have "word_of_nat (unat c - 0xF0) = (ucast c AND 0x07 :: uint32)" using lead_bits(3) [of c] w by metis
    with 4 show ?thesis
      by (auto simp: decode_utf8_def lead_class_def decode_rest_def scalar_def word_less_nat_alt
          word_le_nat_alt split: option.splits)
  next
    case 5
    then have "word_of_nat (unat c - 0xF8) = (ucast c AND 0x03 :: uint32)" using lead_bits(4) [of c] w by metis
    with 5 show ?thesis
      by (auto simp: decode_utf8_def lead_class_def decode_rest_def scalar_def word_less_nat_alt
          word_le_nat_alt split: option.splits)
  next
    case 6
    then have "word_of_nat (unat c - 0xFC) = (ucast c AND 0x01 :: uint32)" using lead_bits(5) [of c] w by metis
    with 6 show ?thesis
      by (auto simp: decode_utf8_def lead_class_def decode_rest_def scalar_def word_less_nat_alt
          word_le_nat_alt split: option.splits)
  next
    case 7
    then show ?thesis by (simp add: decode_utf8_def lead_class_def word_less_nat_alt word_le_nat_alt)
  qed
qed

section \<open>Decoding and encoding are inverse\<close>

definition enc_nums :: "nat \<Rightarrow> nat list" where
  "enc_nums n =
     (if n < 0x80 then [n]
      else if n < 0x800 then [0xC0 + n div 64, 0x80 + n mod 64]
      else if n < 0x10000 then [0xE0 + n div 4096, 0x80 + n div 64 mod 64, 0x80 + n mod 64]
      else [0xF0 + n div 262144, 0x80 + n div 4096 mod 64, 0x80 + n div 64 mod 64, 0x80 + n mod 64])"

lemma encode_nums:
  assumes "unat ch \<le> 0x10FFFF"
  shows "\<exists>bs. encode_utf8 ch = Some bs \<and> map unat bs = enc_nums (unat ch)"
proof -
  have d: "unat (drop_bit 6 ch) = unat ch div 64" "unat (drop_bit 12 ch) = unat ch div 4096"
    "unat (drop_bit 18 ch) = unat ch div 262144"
    using unat_drop [of 6 ch] unat_drop [of 12 ch] unat_drop [of 18 ch] by simp_all
  consider "unat ch < 0x80" | "0x80 \<le> unat ch" "unat ch < 0x800" | "0x800 \<le> unat ch" "unat ch < 0x10000"
    | "0x10000 \<le> unat ch" by linarith
  then show ?thesis
  proof cases
    case 1
    then have "unat (ucast ch :: byte) = unat ch" by (simp add: unsigned_ucast_eq take_bit_nat_eq_self)
    with 1 show ?thesis by (simp add: encode_utf8_def enc_nums_def word_less_nat_alt)
  next
    case 2
    then have "unat (drop_bit 6 ch) < 32" unfolding d by (simp add: div_less_iff_less_mult)
    from lead_unat(1) [OF this] 2 show ?thesis
      by (simp add: encode_utf8_def enc_nums_def word_less_nat_alt cont_unat d)
  next
    case 3
    then have "unat (drop_bit 12 ch) < 16" unfolding d by (simp add: div_less_iff_less_mult)
    from lead_unat(2) [OF this] 3 show ?thesis
      by (simp add: encode_utf8_def enc_nums_def word_less_nat_alt cont_unat d)
  next
    case 4
    then have "unat (drop_bit 18 ch) < 8" unfolding d using assms by (simp add: div_less_iff_less_mult)
    from lead_unat(3) [OF this] 4 assms show ?thesis
      by (simp add: encode_utf8_def enc_nums_def word_less_nat_alt word_le_nat_alt cont_unat d)
  qed
qed

lemma word_of_unat_eq: "unat v = n \<Longrightarrow> v = word_of_nat n" for v :: uint32
  by auto

lemma scalar_max: "scalar n \<Longrightarrow> n \<le> 0x10FFFF"
  by (auto simp: scalar_def)

text \<open>A lead byte and its continuation bytes decode to the number they spell.\<close>

lemma mod_128_add [simp]: "(128 + y) mod 64 = y mod 64" for y :: nat
  using mod_mult_self3 [of 2 64 y] by simp

lemma decode_spelled:
  assumes "0x80 \<le> unat c" and "lead_class (unat c) = Some (w, length cs, least)" and "\<forall>b\<in>set cs. is_cont b"
    and "scalar (unat ch)" and "cont_value w cs = unat ch" and "least \<le> unat ch"
  shows "decode_utf8 (c # cs @ rest) = Some (ch, rest)"
proof -
  from lead_class_bits [OF assms(2)] have b: "(w + 1) * 64 ^ length cs \<le> 2 ^ 31" by simp
  have "(w + 1) * 1 \<le> (w + 1) * 64 ^ length cs" by (intro mult_le_mono2) simp
  with b have "w + 1 \<le> 2 ^ 31" by (metis mult_1_right order_trans)
  then have "w < 2 ^ 32" by simp
  then have w: "unat (word_of_nat w :: uint32) = w" by (simp add: unat_of_nat take_bit_nat_eq_self)
  from decode_cont_full [OF assms(3), of "word_of_nat w" rest] b w obtain v where
    v: "decode_cont (length cs) (word_of_nat w) (cs @ rest) = Some (Some v, rest)" "unat v = unat ch"
    using assms(5) by auto
  then have "v = ch" by (metis word_of_unat_eq)
  with v(1) assms(1,2,4,6) show ?thesis by (simp add: decode_utf8_class decode_rest_def)
qed

lemma div_64_twice: "k div 4096 = k div 64 div 64" "k div 262144 = k div 64 div 64 div 64" for k :: nat
  by (simp_all only: div_mult2_eq [symmetric]) simp_all

lemma join_64: "k div 64 * 64 + k mod 64 = k" for k :: nat
  by simp

lemma decode_encode:
  assumes "scalar (unat ch)"
  shows "\<exists>bs. encode_utf8 ch = Some bs \<and> decode_utf8 (bs @ rest) = Some (ch, rest)"
proof -
  let ?n = "unat ch"
  from assms have le: "?n \<le> 0x10FFFF" by (rule scalar_max)
  from encode_nums [OF this] obtain bs where bs: "encode_utf8 ch = Some bs" "map unat bs = enc_nums ?n" by blast
  consider "?n < 0x80" | "0x80 \<le> ?n" "?n < 0x800" | "0x800 \<le> ?n" "?n < 0x10000"
    | "0x10000 \<le> ?n" by linarith
  then have "decode_utf8 (bs @ rest) = Some (ch, rest)"
  proof cases
    case 1
    with bs(2) obtain b where b: "bs = [b]" "unat b = ?n" by (auto simp: enc_nums_def)
    then have "unat (ucast b :: uint32) = ?n" by (simp only: unat_ucast_byte)
    from word_of_unat_eq [OF this] have "(ucast b :: uint32) = ch" by simp
    with b 1 show ?thesis by (simp add: decode_utf8_class)
  next
    case 2
    with bs(2) obtain b c where b: "bs = [b, c]" "unat b = 0xC0 + ?n div 64" "unat c = 0x80 + ?n mod 64"
      by (auto simp: enc_nums_def)
    moreover have "?n div 64 < 32" using 2 by (simp add: div_less_iff_less_mult)
    ultimately show ?thesis
      using decode_spelled [of b "?n div 64" "[c]" "0x80" ch rest] 2 assms
      by (simp add: lead_class_def is_cont_def)
  next
    case 3
    with bs(2) obtain b c d where b: "bs = [b, c, d]" "unat b = 0xE0 + ?n div 4096"
      "unat c = 0x80 + ?n div 64 mod 64" "unat d = 0x80 + ?n mod 64"
      by (auto simp: enc_nums_def)
    moreover have "?n div 4096 < 16" using 3 by (simp add: div_less_iff_less_mult)
    moreover have "(?n div 4096 * 64 + ?n div 64 mod 64) * 64 + ?n mod 64 = ?n"
      unfolding div_64_twice join_64 by (rule refl)
    ultimately show ?thesis
      using decode_spelled [of b "?n div 4096" "[c, d]" "0x800" ch rest] 3 assms
      by (simp add: lead_class_def is_cont_def numeral_2_eq_2)
  next
    case 4
    with bs(2) obtain b c d e where b: "bs = [b, c, d, e]" "unat b = 0xF0 + ?n div 262144"
      "unat c = 0x80 + ?n div 4096 mod 64" "unat d = 0x80 + ?n div 64 mod 64" "unat e = 0x80 + ?n mod 64"
      by (auto simp: enc_nums_def)
    moreover have "?n div 262144 < 8" using le by (simp add: div_less_iff_less_mult)
    moreover have "((?n div 262144 * 64 + ?n div 4096 mod 64) * 64 + ?n div 64 mod 64) * 64 + ?n mod 64 = ?n"
      unfolding div_64_twice join_64 by (rule refl)
    ultimately show ?thesis
      using decode_spelled [of b "?n div 262144" "[c, d, e]" "0x10000" ch rest] 4 assms
      by (simp add: lead_class_def is_cont_def numeral_3_eq_3)
  qed
  with bs(1) show ?thesis by blast
qed

text \<open>Anything that decodes to something else than the replacement character is the legal encoding.\<close>

lemma map_unat_inj: "map unat bs = map unat cs \<Longrightarrow> bs = (cs :: bytes)"
  by (metis inj_map_eq_map inj_onI word_unat_eq_iff)

lemma spelled_nums:
  assumes "lead_class (unat c) = Some (w, length cs, least)" and "\<forall>b\<in>set cs. is_cont b"
    and "least \<le> cont_value w cs" and "cont_value w cs \<le> 0x10FFFF"
  shows "enc_nums (cont_value w cs) = map unat (c # cs)"
proof -
  have cont: "unat b = 128 + unat b mod 64 \<and> unat b mod 64 < 64" if "is_cont b" for b
    using that mod_range [of 2 64 "unat b"] by (simp add: is_cont_def)
  from assms(1) consider
      "0xC0 \<le> unat c" "unat c < 0xE0" "w = unat c - 0xC0" "length cs = 1" "least = 0x80"
    | "0xE0 \<le> unat c" "unat c < 0xF0" "w = unat c - 0xE0" "length cs = 2" "least = 0x800"
    | "0xF0 \<le> unat c" "unat c < 0xF8" "w = unat c - 0xF0" "length cs = 3" "least = 0x10000"
    | "0x10FFFF < least"
    by (auto simp: lead_class_def split: if_splits)
  then show ?thesis
  proof cases
    case 1
    then obtain x where cs: "cs = [x]" by (auto simp: length_Suc_conv)
    with assms(2) cont have x: "unat x = 128 + unat x mod 64" "unat x mod 64 < 64" by auto
    define y where "y = unat x mod 64"
    have v: "cont_value w cs = w * 64 + y" by (simp add: cs y_def)
    have x: "unat x = 128 + y" "y < 64" using x by (simp_all add: y_def)
    have c: "unat c = 192 + w" "w < 32" using 1 by linarith+
    have "\<not> w * 64 + y < 0x80" "w * 64 + y < 0x800" using assms(3) 1 c x v by linarith+
    moreover have "(w * 64 + y) div 64 = w" using x(2) by simp
    ultimately show ?thesis using x c unfolding v unfolding enc_nums_def cs by (simp del: distrib_right_numeral distrib_left_numeral)
  next
    case 2
    then obtain x1 x2 where cs: "cs = [x1, x2]" by (auto simp: length_Suc_conv numeral_2_eq_2)
    define y1 y2 where "y1 = unat x1 mod 64" and "y2 = unat x2 mod 64"
    have x: "unat x1 = 128 + y1" "y1 < 64" "unat x2 = 128 + y2" "y2 < 64"
      using assms(2) cont by (auto simp: cs y1_def y2_def)
    have v: "cont_value w cs = (w * 64 + y1) * 64 + y2" by (simp add: cs y1_def y2_def)
    have c: "unat c = 224 + w" "w < 16" using 2 by linarith+
    have "w * 64 + y1 \<le> 1023" using c(2) x(2) by linarith
    then have "(w * 64 + y1) * 64 \<le> 1023 * 64" by (rule mult_le_mono1)
    then have "(w * 64 + y1) * 64 + y2 < 0x10000" using x(4) by linarith
    moreover have "\<not> (w * 64 + y1) * 64 + y2 < 0x800" using assms(3) 2 v by linarith
    moreover have "((w * 64 + y1) * 64 + y2) div 64 = w * 64 + y1"
      "((w * 64 + y1) * 64 + y2) mod 64 = y2" using x(4) by (simp_all only: div_mult_self3 mod_mult_self3) simp_all
    moreover have "((w * 64 + y1) * 64 + y2) div 4096 = w" using x(2,4) by (simp add: div_64_twice)
    ultimately show ?thesis using x c unfolding v unfolding enc_nums_def cs by (simp del: distrib_right_numeral distrib_left_numeral)
  next
    case 3
    then obtain x1 x2 x3 where cs: "cs = [x1, x2, x3]" by (auto simp: length_Suc_conv numeral_3_eq_3)
    define y1 y2 y3 where "y1 = unat x1 mod 64" and "y2 = unat x2 mod 64" and "y3 = unat x3 mod 64"
    have x: "unat x1 = 128 + y1" "y1 < 64" "unat x2 = 128 + y2" "y2 < 64" "unat x3 = 128 + y3" "y3 < 64"
      using assms(2) cont by (auto simp: cs y1_def y2_def y3_def)
    have v: "cont_value w cs = ((w * 64 + y1) * 64 + y2) * 64 + y3" by (simp add: cs y1_def y2_def y3_def)
    have c: "unat c = 240 + w" using 3 by linarith
    have "\<not> ((w * 64 + y1) * 64 + y2) * 64 + y3 < 0x10000"
      using assms(3) 3 c x v by linarith
    moreover have "(((w * 64 + y1) * 64 + y2) * 64 + y3) div 64 = (w * 64 + y1) * 64 + y2"
      "(((w * 64 + y1) * 64 + y2) * 64 + y3) mod 64 = y3" using x(6)
      by (simp_all only: div_mult_self3 mod_mult_self3) simp_all
    moreover have "(((w * 64 + y1) * 64 + y2) * 64 + y3) div 4096 = w * 64 + y1" using x(4,6) by (simp add: div_64_twice)
    moreover have "(((w * 64 + y1) * 64 + y2) * 64 + y3) div 262144 = w" using x(2,4,6) by (simp add: div_64_twice)
    ultimately show ?thesis using x c unfolding v unfolding enc_nums_def cs by (simp del: distrib_right_numeral distrib_left_numeral)
  next
    case 4
    with assms(3,4) show ?thesis by linarith
  qed
qed

lemma decode_canonical:
  assumes "decode_utf8 bs = Some (ch, rest)" and "ch \<noteq> 0xFFFD"
  shows "\<exists>e. encode_utf8 ch = Some e \<and> bs = e @ rest \<and> scalar (unat ch)"
proof -
  from assms(1) obtain c bs' where bs: "bs = c # bs'" by (cases bs) (auto simp: decode_utf8_def)
  show ?thesis
  proof (cases "unat c < 0x80")
    case True
    with assms(1) bs have ch: "ch = ucast c" "rest = bs'" by (simp_all add: decode_utf8_class)
    then have n: "unat ch = unat c" by (simp only: unat_ucast_byte)
    from encode_nums [of ch] n True obtain e where "encode_utf8 ch = Some e" "map unat e = [unat c]"
      by (auto simp: enc_nums_def)
    moreover from this(2) have "e = [c]" by (intro map_unat_inj) simp
    ultimately show ?thesis using bs ch n True by (simp add: scalar_def)
  next
    case False
    with assms bs obtain w n least where l: "lead_class (unat c) = Some (w, n, least)"
      "decode_rest (word_of_nat w) n least bs' = Some (ch, rest)"
      by (auto simp: decode_utf8_class split: option.splits)
    with assms(2) have d: "decode_cont n (word_of_nat w) bs' = Some (Some ch, rest)"
      "least \<le> unat ch" "scalar (unat ch)"
      by (auto simp: decode_rest_def split: option.splits if_splits)
    from decode_cont_shape [OF d(1)] obtain cs where
      cs: "bs' = cs @ rest" "length cs = n" "\<forall>b\<in>set cs. is_cont b" by blast
    from lead_class_bits [OF l(1)] have b: "(w + 1) * 64 ^ length cs \<le> 2 ^ 31" using cs(2) by simp
    have "(w + 1) * 1 \<le> (w + 1) * 64 ^ length cs" by (intro mult_le_mono2) simp
    with b have "w + 1 \<le> 2 ^ 31" by (metis mult_1_right order_trans)
    then have "w < 2 ^ 32" by simp
    then have w: "unat (word_of_nat w :: uint32) = w" by (simp add: unat_of_nat take_bit_nat_eq_self)
    from decode_cont_full [OF cs(3), of "word_of_nat w" rest] b w d(1) cs
    have v: "cont_value w cs = unat ch" by auto
    have "enc_nums (unat ch) = map unat (c # cs)"
      using spelled_nums [of c w cs least] l(1) cs d(2,3) scalar_max v by simp
    moreover from encode_nums [OF scalar_max [OF d(3)]] obtain e where
      "encode_utf8 ch = Some e" "map unat e = enc_nums (unat ch)" by blast
    ultimately have "encode_utf8 ch = Some (c # cs)" using map_unat_inj by metis
    with bs cs(1) d(3) show ?thesis by simp
  qed
qed

text \<open>Decoding always makes progress, and only ever gives scalar values.\<close>

lemma decode_cont_rest: "decode_cont n w bs = Some (r, rest) \<Longrightarrow> length rest \<le> length bs"
  by (induction n w bs rule: decode_cont.induct) (auto split: if_splits)

lemma decode_progress:
  assumes "decode_utf8 bs = Some (ch, rest)"
  shows "length rest < length bs \<and> scalar (unat ch)"
proof -
  from assms obtain c bs' where bs: "bs = c # bs'" by (cases bs) (auto simp: decode_utf8_def)
  have r: "scalar (unat (0xFFFD :: uint32))" by (simp add: scalar_def)
  have s: "scalar (unat (ucast c :: uint32))" if "unat c < 0x80"
    unfolding unat_ucast_byte using that by (simp add: scalar_def)
  from assms bs r s show ?thesis
    by (auto simp: decode_utf8_class decode_rest_def dest!: decode_cont_rest
        split: if_splits option.splits)
qed
text \<open>Before a terminating zero a sequence ends at the latest at the zero, which is not consumed.\<close>

lemma decode_cont_terminated:
  "0 \<notin> set s \<Longrightarrow> \<exists>r k. decode_cont n w (s @ 0 # junk) = Some (r, drop k s @ 0 # junk) \<and> k \<le> n \<and> k \<le> length s"
proof (induction n arbitrary: w s)
  case 0
  then show ?case by (intro exI [of _ "Some w"] exI [of _ 0]) simp
next
  case (Suc n)
  show ?case
  proof (cases s)
    case Nil
    then show ?thesis by (intro exI [of _ None] exI [of _ 0]) simp
  next
    case (Cons c s')
    show ?thesis
    proof (cases "0x80 \<le> c \<and> c < 0xC0")
      case True
      from Suc.prems Cons have "0 \<notin> set s'" by simp
      from Suc.IH [OF this] obtain r k where
        "decode_cont n (push_bit 6 w OR (ucast c AND 0x3F)) (s' @ 0 # junk) = Some (r, drop k s' @ 0 # junk)"
        "k \<le> n" "k \<le> length s'" by blast
      then show ?thesis using True Cons by (intro exI [of _ r] exI [of _ "Suc k"]) simp
    next
      case False
      then show ?thesis using Cons by (intro exI [of _ None] exI [of _ 0]) auto
    qed
  qed
qed

lemma decode_terminated:
  assumes "s \<noteq> []" "0 \<notin> set s"
  shows "\<exists>ch k. decode_utf8 (s @ 0 # junk) = Some (ch, drop k s @ 0 # junk) \<and> 0 < k \<and> k \<le> 6 \<and> k \<le> length s \<and> ch \<noteq> 0"
proof -
  obtain c s' where s: "s = c # s'" using assms(1) by (cases s) auto
  have c: "c \<noteq> 0" "0 \<notin> set s'" using assms(2) s by auto
  consider "c < 0x80" | "0x80 \<le> c" "c < 0xC0 \<or> 0xFE \<le> c" | "0xC0 \<le> c" "c < 0xFE" by fastforce
  then show ?thesis
  proof cases
    case 1
    have "unat (ucast c :: uint32) = unat c" by (rule unat_ucast_byte)
    then have "(ucast c :: uint32) \<noteq> 0" using c(1) by (metis unsigned_eq_0_iff)
    then show ?thesis using 1 s by (intro exI [of _ "ucast c"] exI [of _ 1]) (simp add: decode_utf8_def)
  next
    case 2
    then show ?thesis using s by (intro exI [of _ "0xFFFD"] exI [of _ 1]) (auto simp: decode_utf8_def)
  next
    case 3
    define t :: "uint32 \<times> nat \<times> uint32" where
      "t = (if c < 0xE0 then (ucast c AND 0x1F, 1, 0x80)
            else if c < 0xF0 then (ucast c AND 0x0F, 2, 0x800)
            else if c < 0xF8 then (ucast c AND 0x07, 3, 0x10000)
            else if c < 0xFC then (ucast c AND 0x03, 4, 0x200000)
            else (ucast c AND 0x01, 5, 0x4000000))"
    obtain wc n least where t: "t = (wc, n, least)" by (metis prod_cases3)
    then have n: "n \<le> 5" "0 < least" by (auto simp: t_def split: if_splits)
    from decode_cont_terminated [OF c(2), of n wc junk] obtain r k where
      k: "decode_cont n wc (s' @ 0 # junk) = Some (r, drop k s' @ 0 # junk)" "k \<le> n" "k \<le> length s'" by blast
    have d: "decode_utf8 (s @ 0 # junk) = Some (case r of None \<Rightarrow> 0xFFFD | Some wc \<Rightarrow>
        (if wc < least then 0xFFFD else if 0xD800 \<le> wc \<and> wc < 0xE000 then 0xFFFD
         else if wc > 0x10FFFF then 0xFFFD else wc), drop (Suc k) s @ 0 # junk)"
    proof -
      have g: "\<not> c < 0x80" "\<not> c < 0xC0" "\<not> c \<ge> 0xFE" using 3 by (auto simp: word_less_nat_alt word_le_nat_alt)
      show ?thesis
        by (simp only: decode_utf8_def s append_Cons list.case g if_False t_def [symmetric] t Let_def prod.case k(1) option.case
            drop_Suc_Cons) (cases r; simp)
    qed
    have "(case r of None \<Rightarrow> 0xFFFD | Some wc \<Rightarrow>
        (if wc < least then 0xFFFD else if 0xD800 \<le> wc \<and> wc < 0xE000 then 0xFFFD
         else if wc > 0x10FFFF then 0xFFFD else wc)) \<noteq> 0"
      using n(2) by (auto split: option.split)
    with d k n show ?thesis by (intro exI conjI) (assumption | simp add: s)+
  qed
qed

section \<open>What the functions promise\<close>

text \<open>
  C29: every Unicode scalar value is encoded, and decoding the encoding, whatever follows it, gives
  the value back and leaves what follows.
\<close>

theorem utf8_round_trip:
  assumes "unat ch < 0xD800 \<or> 0xE000 \<le> unat ch \<and> unat ch \<le> 0x10FFFF"
  shows "\<exists>bs. encode_utf8 ch = Some bs \<and> decode_utf8 (bs @ rest) = Some (ch, rest)"
  using assms by (intro decode_encode) (simp add: scalar_def)

theorem utf8_round_trip_witness:
  "\<exists>bs. encode_utf8 0x20AC = Some bs \<and> decode_utf8 (bs @ [65]) = Some (0x20AC, [65])"
  by (rule utf8_round_trip) simp

text \<open>
  C30: the decoder accepts only the shortest form. When it returns a character other than the
  replacement character, the bytes it consumed are exactly the encoding of that character: no
  overlong form, surrogate or value above U+10FFFF gets through.
\<close>

theorem utf8_only_canonical:
  assumes "decode_utf8 bs = Some (ch, rest)" and "ch \<noteq> 0xFFFD"
  shows "\<exists>e. encode_utf8 ch = Some e \<and> bs = e @ rest \<and>
           (unat ch < 0xD800 \<or> 0xE000 \<le> unat ch \<and> unat ch \<le> 0x10FFFF)"
  using decode_canonical [OF assms] by (simp add: scalar_def)

theorem utf8_only_canonical_witness:
  "\<exists>e. encode_utf8 0xE9 = Some e \<and> [0xC3, 0xA9, 66] = e @ [66]"
proof -
  have "decode_utf8 [0xC3, 0xA9, 66] = Some (0xE9, [66])" by code_simp
  from utf8_only_canonical [OF this] show ?thesis by auto
qed

text \<open>
  C31: on a zero-terminated string decoding always returns, consumes at least one and at most six
  bytes of the string and never reads past the terminator or consumes it; what it returns is a Unicode
  scalar value other than zero. So a loop that decodes up to the terminator ends exactly there.
\<close>

theorem utf8_decode_progress:
  assumes "s \<noteq> []" "0 \<notin> set s"
  shows "\<exists>ch k. decode_utf8 (s @ 0 # junk) = Some (ch, drop k s @ 0 # junk) \<and> 0 < k \<and> k \<le> 6 \<and> k \<le> length s \<and>
    ch \<noteq> 0 \<and> (unat ch < 0xD800 \<or> 0xE000 \<le> unat ch \<and> unat ch \<le> 0x10FFFF)"
proof -
  from decode_terminated [OF assms, of junk] obtain ch k where
    d: "decode_utf8 (s @ 0 # junk) = Some (ch, drop k s @ 0 # junk)" "0 < k" "k \<le> 6" "k \<le> length s" "ch \<noteq> 0" by blast
  with decode_progress [OF d(1)] show ?thesis by (auto simp: scalar_def)
qed

theorem utf8_decode_progress_witness:
  "\<exists>ch k. decode_utf8 ([0xE2, 0x82] @ [0, 0xAC]) = Some (ch, drop k [0xE2, 0x82] @ [0, 0xAC]) \<and>
     0 < k \<and> k \<le> 6 \<and> k \<le> length [0xE2, 0x82 :: byte] \<and> ch \<noteq> 0 \<and>
     (unat ch < 0xD800 \<or> 0xE000 \<le> unat ch \<and> unat ch \<le> 0x10FFFF)"
  by (rule utf8_decode_progress) simp_all

end
