(* ===== verification/Utf8_Stream.thy ===== *)
theory Utf8_Stream
  imports Utf8
begin

text \<open>
  The incremental UTF-8 converters of \<^verbatim>\<open>charset/utf8.c\<close>: the reader keeps the expected and seen
  byte counts and the bits so far in one state word; the writer covers the whole 31-bit range.
\<close>

unbundle bit_operations_syntax

section \<open>The converters\<close>

text \<open>\<^verbatim>\<open>ERROR\<close> is passed to \<^verbatim>\<open>emit\<close> like a character; the result lists what is emitted.\<close>

definition ERROR :: uint32 where "ERROR = 0xFFFF"

definition finish_utf8 :: "uint32 \<Rightarrow> uint32 \<Rightarrow> uint32" where
  "finish_utf8 charval bytes =
     (if charval \<ge> 0xD800 \<and> charval < 0xE000 then ERROR
      else if charval = 0xFFFE \<or> charval = 0xFFFF then ERROR
      else if charval \<le> 0x7F \<or> charval \<le> 0x7FF \<and> bytes > 2 \<or> charval \<le> 0xFFFF \<and> bytes > 3 \<or>
              charval \<le> 0x1FFFFF \<and> bytes > 4 \<or> charval \<le> 0x3FFFFFF \<and> bytes > 5 then ERROR
      else charval)"

definition read_utf8 :: "byte \<Rightarrow> uint32 \<Rightarrow> uint32 list \<times> uint32" where
  "read_utf8 input_chr s0 =
     (if input_chr < 0x80 then ((if s0 \<noteq> 0 then [ERROR] else []) @ [ucast input_chr], 0)
      else if input_chr = 0xFE \<or> input_chr = 0xFF then
        ((if s0 \<noteq> 0 then [ERROR] else []) @ [ERROR], 0)
      else if input_chr \<ge> 0x80 \<and> input_chr < 0xC0 then
        (if s0 = 0 then ([ERROR], s0)
         else
           let charval = push_bit 6 (s0 AND 0x03ffffff) OR (ucast input_chr AND 0x3F);
               topstuff = (s0 AND 0xfc000000) + 0x04000000
           in if (push_bit 3 topstuff XOR topstuff) AND 0xe0000000 \<noteq> 0
              then ([], topstuff OR charval)
              else ([finish_utf8 charval (drop_bit 29 topstuff)], 0))
      else
        (if s0 \<noteq> 0 then [ERROR] else [],
         if input_chr \<ge> 0xC0 \<and> input_chr < 0xE0 then 0x44000000 OR (ucast input_chr AND 0x1F)
         else if input_chr \<ge> 0xE0 \<and> input_chr < 0xF0 then 0x64000000 OR (ucast input_chr AND 0x0F)
         else if input_chr \<ge> 0xF0 \<and> input_chr < 0xF8 then 0x84000000 OR (ucast input_chr AND 0x07)
         else if input_chr \<ge> 0xF8 \<and> input_chr < 0xFC then 0xa4000000 OR (ucast input_chr AND 0x03)
         else if input_chr \<ge> 0xFC \<and> input_chr < 0xFE then 0xc4000000 OR (ucast input_chr AND 0x01)
         else s0))"

text \<open>The code points are those of the 31-bit range, so the signed comparisons are unsigned ones.\<close>

definition write_utf8 :: "uint32 \<Rightarrow> uint32 list" where
  "write_utf8 input_chr =
     (if input_chr = 0xFFFE \<or> input_chr = 0xFFFF \<or> input_chr \<ge> 0xD800 \<and> input_chr < 0xE000 then [ERROR]
      else if input_chr < 0x80 then [input_chr]
      else if input_chr < 0x800 then
        [0xC0 OR (0x1F AND drop_bit 6 input_chr), 0x80 OR (0x3F AND input_chr)]
      else if input_chr < 0x10000 then
        [0xE0 OR (0x0F AND drop_bit 12 input_chr), 0x80 OR (0x3F AND drop_bit 6 input_chr),
         0x80 OR (0x3F AND input_chr)]
      else if input_chr < 0x200000 then
        [0xF0 OR (0x07 AND drop_bit 18 input_chr), 0x80 OR (0x3F AND drop_bit 12 input_chr),
         0x80 OR (0x3F AND drop_bit 6 input_chr), 0x80 OR (0x3F AND input_chr)]
      else if input_chr < 0x4000000 then
        [0xF8 OR (0x03 AND drop_bit 24 input_chr), 0x80 OR (0x3F AND drop_bit 18 input_chr),
         0x80 OR (0x3F AND drop_bit 12 input_chr), 0x80 OR (0x3F AND drop_bit 6 input_chr),
         0x80 OR (0x3F AND input_chr)]
      else
        [0xFC OR (0x01 AND drop_bit 30 input_chr), 0x80 OR (0x3F AND drop_bit 24 input_chr),
         0x80 OR (0x3F AND drop_bit 18 input_chr), 0x80 OR (0x3F AND drop_bit 12 input_chr),
         0x80 OR (0x3F AND drop_bit 6 input_chr), 0x80 OR (0x3F AND input_chr)])"

text \<open>Reading a sequence of bytes.\<close>

fun read_all :: "bytes \<Rightarrow> uint32 \<Rightarrow> uint32 list \<times> uint32" where
  "read_all [] s0 = ([], s0)"
| "read_all (b # bs) s0 =
     (let (out, s1) = read_utf8 b s0; (outs, s2) = read_all bs s1 in (out @ outs, s2))"

section \<open>One continuation byte\<close>

text \<open>The state word for \<open>n\<close> bytes expected and \<open>k\<close> seen, without the bits of the character.\<close>

definition counts :: "nat \<Rightarrow> nat \<Rightarrow> uint32" where
  "counts n k = word_of_nat (n * 2 ^ 29 + k * 2 ^ 26)"

lemma and_char_bits: "x AND 0x03ffffff = take_bit 26 x" for x :: uint32
  by (simp add: take_bit_eq_mask mask_eq_exp_minus_1)

lemma top_bits: "take_bit 26 x AND 0xfc000000 = 0" for x :: uint32
proof -
  have e: "(0xfc000000 :: uint32) = NOT (mask 26)" by (simp add: mask_eq_exp_minus_1)
  show ?thesis by (subst e) (rule bit_word_eqI, simp add: bit_simps)
qed

lemma small_take_bit: "unat v < 2 ^ 26 \<Longrightarrow> take_bit 26 v = v" for v :: uint32
proof -
  assume "unat v < 2 ^ 26"
  then have "unat (take_bit 26 v) = unat v" unfolding unat_take_bit by simp
  then show ?thesis by (metis word_of_unat_eq)
qed

lemma counts_or:
  assumes "n \<in> {2, 3, 4, 5, 6}" and "k \<in> {1, 2, 3, 4, 5}" and "unat v < 2 ^ 26"
  shows "(counts n k OR v) AND 0x03ffffff = v" "(counts n k OR v) AND 0xfc000000 = counts n k"
    "counts n k OR v \<noteq> 0"
proof -
  have v: "take_bit 26 v = v" using assms(3) by (rule small_take_bit)
  have c: "take_bit 26 (counts n k) = 0" "counts n k AND 0xfc000000 = counts n k" "counts n k \<noteq> 0"
    using assms(1,2) by (auto simp: counts_def)
  show "(counts n k OR v) AND 0x03ffffff = v"
    by (simp only: and_char_bits take_bit_or c v) simp
  have z: "v AND 0xfc000000 = 0" using top_bits [of v] by (simp only: v)
  then show "(counts n k OR v) AND 0xfc000000 = counts n k"
    by (simp only: bit.conj_disj_distrib2 c) simp
  then show "counts n k OR v \<noteq> 0" using c(3) by auto
qed

lemma counts_next:
  assumes "n \<in> {2, 3, 4, 5, 6}" and "k \<in> {1, 2, 3, 4, 5}"
  shows "counts n k + 0x04000000 = counts n (k + 1)"
    "k < n \<Longrightarrow> (push_bit 3 (counts n (k + 1)) XOR counts n (k + 1)) AND 0xe0000000 = 0 \<longleftrightarrow> k + 1 = n"
    "drop_bit 29 (counts n n) = word_of_nat n"
  using assms by (auto simp: counts_def)

lemma read_cont:
  assumes "n \<in> {2, 3, 4, 5, 6}" and "k \<in> {1, 2, 3, 4, 5}" and "k < n" and "unat v < 2 ^ 26" and "is_cont c"
  shows "read_utf8 c (counts n k OR v) =
     (let x = push_bit 6 v OR (ucast c AND 0x3F) in
      if k + 1 = n then ([finish_utf8 x (word_of_nat n)], 0) else ([], counts n (k + 1) OR x))"
proof -
  have c: "0x80 \<le> c \<and> c < 0xC0" using assms(5) by (simp add: is_cont_iff)
  then have "\<not> c < 0x80" "c \<noteq> 0xFE" "c \<noteq> 0xFF" by (auto simp: not_less)
  with c counts_or [OF assms(1,2,4)] counts_next [OF assms(1,2)] assms(3) show ?thesis
    by (simp only: read_utf8_def Let_def) auto
qed

lemma read_conts:
  assumes "n \<in> {2, 3, 4, 5, 6}" and "cs \<noteq> []" and "k + length cs = n" and "0 < k"
    and "\<forall>c\<in>set cs. is_cont c" and "(unat v + 1) * 64 ^ (length cs - 1) \<le> 2 ^ 26"
  shows "\<exists>x. read_all cs (counts n k OR v) = ([finish_utf8 x (word_of_nat n)], 0) \<and>
           unat x = cont_value (unat v) cs"
  using assms(2-6)
proof (induction cs arbitrary: k v)
  case (Cons c cs)
  let ?x = "push_bit 6 v OR (ucast c AND 0x3F)"
  have k: "k \<in> {1, 2, 3, 4, 5}" "k < n" using Cons.prems(2,3) assms(1) by auto
  have "(unat v + 1) * 1 \<le> (unat v + 1) * 64 ^ length cs" by (intro mult_le_mono2) simp
  then have "unat v + 1 \<le> 2 ^ 26" using Cons.prems(5) by (metis diff_Suc_1 length_Cons mult_1_right order_trans)
  then have v: "unat v < 2 ^ 26" by simp
  then have x: "unat ?x = unat v * 64 + unat c mod 64" by (rule step_unat)
  have c: "is_cont c" using Cons.prems(4) by simp
  show ?case
  proof (cases "cs = []")
    case True
    with read_cont [OF assms(1) k v c] Cons.prems(2) x show ?thesis by (intro exI [of _ ?x]) (simp add: Let_def)
  next
    case False
    have "unat ?x + 1 \<le> (unat v + 1) * 64" using x mod_less_divisor [of 64 "unat c"] by simp
    then have "(unat ?x + 1) * 64 ^ (length cs - 1) \<le> (unat v + 1) * 64 * 64 ^ (length cs - 1)" by (rule mult_le_mono1)
    also have "\<dots> = (unat v + 1) * 64 ^ length cs"
      using False by (cases cs) (simp_all add: algebra_simps)
    finally have "(unat ?x + 1) * 64 ^ (length cs - 1) \<le> 2 ^ 26" using Cons.prems(5) by simp
    from Cons.IH [OF False _ _ _ this, of "k + 1"] Cons.prems obtain y where
      "read_all cs (counts n (k + 1) OR ?x) = ([finish_utf8 y (word_of_nat n)], 0)"
      "unat y = cont_value (unat ?x) cs" by auto
    with read_cont [OF assms(1) k v c] False Cons.prems(2) x show ?thesis by (auto simp: Let_def)
  qed
qed simp

section \<open>Round trip\<close>

definition legal :: "nat \<Rightarrow> bool" where
  "legal n \<longleftrightarrow> n \<noteq> 0xFFFE \<and> n \<noteq> 0xFFFF \<and> \<not> (0xD800 \<le> n \<and> n < 0xE000) \<and> n < 2 ^ 31"

lemma read_lead:
  assumes "lead_class (unat c) = Some (w, m, least)"
  shows "\<exists>v. read_utf8 c 0 = ([], counts (m + 1) 1 OR v) \<and> unat v = w"
proof -
  have n: "\<not> c < 0x80" "\<not> (0x80 \<le> c \<and> c < 0xC0)" "c \<noteq> 0xFE" "c \<noteq> 0xFF"
    using assms by (auto simp: lead_class_def word_less_nat_alt split: if_splits)
  from assms consider
      "0xC0 \<le> unat c" "unat c < 0xE0" "w = unat c - 0xC0" "m = 1"
    | "0xE0 \<le> unat c" "unat c < 0xF0" "w = unat c - 0xE0" "m = 2"
    | "0xF0 \<le> unat c" "unat c < 0xF8" "w = unat c - 0xF0" "m = 3"
    | "0xF8 \<le> unat c" "unat c < 0xFC" "w = unat c - 0xF8" "m = 4"
    | "0xFC \<le> unat c" "unat c < 0xFE" "w = unat c - 0xFC" "m = 5"
    by (auto simp: lead_class_def split: if_splits)
  then show ?thesis
  proof cases
    case 1
    with n lead_bits(1) [of c] show ?thesis
      by (intro exI [of _ "ucast c AND 0x1F"])
        (simp only: read_utf8_def if_False, simp add: word_le_nat_alt word_less_nat_alt counts_def)
  next
    case 2
    with n lead_bits(2) [of c] show ?thesis
      by (intro exI [of _ "ucast c AND 0x0F"])
        (simp only: read_utf8_def if_False, simp add: word_le_nat_alt word_less_nat_alt counts_def)
  next
    case 3
    with n lead_bits(3) [of c] show ?thesis
      by (intro exI [of _ "ucast c AND 0x07"])
        (simp only: read_utf8_def if_False, simp add: word_le_nat_alt word_less_nat_alt counts_def)
  next
    case 4
    with n lead_bits(4) [of c] show ?thesis
      by (intro exI [of _ "ucast c AND 0x03"])
        (simp only: read_utf8_def if_False, simp add: word_le_nat_alt word_less_nat_alt counts_def)
  next
    case 5
    with n lead_bits(5) [of c] show ?thesis
      by (intro exI [of _ "ucast c AND 0x01"])
        (simp only: read_utf8_def if_False, simp add: word_le_nat_alt word_less_nat_alt counts_def)
  qed
qed

lemma finish_legal:
  assumes "legal (unat x)" and "lead_class c = Some (w, m, least)" and "least \<le> unat x"
  shows "finish_utf8 x (word_of_nat (m + 1)) = x"
proof -
  have "(m, least) \<in> {(1, 0x80), (2, 0x800), (3, 0x10000), (4, 0x200000), (5, 0x4000000)}"
    using assms(2) by (auto simp: lead_class_def split: if_splits)
  moreover have "\<not> (0xD800 \<le> x \<and> x < 0xE000)" "x \<noteq> 0xFFFE" "x \<noteq> 0xFFFF"
    using assms(1) by (auto simp: legal_def word_le_nat_alt word_less_nat_alt)
  moreover have "x \<le> k \<longleftrightarrow> unat x \<le> unat k" for k by (rule word_le_nat_alt)
  ultimately show ?thesis using assms(3)
    by (elim insertE emptyE Pair_inject; simp add: finish_utf8_def; blast)
qed

lemma lead_counts:
  "lead_class c = Some (w, m, least) \<Longrightarrow>
     m + 1 \<in> {2, 3, 4, 5, 6} \<and> 0 < m \<and> (w + 1) * 64 ^ (m - 1) \<le> 2 ^ 26"
  by (auto simp: lead_class_def split: if_splits)

lemma read_spelled:
  assumes "lead_class (unat c) = Some (w, length cs, least)" and "\<forall>b\<in>set cs. is_cont b"
    and "legal (unat ch)" and "cont_value w cs = unat ch" and "least \<le> unat ch"
  shows "read_all (c # cs) 0 = ([ch], 0)"
proof -
  from read_lead [OF assms(1)] obtain v where
    v: "read_utf8 c 0 = ([], counts (length cs + 1) 1 OR v)" "unat v = w" by blast
  have n: "length cs + 1 \<in> {2, 3, 4, 5, 6}" "cs \<noteq> []" "(w + 1) * 64 ^ (length cs - 1) \<le> 2 ^ 26"
    using lead_counts [OF assms(1)] by auto
  from read_conts [OF n(1,2) _ _ assms(2), of 1 v] n(3) v(2) obtain x where
    x: "read_all cs (counts (length cs + 1) 1 OR v) = ([finish_utf8 x (word_of_nat (length cs + 1))], 0)"
      "unat x = cont_value w cs" by auto
  then have "x = ch" using assms(4) by (metis word_of_unat_eq)
  with finish_legal [of x "unat c" w "length cs" least] assms x(1) v(1) show ?thesis
    by (simp add: Let_def)
qed

lemma lead_unat_more:
  "unat (ucast (0xC0 OR (0x1F AND x) :: uint32) :: byte) = 0xC0 + unat x mod 32"
  "unat (ucast (0xE0 OR (0x0F AND x) :: uint32) :: byte) = 0xE0 + unat x mod 16"
  "unat (ucast (0xF0 OR (0x07 AND x) :: uint32) :: byte) = 0xF0 + unat x mod 8"
  "unat (ucast (0xF8 OR (0x03 AND x) :: uint32) :: byte) = 0xF8 + unat x mod 4"
  "unat (ucast (0xFC OR (0x01 AND x) :: uint32) :: byte) = 0xFC + unat x mod 2"
  "unat (ucast (0x80 OR (0x3F AND x) :: uint32) :: byte) = 0x80 + unat x mod 64"
proof -
  have m: "unat (0x1F AND x) = unat x mod 32" "unat (0x0F AND x) = unat x mod 16"
    "unat (0x07 AND x) = unat x mod 8" "unat (0x03 AND x) = unat x mod 4" "unat (0x01 AND x) = unat x mod 2"
    "unat (0x3F AND x) = unat x mod 64"
    by (simp_all only: and.commute [of _ x] and_low_bits unat_take_bit) simp_all
  have l: "unat x mod 32 < 32" "unat x mod 16 < 16" "unat x mod 8 < 8" "unat x mod 4 < 4" "unat x mod 2 < 2"
    "unat x mod 64 < 64" by simp_all
  show "unat (ucast (0xC0 OR (0x1F AND x) :: uint32) :: byte) = 0xC0 + unat x mod 32"
    "unat (ucast (0xE0 OR (0x0F AND x) :: uint32) :: byte) = 0xE0 + unat x mod 16"
    "unat (ucast (0xF0 OR (0x07 AND x) :: uint32) :: byte) = 0xF0 + unat x mod 8"
    "unat (ucast (0x80 OR (0x3F AND x) :: uint32) :: byte) = 0x80 + unat x mod 64"
    using lead_unat m l by metis+
  show "unat (ucast (0xF8 OR (0x03 AND x) :: uint32) :: byte) = 0xF8 + unat x mod 4"
    "unat (ucast (0xFC OR (0x01 AND x) :: uint32) :: byte) = 0xFC + unat x mod 2"
    using unat_or_add [of "0xF8" 62 2 "0x03 AND x"] unat_or_add [of "0xFC" 126 1 "0x01 AND x"] l
    by (simp_all only: unsigned_ucast_eq m) (simp_all add: take_bit_nat_eq_self)
qed

text \<open>What the writer emits for a legal character, as numbers.\<close>

definition write_nums :: "nat \<Rightarrow> nat list" where
  "write_nums n =
     (if n < 0x80 then [n]
      else if n < 0x800 then [0xC0 + n div 64, 0x80 + n mod 64]
      else if n < 0x10000 then [0xE0 + n div 64 div 64, 0x80 + n div 64 mod 64, 0x80 + n mod 64]
      else if n < 0x200000 then
        [0xF0 + n div 64 div 64 div 64, 0x80 + n div 64 div 64 mod 64, 0x80 + n div 64 mod 64, 0x80 + n mod 64]
      else if n < 0x4000000 then
        [0xF8 + n div 64 div 64 div 64 div 64, 0x80 + n div 64 div 64 div 64 mod 64,
         0x80 + n div 64 div 64 mod 64, 0x80 + n div 64 mod 64, 0x80 + n mod 64]
      else
        [0xFC + n div 64 div 64 div 64 div 64 div 64, 0x80 + n div 64 div 64 div 64 div 64 mod 64,
         0x80 + n div 64 div 64 div 64 mod 64, 0x80 + n div 64 div 64 mod 64, 0x80 + n div 64 mod 64,
         0x80 + n mod 64])"

lemma unat_drops:
  "unat (drop_bit 6 x) = unat x div 64" "unat (drop_bit 12 x) = unat x div 64 div 64"
  "unat (drop_bit 18 x) = unat x div 64 div 64 div 64"
  "unat (drop_bit 24 x) = unat x div 64 div 64 div 64 div 64"
  "unat (drop_bit 30 x) = unat x div 64 div 64 div 64 div 64 div 64" for x :: uint32
  by (simp_all only: unat_drop div_mult2_eq [symmetric]) simp_all

lemma write_utf8_nums:
  assumes "legal (unat ch)"
  shows "map (\<lambda>x. unat (ucast x :: byte)) (write_utf8 ch) = write_nums (unat ch)"
proof -
  let ?n = "unat ch"
  have l: "\<not> (ch = 0xFFFE \<or> ch = 0xFFFF \<or> ch \<ge> 0xD800 \<and> ch < 0xE000)" "?n < 2 ^ 31"
    using assms by (auto simp: legal_def word_le_nat_alt word_less_nat_alt)
  have b: "k < m \<Longrightarrow> k mod m = k" for k m :: nat by simp
  have d: "?n < 0x800 \<Longrightarrow> ?n div 64 < 32" "?n < 0x10000 \<Longrightarrow> ?n div 64 div 64 < 16"
    "?n < 0x200000 \<Longrightarrow> ?n div 64 div 64 div 64 < 8" "?n < 0x4000000 \<Longrightarrow> ?n div 64 div 64 div 64 div 64 < 4"
    "?n div 64 div 64 div 64 div 64 div 64 < 2"
    using l(2) by (simp_all add: div_less_iff_less_mult)
  have s: "?n < 0x80 \<Longrightarrow> unat (ucast ch :: byte) = ?n" by (simp add: unsigned_ucast_eq take_bit_nat_eq_self)
  have c: "ch < 0x80 \<longleftrightarrow> ?n < 0x80" "ch < 0x800 \<longleftrightarrow> ?n < 0x800" "ch < 0x10000 \<longleftrightarrow> ?n < 0x10000"
    "ch < 0x200000 \<longleftrightarrow> ?n < 0x200000" "ch < 0x4000000 \<longleftrightarrow> ?n < 0x4000000"
    by (simp_all add: word_less_nat_alt)
  consider "?n < 0x80" | "\<not> ?n < 0x80" "?n < 0x800" | "\<not> ?n < 0x80" "\<not> ?n < 0x800" "?n < 0x10000"
    | "\<not> ?n < 0x80" "\<not> ?n < 0x800" "\<not> ?n < 0x10000" "?n < 0x200000"
    | "\<not> ?n < 0x80" "\<not> ?n < 0x800" "\<not> ?n < 0x10000" "\<not> ?n < 0x200000" "?n < 0x4000000"
    | "\<not> ?n < 0x80" "\<not> ?n < 0x800" "\<not> ?n < 0x10000" "\<not> ?n < 0x200000" "\<not> ?n < 0x4000000" by blast
  then show ?thesis
  proof cases
    case 1
    then show ?thesis by (simp only: write_utf8_def write_nums_def l(1) c if_True if_False list.map s)
  next
    case 2
    then show ?thesis
      by (simp only: write_utf8_def write_nums_def l(1) c if_True if_False list.map lead_unat_more unat_drops
          b [OF d(1)])
  next
    case 3
    then show ?thesis
      by (simp only: write_utf8_def write_nums_def l(1) c if_True if_False list.map lead_unat_more unat_drops
          b [OF d(2)])
  next
    case 4
    then show ?thesis
      by (simp only: write_utf8_def write_nums_def l(1) c if_True if_False list.map lead_unat_more unat_drops
          b [OF d(3)])
  next
    case 5
    then show ?thesis
      by (simp only: write_utf8_def write_nums_def l(1) c if_True if_False list.map lead_unat_more unat_drops
          b [OF d(4)])
  next
    case 6
    then show ?thesis
      by (simp only: write_utf8_def write_nums_def l(1) c if_True if_False list.map lead_unat_more unat_drops
          b [OF d(5)])
  qed
qed

text \<open>What \<open>write_utf8\<close> spells, \<open>read_utf8\<close> reads back: once for a lead byte and any number of
  continuation bytes, then per length class.\<close>

lemma cont_value_written:
  assumes "map unat cs = map (\<lambda>k. 0x80 + k mod 64) ks"
  shows "cont_value v cs = foldl (\<lambda>v k. v * 64 + k mod 64) v ks \<and> (\<forall>b\<in>set cs. is_cont b) \<and> length cs = length ks"
  using assms
proof (induction cs arbitrary: v ks)
  case (Cons c cs)
  then obtain k ks' where k: "ks = k # ks'" "unat c = 0x80 + k mod 64"
    "map unat cs = map (\<lambda>k. 0x80 + k mod 64) ks'" by (cases ks) auto
  have "unat c mod 64 = k mod 64" using k(2) by simp
  with k Cons.IH [OF k(3)] show ?case by (simp add: is_cont_def)
qed simp

lemma read_written:
  assumes "legal (unat ch)" and "map unat bs = (l + d) # map (\<lambda>k. 0x80 + k mod 64) ks"
    and "lead_class (l + d) = Some (d, length ks, least)"
    and "foldl (\<lambda>v k. v * 64 + k mod 64) d ks = unat ch" and "least \<le> unat ch"
  shows "read_all bs 0 = ([ch], 0)"
proof -
  from assms(2) obtain c cs where c: "bs = c # cs" "unat c = l + d"
    "map unat cs = map (\<lambda>k. 0x80 + k mod 64) ks" by (cases bs) auto
  from cont_value_written [OF c(3), of d] assms(3,4) c(2)
  have "cont_value d cs = unat ch" "\<forall>b\<in>set cs. is_cont b"
    "lead_class (unat c) = Some (d, length cs, least)" by simp_all
  with assms(1,5) show ?thesis unfolding c(1) by (intro read_spelled)
qed

lemma lead_classes:
  "d < 32 \<Longrightarrow> lead_class (0xC0 + d) = Some (d, 1, 0x80)"
  "d < 16 \<Longrightarrow> lead_class (0xE0 + d) = Some (d, 2, 0x800)"
  "d < 8 \<Longrightarrow> lead_class (0xF0 + d) = Some (d, 3, 0x10000)"
  "d < 4 \<Longrightarrow> lead_class (0xF8 + d) = Some (d, 4, 0x200000)"
  "d < 2 \<Longrightarrow> lead_class (0xFC + d) = Some (d, 5, 0x4000000)"
  by (simp_all add: lead_class_def)

lemma spelledI:
  assumes "l # ks = (b + d) # map (\<lambda>k. 0x80 + k mod 64) js"
    and "lead_class (b + d) = Some (d, length js, least)"
    and "foldl (\<lambda>v k. v * 64 + k mod 64) d js = n" and "least \<le> n"
  shows "\<exists>b d js least. l = b + d \<and> ks = map (\<lambda>k. 0x80 + k mod 64) js \<and>
           lead_class (b + d) = Some (d, length js, least) \<and>
           foldl (\<lambda>v k. v * 64 + k mod 64) d js = n \<and> least \<le> n"
  using assms by blast

lemma write_nums_spelled:
  assumes "write_nums n = l # ks" and "0x80 \<le> n" and "n < 2 ^ 31"
  shows "\<exists>b d js least. l = b + d \<and> ks = map (\<lambda>k. 0x80 + k mod 64) js \<and>
           lead_class (b + d) = Some (d, length js, least) \<and>
           foldl (\<lambda>v k. v * 64 + k mod 64) d js = n \<and> least \<le> n"
proof -
  let ?d1 = "n div 64" and ?d2 = "n div 64 div 64" and ?d3 = "n div 64 div 64 div 64"
    and ?d4 = "n div 64 div 64 div 64 div 64" and ?d5 = "n div 64 div 64 div 64 div 64 div 64"
  have lead: "n < 0x800 \<Longrightarrow> ?d1 < 32" "n < 0x10000 \<Longrightarrow> ?d2 < 16" "n < 0x200000 \<Longrightarrow> ?d3 < 8"
    "n < 0x4000000 \<Longrightarrow> ?d4 < 4" "?d5 < 2"
    using assms(3) by (simp_all add: div_less_iff_less_mult)
  consider "\<not> n < 0x80" "n < 0x800" | "\<not> n < 0x80" "\<not> n < 0x800" "n < 0x10000"
    | "\<not> n < 0x80" "\<not> n < 0x800" "\<not> n < 0x10000" "n < 0x200000"
    | "\<not> n < 0x80" "\<not> n < 0x800" "\<not> n < 0x10000" "\<not> n < 0x200000" "n < 0x4000000"
    | "\<not> n < 0x80" "\<not> n < 0x800" "\<not> n < 0x10000" "\<not> n < 0x200000" "\<not> n < 0x4000000"
    using assms(2) by linarith
  then show ?thesis
  proof cases
    case 1
    then have "write_nums n = [0xC0 + ?d1, 0x80 + n mod 64]" by (simp only: write_nums_def if_True if_False)
    with assms(1) have e: "l # ks = \<dots>" by (rule trans [OF sym])
    show ?thesis
    proof (rule spelledI [where b = "0xC0" and d = ?d1 and js = "[n]" and least = "0x80"])
      show "l # ks = (0xC0 + ?d1) # map (\<lambda>k. 0x80 + k mod 64) [n]" using e by (simp only: list.map)
      show "lead_class (0xC0 + ?d1) = Some (?d1, length [n], 0x80)" using lead_classes(1) [OF lead(1) [OF 1(2)]] by simp
      show "foldl (\<lambda>v k. v * 64 + k mod 64) ?d1 [n] = n" by (simp only: foldl.simps join_64)
    qed (use 1 in simp)
  next
    case 2
    then have "write_nums n = [0xE0 + ?d2, 0x80 + ?d1 mod 64, 0x80 + n mod 64]"
      by (simp only: write_nums_def if_True if_False)
    with assms(1) have e: "l # ks = \<dots>" by (rule trans [OF sym])
    show ?thesis
    proof (rule spelledI [where b = "0xE0" and d = ?d2 and js = "[?d1, n]" and least = "0x800"])
      show "l # ks = (0xE0 + ?d2) # map (\<lambda>k. 0x80 + k mod 64) [?d1, n]" using e by (simp only: list.map)
      show "lead_class (0xE0 + ?d2) = Some (?d2, length [?d1, n], 0x800)" using lead_classes(2) [OF lead(2) [OF 2(3)]] by simp
      show "foldl (\<lambda>v k. v * 64 + k mod 64) ?d2 [?d1, n] = n" by (simp only: foldl.simps join_64)
    qed (use 2 in simp)
  next
    case 3
    then have "write_nums n = [0xF0 + ?d3, 0x80 + ?d2 mod 64, 0x80 + ?d1 mod 64, 0x80 + n mod 64]"
      by (simp only: write_nums_def if_True if_False)
    with assms(1) have e: "l # ks = \<dots>" by (rule trans [OF sym])
    show ?thesis
    proof (rule spelledI [where b = "0xF0" and d = ?d3 and js = "[?d2, ?d1, n]" and least = "0x10000"])
      show "l # ks = (0xF0 + ?d3) # map (\<lambda>k. 0x80 + k mod 64) [?d2, ?d1, n]" using e by (simp only: list.map)
      show "lead_class (0xF0 + ?d3) = Some (?d3, length [?d2, ?d1, n], 0x10000)" using lead_classes(3) [OF lead(3) [OF 3(4)]] by simp
      show "foldl (\<lambda>v k. v * 64 + k mod 64) ?d3 [?d2, ?d1, n] = n" by (simp only: foldl.simps join_64)
    qed (use 3 in simp)
  next
    case 4
    then have "write_nums n = [0xF8 + ?d4, 0x80 + ?d3 mod 64, 0x80 + ?d2 mod 64, 0x80 + ?d1 mod 64, 0x80 + n mod 64]"
      by (simp only: write_nums_def if_True if_False)
    with assms(1) have e: "l # ks = \<dots>" by (rule trans [OF sym])
    show ?thesis
    proof (rule spelledI [where b = "0xF8" and d = ?d4 and js = "[?d3, ?d2, ?d1, n]" and least = "0x200000"])
      show "l # ks = (0xF8 + ?d4) # map (\<lambda>k. 0x80 + k mod 64) [?d3, ?d2, ?d1, n]" using e by (simp only: list.map)
      show "lead_class (0xF8 + ?d4) = Some (?d4, length [?d3, ?d2, ?d1, n], 0x200000)" using lead_classes(4) [OF lead(4) [OF 4(5)]] by simp
      show "foldl (\<lambda>v k. v * 64 + k mod 64) ?d4 [?d3, ?d2, ?d1, n] = n" by (simp only: foldl.simps join_64)
    qed (use 4 in simp)
  next
    case 5
    then have "write_nums n = [0xFC + ?d5, 0x80 + ?d4 mod 64, 0x80 + ?d3 mod 64, 0x80 + ?d2 mod 64,
        0x80 + ?d1 mod 64, 0x80 + n mod 64]"
      by (simp only: write_nums_def if_True if_False)
    with assms(1) have e: "l # ks = \<dots>" by (rule trans [OF sym])
    show ?thesis
    proof (rule spelledI [where b = "0xFC" and d = ?d5 and js = "[?d4, ?d3, ?d2, ?d1, n]" and least = "0x4000000"])
      show "l # ks = (0xFC + ?d5) # map (\<lambda>k. 0x80 + k mod 64) [?d4, ?d3, ?d2, ?d1, n]" using e by (simp only: list.map)
      show "lead_class (0xFC + ?d5) = Some (?d5, length [?d4, ?d3, ?d2, ?d1, n], 0x4000000)" using lead_classes(5) [OF lead(5)] by simp
      show "foldl (\<lambda>v k. v * 64 + k mod 64) ?d5 [?d4, ?d3, ?d2, ?d1, n] = n" by (simp only: foldl.simps join_64)
    qed (use 5 in simp)
  qed
qed

lemma read_write_utf8_ok:
  assumes "legal (unat ch)"
  shows "read_all (map ucast (write_utf8 ch)) 0 = ([ch], 0)"
proof -
  let ?n = "unat ch"
  obtain bs where bs: "bs = (map ucast (write_utf8 ch) :: bytes)" "map unat bs = write_nums ?n"
    using write_utf8_nums [OF assms] by (simp add: o_def)
  show ?thesis
  proof (cases "?n < 0x80")
    case True
    with bs obtain c where b: "bs = [c]" "unat c = ?n" by (auto simp: write_nums_def)
    then have "unat (ucast c :: uint32) = ?n" by (simp only: unat_ucast_byte)
    from word_of_unat_eq [OF this] have "(ucast c :: uint32) = ch" by simp
    with b True bs(1) show ?thesis by (simp add: read_utf8_def word_less_nat_alt)
  next
    case False
    obtain l ks where "write_nums ?n = l # ks" by (cases "write_nums ?n") (auto simp: write_nums_def split: if_splits)
    with write_nums_spelled [OF this] False assms bs show ?thesis
      by (auto simp: legal_def intro!: read_written [OF assms])
  qed
qed

section \<open>What the stream coder promises\<close>

text \<open>
  C32: the byte-at-a-time UTF-8 reader of the character set library inverts its writer. For every
  31-bit value that the writer does not reject, feeding its bytes one by one to the reader in its
  initial state gives exactly that character and leaves the reader in its initial state.
\<close>

theorem utf8_stream_round_trip:
  assumes "unat ch < 2 ^ 31" and "unat ch \<noteq> 0xFFFE" and "unat ch \<noteq> 0xFFFF"
    and "\<not> (0xD800 \<le> unat ch \<and> unat ch < 0xE000)"
  shows "read_all (map ucast (write_utf8 ch)) 0 = ([ch], 0)"
  using assms by (intro read_write_utf8_ok) (simp add: legal_def)

theorem utf8_stream_round_trip_witness:
  "read_all (map ucast (write_utf8 0x7FFFFFF)) 0 = ([0x7FFFFFF], 0)"
  by (rule utf8_stream_round_trip) simp_all

end
