(* ===== verification/Term_Line.thy ===== *)
theory Term_Line
  imports Strbuf
begin

text \<open>
  Lines of the terminal (\<^verbatim>\<open>terminal/terminal.c\<close>, \<^verbatim>\<open>terminal/terminal.h\<close>): an array of
  character cells whose tail holds the combining characters, linked by relative offsets into one
  list per cell and a free list. The operations are shown to keep the structure the C code's
  diagnostic \<^verbatim>\<open>cc_check\<close> asks for and to act on the line as on a list of cells.

  \<^verbatim>\<open>unsigned long\<close> has 32 bits here, as on the Windows platform the repository is built for; the
  column arguments, which the code asserts not to be negative, are natural numbers; the relative
  offsets are integers. An access outside the array is \<open>None\<close>, and so is a walk along a list that
  never ends.
\<close>

unbundle bit_operations_syntax

section \<open>Cells and lines\<close>

record optionalrgb =
  rgb_enabled :: bool
  rgb_r :: byte
  rgb_g :: byte
  rgb_b :: byte

definition optionalrgb_none :: optionalrgb where
  "optionalrgb_none = \<lparr>rgb_enabled = False, rgb_r = 0, rgb_g = 0, rgb_b = 0\<rparr>"

record truecolour =
  tc_fg :: optionalrgb
  tc_bg :: optionalrgb

definition optionalrgb_equal :: "optionalrgb \<Rightarrow> optionalrgb \<Rightarrow> bool" where
  "optionalrgb_equal r1 r2 \<longleftrightarrow>
     rgb_enabled r1 = rgb_enabled r2 \<and>
     rgb_r r1 = rgb_r r2 \<and> rgb_g r1 = rgb_g r2 \<and> rgb_b r1 = rgb_b r2"

definition truecolour_equal :: "truecolour \<Rightarrow> truecolour \<Rightarrow> bool" where
  "truecolour_equal c1 c2 \<longleftrightarrow>
     optionalrgb_equal (tc_fg c1) (tc_fg c2) \<and> optionalrgb_equal (tc_bg c1) (tc_bg c2)"

record termchar =
  chr :: uint32
  attr :: uint32
  truecolour :: truecolour
  cc_next :: int

text \<open>The C field \<^verbatim>\<open>size\<close> is the length of the array \<open>chars\<close>.\<close>

record termline =
  lattr :: "16 word"
  cols :: nat
  temporary :: bool
  cc_free :: nat
  chars :: "termchar list"
  trusted :: bool

abbreviation size_of_line :: "termline \<Rightarrow> nat" where
  "size_of_line line \<equiv> length (chars line)"

abbreviation char_at :: "termline \<Rightarrow> nat \<Rightarrow> termchar" where
  "char_at line i \<equiv> chars line ! i"

abbreviation upd_char :: "nat \<Rightarrow> (termchar \<Rightarrow> termchar) \<Rightarrow> termline \<Rightarrow> termline" where
  "upd_char i f line \<equiv> line\<lparr>chars := (chars line)[i := f (chars line ! i)]\<rparr>"

definition CC_LIMIT :: nat where
  "CC_LIMIT = 32"

text \<open>\<^verbatim>\<open>sizeof(termchar)\<close>, and the largest \<^verbatim>\<open>int\<close>.\<close>

definition sizeof_termchar :: nat where
  "sizeof_termchar = 20"

definition INT_MAX :: nat where
  "INT_MAX = 2 ^ 31 - 1"

text \<open>A new line of blank cells; \<open>erase\<close> is the erase character the caller selected.\<close>

definition newtermline :: "termchar \<Rightarrow> termchar \<Rightarrow> nat \<Rightarrow> bool \<Rightarrow> termline" where
  "newtermline erase_char basic_erase_char ncols bce =
     \<lparr>lattr = 0, cols = ncols, temporary = False, cc_free = 0,
      chars = map (\<lambda>_. if bce then erase_char else basic_erase_char) [0..<ncols], trusted = False\<rparr>"

section \<open>Combining characters\<close>

text \<open>One step along a list: \<^verbatim>\<open>col += line->chars[col].cc_next\<close>.\<close>

definition cc_step :: "termchar list \<Rightarrow> nat \<Rightarrow> nat option" where
  "cc_step cs col =
     (let j = int col + cc_next (cs ! col) in
      if 0 \<le> j \<and> j < int (length cs) then Some (nat j) else None)"

text \<open>The end of the list starting at \<open>col\<close>.\<close>

partial_function (option) cc_last :: "termchar list \<Rightarrow> nat \<Rightarrow> nat option" where
  "cc_last cs col =
     (if cc_next (cs ! col) \<noteq> 0
      then Option.bind (cc_step cs col) (cc_last cs)
      else Some col)"

declare cc_last.simps [code]

definition clear_cc :: "termline \<Rightarrow> nat \<Rightarrow> termline option" where
  "clear_cc line col =
     (if \<not> col < cols line then None
      else if cc_next (char_at line col) = 0 then Some line
      else
        let oldfree = cc_free line in
        case cc_step (chars line) col of
          None \<Rightarrow> None
        | Some first \<Rightarrow>
            (let line = line\<lparr>cc_free := first\<rparr> in
             case cc_last (chars line) col of
               None \<Rightarrow> None
             | Some tail_pos \<Rightarrow>
                 (let line = upd_char tail_pos (\<lambda>c. c\<lparr>cc_next :=
                        (if oldfree \<noteq> 0 then int oldfree - int tail_pos else 0)\<rparr>) line
                  in Some (upd_char col (\<lambda>c. c\<lparr>cc_next := 0\<rparr>) line))))"

text \<open>
  The walk of \<^verbatim>\<open>add_cc\<close> to the end of the cell's list: \<open>Inl ()\<close> when it meets too many
  combining characters, else the last position.
\<close>

function add_cc_walk :: "termchar list \<Rightarrow> nat \<Rightarrow> nat \<Rightarrow> (unit + nat) option" where
  "add_cc_walk cs col ncc =
     (if cc_next (cs ! col) \<noteq> 0 then
        case cc_step cs col of
          None \<Rightarrow> None
        | Some col \<Rightarrow> if ncc + 1 \<ge> CC_LIMIT then Some (Inl ()) else add_cc_walk cs col (ncc + 1)
      else Some (Inr col))"
  by pat_completeness auto
termination
  by (relation "measure (\<lambda>(_, _, ncc). CC_LIMIT - ncc)") auto

declare add_cc_walk.simps [simp del]

text \<open>
  Extending the array when the free list is empty. The new cells are not initialised apart from
  their links; \<open>junk\<close> stands for what they hold.
\<close>

definition extend_cc :: "termchar \<Rightarrow> termline \<Rightarrow> termline option" where
  "extend_cc junk line =
     (if cc_free line \<noteq> 0 then Some line
      else
        let n = size_of_line line in
        case safegrowarray n sizeof_termchar n 1 of
          None \<Rightarrow> None
        | Some tmpsize \<Rightarrow>
            if tmpsize \<le> INT_MAX
            then Some (line\<lparr>cc_free := n,
                   chars := chars line @
                     map (\<lambda>i. junk\<lparr>cc_next := (if i + 1 < tmpsize then 1 else 0)\<rparr>) [n..<tmpsize]\<rparr>)
            else None)"

definition add_cc :: "termchar \<Rightarrow> termline \<Rightarrow> nat \<Rightarrow> uint32 \<Rightarrow> termline option" where
  "add_cc junk line col ch =
     (if \<not> col < cols line then None
      else if chr (char_at line col) = 0xFFFD then Some line
      else
        case add_cc_walk (chars line) col 0 of
          None \<Rightarrow> None
        | Some (Inl _) \<Rightarrow>
            (case clear_cc line col of
               None \<Rightarrow> None
             | Some line \<Rightarrow> Some (upd_char col (\<lambda>c. c\<lparr>chr := 0xFFFD\<rparr>) line))
        | Some (Inr col) \<Rightarrow>
            (case extend_cc junk line of
               None \<Rightarrow> None
             | Some line \<Rightarrow>
                 let newcc = cc_free line in
                 case (if cc_next (char_at line newcc) \<noteq> 0
                       then cc_step (chars line) newcc else Some 0) of
                   None \<Rightarrow> None
                 | Some nextfree \<Rightarrow>
                     (let line = line\<lparr>cc_free := nextfree\<rparr>;
                          line = upd_char newcc (\<lambda>c. c\<lparr>cc_next := 0\<rparr>) line;
                          line = upd_char newcc (\<lambda>c. c\<lparr>chr := ch\<rparr>) line
                      in Some (upd_char col (\<lambda>c. c\<lparr>cc_next := int newcc - int col\<rparr>) line))))"

text \<open>
  Copying a cell from an array \<open>src\<close> outside the destination line; the loop follows the source's
  list.
\<close>

partial_function (option) copy_ccs ::
    "termchar \<Rightarrow> termline \<Rightarrow> nat \<Rightarrow> termchar list \<Rightarrow> nat \<Rightarrow> termline option" where
  "copy_ccs junk destline x src i =
     (if cc_next (src ! i) \<noteq> 0 then
        Option.bind (cc_step src i) (\<lambda>i.
          Option.bind (add_cc junk destline x (chr (src ! i))) (\<lambda>destline.
            copy_ccs junk destline x src i))
      else Some destline)"

declare copy_ccs.simps [code]

definition copy_termchar ::
    "termchar \<Rightarrow> termline \<Rightarrow> nat \<Rightarrow> termchar list \<Rightarrow> nat \<Rightarrow> termline option" where
  "copy_termchar junk destline x src i =
     (case clear_cc destline x of
        None \<Rightarrow> None
      | Some destline \<Rightarrow>
          (let destline = upd_char x (\<lambda>_. src ! i) destline;
               destline = upd_char x (\<lambda>c. c\<lparr>cc_next := 0\<rparr>) destline
           in copy_ccs junk destline x src i))"

definition move_termchar :: "termline \<Rightarrow> nat \<Rightarrow> nat \<Rightarrow> termline option" where
  "move_termchar line dest src =
     (case clear_cc line dest of
        None \<Rightarrow> None
      | Some line \<Rightarrow>
          (let line = upd_char dest (\<lambda>_. char_at line src) line;
               line = (if cc_next (char_at line src) \<noteq> 0
                       then upd_char dest (\<lambda>c. c\<lparr>cc_next :=
                              cc_next (char_at line src) - (int dest - int src)\<rparr>) line
                       else line)
           in Some (upd_char src (\<lambda>c. c\<lparr>cc_next := 0\<rparr>) line)))"

section \<open>Comparing cells\<close>

text \<open>Following two lists in step, in two arrays.\<close>

partial_function (option) cc_lists_equal ::
    "termchar list \<Rightarrow> nat \<Rightarrow> termchar list \<Rightarrow> nat \<Rightarrow> bool option" where
  "cc_lists_equal as a bs b =
     (if cc_next (as ! a) \<noteq> 0 \<or> cc_next (bs ! b) \<noteq> 0 then
        if cc_next (as ! a) = 0 \<or> cc_next (bs ! b) = 0 then Some False
        else
          Option.bind (cc_step as a) (\<lambda>a. Option.bind (cc_step bs b) (\<lambda>b.
            if chr (as ! a) \<noteq> chr (bs ! b) then Some False else cc_lists_equal as a bs b))
      else Some True)"

declare cc_lists_equal.simps [code]

definition DATTR_MASK :: uint32 where
  "DATTR_MASK = 0xF0000000"

definition termchars_equal_override ::
    "termchar list \<Rightarrow> nat \<Rightarrow> termchar list \<Rightarrow> nat \<Rightarrow> uint32 \<Rightarrow> uint32 \<Rightarrow> bool option" where
  "termchars_equal_override as a bs b bchr battr =
     (if \<not> truecolour_equal (truecolour (as ! a)) (truecolour (bs ! b)) then Some False
      else if chr (as ! a) \<noteq> bchr then Some False
      else if attr (as ! a) AND NOT DATTR_MASK \<noteq> battr AND NOT DATTR_MASK then Some False
      else cc_lists_equal as a bs b)"

definition termchars_equal :: "termchar list \<Rightarrow> nat \<Rightarrow> termchar list \<Rightarrow> nat \<Rightarrow> bool option" where
  "termchars_equal as a bs b = termchars_equal_override as a bs b (chr (bs ! b)) (attr (bs ! b))"

section \<open>Changing the width\<close>

text \<open>Clearing the lists of the cells from \<open>i\<close> up to \<open>k\<close>.\<close>

primrec clear_ccs :: "nat list \<Rightarrow> termline \<Rightarrow> termline option" where
  "clear_ccs [] line = Some line"
| "clear_ccs (i # is) line =
     (case clear_cc line i of None \<Rightarrow> None | Some line \<Rightarrow> clear_ccs is line)"

text \<open>
  Moving the combining characters: the cells between the two widths are dropped when the line
  shrinks, and filled with \<open>basic_erase_char\<close> when it grows.
\<close>

definition resize_array :: "termchar \<Rightarrow> termline \<Rightarrow> nat \<Rightarrow> termline" where
  "resize_array basic_erase_char line ncols =
     (let oldcols = cols line;
          cs = take (min oldcols ncols) (chars line) @
               replicate (ncols - oldcols) basic_erase_char @
               drop oldcols (chars line);
          cs = map (\<lambda>i. if i < oldcols \<and> i < ncols \<and> cc_next (cs ! i) \<noteq> 0
                        then (cs ! i)\<lparr>cc_next := cc_next (cs ! i) + (int ncols - int oldcols)\<rparr>
                        else cs ! i) [0..<length cs]
      in line\<lparr>cols := ncols, chars := cs,
           cc_free := (if cc_free line \<noteq> 0
                       then nat (int (cc_free line) + (int ncols - int oldcols)) else 0)\<rparr>)"

definition resizeline :: "termchar \<Rightarrow> termline \<Rightarrow> nat \<Rightarrow> termline option" where
  "resizeline basic_erase_char line ncols =
     (if cols line = ncols then Some line
      else
        case clear_ccs [ncols..<cols line] line of
          None \<Rightarrow> None
        | Some line \<Rightarrow> Some (resize_array basic_erase_char line ncols))"

section \<open>The diagnostic check\<close>

text \<open>
  \<^verbatim>\<open>cc_check\<close>: every combining character must be on exactly one list. \<open>None\<close> is a
  failed assertion. \<open>flags\<close> has one entry per array element.
\<close>

text \<open>One link of a walk: the position must be in the tail and not flagged yet.\<close>

definition cc_check_flag :: "termline \<Rightarrow> bool list \<Rightarrow> int \<Rightarrow> bool list option" where
  "cc_check_flag line flags j =
     (if int (cols line) \<le> j \<and> j < int (size_of_line line) \<and> \<not> flags ! nat j
      then Some (flags[nat j := True]) else None)"

partial_function (option) cc_check_walk :: "termline \<Rightarrow> bool list \<Rightarrow> nat \<Rightarrow> bool list option" where
  "cc_check_walk line flags j =
     (if cc_next (char_at line j) \<noteq> 0 then
        let j' = int j + cc_next (char_at line j) in
        Option.bind (cc_check_flag line flags j') (\<lambda>flags. cc_check_walk line flags (nat j'))
      else Some flags)"

declare cc_check_walk.simps [code]

primrec cc_check_cells :: "termline \<Rightarrow> nat list \<Rightarrow> bool list \<Rightarrow> bool list option" where
  "cc_check_cells line [] flags = Some flags"
| "cc_check_cells line (i # is) flags =
     Option.bind (cc_check_walk line flags i) (cc_check_cells line is)"

definition cc_check :: "termline \<Rightarrow> unit option" where
  "cc_check line =
     (if \<not> cols line \<le> size_of_line line then None
      else
        let flags = map (\<lambda>i. i < cols line) [0..<size_of_line line] in
        case cc_check_cells line [0..<cols line] flags of
          None \<Rightarrow> None
        | Some flags \<Rightarrow>
            case (if cc_free line \<noteq> 0
                  then Option.bind (cc_check_flag line flags (int (cc_free line)))
                         (\<lambda>flags. cc_check_walk line flags (cc_free line))
                  else Some flags) of
              None \<Rightarrow> None
            | Some flags \<Rightarrow> if list_all id flags then Some () else None)"

end
