(* ===== verification/Term_Cells.thy ===== *)
theory Term_Cells
  imports Term_Line
begin

text \<open>
  The lines of \<open>Term_Line\<close> represent lists of cells, each with its own list of combining
  characters. \<open>chains\<close> is the structural invariant: the lists of the cells and the free list
  are disjoint and together hold every position of the array behind the columns.
\<close>

section \<open>Linked lists in the array\<close>

fun linked :: "termchar list \<Rightarrow> nat \<Rightarrow> nat list \<Rightarrow> bool" where
  "linked cs j [] \<longleftrightarrow> cc_next (cs ! j) = 0"
| "linked cs j (k # ks) \<longleftrightarrow>
     cc_next (cs ! j) \<noteq> 0 \<and> k < length cs \<and> int j + cc_next (cs ! j) = int k \<and> linked cs k ks"

lemma cc_step_linked: "linked cs j (k # ks) \<Longrightarrow> cc_step cs j = Some k"
  by (auto simp: cc_step_def Let_def)

lemma linked_cong:
  "\<lbrakk>linked cs j ks; length cs \<le> length cs';
    \<And>i. i \<in> set (j # ks) \<Longrightarrow> cc_next (cs' ! i) = cc_next (cs ! i)\<rbrakk> \<Longrightarrow> linked cs' j ks"
  by (induction cs j ks rule: linked.induct) (fastforce intro: less_le_trans)+

lemma linked_update: "\<lbrakk>linked cs j ks; i \<notin> set (j # ks)\<rbrakk> \<Longrightarrow> linked (cs[i := c]) j ks"
  by (erule linked_cong) (auto intro!: arg_cong [where f = cc_next] nth_list_update_neq)

lemma cc_last_linked: "linked cs j ks \<Longrightarrow> cc_last cs j = Some (last (j # ks))"
proof (induction cs j ks rule: linked.induct)
  case (1 cs j)
  then show ?case by (simp add: cc_last.simps)
next
  case (2 cs j k ks)
  then show ?case
    using cc_step_linked [OF 2(2)] by (subst cc_last.simps) simp
qed

lemma add_cc_walk_linked:
  "linked cs j ks \<Longrightarrow>
   add_cc_walk cs j n =
     Some (if ks \<noteq> [] \<and> CC_LIMIT \<le> n + length ks then Inl () else Inr (last (j # ks)))"
proof (induction cs j ks arbitrary: n rule: linked.induct)
  case (1 cs j)
  then show ?case by (simp add: add_cc_walk.simps)
next
  case (2 cs j k ks)
  then show ?case
    using cc_step_linked [OF 2(2)] by (subst add_cc_walk.simps) auto
qed

lemma linked_last: "linked cs j ks \<Longrightarrow> cc_next (cs ! last (j # ks)) = 0"
  by (induction cs j ks rule: linked.induct) auto

lemma linked_join:
  assumes "linked cs j ks" "linked cs f fs" "f < length cs" "last (j # ks) < length cs"
    "distinct (j # ks)" "last (j # ks) \<notin> set (f # fs)"
  shows "linked (cs[last (j # ks) := (cs ! last (j # ks))\<lparr>cc_next := int f - int (last (j # ks))\<rparr>])
           j (ks @ f # fs)"
  using assms
proof (induction cs j ks rule: linked.induct)
  case (1 cs j)
  then show ?case by (auto intro: linked_update)
next
  case (2 cs j k ks)
  have "j \<noteq> last (k # ks)"
    using 2(6) by (metis distinct.simps(2) last_in_set list.distinct(1))
  with 2 show ?case by simp
qed

lemma linked_cut: "\<lbrakk>linked cs j ks; j < length cs\<rbrakk> \<Longrightarrow> linked (cs[j := (cs ! j)\<lparr>cc_next := 0\<rparr>]) j []"
  by simp

section \<open>The invariant\<close>

definition same_data :: "termchar list \<Rightarrow> termchar list \<Rightarrow> bool" where
  "same_data cs cs' \<longleftrightarrow>
     length cs' = length cs \<and>
     (\<forall>i < length cs. (cs' ! i)\<lparr>cc_next := 0\<rparr> = (cs ! i)\<lparr>cc_next := 0\<rparr>)"

lemma same_data_refl [simp]: "same_data cs cs"
  by (simp add: same_data_def)

lemma same_data_trans: "\<lbrakk>same_data a b; same_data b c\<rbrakk> \<Longrightarrow> same_data a c"
  by (simp add: same_data_def)

lemma same_data_update: "same_data cs (cs[i := (cs ! i)\<lparr>cc_next := n\<rparr>])"
  by (cases "i < length cs") (auto simp: same_data_def nth_list_update)

lemma same_data_fields:
  assumes "same_data cs cs'" "i < length cs"
  shows "chr (cs' ! i) = chr (cs ! i)" "attr (cs' ! i) = attr (cs ! i)"
    "truecolour (cs' ! i) = truecolour (cs ! i)"
  using assms unfolding same_data_def
  by (metis termchar.ext_inject termchar.surjective termchar.update_convs(4))+

text \<open>What no operation on the lists changes.\<close>

definition line_frame :: "termline \<Rightarrow> termline \<Rightarrow> bool" where
  "line_frame line line' \<longleftrightarrow>
     lattr line' = lattr line \<and> cols line' = cols line \<and>
     temporary line' = temporary line \<and> trusted line' = trusted line"

lemma line_frame_simps [simp]:
  "line_frame line line"
  "line_frame line (line'\<lparr>cc_free := f\<rparr>) = line_frame line line'"
  "line_frame line (line'\<lparr>chars := cs\<rparr>) = line_frame line line'"
  by (simp_all add: line_frame_def)

lemma line_frame_trans: "\<lbrakk>line_frame a b; line_frame b c\<rbrakk> \<Longrightarrow> line_frame a c"
  by (simp add: line_frame_def)

definition free_list :: "termline \<Rightarrow> nat list \<Rightarrow> bool" where
  "free_list line F \<longleftrightarrow>
     (case F of [] \<Rightarrow> cc_free line = 0 | f # fs \<Rightarrow> cc_free line = f \<and> linked (chars line) f fs)"

definition chains :: "termline \<Rightarrow> (nat \<Rightarrow> nat list) \<Rightarrow> nat list \<Rightarrow> bool" where
  "chains line L F \<longleftrightarrow>
     0 < cols line \<and> cols line \<le> size_of_line line \<and>
     (\<forall>i < cols line. linked (chars line) i (L i) \<and> distinct (L i) \<and>
        (\<forall>j < cols line. i \<noteq> j \<longrightarrow> set (L i) \<inter> set (L j) = {})) \<and>
     free_list line F \<and> distinct F \<and> (\<forall>i < cols line. set (L i) \<inter> set F = {}) \<and>
     (\<Union>i < cols line. set (L i)) \<union> set F = {cols line..<size_of_line line}"

lemma chainsD:
  assumes "chains line L F"
  shows "0 < cols line" "cols line \<le> size_of_line line" "free_list line F" "distinct F"
    "i < cols line \<Longrightarrow> linked (chars line) i (L i)"
    "i < cols line \<Longrightarrow> distinct (L i)"
    "\<lbrakk>i < cols line; k \<in> set (L i)\<rbrakk> \<Longrightarrow> cols line \<le> k \<and> k < size_of_line line"
    "k \<in> set F \<Longrightarrow> cols line \<le> k \<and> k < size_of_line line"
    "\<lbrakk>i < cols line; j < cols line; k \<in> set (L i); k \<in> set (L j)\<rbrakk> \<Longrightarrow> i = j"
    "\<lbrakk>i < cols line; k \<in> set (L i)\<rbrakk> \<Longrightarrow> k \<notin> set F"
    "(\<Union>i < cols line. set (L i)) \<union> set F = {cols line..<size_of_line line}"
proof -
  from assms have u: "(\<Union>i < cols line. set (L i)) \<union> set F = {cols line..<size_of_line line}"
    by (simp add: chains_def)
  then show "(\<Union>i < cols line. set (L i)) \<union> set F = {cols line..<size_of_line line}" .
  show "\<lbrakk>i < cols line; k \<in> set (L i)\<rbrakk> \<Longrightarrow> cols line \<le> k \<and> k < size_of_line line"
    "k \<in> set F \<Longrightarrow> cols line \<le> k \<and> k < size_of_line line"
    using u by (auto simp: set_eq_iff)
  show "\<lbrakk>i < cols line; j < cols line; k \<in> set (L i); k \<in> set (L j)\<rbrakk> \<Longrightarrow> i = j"
    "\<lbrakk>i < cols line; k \<in> set (L i)\<rbrakk> \<Longrightarrow> k \<notin> set F"
    using assms unfolding chains_def by blast+
qed (use assms in \<open>auto simp: chains_def\<close>)

lemma chains_links:
  assumes C: "chains line L F" and eq: "cols line' = cols line" "size_of_line line' = size_of_line line"
    "cc_free line' = cc_free line" "\<And>k. cc_next (char_at line' k) = cc_next (char_at line k)"
  shows "chains line' L F"
proof -
  have "linked (chars line') i ks" if "linked (chars line) i ks" for i ks
    using that by (rule linked_cong) (simp_all add: eq)
  with C show ?thesis unfolding chains_def free_list_def by (auto simp: eq split: list.splits)
qed

text \<open>The array has a position for every column, combining character and free entry.\<close>

lemma chains_size:
  assumes "chains line L F"
  shows "size_of_line line = cols line + (\<Sum>i < cols line. length (L i)) + length F"
proof -
  have "card ((\<Union>i < cols line. set (L i)) \<union> set F)
      = card (\<Union>i < cols line. set (L i)) + card (set F)"
    using chainsD(10) [OF assms] by (intro card_Un_disjoint) auto
  also have "card (\<Union>i < cols line. set (L i)) = (\<Sum>i < cols line. card (set (L i)))"
    using chainsD(9) [OF assms] by (intro card_UN_disjoint) auto
  also have "\<dots> = (\<Sum>i < cols line. length (L i))"
    using chainsD(6) [OF assms] by (intro sum.cong) (auto simp: distinct_card)
  also have "card (set F) = length F"
    using chainsD(4) [OF assms] by (rule distinct_card)
  finally have "card {cols line..<size_of_line line} = (\<Sum>i < cols line. length (L i)) + length F"
    by (simp only: chainsD(11) [OF assms])
  then show ?thesis using chainsD(2) [OF assms] by simp
qed


section \<open>Clearing a cell\<close>

lemma clear_cc_chains:
  assumes C: "chains line L F" and col: "col < cols line"
  shows "\<exists>line'. clear_cc line col = Some line' \<and> chains line' (L(col := [])) (L col @ F) \<and>
           line_frame line line' \<and> same_data (chars line) (chars line')"
proof (cases "L col")
  case Nil
  then have "cc_next (char_at line col) = 0" using chainsD(5) [OF C col] by simp
  then have "clear_cc line col = Some line" using col by (simp add: clear_cc_def)
  moreover have "chains line (L(col := [])) (L col @ F)"
    using C Nil by (simp add: fun_upd_idem)
  ultimately show ?thesis by auto
next
  case (Cons f fs)
  define t where "t = last (f # fs)"
  define cs where "cs = chars line"
  define nf where "nf = (if cc_free line \<noteq> 0 then int (cc_free line) - int t else 0)"
  define cs1 where "cs1 = cs[t := (cs ! t)\<lparr>cc_next := nf\<rparr>]"
  define line' where "line' = line\<lparr>cc_free := f, chars := cs1[col := (cs1 ! col)\<lparr>cc_next := 0\<rparr>]\<rparr>"
  have l: "linked cs col (f # fs)" using chainsD(5) [OF C col] Cons by (simp add: cs_def)
  have t: "t \<in> set (f # fs)" unfolding t_def by simp
  have tb: "cols line \<le> t" "t < length cs" "f \<noteq> 0"
    using chainsD(7) [OF C col, of t] chainsD(7) [OF C col, of f] chainsD(1) [OF C] t Cons
    by (auto simp: cs_def)
  have run: "clear_cc line col = Some line'"
  proof -
    have "cc_last cs col = Some t" using cc_last_linked [OF l] by (simp add: t_def)
    then show ?thesis
      using col l cc_step_linked [OF l] by (simp add: clear_cc_def Let_def cs_def line'_def cs1_def nf_def)
  qed
  have same: "same_data cs (chars line')"
    by (auto simp: line'_def cs1_def intro: same_data_trans same_data_update)
  have len [simp]: "length (chars line') = length cs" by (simp add: line'_def cs1_def)
  have keep: "cc_next (chars line' ! k) = cc_next (cs ! k)" if "k \<noteq> t" "k \<noteq> col" for k
    using that by (simp add: line'_def cs1_def)
  have lk: "linked (chars line') i ((L(col := [])) i)" if i: "i < cols line" for i
  proof (cases "i = col")
    case True
    then show ?thesis using col chainsD(2) [OF C] by (simp add: line'_def cs1_def cs_def)
  next
    case False
    have "t \<in> set (L col)" using t Cons by simp
    then have "t \<notin> set (i # L i)"
      using False i tb(1) chainsD(9) [OF C i col, of t] by auto
    moreover have "col \<notin> set (i # L i)"
      using False col chainsD(7) [OF C i, of col] by auto
    ultimately have "linked (chars line') i (L i)"
      using chainsD(5) [OF C i, folded cs_def]
      by (elim linked_cong) (auto intro!: keep)
    then show ?thesis using False by simp
  qed
  have fl: "free_list line' (L col @ F)"
  proof -
    have "col \<notin> set (f # fs @ F)"
      using chainsD(7) [OF C col] chainsD(8) [OF C] col Cons by fastforce
    moreover have "linked cs1 f (fs @ F)"
    proof (cases F)
      case Nil
      then have z: "nf = 0" using chainsD(3) [OF C] by (simp add: nf_def free_list_def)
      moreover have "cc_next (cs ! t) = 0" using linked_last [OF l] by (simp add: t_def)
      ultimately have "cc_next (cs1 ! k) = cc_next (cs ! k)" for k
        by (cases "k = t") (simp_all add: cs1_def tb(2))
      then show ?thesis using Nil l by (auto simp: cs1_def intro!: linked_cong [where cs = cs])
    next
      case (Cons g gs)
      have g: "cc_free line = g" "linked cs g gs" "g \<noteq> 0" "g < length cs"
        using chainsD(1,3) [OF C] chainsD(8) [OF C, of g] Cons by (auto simp: free_list_def cs_def)
      have "linked (cs[last (f # fs) := (cs ! last (f # fs))\<lparr>cc_next := int g - int (last (f # fs))\<rparr>])
              f (fs @ g # gs)"
        using l g tb t \<open>L col = f # fs\<close> Cons chainsD(6) [OF C col] chainsD(10) [OF C col]
        by (intro linked_join) (auto simp: t_def)
      then show ?thesis using Cons g by (simp add: cs1_def t_def nf_def)
    qed
    ultimately show ?thesis
      using Cons by (auto simp: free_list_def line'_def intro: linked_update)
  qed
  have "chains line' (L(col := [])) (L col @ F)"
    unfolding chains_def
  proof (intro conjI allI impI)
    show "0 < cols line'" "cols line' \<le> size_of_line line'"
      using chainsD(1,2) [OF C] by (simp_all add: line'_def cs_def cs1_def)
    show "distinct (L col @ F)"
      using chainsD(4) [OF C] chainsD(6,10) [OF C col] by auto
    have "(\<Union>i < cols line. set ((L(col := [])) i)) \<union> set (L col @ F) = (\<Union>i < cols line. set (L i)) \<union> set F"
      using col by (auto split: if_splits)
    then show "(\<Union>i < cols line'. set ((L(col := [])) i)) \<union> set (L col @ F) = {cols line'..<size_of_line line'}"
      using chainsD(11) [OF C] by (simp add: line'_def cs_def cs1_def)
    fix i assume i: "i < cols line'"
    then have i': "i < cols line" by (simp add: line'_def)
    show "linked (chars line') i ((L(col := [])) i)" by (rule lk [OF i'])
    show "distinct ((L(col := [])) i)" using chainsD(6) [OF C i'] by simp
    show "set ((L(col := [])) i) \<inter> set (L col @ F) = {}"
      using chainsD(9) [OF C i' col] chainsD(10) [OF C i'] by auto
    show "set ((L(col := [])) i) \<inter> set ((L(col := [])) j) = {}" if "j < cols line'" "i \<noteq> j" for j
      using chainsD(9) [OF C i', of j] that by (auto simp: line'_def)
  qed (rule fl)
  with run same show ?thesis by (auto simp: cs_def line'_def line_frame_def)
qed

section \<open>Extending the array\<close>

lemma linked_upt:
  assumes "j < n'" "n' \<le> length cs"
    "\<And>i. \<lbrakk>j \<le> i; i < n'\<rbrakk> \<Longrightarrow> cc_next (cs ! i) = (if i + 1 < n' then 1 else 0)"
  shows "linked cs j [Suc j..<n']"
  using assms
proof (induction "n' - j" arbitrary: j)
  case (Suc d)
  show ?case
  proof (cases "Suc j < n'")
    case True
    then have "[Suc j..<n'] = Suc j # [Suc (Suc j)..<n']" by (rule upt_conv_Cons)
    moreover have "linked cs (Suc j) [Suc (Suc j)..<n']"
      using Suc.hyps(2) Suc.prems True by (intro Suc.hyps(1)) auto
    ultimately show ?thesis using Suc.prems(1,2) Suc.prems(3) [of j] True by simp
  next
    case False
    then show ?thesis using Suc.prems(1,2) Suc.prems(3) [of j] by simp
  qed
qed simp

lemma extend_cc_chains:
  assumes C: "chains line L F" and size: "size_of_line line < 2 ^ 30"
  shows "\<exists>line' f fs. extend_cc junk line = Some line' \<and> chains line' L (f # fs) \<and> line_frame line line' \<and>
           (\<exists>ext. chars line' = chars line @ ext)"
proof (cases F)
  case (Cons f fs)
  then have "cc_free line \<noteq> 0" using chainsD(1,3) [OF C] chainsD(8) [OF C, of f] by (auto simp: free_list_def)
  with C Cons show ?thesis by (auto simp: extend_cc_def)
next
  case Nil
  define n where "n = size_of_line line"
  have n: "n < 2 ^ 30" "cc_free line = 0" "cols line \<le> n"
    using size Nil chainsD(2,3) [OF C] by (simp_all add: n_def free_list_def)
  obtain n' where n': "safegrowarray n sizeof_termchar n 1 = Some n'" "n < n'" "n' \<le> INT_MAX"
  proof
    have d: "n div 16 \<le> n" by simp
    let ?n' = "n + (if 12 < n div 16 then n div 16 else 12)"
    show "safegrowarray n sizeof_termchar n 1 = Some ?n'"
      using n(1) d unfolding safegrowarray_def sizeof_termchar_def size_max_def Let_def
      by simp (use n(1) d in linarith)
    show "n < ?n'" by simp
    have "n + n div 16 \<le> 2147483647" using n(1) d by simp
    then show "?n' \<le> INT_MAX" using n(1) by (simp add: INT_MAX_def)
  qed
  define ext where "ext = map (\<lambda>i. junk\<lparr>cc_next := (if i + 1 < n' then 1 else 0)\<rparr>) [n..<n']"
  define line' where "line' = line\<lparr>cc_free := n, chars := chars line @ ext\<rparr>"
  have run: "extend_cc junk line = Some line'"
    using n n' by (simp add: extend_cc_def Let_def n_def [symmetric] line'_def ext_def)
  have len: "size_of_line line' = n'" using n'(2) by (simp add: line'_def ext_def n_def)
  have "linked (chars line') n [Suc n..<n']"
    using n'(2) by (intro linked_upt) (auto simp: len line'_def ext_def n_def nth_append)
  moreover have "linked (chars line') i (L i)" if i: "i < cols line" for i
    using chainsD(5) [OF C i]
  proof (rule linked_cong)
    fix k assume "k \<in> set (i # L i)"
    then have "k < n" using chainsD(7) [OF C i, of k] i n(3) by (auto simp: n_def)
    then show "cc_next (char_at line' k) = cc_next (char_at line k)"
      by (simp add: line'_def nth_append n_def)
  qed (simp add: line'_def)
  moreover have "(\<Union>i < cols line. set (L i)) = {cols line..<n}"
    using chainsD(11) [OF C] Nil by (simp add: n_def)
  moreover from this have "{cols line..<n'} = (\<Union>i < cols line. set (L i)) \<union> set [n..<n']"
    using n(3) n'(2) by auto
  moreover have "set (L i) \<inter> set [n..<n'] = {}" if "i < cols line" for i
    using chainsD(7) [OF C that] by (fastforce simp: n_def)
  ultimately have "chains line' L [n..<n']"
    using C n' n(3) len unfolding chains_def
    by (simp add: line'_def free_list_def upt_conv_Cons)
  moreover have "[n..<n'] = n # [Suc n..<n']" using n'(2) by (rule upt_conv_Cons)
  ultimately show ?thesis using run by (auto simp: line'_def)
qed

section \<open>Adding a combining character\<close>

text \<open>Moving the head \<open>f\<close> of the free list to the end of the list of \<open>col\<close>.\<close>

lemma attach_chains:
  assumes C: "chains line L (f # fs)" and col: "col < cols line"
    and nf: "nf = (case fs of [] \<Rightarrow> 0 | g # gs \<Rightarrow> g)"
    and t: "t = last (col # L col)"
    and cs1: "cs1 = (chars line)[f := c]" and c: "cc_next c = 0"
    and line': "line' = line\<lparr>cc_free := nf, chars := cs1[t := (cs1 ! t)\<lparr>cc_next := int f - int t\<rparr>]\<rparr>"
  shows "chains line' (L(col := L col @ [f])) fs"
proof -
  have f: "cols line \<le> f" "f < size_of_line line" using chainsD(8) [OF C, of f] by auto
  have tm: "t \<in> set (col # L col)" unfolding t by simp
  have tf: "t \<noteq> f" "t < size_of_line line"
    using tm chainsD(7,10) [OF C col, of t] col f chainsD(2) [OF C] by auto
  have keep: "cc_next (char_at line' k) = cc_next (char_at line k)" if "k \<noteq> f" "k \<noteq> t" for k
    using that by (simp add: line' cs1)
  have len: "size_of_line line' = size_of_line line" by (simp add: line' cs1)
  have lk: "linked (chars line') i ((L(col := L col @ [f])) i)" if i: "i < cols line" for i
  proof (cases "i = col")
    case True
    have "linked cs1 col (L col)"
      using chainsD(5) [OF C col] chainsD(10) [OF C col, of f] col f unfolding cs1
      by (intro linked_update) auto
    moreover have "linked cs1 f []" using f c by (simp add: cs1)
    moreover have "distinct (col # L col)"
      using chainsD(6) [OF C col] chainsD(7) [OF C col, of col] col by auto
    ultimately have "linked (cs1[t := (cs1 ! t)\<lparr>cc_next := int f - int t\<rparr>]) col (L col @ f # [])"
      using f tf unfolding t by (intro linked_join) (auto simp: cs1)
    then show ?thesis using True by (simp add: line')
  next
    case False
    have "k \<noteq> f \<and> k \<noteq> t" if "k \<in> set (i # L i)" for k
    proof (cases "k = i")
      case True
      then show ?thesis using False i f(1) tm chainsD(7) [OF C col, of t] by auto
    next
      case k: False
      then have k: "k \<in> set (L i)" using that by simp
      have "k \<notin> set (L col)" using chainsD(9) [OF C i col k] False by blast
      moreover have "k \<noteq> col" using chainsD(7) [OF C i k] col by simp
      ultimately show ?thesis using chainsD(10) [OF C i k] tm by auto
    qed
    with chainsD(5) [OF C i] have "linked (chars line') i (L i)"
      by (elim linked_cong) (auto simp: len intro!: keep)
    then show ?thesis using False by simp
  qed
  have fl: "free_list line' fs"
  proof (cases fs)
    case (Cons g gs)
    have "linked (chars line) g gs" using chainsD(3) [OF C] Cons by (simp add: free_list_def)
    moreover have "k \<noteq> f \<and> k \<noteq> t" if "k \<in> set (g # gs)" for k
      using that Cons tm col chainsD(4) [OF C] chainsD(8) [OF C, of k] chainsD(10) [OF C col, of k] by auto
    ultimately have "linked (chars line') g gs"
      by (elim linked_cong) (auto simp: len intro!: keep)
    then show ?thesis using Cons nf by (simp add: free_list_def line')
  qed (simp add: free_list_def line' nf)
  have un: "(\<Union>i < cols line. set ((L(col := L col @ [f])) i)) = (\<Union>i < cols line. set (L i)) \<union> {f}"
    using col by (auto split: if_splits)
  have cl: "cols line' = cols line" by (simp add: line')
  show ?thesis
    unfolding chains_def cl len un
  proof (intro conjI allI impI)
    show "(\<Union>i < cols line. set (L i)) \<union> {f} \<union> set fs = {cols line..<size_of_line line}"
      using chainsD(11) [OF C] by auto
    fix i assume i: "i < cols line"
    show "linked (chars line') i ((L(col := L col @ [f])) i)" by (rule lk [OF i])
    show "distinct ((L(col := L col @ [f])) i)"
      using chainsD(6,10) [OF C i] by auto
    show "set ((L(col := L col @ [f])) i) \<inter> set fs = {}"
      using chainsD(4) [OF C] chainsD(10) [OF C i] by auto
    show "set ((L(col := L col @ [f])) i) \<inter> set ((L(col := L col @ [f])) j) = {}"
      if "j < cols line" "i \<noteq> j" for j
      using that chainsD(9) [OF C i that(1)] chainsD(10) [OF C i, of f] chainsD(10) [OF C that(1), of f] by auto
  qed (use chainsD(1,2,4) [OF C] fl in auto)
qed

section \<open>Lines as lists of cells\<close>

record cell =
  cl_chr :: uint32
  cl_attr :: uint32
  cl_truecolour :: truecolour
  cl_cc :: "uint32 list"

definition cell_of :: "termchar list \<Rightarrow> nat \<Rightarrow> nat list \<Rightarrow> cell" where
  "cell_of cs i ks =
     \<lparr>cl_chr = chr (cs ! i), cl_attr = attr (cs ! i), cl_truecolour = truecolour (cs ! i),
      cl_cc = map (\<lambda>k. chr (cs ! k)) ks\<rparr>"

definition chain_cells :: "termline \<Rightarrow> (nat \<Rightarrow> nat list) \<Rightarrow> cell list" where
  "chain_cells line L = map (\<lambda>i. cell_of (chars line) i (L i)) [0..<cols line]"

definition line_rep :: "termline \<Rightarrow> cell list \<Rightarrow> bool" where
  "line_rep line cells \<longleftrightarrow> (\<exists>L F. chains line L F \<and> cells = chain_cells line L)"

lemma line_repI: "chains line L F \<Longrightarrow> line_rep line (chain_cells line L)"
  by (auto simp: line_rep_def)

text \<open>What the code maintains of a cell: a bounded list, empty under U+FFFD.\<close>

definition cell_ok :: "cell \<Rightarrow> bool" where
  "cell_ok c \<longleftrightarrow> length (cl_cc c) \<le> CC_LIMIT \<and> (cl_chr c = 0xFFFD \<longrightarrow> cl_cc c = [])"

definition cells_ok :: "cell list \<Rightarrow> bool" where
  "cells_ok cs \<longleftrightarrow> length cs < 2 ^ 24 \<and> list_all cell_ok cs"

definition cell_add_cc :: "uint32 \<Rightarrow> cell \<Rightarrow> cell" where
  "cell_add_cc ch c =
     (if cl_chr c = 0xFFFD then c
      else if CC_LIMIT \<le> length (cl_cc c) then c\<lparr>cl_chr := 0xFFFD, cl_cc := []\<rparr>
      else c\<lparr>cl_cc := cl_cc c @ [ch]\<rparr>)"

definition cell_clear_cc :: "cell \<Rightarrow> cell" where
  "cell_clear_cc c = c\<lparr>cl_cc := []\<rparr>"

lemma cell_ok_ops [simp]:
  "cell_ok c \<Longrightarrow> cell_ok (cell_add_cc ch c)" "cell_ok (cell_clear_cc c)"
  by (auto simp: cell_ok_def cell_add_cc_def cell_clear_cc_def)

lemma cells_ok_update [intro]: "\<lbrakk>cells_ok cs; cell_ok c\<rbrakk> \<Longrightarrow> cells_ok (cs[i := c])"
proof -
  assume "cells_ok cs" "cell_ok c"
  moreover from this have "cell_ok (cs[i := c] ! n)" if "n < length cs" for n
    using that by (cases "n = i") (auto simp: cells_ok_def list_all_length)
  ultimately show ?thesis by (simp add: cells_ok_def list_all_length)
qed

lemma length_chain_cells [simp]: "length (chain_cells line L) = cols line"
  by (simp add: chain_cells_def)

lemma nth_chain_cells [simp]: "i < cols line \<Longrightarrow> chain_cells line L ! i = cell_of (chars line) i (L i)"
  by (simp add: chain_cells_def)

lemma cell_of_cong:
  "\<lbrakk>\<And>k. k \<in> set ks \<Longrightarrow> chr (cs' ! k) = chr (cs ! k); chr (cs' ! i) = chr (cs ! i);
    attr (cs' ! i) = attr (cs ! i); truecolour (cs' ! i) = truecolour (cs ! i)\<rbrakk>
   \<Longrightarrow> cell_of cs' i ks = cell_of cs i ks"
  by (simp add: cell_of_def)

lemma cell_of_same_data:
  assumes "same_data cs cs'" "i < length cs" "\<And>k. k \<in> set ks \<Longrightarrow> k < length cs"
  shows "cell_of cs' i ks = cell_of cs i ks"
  using assms by (intro cell_of_cong) (auto simp: same_data_fields)

text \<open>Two representations agree when all cells but the one at \<open>col\<close> are the same.\<close>

lemma chain_cells_update:
  assumes "cols line' = cols line" "col < cols line"
    "\<And>i. \<lbrakk>i < cols line; i \<noteq> col\<rbrakk> \<Longrightarrow> cell_of (chars line') i (L' i) = cell_of (chars line) i (L i)"
    "cell_of (chars line') col (L' col) = c"
  shows "chain_cells line' L' = (chain_cells line L)[col := c]"
  using assms by (intro nth_equalityI) (auto simp: nth_list_update)

lemma clear_cc_rep:
  assumes "line_rep line cs" "col < length cs"
  shows "\<exists>line'. clear_cc line col = Some line' \<and> line_rep line' (cs[col := cell_clear_cc (cs ! col)]) \<and>
           line_frame line line' \<and> same_data (chars line) (chars line')"
proof -
  from assms(1) obtain L F where C: "chains line L F" and cs: "cs = chain_cells line L"
    by (auto simp: line_rep_def)
  have col: "col < cols line" using assms(2) by (simp add: cs)
  from clear_cc_chains [OF C col] obtain line' where l:
    "clear_cc line col = Some line'" "chains line' (L(col := [])) (L col @ F)"
    "line_frame line line'" "same_data (chars line) (chars line')" by blast
  have "cell_of (chars line') i ((L(col := [])) i) = cell_of (chars line) i (if i = col then [] else L i)"
    if "i < cols line" for i
    using that chainsD(2,7) [OF C] by (auto intro!: cell_of_same_data [OF l(4)])
  then have "chain_cells line' (L(col := [])) = cs[col := cell_clear_cc (cs ! col)]"
    using l(3) col unfolding cs
    by (intro chain_cells_update) (auto simp: line_frame_def cell_of_def cell_clear_cc_def)
  with l line_repI [OF l(2)] show ?thesis by auto
qed

lemma chains_small:
  assumes C: "chains line L []" and ok: "cells_ok (chain_cells line L)"
  shows "size_of_line line < 2 ^ 30"
proof -
  have "length (L i) \<le> 32" if "i < cols line" for i
    using ok that by (auto simp: cells_ok_def list_all_length cell_ok_def cell_of_def CC_LIMIT_def)
  then have "(\<Sum>i < cols line. length (L i)) \<le> (\<Sum>i < cols line. 32)" by (intro sum_mono) auto
  moreover have "cols line < 2 ^ 24" using ok by (simp add: cells_ok_def)
  ultimately show ?thesis using chains_size [OF C] by simp
qed

lemma extend_cc_rep:
  assumes C: "chains line L F" and ok: "cells_ok (chain_cells line L)"
  shows "\<exists>line' f fs. extend_cc junk line = Some line' \<and> chains line' L (f # fs) \<and> line_frame line line' \<and>
           chain_cells line' L = chain_cells line L"
proof (cases F)
  case (Cons f fs)
  then have "cc_free line \<noteq> 0" using chainsD(1,3) [OF C] chainsD(8) [OF C, of f] by (auto simp: free_list_def)
  with C Cons show ?thesis by (auto simp: extend_cc_def)
next
  case Nil
  then have "size_of_line line < 2 ^ 30" using C ok chains_small by simp
  from extend_cc_chains [OF C this] obtain line' f fs ext where e:
    "extend_cc junk line = Some line'" "chains line' L (f # fs)" "line_frame line line'"
    "chars line' = chars line @ ext" by blast
  have "chain_cells line' L = chain_cells line L"
    using e(3) chainsD(2,7) [OF C] unfolding chain_cells_def
    by (auto simp: line_frame_def e(4) nth_append intro!: cell_of_cong)
  with e show ?thesis by blast
qed

lemma add_cc_rep:
  assumes R: "line_rep line cs" and col: "col < length cs" and ok: "cells_ok cs"
  shows "\<exists>line'. add_cc junk line col ch = Some line' \<and> line_rep line' (cs[col := cell_add_cc ch (cs ! col)]) \<and>
           line_frame line line'"
proof -
  from R obtain L F where C: "chains line L F" and cs: "cs = chain_cells line L"
    by (auto simp: line_rep_def)
  have col': "col < cols line" using col by (simp add: cs)
  have ccs: "cl_cc (cs ! col) = map (\<lambda>k. chr (char_at line k)) (L col)" "cl_chr (cs ! col) = chr (char_at line col)"
    using col' by (simp_all add: cs cell_of_def)
  note walk = add_cc_walk_linked [OF chainsD(5) [OF C col'], of 0]
  consider (fffd) "chr (char_at line col) = 0xFFFD"
    | (full) "chr (char_at line col) \<noteq> 0xFFFD" "CC_LIMIT \<le> length (L col)"
    | (room) "chr (char_at line col) \<noteq> 0xFFFD" "length (L col) < CC_LIMIT"
    by linarith
  then show ?thesis
  proof cases
    case fffd
    then have "add_cc junk line col ch = Some line" using col' by (simp add: add_cc_def)
    moreover have "cs[col := cell_add_cc ch (cs ! col)] = cs" using fffd ccs by (simp add: cell_add_cc_def)
    ultimately show ?thesis using R by auto
  next
    case full
    then have "L col \<noteq> []" by (auto simp: CC_LIMIT_def)
    with full walk have w: "add_cc_walk (chars line) col 0 = Some (Inl ())" by simp
    from clear_cc_chains [OF C col'] obtain line1 where l1: "clear_cc line col = Some line1"
      "chains line1 (L(col := [])) (L col @ F)" "line_frame line line1" "same_data (chars line) (chars line1)" by blast
    define line' where "line' = upd_char col (\<lambda>c. c\<lparr>chr := 0xFFFD\<rparr>) line1"
    have nx: "cc_next (char_at line' k) = cc_next (char_at line1 k)" for k
      using col' l1(3,4) chainsD(2) [OF C]
      by (cases "k = col") (auto simp: line'_def same_data_def)
    have "chains line' (L(col := [])) (L col @ F)"
      by (rule chains_links [OF l1(2) _ _ _ nx]) (simp_all add: line'_def)
    moreover have "chain_cells line' (L(col := [])) = cs[col := cell_add_cc ch (cs ! col)]"
      unfolding cs
    proof (rule chain_cells_update)
      show "cols line' = cols line" using l1(3) by (simp add: line'_def line_frame_def)
      show "cell_of (chars line') col ((L(col := [])) col) = cell_add_cc ch (chain_cells line L ! col)"
        using full ccs col' chainsD(2) [OF C] l1(4)
          same_data_fields [OF l1(4), of col]
        by (auto simp: cell_add_cc_def cell_of_def line'_def cs same_data_def [THEN iffD1, THEN conjunct1])
      show "cell_of (chars line') i ((L(col := [])) i) = cell_of (chars line) i (L i)" if "i < cols line" "i \<noteq> col" for i
      proof -
        have "cell_of (chars line') i (L i) = cell_of (chars line1) i (L i)"
        proof (rule cell_of_cong)
          fix k assume "k \<in> set (L i)"
          from chainsD(7) [OF C that(1) this] have "col \<noteq> k" using col' by auto
          then show "chr (char_at line' k) = chr (char_at line1 k)" by (simp add: line'_def)
        qed (use that in \<open>auto simp: line'_def\<close>)
        also have "\<dots> = cell_of (chars line) i (L i)"
          using that chainsD(2) [OF C] chainsD(7) [OF C that(1)] by (intro cell_of_same_data [OF l1(4)]) auto
        finally show ?thesis using that by simp
      qed
    qed (rule col')
    moreover have "add_cc junk line col ch = Some line'"
      using col' full w l1(1) by (simp add: add_cc_def line'_def)
    moreover have "line_frame line line'" using l1(3) by (simp add: line'_def)
    ultimately show ?thesis by (metis line_repI)
  next
    case room
    define t where "t = last (col # L col)"
    have w: "add_cc_walk (chars line) col 0 = Some (Inr t)" using walk room by (simp add: t_def)
    from extend_cc_rep [OF C, of junk] ok obtain line1 f fs where e: "extend_cc junk line = Some line1"
      "chains line1 L (f # fs)" "line_frame line line1" "chain_cells line1 L = cs" by (auto simp: cs)
    have col1: "col < cols line1" using col' e(3) by (simp add: line_frame_def)
    define nf where "nf = (case fs of [] \<Rightarrow> 0 | g # gs \<Rightarrow> g)"
    define cs1 where "cs1 = (chars line1)[f := (char_at line1 f)\<lparr>cc_next := 0, chr := ch\<rparr>]"
    define line' where "line' = line1\<lparr>cc_free := nf, chars := cs1[t := (cs1 ! t)\<lparr>cc_next := int f - int t\<rparr>]\<rparr>"
    have fl: "cc_free line1 = f" "linked (chars line1) f fs"
      using chainsD(3) [OF e(2)] by (auto simp: free_list_def)
    have nx: "(if cc_next (char_at line1 f) \<noteq> 0 then cc_step (chars line1) f else Some 0) = Some nf"
      using fl(2) cc_step_linked [of "chars line1" f] by (cases fs) (auto simp: nf_def)
    have f: "cols line1 \<le> f" "f < size_of_line line1" using chainsD(8) [OF e(2), of f] by auto
    have run: "add_cc junk line col ch = Some line'"
      using col' room(1) w e(1) nx fl(1) f(2)
      by (simp add: add_cc_def line'_def cs1_def Let_def)
    have ch: "chains line' (L(col := L col @ [f])) fs"
      by (rule attach_chains [OF e(2) col1 nf_def t_def cs1_def _ line'_def]) simp
    have t: "t \<noteq> f" "t < size_of_line line1"
      using last_in_set [of "col # L col"] chainsD(7,10) [OF e(2) col1] f col1
      unfolding t_def [symmetric] by auto
    have dat: "chr (char_at line' k) = chr (char_at line1 k) \<and> attr (char_at line' k) = attr (char_at line1 k) \<and>
        truecolour (char_at line' k) = truecolour (char_at line1 k)" if "k \<noteq> f" for k
      using that t by (cases "k = t") (auto simp: line'_def cs1_def)
    have new: "chr (char_at line' f) = ch" using t f by (simp add: line'_def cs1_def)
    have "chain_cells line' (L(col := L col @ [f])) = (chain_cells line1 L)[col := cell_add_cc ch (cs ! col)]"
    proof (rule chain_cells_update)
      show "cell_of (chars line') i ((L(col := L col @ [f])) i) = cell_of (chars line1) i (L i)"
        if "i < cols line1" "i \<noteq> col" for i
        using that f chainsD(10) [OF e(2) that(1), of f] dat [of i] dat
        by (auto intro!: cell_of_cong) (metis dat)
      have "cell_of (chars line') col (L col @ [f]) = (cell_of (chars line1) col (L col))\<lparr>cl_cc := cl_cc (cs ! col) @ [ch]\<rparr>"
        using col1 f dat [of col] dat chainsD(10) [OF e(2) col1, of f] new
        by (auto simp: cell_of_def e(4) [symmetric]) (metis dat)
      then show "cell_of (chars line') col ((L(col := L col @ [f])) col) = cell_add_cc ch (cs ! col)"
        using room ccs col1 by (auto simp: cell_add_cc_def e(4) [symmetric] cell_of_def)
    qed (use col1 in \<open>simp_all add: line'_def\<close>)
    with run ch e(3,4) show ?thesis by (metis line_repI line'_def line_frame_simps(2,3))
  qed
qed

end
