(* ===== verification/Term_Edit.thy ===== *)
theory Term_Edit
  imports Term_Cells
begin

text \<open>
  Copying, moving and comparing cells, changing the width of a line, and the diagnostic check, on
  the cell lists of \<open>Term_Cells\<close>.
\<close>

section \<open>Writing a cell's own data\<close>

lemma set_data_chains:
  assumes C: "chains line L F" and col: "col < cols line" and n: "cc_next c = cc_next (char_at line col)"
  shows "chains (upd_char col (\<lambda>_. c) line) L F"
    "chain_cells (upd_char col (\<lambda>_. c) line) L =
       (chain_cells line L)[col := \<lparr>cl_chr = chr c, cl_attr = attr c, cl_truecolour = truecolour c,
          cl_cc = cl_cc (chain_cells line L ! col)\<rparr>]"
proof -
  define line' where "line' = upd_char col (\<lambda>_. c) line"
  have cl: "col < size_of_line line" using col chainsD(2) [OF C] by simp
  have nx: "cc_next (char_at line' k) = cc_next (char_at line k)" for k
    using cl n by (cases "k = col") (auto simp: line'_def)
  show "chains (upd_char col (\<lambda>_. c) line) L F"
    by (rule chains_links [OF C _ _ _ nx, unfolded line'_def]) simp_all
  have keep: "char_at line' k = char_at line k" if "k \<noteq> col" for k using that by (simp add: line'_def)
  have "chain_cells line' L = (chain_cells line L)[col := \<lparr>cl_chr = chr c, cl_attr = attr c,
           cl_truecolour = truecolour c, cl_cc = cl_cc (chain_cells line L ! col)\<rparr>]"
  proof (rule chain_cells_update)
    show "cell_of (chars line') i (L i) = cell_of (chars line) i (L i)" if "i < cols line" "i \<noteq> col" for i
      using that chainsD(7) [OF C that(1)] col keep by (intro cell_of_cong) fastforce+
    have "chr (char_at line' k) = chr (char_at line k)" if "k \<in> set (L col)" for k
      using chainsD(7) [OF C col that] col keep [of k] by simp
    then show "cell_of (chars line') col (L col) = \<lparr>cl_chr = chr c, cl_attr = attr c,
           cl_truecolour = truecolour c, cl_cc = cl_cc (chain_cells line L ! col)\<rparr>"
      using col cl by (simp add: cell_of_def line'_def)
  qed (use col in \<open>simp_all add: line'_def\<close>)
  then show "chain_cells (upd_char col (\<lambda>_. c) line) L =
       (chain_cells line L)[col := \<lparr>cl_chr = chr c, cl_attr = attr c, cl_truecolour = truecolour c,
          cl_cc = cl_cc (chain_cells line L ! col)\<rparr>]"
    by (simp only: line'_def)
qed

lemma set_data_rep:
  assumes R: "line_rep line cs" and col: "col < length cs" and n: "cc_next c = cc_next (char_at line col)"
  shows "line_rep (upd_char col (\<lambda>_. c) line)
           (cs[col := \<lparr>cl_chr = chr c, cl_attr = attr c, cl_truecolour = truecolour c, cl_cc = cl_cc (cs ! col)\<rparr>])"
proof -
  from R obtain L F where C: "chains line L F" and cs: "cs = chain_cells line L" by (auto simp: line_rep_def)
  have col': "col < cols line" using col cs by simp
  show ?thesis
    using line_repI [OF set_data_chains(1) [where c = c, OF C col' n]]
    by (simp add: set_data_chains(2) [where c = c, OF C col' n] cs)
qed

lemma line_rep_cols: "line_rep line cs \<Longrightarrow> length cs = cols line \<and> 0 < cols line \<and> cols line \<le> size_of_line line"
  by (auto simp: line_rep_def dest: chainsD(1,2))

section \<open>Copying a cell\<close>

text \<open>A cell of some array, with the positions of its list.\<close>

definition src_cell :: "termchar list \<Rightarrow> nat \<Rightarrow> cell \<Rightarrow> bool" where
  "src_cell src i c \<longleftrightarrow> (\<exists>ks. linked src i ks \<and> c = cell_of src i ks)"

lemma line_rep_src_cell: "\<lbrakk>line_rep line cs; i < length cs\<rbrakk> \<Longrightarrow> src_cell (chars line) i (cs ! i)"
  unfolding line_rep_def src_cell_def by (metis chainsD(5) length_chain_cells nth_chain_cells)

lemma src_cell_plain: "cc_next (src ! i) = 0 \<Longrightarrow> src_cell src i (cell_of src i [])"
  unfolding src_cell_def by (rule exI [of _ "[]"]) simp

definition cell_add_ccs :: "uint32 list \<Rightarrow> cell \<Rightarrow> cell" where
  "cell_add_ccs chs c = fold cell_add_cc chs c"

lemma copy_ccs_rep:
  assumes "linked src i ks" "line_rep line cs" "x < length cs" "cells_ok cs"
  shows "\<exists>line'. copy_ccs junk line x src i = Some line' \<and>
           line_rep line' (cs[x := cell_add_ccs (map (\<lambda>k. chr (src ! k)) ks) (cs ! x)]) \<and> line_frame line line'"
  using assms
proof (induction ks arbitrary: i line cs)
  case Nil
  then show ?case by (simp add: copy_ccs.simps cell_add_ccs_def)
next
  case (Cons k ks)
  note step = cc_step_linked [OF Cons.prems(1)]
  let ?c = "cell_add_cc (chr (src ! k)) (cs ! x)"
  from add_cc_rep [OF Cons.prems(2-4), of junk "chr (src ! k)"] obtain line1 where l1:
    "add_cc junk line x (chr (src ! k)) = Some line1" "line_rep line1 (cs[x := ?c])" "line_frame line line1" by blast
  have "cells_ok (cs[x := ?c])" using Cons.prems(3,4) by (auto simp: cells_ok_def list_all_length nth_list_update)
  with Cons.IH [OF _ l1(2)] Cons.prems obtain line' where
    "copy_ccs junk line1 x src k = Some line'"
    "line_rep line' (cs[x := cell_add_ccs (map (\<lambda>k. chr (src ! k)) ks) ?c])" "line_frame line1 line'"
    by auto
  with l1 step Cons.prems(1) show ?case
    by (subst copy_ccs.simps) (auto simp: cell_add_ccs_def intro: line_frame_trans)
qed

lemma cell_add_ccs_ok:
  "\<lbrakk>cell_ok (c\<lparr>cl_cc := cl_cc c @ chs\<rparr>)\<rbrakk> \<Longrightarrow> cell_add_ccs chs c = c\<lparr>cl_cc := cl_cc c @ chs\<rparr>"
proof (induction chs arbitrary: c)
  case (Cons ch chs)
  then have "cell_add_cc ch c = c\<lparr>cl_cc := cl_cc c @ [ch]\<rparr>"
    by (auto simp: cell_ok_def cell_add_cc_def)
  with Cons show ?case by (simp add: cell_add_ccs_def)
qed (simp add: cell_add_ccs_def)

lemma copy_termchar_rep:
  assumes src: "src_cell src i c" and R: "line_rep line cs" and x: "x < length cs"
    and ok: "cells_ok cs" "cell_ok c"
  shows "\<exists>line'. copy_termchar junk line x src i = Some line' \<and> line_rep line' (cs[x := c]) \<and> line_frame line line'"
proof -
  from src obtain ks where ks: "linked src i ks" "c = cell_of src i ks" by (auto simp: src_cell_def)
  from clear_cc_rep [OF R x] obtain line1 where l1: "clear_cc line x = Some line1"
    "line_rep line1 (cs[x := cell_clear_cc (cs ! x)])" "line_frame line line1"
    by blast
  define d where "d = (src ! i)\<lparr>cc_next := 0\<rparr>"
  define line2 where "line2 = upd_char x (\<lambda>_. d) line1"
  have x1: "x < cols line1" "x < size_of_line line1"
    using x line_rep_cols [OF l1(2)] by auto
  have nx: "cc_next (char_at line1 x) = 0"
  proof -
    from l1(2) obtain L F where C: "chains line1 L F" and "cs[x := cell_clear_cc (cs ! x)] = chain_cells line1 L"
      by (auto simp: line_rep_def)
    then have "cl_cc (chain_cells line1 L ! x) = []" using x by (metis cell.select_convs(4) cell.surjective cell.update_convs(4) cell_clear_cc_def nth_list_update_eq)
    then have "L x = []" using x1 by (simp add: cell_of_def)
    then show ?thesis using chainsD(5) [OF C x1(1)] by simp
  qed
  have r2: "line_rep line2 (cs[x := cell_of src i []])"
    using set_data_rep [OF l1(2), of x d] x nx
    by (simp add: d_def line2_def cell_of_def cell_clear_cc_def)
  have ok2: "cells_ok (cs[x := cell_of src i []])"
    using ok x by (intro cells_ok_update) (auto simp: ks(2) cell_ok_def cell_of_def)
  from copy_ccs_rep [OF ks(1) r2 _ ok2, of x junk] x obtain line' where l': "copy_ccs junk line2 x src i = Some line'"
    "line_rep line' (cs[x := cell_add_ccs (map (\<lambda>k. chr (src ! k)) ks) (cell_of src i [])])" "line_frame line2 line'"
    by auto
  have "cell_add_ccs (map (\<lambda>k. chr (src ! k)) ks) (cell_of src i []) = c"
    using ok(2) ks(2) by (subst cell_add_ccs_ok) (auto simp: cell_of_def)
  moreover have "copy_termchar junk line x src i = Some line'"
    using l1(1) l'(1) x1 by (simp add: copy_termchar_def line2_def d_def)
  moreover have "line_frame line line'"
    using l1(3) l'(3) by (auto simp: line2_def line_frame_def)
  ultimately show ?thesis using l' by auto
qed

section \<open>Moving a cell\<close>

lemma cc_next_zero: "cc_next c = 0 \<Longrightarrow> c\<lparr>cc_next := 0\<rparr> = c"
  by (cases c) simp

lemma move_chains:
  assumes C: "chains line L F" and d: "d < cols line" and s: "s < cols line" and ds: "d \<noteq> s" and Ld: "L d = []"
    and c: "c = (char_at line s)\<lparr>cc_next :=
              (if cc_next (char_at line s) \<noteq> 0 then cc_next (char_at line s) - (int d - int s) else 0)\<rparr>"
    and line': "line' = line\<lparr>chars := (chars line)[d := c, s := (char_at line s)\<lparr>cc_next := 0\<rparr>]\<rparr>"
  shows "chains line' (L(d := L s, s := [])) F"
    and "chain_cells line' (L(d := L s, s := [])) =
           (chain_cells line L)[d := chain_cells line L ! s, s := cell_clear_cc (chain_cells line L ! s)]"
proof -
  have b: "d < size_of_line line" "s < size_of_line line" using d s chainsD(2) [OF C] by auto
  have keep: "char_at line' k = char_at line k" if "k \<noteq> d" "k \<noteq> s" for k using that by (simp add: line')
  have at: "char_at line' d = c" "char_at line' s = (char_at line s)\<lparr>cc_next := 0\<rparr>"
    using b ds by (simp_all add: line')
  have len: "size_of_line line' = size_of_line line" "cols line' = cols line" "cc_free line' = cc_free line"
    by (simp_all add: line')
  let ?L = "L(d := L s, s := [])"
  have tail: "k \<noteq> d \<and> k \<noteq> s" if "i < cols line" "k \<in> set (L i)" for i k
    using chainsD(7) [OF C that] d s by auto
  have tailF: "k \<noteq> d \<and> k \<noteq> s" if "k \<in> set F" for k
    using chainsD(8) [OF C that] d s by auto
  have lk: "linked (chars line') i (?L i)" if i: "i < cols line" for i
  proof (cases "i = s \<or> i = d")
    case False
    then have "linked (chars line') i (L i)"
      using chainsD(5) [OF C i] tail [OF i] by (elim linked_cong) (auto simp: len keep)
    then show ?thesis using False by simp
  next
    case True
    have "linked (chars line') d (L s)"
    proof (cases "L s")
      case Nil
      then show ?thesis using chainsD(5) [OF C s] by (simp add: at c)
    next
      case (Cons k ks)
      have "linked (chars line) s (k # ks)" using chainsD(5) [OF C s] Cons by simp
      moreover from this have "linked (chars line') k ks"
        using tail [OF s] Cons by (auto simp: len keep elim!: linked_cong)
      moreover have "int d + cc_next c \<noteq> int d"
        using calculation(1) tail [OF s, of k] Cons by (auto simp: c)
      ultimately show ?thesis using Cons by (auto simp: at len c)
    qed
    with True show ?thesis by (auto simp: at)
  qed
  have un: "(\<Union>i < cols line. set (?L i)) = (\<Union>i < cols line. set (L i))"
  proof (intro equalityI subsetI)
    fix x assume "x \<in> (\<Union>i < cols line. set (L i))"
    then obtain i where "i < cols line" "x \<in> set (L i)" by auto
    then have "(if i = s then d else i) < cols line" "x \<in> set (?L (if i = s then d else i))"
      using d ds Ld by (auto split: if_splits)
    then show "x \<in> (\<Union>i < cols line. set (?L i))" by blast
  qed (use s in \<open>auto split: if_splits\<close>)
  show ch: "chains line' ?L F"
    unfolding chains_def len un
  proof (intro conjI allI impI)
    show "free_list line' F"
      using chainsD(3) [OF C] tailF by (auto simp: free_list_def len keep split: list.splits elim!: linked_cong)
    show "(\<Union>i < cols line. set (L i)) \<union> set F = {cols line..<size_of_line line}" by (rule chainsD(11) [OF C])
    fix i assume i: "i < cols line"
    show "linked (chars line') i (?L i)" by (rule lk [OF i])
    show "distinct (?L i)" using chainsD(6) [OF C] i s by auto
    show "set (?L i) \<inter> set F = {}" using chainsD(10) [OF C] i s by auto
    show "set (?L i) \<inter> set (?L j) = {}" if "j < cols line" "i \<noteq> j" for j
      using chainsD(9) [OF C i that(1)] chainsD(9) [OF C s that(1)] chainsD(9) [OF C i s] that i s by auto
  qed (use chainsD(1,2,4) [OF C] in auto)
  show "chain_cells line' ?L =
           (chain_cells line L)[d := chain_cells line L ! s, s := cell_clear_cc (chain_cells line L ! s)]"
  proof (rule nth_equalityI)
    fix i assume "i < length (chain_cells line' ?L)"
    then have i: "i < cols line" by (simp add: len)
    have dat: "map (\<lambda>k. chr (char_at line' k)) (L j) = map (\<lambda>k. chr (char_at line k)) (L j)" if "j < cols line" for j
      using tail [OF that] keep by simp
    consider "i = s" | "i = d" | "i \<noteq> s" "i \<noteq> d" by blast
    then show "chain_cells line' ?L ! i =
        (chain_cells line L)[d := chain_cells line L ! s, s := cell_clear_cc (chain_cells line L ! s)] ! i"
      by cases (use i s d ds in \<open>simp_all add: len cell_of_def at c dat cell_clear_cc_def keep\<close>)
  qed (simp add: len)
qed

lemma move_termchar_rep:
  assumes R: "line_rep line cs" and d: "d < length cs" and s: "s < length cs" and ds: "d \<noteq> s"
  shows "\<exists>line'. move_termchar line d s = Some line' \<and>
           line_rep line' (cs[d := cs ! s, s := cell_clear_cc (cs ! s)]) \<and> line_frame line line'"
proof -
  from R obtain L F where C: "chains line L F" and cs: "cs = chain_cells line L" by (auto simp: line_rep_def)
  have b: "d < cols line" "s < cols line" using d s by (simp_all add: cs)
  from clear_cc_chains [OF C b(1)] obtain line1 where l1: "clear_cc line d = Some line1"
    "chains line1 (L(d := [])) (L d @ F)" "line_frame line line1" "same_data (chars line) (chars line1)" by blast
  have b1: "d < cols line1" "s < cols line1" using b l1(3) by (simp_all add: line_frame_def)
  have sz: "s < size_of_line line1" "d < size_of_line line1" using b1 chainsD(2) [OF l1(2)] by auto
  define c where "c = (char_at line1 s)\<lparr>cc_next :=
      (if cc_next (char_at line1 s) \<noteq> 0 then cc_next (char_at line1 s) - (int d - int s) else 0)\<rparr>"
  define line' where "line' = line1\<lparr>chars := (chars line1)[d := c, s := (char_at line1 s)\<lparr>cc_next := 0\<rparr>]\<rparr>"
  note m = move_chains [OF l1(2) b1 ds _ c_def line'_def]
  have ch: "chains line' ((L(d := []))(d := (L(d := [])) s, s := [])) (L d @ F)" by (rule m(1)) simp
  have same: "(chars line1)[d := x, s := char_at line1 s] = (chars line1)[d := x]" for x
    by (metis ds list_update_id nth_list_update_neq)
  have "move_termchar line d s = Some line'"
    using l1(1) ds sz by (auto simp: move_termchar_def Let_def line'_def c_def list_update_swap cc_next_zero same)
  moreover have "chain_cells line' ((L(d := []))(d := (L(d := [])) s, s := [])) =
      cs[d := cs ! s, s := cell_clear_cc (cs ! s)]"
  proof -
    have eq: "cell_of (chars line1) i (L i) = cell_of (chars line) i (L i)" if "i < cols line" for i
      using that chainsD(2) [OF C] chainsD(7) [OF C that] by (auto intro!: cell_of_same_data [OF l1(4)])
    have cl: "cols line1 = cols line" using l1(3) by (simp add: line_frame_def)
    show ?thesis
      by (subst m(2), simp)
        (use b b1 ds in \<open>auto simp: cs eq cl nth_list_update intro!: nth_equalityI\<close>)
  qed
  moreover have "line_frame line line'" using l1(3) by (simp add: line'_def)
  ultimately show ?thesis using line_repI [OF ch] by auto
qed

section \<open>Changing the width\<close>

lemma clear_ccs_chains:
  assumes "chains line L F" "set is \<subseteq> {..<cols line}"
  shows "\<exists>line' L' F'. clear_ccs is line = Some line' \<and> chains line' L' F' \<and>
           L' = (\<lambda>i. if i \<in> set is then [] else L i) \<and>
           line_frame line line' \<and> same_data (chars line) (chars line')"
  using assms
proof (induction "is" arbitrary: line L F)
  case (Cons i js)
  from clear_cc_chains [OF Cons.prems(1), of i] Cons.prems(2) obtain line1 where l1:
    "clear_cc line i = Some line1" "chains line1 (L(i := [])) (L i @ F)"
    "line_frame line line1" "same_data (chars line) (chars line1)" by auto
  have "set js \<subseteq> {..<cols line1}" using Cons.prems(2) l1(3) by (auto simp: line_frame_def)
  from Cons.IH [OF l1(2) this] obtain line' F' where
    "clear_ccs js line1 = Some line'" "chains line' (\<lambda>j. if j \<in> set js then [] else (L(i := [])) j) F'"
    "line_frame line1 line'" "same_data (chars line1) (chars line')" by auto
  moreover have "(\<lambda>j. if j \<in> set js then [] else (L(i := [])) j) = (\<lambda>j. if j \<in> set (i # js) then [] else L j)"
    by auto
  ultimately show ?case using l1 by (auto intro: line_frame_trans same_data_trans)
qed auto

lemma resize_chains:
  assumes C: "chains line L F" and n: "0 < n" and e: "cc_next e = 0"
    and cut: "\<And>i. \<lbrakk>n \<le> i; i < cols line\<rbrakk> \<Longrightarrow> L i = []"
    and line': "line' = resize_array e line n"
  shows "\<exists>L' F'. chains line' L' F' \<and>
           chain_cells line' L' = take n (chain_cells line L) @ replicate (n - cols line) (cell_of [e] 0 [])"
proof -
  define m where "m = min (cols line) n"
  define cs where "cs = take m (chars line) @ replicate (n - cols line) e @ drop (cols line) (chars line)"
  define cs' where "cs' = map (\<lambda>i. if i < cols line \<and> i < n \<and> cc_next (cs ! i) \<noteq> 0
                  then (cs ! i)\<lparr>cc_next := cc_next (cs ! i) + (int n - int (cols line))\<rparr> else cs ! i) [0..<length cs]"
  have line': "line' = line\<lparr>cols := n, chars := cs', cc_free := (if cc_free line \<noteq> 0
                  then nat (int (cc_free line) + (int n - int (cols line))) else 0)\<rparr>"
    unfolding line' resize_array_def Let_def cs'_def cs_def m_def ..
  define r where "r k = k + n - cols line" for k
  have cl: "cols line \<le> size_of_line line" by (rule chainsD(2) [OF C])
  have mn: "m \<le> size_of_line line" "m + (n - cols line) = n" using cl by (auto simp: m_def)
  have len: "length cs' = n + (size_of_line line - cols line)" "length cs = n + (size_of_line line - cols line)"
    using mn by (simp_all add: cs_def cs'_def)
  have tail: "cs' ! r k = chars line ! k" "r k < length cs'" "n \<le> r k" "int (r k) = int k + (int n - int (cols line))"
    if k: "cols line \<le> k" "k < size_of_line line" for k
  proof -
    show i: "int (r k) = int k + (int n - int (cols line))" "n \<le> r k" "r k < length cs'"
      using k len(1) by (auto simp: r_def)
    define pre where "pre = take m (chars line) @ replicate (n - cols line) e"
    have "length pre = n" using mn by (simp add: pre_def)
    then have "(pre @ drop (cols line) (chars line)) ! r k = chars line ! (cols line + (r k - n))"
      using i(2) cl by (simp add: nth_append)
    then have "cs ! r k = chars line ! (cols line + (r k - n))" by (simp add: cs_def pre_def)
    also have "\<dots> = chars line ! k" using k by (simp add: r_def)
    finally have "cs ! r k = chars line ! k" .
    moreover have "r k < length cs" using i(3) len by simp
    ultimately show "cs' ! r k = chars line ! k" using i(2) by (simp add: cs'_def)
  qed
  have head: "cs' ! i = (if cc_next (chars line ! i) \<noteq> 0
       then (chars line ! i)\<lparr>cc_next := cc_next (chars line ! i) + (int n - int (cols line))\<rparr> else chars line ! i)"
    if "i < m" for i
  proof -
    have "cs ! i = chars line ! i" using that mn(1) by (simp add: cs_def nth_append)
    moreover have "i < length cs" "i < cols line" "i < n" using that len(2) by (auto simp: m_def)
    ultimately show ?thesis by (simp add: cs'_def)
  qed
  have mid: "cs' ! i = e" if "cols line \<le> i" "i < n" for i
  proof -
    have "cs ! i = e" using that cl by (simp add: cs_def nth_append m_def)
    then show ?thesis using that len(2) by (simp add: cs'_def)
  qed
  define L' where "L' i = (if i < cols line then map r (L i) else [])" for i
  define F' where "F' = map r F"
  have lt: "linked cs' (r j) (map r ks)"
    if "linked (chars line) j ks" "cols line \<le> j" "j < size_of_line line" "\<forall>k\<in>set ks. cols line \<le> k" for j ks
    using that
  proof (induction ks arbitrary: j)
    case Nil
    then show ?case using tail(1) [of j] by simp
  next
    case (Cons k ks)
    then show ?case
      using Cons.IH [of k] tail [of k] tail [of j] by simp
  qed
  have inj: "inj_on r {cols line..<size_of_line line}" by (auto simp: inj_on_def r_def)
  have im: "r ` {cols line..<size_of_line line} = {n..<length cs'}"
  proof
    show "{n..<length cs'} \<subseteq> r ` {cols line..<size_of_line line}"
    proof
      fix k assume k: "k \<in> {n..<length cs'}"
      have "k = r (k + cols line - n)" "k + cols line - n \<in> {cols line..<size_of_line line}"
        using k len(1) by (auto simp: r_def)
      then show "k \<in> r ` {cols line..<size_of_line line}" by blast
    qed
  qed (use tail in auto)
  have cover: "(\<Union>i < n. set (L' i)) = r ` (\<Union>i < cols line. set (L i))"
  proof (intro equalityI subsetI)
    fix x assume "x \<in> r ` (\<Union>i < cols line. set (L i))"
    then obtain i k where i: "i < cols line" "k \<in> set (L i)" "x = r k" by auto
    then have "i < n" using cut [of i] by (cases "n \<le> i") auto
    with i show "x \<in> (\<Union>i < n. set (L' i))" by (auto simp: L'_def)
  qed (auto simp: L'_def split: if_splits)
  have sub: "set (L i) \<subseteq> {cols line..<size_of_line line}" if "i < cols line" for i
    using chainsD(7) [OF C that] by auto
  have subF: "set F \<subseteq> {cols line..<size_of_line line}" using chainsD(8) [OF C] by auto
  have "chains line' L' F'"
    unfolding chains_def
  proof (intro conjI allI impI)
    show "0 < cols line'" "cols line' \<le> size_of_line line'" using n len by (simp_all add: line')
    show "free_list line' F'"
    proof (cases F)
      case Nil
      then show ?thesis using chainsD(3) [OF C] by (simp add: free_list_def F'_def line')
    next
      case (Cons f fs)
      have f: "cols line \<le> f" "f < size_of_line line" "f \<noteq> 0"
        using subF chainsD(1) [OF C] Cons by auto
      have "linked cs' (r f) (map r fs)"
        using chainsD(3) [OF C] Cons subF f by (intro lt) (auto simp: free_list_def)
      then show ?thesis
        using chainsD(3) [OF C] Cons f tail(4) [OF f(1,2)] by (simp add: free_list_def F'_def line')
    qed
    show "distinct F'"
      using chainsD(4) [OF C] inj subF by (auto simp: F'_def distinct_map intro: inj_on_subset)
    show "(\<Union>i < cols line'. set (L' i)) \<union> set F' = {cols line'..<size_of_line line'}"
      using cover im chainsD(11) [OF C] by (simp add: line' F'_def image_Un [symmetric])
    fix i assume "i < cols line'"
    then have i: "i < n" by (simp add: line')
    show "distinct (L' i)"
      using chainsD(6) [OF C] inj sub by (auto simp: L'_def distinct_map intro: inj_on_subset)
    show "set (L' i) \<inter> set F' = {}"
      using chainsD(10) [OF C] inj_on_image_Int [OF inj sub subF] by (fastforce simp: L'_def F'_def)
    show "set (L' i) \<inter> set (L' j) = {}" if "j < cols line'" "i \<noteq> j" for j
      using chainsD(9) [OF C] that inj_on_image_Int [OF inj sub sub] by (fastforce simp: L'_def)
    show "linked (chars line') i (L' i)"
    proof (cases "i < cols line")
      case False
      then show ?thesis using i e by (simp add: L'_def line' mid)
    next
      case True
      then have im: "i < m" using i by (simp add: m_def)
      have l: "linked (chars line) i (L i)" by (rule chainsD(5) [OF C True])
      show ?thesis
      proof (cases "L i")
        case Nil
        then show ?thesis using l True by (simp add: L'_def line' head [OF im])
      next
        case (Cons k ks)
        have k: "cols line \<le> k" "k < size_of_line line" "\<forall>k\<in>set ks. cols line \<le> k" using sub [OF True] Cons by auto
        have "linked cs' (r k) (map r ks)" using l Cons k by (intro lt) auto
        moreover have "int i + cc_next (cs' ! i) = int (r k)" "cc_next (cs' ! i) \<noteq> 0"
          using l Cons k tail(3,4) [OF k(1,2)] i by (auto simp: head [OF im])
        ultimately show ?thesis using Cons True tail [OF k(1,2)] by (simp add: L'_def line')
      qed
    qed
  qed
  moreover have "chain_cells line' L' = take n (chain_cells line L) @ replicate (n - cols line) (cell_of [e] 0 [])"
  proof (rule nth_equalityI)
    fix i assume "i < length (chain_cells line' L')"
    then have i: "i < n" by (simp add: line')
    then have nth: "chain_cells line' L' ! i = cell_of cs' i (L' i)" by (simp add: line')
    show "chain_cells line' L' ! i =
       (take n (chain_cells line L) @ replicate (n - cols line) (cell_of [e] 0 [])) ! i"
    proof (cases "i < cols line")
      case True
      have "chr (cs' ! r k) = chr (char_at line k)" if "k \<in> set (L i)" for k
        using sub [OF True] that tail(1) [of k] by auto
      then have "map (\<lambda>k. chr (cs' ! k)) (L' i) = map (\<lambda>k. chr (char_at line k)) (L i)"
        using True by (simp add: L'_def)
      moreover have "i < m" using i True by (simp add: m_def)
      ultimately show ?thesis unfolding nth using True i by (simp add: cell_of_def head nth_append)
    next
      case False
      then show ?thesis unfolding nth using i mid [of i] by (simp add: cell_of_def L'_def nth_append)
    qed
  qed (simp add: line')
  ultimately show ?thesis by blast
qed

lemma resizeline_rep:
  assumes R: "line_rep line cs" and n: "0 < n" and e: "cc_next e = 0"
  shows "\<exists>line'. resizeline e line n = Some line' \<and>
           line_rep line' (take n cs @ replicate (n - length cs) (cell_of [e] 0 [])) \<and>
           lattr line' = lattr line \<and> temporary line' = temporary line \<and> trusted line' = trusted line"
proof (cases "cols line = n")
  case True
  then show ?thesis using R line_rep_cols [OF R] by (simp add: resizeline_def)
next
  case False
  from R obtain L F where C: "chains line L F" and cs: "cs = chain_cells line L" by (auto simp: line_rep_def)
  have "set [n..<cols line] \<subseteq> {..<cols line}" by auto
  from clear_ccs_chains [OF C this] obtain line1 F1 where l1:
    "clear_ccs [n..<cols line] line = Some line1"
    "chains line1 (\<lambda>i. if i \<in> {n..<cols line} then [] else L i) F1"
    "line_frame line line1" "same_data (chars line) (chars line1)" by auto
  let ?L = "\<lambda>i. if i \<in> {n..<cols line} then [] else L i"
  have cl: "cols line1 = cols line" using l1(3) by (simp add: line_frame_def)
  from resize_chains [OF l1(2) n e _ refl] obtain L' F' where r:
    "chains (resize_array e line1 n) L' F'"
    "chain_cells (resize_array e line1 n) L' =
       take n (chain_cells line1 ?L) @ replicate (n - cols line) (cell_of [e] 0 [])"
    by (auto simp: cl)
  have run: "resizeline e line n = Some (resize_array e line1 n)"
    using False l1(1) by (simp add: resizeline_def)
  have fr: "lattr (resize_array e line1 n) = lattr line" "temporary (resize_array e line1 n) = temporary line"
    "trusted (resize_array e line1 n) = trusted line"
    using l1(3) by (simp_all add: resize_array_def Let_def line_frame_def)
  have "take n (chain_cells line1 ?L) = take n cs"
  proof (rule nth_equalityI)
    fix i assume "i < length (take n (chain_cells line1 ?L))"
    then have i: "i < n" "i < cols line" by (auto simp: cl)
    then show "take n (chain_cells line1 ?L) ! i = take n cs ! i"
      using chainsD(2) [OF C] chainsD(7) [OF C i(2)]
      by (auto simp: cl cs intro!: cell_of_same_data [OF l1(4)])
  qed (simp add: cl cs)
  with run fr r(2) line_repI [OF r(1)] show ?thesis by (simp add: cs)
qed

end
