(* ===== verification/Term_Check.thy ===== *)
theory Term_Check
  imports Term_Edit
begin

text \<open>
  New lines, comparison of cells, the meaning of the diagnostic \<^verbatim>\<open>cc_check\<close>, and scripts of
  line operations against lists of cells.
\<close>

section \<open>New lines and comparison\<close>

lemma newtermline_rep:
  assumes "0 < n" "cc_next erase = 0" "cc_next basic = 0"
  shows "line_rep (newtermline erase basic n bce)
           (replicate n (cell_of [if bce then erase else basic] 0 []))"
proof -
  have "chains (newtermline erase basic n bce) (\<lambda>_. []) []"
    using assms by (auto simp: chains_def newtermline_def free_list_def)
  moreover have "chain_cells (newtermline erase basic n bce) (\<lambda>_. []) =
      replicate n (cell_of [if bce then erase else basic] 0 [])"
    by (rule nth_equalityI) (simp_all add: newtermline_def cell_of_def)
  ultimately show ?thesis using line_repI by metis
qed

text \<open>What it means for two cells to look the same.\<close>

definition cells_equal :: "cell \<Rightarrow> cell \<Rightarrow> uint32 \<Rightarrow> uint32 \<Rightarrow> bool" where
  "cells_equal a b bchr battr \<longleftrightarrow>
     cl_truecolour a = cl_truecolour b \<and> cl_chr a = bchr \<and>
     cl_attr a AND NOT DATTR_MASK = battr AND NOT DATTR_MASK \<and> cl_cc a = cl_cc b"

lemma cc_lists_equal_linked:
  "\<lbrakk>linked as a ks; linked bs b ls\<rbrakk> \<Longrightarrow>
   cc_lists_equal as a bs b = Some (map (\<lambda>k. chr (as ! k)) ks = map (\<lambda>k. chr (bs ! k)) ls)"
proof (induction ks arbitrary: a b ls)
  case Nil
  then show ?case by (cases ls) (auto simp: cc_lists_equal.simps [of as a bs b])
next
  case (Cons k ks)
  note s = cc_step_linked [OF Cons.prems(1)]
  show ?case
  proof (cases ls)
    case Nil
    with Cons.prems show ?thesis by (auto simp: cc_lists_equal.simps [of as a bs b])
  next
    case (Cons l ls')
    with Cons.prems cc_step_linked [of bs b l ls'] s Cons.IH [of k l ls']
    show ?thesis by (simp add: cc_lists_equal.simps [of as a bs b])
  qed
qed

lemma truecolour_equal_eq: "truecolour_equal a b \<longleftrightarrow> a = b"
  by (cases a; cases b) (auto simp: truecolour_equal_def optionalrgb_equal_def intro!: optionalrgb.equality)

lemma termchars_equal_override_cells:
  "\<lbrakk>src_cell as a c; src_cell bs b d\<rbrakk> \<Longrightarrow>
   termchars_equal_override as a bs b bchr battr = Some (cells_equal c d bchr battr)"
  unfolding src_cell_def
  by (auto simp: termchars_equal_override_def cells_equal_def cell_of_def truecolour_equal_eq
      cc_lists_equal_linked)

section \<open>The diagnostic check\<close>

definition tail_flags :: "termline \<Rightarrow> bool list \<Rightarrow> nat list \<Rightarrow> bool list \<Rightarrow> bool" where
  "tail_flags line flags ks flags' \<longleftrightarrow>
     distinct ks \<and> set ks \<subseteq> {cols line..<size_of_line line} \<and> (\<forall>k \<in> set ks. \<not> flags ! k) \<and>
     length flags' = size_of_line line \<and> (\<forall>k < size_of_line line. flags' ! k \<longleftrightarrow> flags ! k \<or> k \<in> set ks)"

lemma tail_flags_trans:
  assumes "tail_flags line f ks g" "tail_flags line g ls h"
  shows "tail_flags line f (ks @ ls) h"
  using assms unfolding tail_flags_def by (auto simp: subset_iff)

lemma tail_flags_nil: "length f = size_of_line line \<Longrightarrow> tail_flags line f [] g \<longleftrightarrow> g = f"
  by (auto simp: tail_flags_def intro!: nth_equalityI)

lemma tail_flags_append:
  assumes "length f = size_of_line line"
  shows "tail_flags line f (ks @ ls) h \<longleftrightarrow> (\<exists>g. tail_flags line f ks g \<and> tail_flags line g ls h)"
proof
  assume h: "tail_flags line f (ks @ ls) h"
  define g where "g = map (\<lambda>k. f ! k \<or> k \<in> set ks) [0..<size_of_line line]"
  have at: "g ! k \<longleftrightarrow> f ! k \<or> k \<in> set ks" if "k < size_of_line line" for k
    using that by (simp add: g_def)
  have "tail_flags line f ks g" using h by (auto simp: tail_flags_def g_def)
  moreover have "tail_flags line g ls h"
    using h at unfolding tail_flags_def by (auto simp: subset_iff)
  ultimately show "\<exists>g. tail_flags line f ks g \<and> tail_flags line g ls h" by blast
qed (blast intro: tail_flags_trans)

text \<open>All flags are set at the end when the walks met the whole tail.\<close>

lemma tail_flags_all:
  assumes "cols line \<le> size_of_line line" "flags = map (\<lambda>i. i < cols line) [0..<size_of_line line]"
  shows "(\<exists>h. tail_flags line flags ks h \<and> list_all id h) \<longleftrightarrow>
    distinct ks \<and> set ks = {cols line..<size_of_line line}"
proof
  assume "\<exists>h. tail_flags line flags ks h \<and> list_all id h"
  then obtain h where h: "tail_flags line flags ks h" "\<forall>k < size_of_line line. h ! k"
    by (auto simp: tail_flags_def list_all_length)
  have "k \<in> set ks" if "cols line \<le> k" "k < size_of_line line" for k
    using h that assms(2) by (auto simp: tail_flags_def)
  then show "distinct ks \<and> set ks = {cols line..<size_of_line line}"
    using h(1) by (auto simp: tail_flags_def)
next
  assume "distinct ks \<and> set ks = {cols line..<size_of_line line}"
  then have "tail_flags line flags ks (replicate (size_of_line line) True)"
    using assms by (auto simp: tail_flags_def)
  then show "\<exists>h. tail_flags line flags ks h \<and> list_all id h"
    by (intro exI conjI) (auto simp: list_all_length)
qed

lemma cc_check_flag_some:
  assumes "length flags = size_of_line line"
  shows "cc_check_flag line flags j = Some flags' \<longleftrightarrow> 0 \<le> j \<and> tail_flags line flags [nat j] flags'"
proof -
  have "flags' = flags[nat j := True]"
    if "length flags' = length flags" "\<forall>k < length flags. flags' ! k \<longleftrightarrow> flags ! k \<or> k = nat j"
  proof (rule nth_equalityI)
    show "flags' ! k = flags[nat j := True] ! k" if "k < length flags'" for k
      using that \<open>length flags' = length flags\<close> \<open>\<forall>k < length flags. flags' ! k \<longleftrightarrow> flags ! k \<or> k = nat j\<close>
      by (cases "k = nat j") simp_all
  qed (use that in simp)
  then show ?thesis
    using assms by (auto simp: cc_check_flag_def tail_flags_def nth_list_update)
qed

lemma cc_check_walk_complete:
  assumes "linked (chars line) j ks" "tail_flags line flags ks flags'" "length flags = size_of_line line"
  shows "cc_check_walk line flags j = Some flags'"
  using assms
proof (induction ks arbitrary: j flags)
  case Nil
  then have "flags' = flags" by (intro nth_equalityI) (auto simp: tail_flags_def)
  with Nil show ?case by (simp add: cc_check_walk.simps)
next
  case (Cons k ks)
  define g where "g = flags[k := True]"
  have k: "k < size_of_line line" using Cons.prems(1) by simp
  have t: "tail_flags line flags [k] g" "tail_flags line g ks flags'" "length g = size_of_line line"
    using Cons.prems(2,3) k by (auto simp: tail_flags_def g_def nth_list_update)
  have "cc_check_walk line g k = Some flags'" using Cons.prems(1) t by (intro Cons.IH) auto
  moreover have "cc_check_flag line flags (int k) = Some g"
    using t(1) Cons.prems(3) by (simp add: cc_check_flag_some)
  ultimately show ?case
    using Cons.prems(1) by (subst cc_check_walk.simps) (auto simp: Let_def)
qed

lemma cc_check_walk_sound:
  assumes "cc_check_walk line flags j = Some flags'"
  shows "length flags = size_of_line line \<longrightarrow> (\<exists>ks. linked (chars line) j ks \<and> tail_flags line flags ks flags')"
proof (rule cc_check_walk.raw_induct [where P = "\<lambda>line flags j flags'.
    length flags = size_of_line line \<longrightarrow> (\<exists>ks. linked (chars line) j ks \<and> tail_flags line flags ks flags')",
    OF _ assms], goal_cases)
  case (1 walk line flags j flags')
  show ?case
  proof (intro impI)
    assume len: "length flags = size_of_line line"
    let ?n = "int j + cc_next (char_at line j)"
    show "\<exists>ks. linked (chars line) j ks \<and> tail_flags line flags ks flags'"
    proof (cases "cc_next (char_at line j) = 0")
      case True
      with 1(2) have "flags' = flags" by simp
      with True len have "linked (chars line) j []" "tail_flags line flags [] flags'"
        by (auto simp: tail_flags_def)
      then show ?thesis by blast
    next
      case False
      with 1(2) obtain g where g: "cc_check_flag line flags ?n = Some g" "walk line g (nat ?n) = Some flags'"
        by (auto simp: Let_def bind_eq_Some_conv)
      have t: "0 \<le> ?n" "tail_flags line flags [nat ?n] g" using g(1) len by (simp_all add: cc_check_flag_some)
      then have "length g = size_of_line line" by (simp add: tail_flags_def)
      with 1(1) [OF g(2)] obtain ks where ks: "linked (chars line) (nat ?n) ks" "tail_flags line g ks flags'" by blast
      have "linked (chars line) j (nat ?n # ks)"
        using False ks(1) t by (auto simp: tail_flags_def)
      moreover have "tail_flags line flags ([nat ?n] @ ks) flags'"
        by (rule tail_flags_trans [OF t(2) ks(2)])
      ultimately show ?thesis by (metis append_Cons append_Nil)
    qed
  qed
qed

lemma cc_check_walk_iff:
  "length flags = size_of_line line \<Longrightarrow>
   cc_check_walk line flags j = Some flags' \<longleftrightarrow> (\<exists>ks. linked (chars line) j ks \<and> tail_flags line flags ks flags')"
  using cc_check_walk_sound cc_check_walk_complete by blast

lemma cc_check_cells_iff:
  assumes "length flags = size_of_line line" "distinct is"
  shows "cc_check_cells line is flags = Some flags' \<longleftrightarrow>
    (\<exists>L. (\<forall>i \<in> set is. linked (chars line) i (L i)) \<and> tail_flags line flags (concat (map L is)) flags')"
  using assms
proof (induction "is" arbitrary: flags)
  case Nil
  then show ?case by (auto simp: tail_flags_def intro!: nth_equalityI)
next
  case (Cons i js)
  show ?case (is "?l \<longleftrightarrow> ?r")
  proof
    assume ?l
    then obtain g where g: "cc_check_walk line flags i = Some g" "cc_check_cells line js g = Some flags'"
      by (auto simp: bind_eq_Some_conv)
    from g(1) Cons.prems(1) obtain ks where ks: "linked (chars line) i ks" "tail_flags line flags ks g"
      by (auto simp: cc_check_walk_iff)
    have "length g = size_of_line line" using ks(2) by (simp add: tail_flags_def)
    with Cons.IH g(2) Cons.prems(2) obtain L where
      L: "\<forall>i \<in> set js. linked (chars line) i (L i)" "tail_flags line g (concat (map L js)) flags'" by auto
    have "map (L(i := ks)) js = map L js" using Cons.prems(2) by auto
    then have "concat (map (L(i := ks)) (i # js)) = ks @ concat (map L js)" by (simp only: list.map concat.simps fun_upd_same)
    then have "tail_flags line flags (concat (map (L(i := ks)) (i # js))) flags'"
      using tail_flags_trans [OF ks(2) L(2)] by (simp only:)
    moreover have "\<forall>j \<in> set (i # js). linked (chars line) j ((L(i := ks)) j)" using ks(1) L(1) by simp
    ultimately show ?r by blast
  next
    assume ?r
    then obtain L where L: "\<forall>j \<in> set (i # js). linked (chars line) j (L j)"
      "tail_flags line flags (L i @ concat (map L js)) flags'" by auto
    then obtain g where g: "tail_flags line flags (L i) g" and g': "tail_flags line g (concat (map L js)) flags'"
      using tail_flags_append [OF Cons.prems(1)] by blast
    then have lg: "length g = size_of_line line" by (simp add: tail_flags_def)
    have "cc_check_walk line flags i = Some g" using L(1) g Cons.prems(1) by (auto simp: cc_check_walk_iff)
    moreover have "cc_check_cells line js g = Some flags'"
      using Cons.IH [OF lg] Cons.prems(2) L(1) g' by auto
    ultimately show ?l by simp
  qed
qed

lemma all_less_Suc_iff: "(\<forall>i < Suc n. P i) \<longleftrightarrow> (\<forall>i < n. P i) \<and> P n"
  by (auto simp: less_Suc_eq)

text \<open>The lists \<open>L\<close> and \<open>F\<close> seen as one list of positions.\<close>

lemma chains_positions:
  assumes "0 < cols line" "cols line \<le> size_of_line line"
  shows "chains line L F \<longleftrightarrow>
     (\<forall>i < cols line. linked (chars line) i (L i)) \<and> free_list line F \<and>
     distinct (concat (map L [0..<cols line]) @ F) \<and>
     set (concat (map L [0..<cols line]) @ F) = {cols line..<size_of_line line}"
proof -
  have d: "distinct (concat (map L [0..<n])) \<longleftrightarrow>
      (\<forall>i < n. distinct (L i) \<and> (\<forall>j < n. i \<noteq> j \<longrightarrow> set (L i) \<inter> set (L j) = {}))" for n
  proof (induction n)
    case (Suc n)
    have "(\<Union>i < n. set (L i)) \<inter> set (L n) = {} \<longleftrightarrow> (\<forall>i < n. set (L i) \<inter> set (L n) = {})" by blast
    then have "distinct (concat (map L [0..<Suc n])) \<longleftrightarrow>
        distinct (concat (map L [0..<n])) \<and> distinct (L n) \<and> (\<forall>i < n. set (L i) \<inter> set (L n) = {})"
      by (auto simp: atLeast0LessThan)
    then show ?case
      unfolding Suc by (simp add: all_less_Suc_iff Int_commute) blast
  qed simp
  have "set (concat (map L [0..<cols line])) = (\<Union>i < cols line. set (L i))" by (auto simp: atLeast0LessThan)
  moreover have "(\<Union>i < cols line. set (L i)) \<inter> set F = {} \<longleftrightarrow> (\<forall>i < cols line. set (L i) \<inter> set F = {})" by blast
  moreover have "chains line L F \<longleftrightarrow>
      (\<forall>i < cols line. linked (chars line) i (L i)) \<and>
      (\<forall>i < cols line. distinct (L i) \<and> (\<forall>j < cols line. i \<noteq> j \<longrightarrow> set (L i) \<inter> set (L j) = {})) \<and>
      free_list line F \<and> distinct F \<and> (\<forall>i < cols line. set (L i) \<inter> set F = {}) \<and>
      (\<Union>i < cols line. set (L i)) \<union> set F = {cols line..<size_of_line line}"
    using assms unfolding chains_def by (simp add: all_conj_distrib imp_conjR)
  ultimately show ?thesis
    by (simp only: distinct_append set_append d conj_ac)
qed

text \<open>The check succeeds exactly on the lines that satisfy the invariant.\<close>

lemma cc_check_iff_rep:
  assumes "0 < cols line"
  shows "cc_check line = Some () \<longleftrightarrow> (\<exists>cs. line_rep line cs)"
proof (cases "cols line \<le> size_of_line line")
  case False
  then show ?thesis using line_rep_cols by (force simp: cc_check_def)
next
  case True
  define n where "n = size_of_line line"
  define flags where "flags = map (\<lambda>i. i < cols line) [0..<n]"
  have len: "length flags = size_of_line line" by (simp add: flags_def n_def)
  define fl where "fl f = (if cc_free line \<noteq> 0
      then Option.bind (cc_check_flag line f (int (cc_free line))) (\<lambda>flags. cc_check_walk line flags (cc_free line))
      else Some f)" for f
  have fl: "fl f = Some g \<longleftrightarrow> (\<exists>F. free_list line F \<and> tail_flags line f F g)"
    if lf: "length f = size_of_line line" for f g
  proof (cases "cc_free line = 0")
    case True
    have "free_list line F \<and> tail_flags line f F g \<longleftrightarrow> F = [] \<and> tail_flags line f F g" for F
      using True assms by (cases F) (auto simp: free_list_def tail_flags_def)
    then have "(\<exists>F. free_list line F \<and> tail_flags line f F g) \<longleftrightarrow> g = f"
      using tail_flags_nil [OF lf] by auto
    then show ?thesis using True by (auto simp: fl_def)
  next
    case False
    let ?c = "cc_free line"
    have lh: "tail_flags line f [?c] h \<Longrightarrow> length h = size_of_line line" for h by (simp add: tail_flags_def)
    have "fl f = Some g \<longleftrightarrow> (\<exists>h ks. tail_flags line f [?c] h \<and> linked (chars line) ?c ks \<and> tail_flags line h ks g)"
    proof -
      have "fl f = Some g \<longleftrightarrow> (\<exists>h. tail_flags line f [?c] h \<and> cc_check_walk line h ?c = Some g)"
        using False by (simp add: fl_def bind_eq_Some_conv cc_check_flag_some [OF lf])
      also have "\<dots> \<longleftrightarrow> (\<exists>h ks. tail_flags line f [?c] h \<and> linked (chars line) ?c ks \<and> tail_flags line h ks g)"
        using cc_check_walk_iff [OF lh] by blast
      finally show ?thesis .
    qed
    also have "\<dots> \<longleftrightarrow> (\<exists>ks. linked (chars line) ?c ks \<and> tail_flags line f (?c # ks) g)"
    proof -
      have "tail_flags line f (?c # ks) g \<longleftrightarrow> (\<exists>h. tail_flags line f [?c] h \<and> tail_flags line h ks g)" for ks
        using tail_flags_append [OF lf, of "[?c]" ks g] by simp
      then show ?thesis by blast
    qed
    also have "\<dots> \<longleftrightarrow> (\<exists>F. free_list line F \<and> tail_flags line f F g)"
      using False by (auto simp: free_list_def split: list.splits) (metis list.exhaust)
    finally show ?thesis .
  qed
  have "cc_check line = Some () \<longleftrightarrow> (\<exists>g h. cc_check_cells line [0..<cols line] flags = Some g \<and>
      fl g = Some h \<and> list_all id h)"
    using True by (auto simp: cc_check_def Let_def flags_def n_def fl_def split: option.splits)
  also have "\<dots> \<longleftrightarrow> (\<exists>L F. (\<forall>i < cols line. linked (chars line) i (L i)) \<and> free_list line F \<and>
      (\<exists>h. tail_flags line flags (concat (map L [0..<cols line]) @ F) h \<and> list_all id h))"
  proof -
    have tl: "fl g = Some h \<longleftrightarrow> (\<exists>F. free_list line F \<and> tail_flags line g F h)"
      if "tail_flags line flags ks g" for ks g h
      using that by (intro fl) (simp add: tail_flags_def)
    have all: "(\<forall>i \<in> set [0..<cols line]. linked (chars line) i (L i)) \<longleftrightarrow>
        (\<forall>i < cols line. linked (chars line) i (L i))" for L by auto
    show ?thesis
      unfolding cc_check_cells_iff [OF len distinct_upt] tail_flags_append [OF len] all
      using tl by blast
  qed
  also have "\<dots> \<longleftrightarrow> (\<exists>L F. chains line L F)"
    unfolding tail_flags_all [OF True flags_def [unfolded n_def]]
      chains_positions [OF assms True] ..
  finally show ?thesis by (auto simp: line_rep_def)
qed

section \<open>Reading a line back as cells\<close>

partial_function (option) cc_chain :: "termchar list \<Rightarrow> nat \<Rightarrow> nat list option" where
  "cc_chain cs j =
     (if cc_next (cs ! j) \<noteq> 0
      then Option.bind (cc_step cs j) (\<lambda>k. Option.bind (cc_chain cs k) (\<lambda>ks. Some (k # ks)))
      else Some [])"

declare cc_chain.simps [code]

lemma cc_chain_linked: "linked cs j ks \<Longrightarrow> cc_chain cs j = Some ks"
proof (induction cs j ks rule: linked.induct)
  case (2 cs j k ks)
  then show ?case
    using cc_step_linked [OF 2(2)] by (subst cc_chain.simps) simp
qed (simp add: cc_chain.simps)

lemma cc_step_some: "cc_step cs j = Some k \<longleftrightarrow> int j + cc_next (cs ! j) = int k \<and> k < length cs"
  by (auto simp: cc_step_def Let_def)

lemma linked_cc_chain:
  assumes "cc_chain cs j = Some ks"
  shows "linked cs j ks"
proof (rule cc_chain.raw_induct [where P = linked, OF _ assms], goal_cases)
  case (1 rec cs j ks)
  then show ?case by (auto simp: bind_eq_Some_conv cc_step_some split: if_splits)
qed

definition cell_at :: "termchar list \<Rightarrow> nat \<Rightarrow> cell option" where
  "cell_at cs i = map_option (cell_of cs i) (cc_chain cs i)"

definition line_cells :: "termline \<Rightarrow> cell list option" where
  "line_cells line = those (map (cell_at (chars line)) [0..<cols line])"

lemma cell_at_src: "cell_at src i = Some c \<longleftrightarrow> src_cell src i c"
  unfolding cell_at_def src_cell_def by (auto dest: cc_chain_linked linked_cc_chain)

lemma those_map_Some: "(\<And>x. x \<in> set xs \<Longrightarrow> f x = Some (g x)) \<Longrightarrow> those (map f xs) = Some (map g xs)"
  by (induction xs) auto

lemma line_rep_cells: "line_rep line cs \<Longrightarrow> line_cells line = Some cs"
  unfolding line_cells_def line_rep_def chain_cells_def cell_at_def
  by (auto intro!: those_map_Some simp: cc_chain_linked [OF chainsD(5)])

lemma line_rep_iff:
  "0 < cols line \<Longrightarrow> line_rep line cs \<longleftrightarrow> cc_check line = Some () \<and> line_cells line = Some cs"
  using cc_check_iff_rep line_rep_cells by fastforce

section \<open>Scripts of line operations\<close>

datatype line_op =
  Add_CC nat uint32
| Clear_CC nat
| Copy_Termchar nat "termchar list" nat
| Move_Termchar nat nat
| Resizeline nat

fun run_line_op :: "termchar \<Rightarrow> termchar \<Rightarrow> termline \<Rightarrow> line_op \<Rightarrow> termline option" where
  "run_line_op junk erase line (Add_CC col ch) = add_cc junk line col ch"
| "run_line_op junk erase line (Clear_CC col) = clear_cc line col"
| "run_line_op junk erase line (Copy_Termchar x src i) = copy_termchar junk line x src i"
| "run_line_op junk erase line (Move_Termchar d s) = move_termchar line d s"
| "run_line_op junk erase line (Resizeline n) = resizeline erase line n"

definition line_step :: "termchar \<Rightarrow> termchar \<Rightarrow> termline \<Rightarrow> line_op \<Rightarrow> (unit \<times> termline) option" where
  "line_step junk erase line p = map_option (Pair ()) (run_line_op junk erase line p)"

text \<open>The same on cells; \<open>None\<close> where the caller breaks the rules of the operation.\<close>

fun cells_op :: "termchar \<Rightarrow> cell list \<Rightarrow> line_op \<Rightarrow> cell list option" where
  "cells_op erase cs (Add_CC col ch) =
     (if col < length cs then Some (cs[col := cell_add_cc ch (cs ! col)]) else None)"
| "cells_op erase cs (Clear_CC col) =
     (if col < length cs then Some (cs[col := cell_clear_cc (cs ! col)]) else None)"
| "cells_op erase cs (Copy_Termchar x src i) =
     (case cell_at src i of
        None \<Rightarrow> None
      | Some c \<Rightarrow> if x < length cs \<and> cell_ok c then Some (cs[x := c]) else None)"
| "cells_op erase cs (Move_Termchar d s) =
     (if d < length cs \<and> s < length cs \<and> d \<noteq> s
      then Some (cs[d := cs ! s, s := cell_clear_cc (cs ! s)]) else None)"
| "cells_op erase cs (Resizeline n) =
     (if 0 < n \<and> n < 2 ^ 24
      then Some (take n cs @ replicate (n - length cs) (cell_of [erase] 0 [])) else None)"

definition cells_step :: "termchar \<Rightarrow> cell list \<Rightarrow> line_op \<Rightarrow> (unit \<times> cell list) option" where
  "cells_step erase cs p = map_option (Pair ()) (cells_op erase cs p)"

lemma cells_ok_nth: "\<lbrakk>cells_ok cs; i < length cs\<rbrakk> \<Longrightarrow> cell_ok (cs ! i)"
  by (simp add: cells_ok_def list_all_length)

lemma cells_op_ok:
  assumes "cells_ok cs" "cells_op erase cs p = Some cs'"
  shows "cells_ok cs'"
proof (cases p)
  case (Resizeline n)
  then show ?thesis using assms
    by (auto simp: cells_ok_def list_all_iff cell_ok_def cell_of_def dest!: set_take_subset [THEN subsetD] split: if_splits)
qed (use assms in \<open>auto intro!: cells_ok_update simp: cells_ok_nth split: if_splits option.splits\<close>)

definition line_ok :: "termline \<Rightarrow> cell list \<Rightarrow> bool" where
  "line_ok line cs \<longleftrightarrow> line_rep line cs \<and> cells_ok cs"

lemma line_step_cells:
  assumes e: "cc_next erase = 0" and ok: "line_ok line cs"
    and s: "cells_step erase cs p = Some (r, cs')"
  shows "\<exists>line'. line_step junk erase line p = Some (r, line') \<and> line_ok line' cs'"
proof -
  from ok have R: "line_rep line cs" and c: "cells_ok cs" by (auto simp: line_ok_def)
  from s have op: "cells_op erase cs p = Some cs'" by (auto simp: cells_step_def)
  have "\<exists>line'. run_line_op junk erase line p = Some line' \<and> line_rep line' cs'"
  proof (cases p)
    case (Add_CC col ch)
    then show ?thesis using op add_cc_rep [OF R _ c, of col junk ch] by (auto split: if_splits)
  next
    case (Clear_CC col)
    then show ?thesis using op clear_cc_rep [OF R, of col] by (auto split: if_splits)
  next
    case (Copy_Termchar x src i)
    then obtain d where "src_cell src i d" "x < length cs" "cell_ok d" "cs' = cs[x := d]"
      using op by (auto simp: cell_at_src split: option.splits if_splits)
    then show ?thesis using copy_termchar_rep [OF _ R _ c, of src i d x junk] Copy_Termchar by auto
  next
    case (Move_Termchar d t)
    then show ?thesis using op move_termchar_rep [OF R, of d t] by (auto split: if_splits)
  next
    case (Resizeline n)
    then show ?thesis using op resizeline_rep [OF R _ e, of n] by (auto split: if_splits)
  qed
  then show ?thesis using cells_op_ok [OF c op] s
    by (auto simp: line_step_def line_ok_def cells_step_def)
qed

end
