(* ===== verification/Term_Compress.thy ===== *)
theory Term_Compress
  imports Term_Check Marshal
begin

text \<open>
  The compressed form of a line in the scrollback (\<^verbatim>\<open>terminal/terminal.c\<close>): the run-length
  encoder and decoder, which share the literal formats of four streams, and the functions that put
  them together.

  The string buffer the encoder writes into is a list of bytes, which is what the string buffers of
  \<open>Strbuf\<close> refine; a compressed line is the bytes after its header structure.
\<close>

section \<open>The literals\<close>

text \<open>
  A literal writer appends the encoding of the cell at an index to the buffer and updates the state
  of its stream.
\<close>

type_synonym makeliteral = "bytes \<Rightarrow> termchar list \<Rightarrow> nat \<Rightarrow> uint32 \<Rightarrow> (bytes \<times> uint32) option"

definition put_chr :: "bytes \<Rightarrow> uint32 \<Rightarrow> uint32 \<Rightarrow> bytes \<times> uint32" where
  "put_chr b ch state =
     ((if ch AND NOT 0x7F = state then b @ [ucast (ch AND 0x7F)]
       else if ch < 0x4000 then
         b @ [ucast ((drop_bit 8 ch AND 0x3F) OR 0x80)] @ [ucast (ch AND 0xFF)]
       else if ch < 0x200000 then
         b @ [ucast ((drop_bit 16 ch AND 0x1F) OR 0xC0)] @ put_16bit_msb_first (ucast (ch AND 0xFFFF))
       else if ch < 0x10000000 then
         b @ [ucast ((drop_bit 24 ch AND 0x0F) OR 0xE0)] @ [ucast (drop_bit 16 ch AND 0xFF)] @
         put_16bit_msb_first (ucast (ch AND 0xFFFF))
       else b @ [0xF0] @ put_32bit_msb_first ch),
      ch AND NOT 0xFF)"

definition makeliteral_chr :: makeliteral where
  "makeliteral_chr b cs c state = Some (put_chr b (chr (cs ! c)) state)"

definition ATTR_FGSHIFT :: nat where "ATTR_FGSHIFT = 0"

definition ATTR_BGSHIFT :: nat where "ATTR_BGSHIFT = 9"

definition permute_attr :: "uint32 \<Rightarrow> uint32" where
  "permute_attr a =
     (let colourbits = drop_bit (ATTR_BGSHIFT + 4) a AND 0xF;
          colourbits = push_bit 4 colourbits;
          colourbits = colourbits OR (drop_bit (ATTR_FGSHIFT + 4) a AND 0xF);
          a = push_bit (ATTR_BGSHIFT + 4) (drop_bit (ATTR_BGSHIFT + 8) a) OR
              (a AND (push_bit (ATTR_BGSHIFT + 4) 1 - 1));
          a = push_bit (ATTR_FGSHIFT + 4) (drop_bit (ATTR_FGSHIFT + 8) a) OR
              (a AND (push_bit (ATTR_FGSHIFT + 4) 1 - 1))
      in a OR push_bit (32 - 9) colourbits)"

definition put_attr :: "bytes \<Rightarrow> uint32 \<Rightarrow> bytes" where
  "put_attr b a =
     (let a = permute_attr a in
      if a < 0x8000 then
        b @ [ucast (drop_bit 8 a AND 0xFF)] @ [ucast (a AND 0xFF)]
      else
        b @ [ucast ((drop_bit 24 a AND 0x7F) OR 0x80)] @ [ucast (drop_bit 16 a AND 0xFF)] @
        [ucast (drop_bit 8 a AND 0xFF)] @ [ucast (a AND 0xFF)])"

definition makeliteral_attr :: makeliteral where
  "makeliteral_attr b cs c state = Some (put_attr b (attr (cs ! c)), state)"

definition put_truecolour :: "bytes \<Rightarrow> truecolour \<Rightarrow> bytes" where
  "put_truecolour b tc =
     (let fg = tc_fg tc; bg = tc_bg tc;
          b = b @ [(if rgb_enabled fg then 1 else 0) OR (if rgb_enabled bg then 2 else 0)];
          b = (if rgb_enabled fg then b @ [rgb_r fg] @ [rgb_g fg] @ [rgb_b fg] else b)
      in if rgb_enabled bg then b @ [rgb_r bg] @ [rgb_g bg] @ [rgb_b bg] else b)"

definition makeliteral_truecolour :: makeliteral where
  "makeliteral_truecolour b cs c state = Some (put_truecolour b (truecolour (cs ! c)), state)"

partial_function (option) makeliteral_ccs :: "bytes \<Rightarrow> termchar list \<Rightarrow> nat \<Rightarrow> bytes option" where
  "makeliteral_ccs b cs c =
     (if cc_next (cs ! c) \<noteq> 0 then
        Option.bind (cc_step cs c) (\<lambda>c.
          if chr (cs ! c) \<noteq> 0
          then makeliteral_ccs (fst (put_chr b (chr (cs ! c)) 0)) cs c
          else None)
      else Some (fst (put_chr b 0 0)))"

declare makeliteral_ccs.simps [code]

definition makeliteral_cc :: makeliteral where
  "makeliteral_cc b cs c state = map_option (\<lambda>b. (b, state)) (makeliteral_ccs b cs c)"

section \<open>The run-length encoder\<close>

text \<open>
  The local variables of \<^verbatim>\<open>makerle\<close>. The writer \<open>mk\<close> already has the line's
  array; \<open>i\<close> is the index of the next cell and \<open>n\<close> the number of cells left.
\<close>

record rle =
  rle_b :: bytes
  rle_hdrpos :: nat
  rle_hdrsize :: int
  rle_prevlen :: nat
  rle_prevpos :: nat
  rle_prev2 :: bool
  rle_state :: uint32

type_synonym mkfun = "bytes \<Rightarrow> nat \<Rightarrow> uint32 \<Rightarrow> (bytes \<times> uint32) option"

text \<open>\<^verbatim>\<open>memcmp(b->u + p, b->u + q, len) == 0\<close>\<close>

definition same_at :: "bytes \<Rightarrow> nat \<Rightarrow> nat \<Rightarrow> nat \<Rightarrow> bool" where
  "same_at b p q len \<longleftrightarrow> take len (drop p b) = take len (drop q b)"

text \<open>The inner loop: how far the run goes.\<close>

function rle_extend ::
    "mkfun \<Rightarrow> bytes \<Rightarrow> nat \<Rightarrow> nat \<Rightarrow> nat \<Rightarrow> nat \<Rightarrow> int \<Rightarrow> uint32 \<Rightarrow> (bytes \<times> nat \<times> nat \<times> int \<times> uint32) option"
where
  "rle_extend mk b runpos thislen i n runlen state =
     (if n > 0 \<and> runlen < 129 then
        let tmppos = length b; oldstate = state in
        case mk b i state of
          None \<Rightarrow> None
        | Some (b, state) \<Rightarrow>
            let tmplen = length b - tmppos;
                match = (tmplen = thislen \<and> same_at b (runpos + 1) tmppos tmplen);
                b = take tmppos b
            in if \<not> match then Some (b, i, n, runlen, oldstate)
               else rle_extend mk b runpos thislen (i + 1) (n - 1) (runlen + 1) state
      else Some (b, i, n, runlen, state))"
  by pat_completeness auto
termination by (relation "measure (\<lambda>(_, _, _, _, _, n, _, _). n)") auto

declare rle_extend.simps [simp del]

lemma rle_extend_le: "rle_extend mk b rp len i n rl st = Some (b', i', n', rl', st') \<Longrightarrow> n' \<le> n"
proof (induction n arbitrary: b i rl st len)
  case (Suc n)
  from Suc.prems show ?case
    by (subst (asm) rle_extend.simps) (auto simp: Let_def split: if_splits option.splits dest!: Suc.IH)
qed (simp add: rle_extend.simps)

text \<open>Starting a new block of literals.\<close>

definition rle_new_block :: "rle \<Rightarrow> rle" where
  "rle_new_block r =
     r\<lparr>rle_hdrpos := length (rle_b r), rle_hdrsize := 0, rle_b := rle_b r @ [0],
       rle_prevlen := 0, rle_prevpos := 0, rle_prev2 := False\<rparr>"

text \<open>
  Turning the last literals, and what follows them, into a run: \<open>rle_cut\<close> makes room for the run's
  header before the first literal of the run and gives its position, with \<open>hdrsize\<close> literals left before it.
\<close>

definition rle_cut :: "rle \<Rightarrow> int \<Rightarrow> nat \<Rightarrow> nat \<times> bytes" where
  "rle_cut r hdrsize prevpos =
     (let prevlen = rle_prevlen r; b = rle_b r in
      if hdrsize = 0 then (rle_hdrpos r, take (prevpos + prevlen) b)
      else
        let b = take (prevpos + 1) b @ take prevlen (drop prevpos b) @ drop (prevpos + 1 + prevlen) b;
            b = take (prevpos + prevlen + 1) b
        in (prevpos, b[rle_hdrpos r := word_of_int (hdrsize - 1)]))"

definition rle_run_at ::
    "mkfun \<Rightarrow> rle \<Rightarrow> int \<Rightarrow> nat \<Rightarrow> int \<Rightarrow> nat \<Rightarrow> nat \<Rightarrow> nat \<Rightarrow> (rle \<times> nat \<times> nat) option" where
  "rle_run_at mk r hdrsize prevpos runlen thislen i n =
     (if hdrsize = 0 \<and> prevpos \<noteq> rle_hdrpos r + 1 then None
      else if hdrsize \<noteq> 0 \<and> \<not> (hdrsize \<ge> 1 \<and> hdrsize \<le> 128) then None
      else
        let (runpos, b) = rle_cut r hdrsize prevpos in
        case rle_extend mk b runpos thislen i n runlen (rle_state r) of
          None \<Rightarrow> None
        | Some (b, i, n, runlen, state) \<Rightarrow>
            if runlen \<ge> 2 \<and> runlen \<le> 129
            then Some (rle_new_block (r\<lparr>rle_b := b[runpos := word_of_int (runlen + 0x80 - 2)], rle_state := state\<rparr>), i, n)
            else None)"

definition rle_make_run :: "mkfun \<Rightarrow> rle \<Rightarrow> nat \<Rightarrow> nat \<Rightarrow> nat \<Rightarrow> (rle \<times> nat \<times> nat) option" where
  "rle_make_run mk r thislen i n =
     (let hdrsize = rle_hdrsize r - 1 in
      if rle_prev2 r then
        if hdrsize > 0
        then rle_run_at mk r (hdrsize - 1) (rle_prevpos r - rle_prevlen r) 3 thislen i n
        else None
      else rle_run_at mk r hdrsize (rle_prevpos r) 2 thislen i n)"

lemma rle_make_run_le: "rle_make_run mk r len i n = Some (r', i', n') \<Longrightarrow> n' \<le> n"
  by (auto simp: rle_make_run_def rle_run_at_def Let_def split: if_splits option.splits prod.splits dest: rle_extend_le)

text \<open>A literal that is not, or not yet, part of a run.\<close>

definition rle_count_literal :: "rle \<Rightarrow> rle" where
  "rle_count_literal r =
     (let r = r\<lparr>rle_hdrsize := rle_hdrsize r + 1\<rparr> in
      if rle_hdrsize r = 128
      then rle_new_block (r\<lparr>rle_b := (rle_b r)[rle_hdrpos r := word_of_int (rle_hdrsize r - 1)]\<rparr>)
      else r)"

definition rle_finish :: "rle \<Rightarrow> bytes option" where
  "rle_finish r =
     (if rle_hdrsize r > 0 then
        if rle_hdrsize r \<le> 128
        then Some ((rle_b r)[rle_hdrpos r := word_of_int (rle_hdrsize r - 1)]) else None
      else Some (take (rle_hdrpos r) (rle_b r)))"

function makerle_loop :: "mkfun \<Rightarrow> rle \<Rightarrow> nat \<Rightarrow> nat \<Rightarrow> bytes option" where
  "makerle_loop mk r i n =
     (if n > 0 then
        let thispos = length (rle_b r) in
        case mk (rle_b r) i (rle_state r) of
          None \<Rightarrow> None
        | Some (b, state) \<Rightarrow>
            let r = r\<lparr>rle_b := b, rle_state := state\<rparr>; thislen = length b - thispos in
            if thislen = rle_prevlen r \<and> same_at b (rle_prevpos r) thispos thislen then
              if thislen > 1 \<or> rle_prev2 r then
                case rle_make_run mk r thislen (i + 1) (n - 1) of
                  None \<Rightarrow> None
                | Some (r, i, n) \<Rightarrow> makerle_loop mk r i n
              else
                makerle_loop mk (rle_count_literal
                  (r\<lparr>rle_prev2 := True, rle_prevlen := thislen, rle_prevpos := thispos\<rparr>)) (i + 1) (n - 1)
            else
              makerle_loop mk (rle_count_literal
                (r\<lparr>rle_prev2 := False, rle_prevlen := thislen, rle_prevpos := thispos\<rparr>)) (i + 1) (n - 1)
      else rle_finish r)"
  by pat_completeness auto
termination
  by (relation "measure (\<lambda>(_, _, _, n). n)") (auto dest!: rle_make_run_le)

declare makerle_loop.simps [simp del]

definition rle_init :: "bytes \<Rightarrow> rle" where
  "rle_init b =
     \<lparr>rle_b = b @ [0], rle_hdrpos = length b, rle_hdrsize = 0, rle_prevlen = 0, rle_prevpos = 0,
      rle_prev2 = False, rle_state = 0\<rparr>"

definition makerle :: "makeliteral \<Rightarrow> bytes \<Rightarrow> termline \<Rightarrow> bytes option" where
  "makerle mk b ldata = makerle_loop (\<lambda>b. mk b (chars ldata)) (rle_init b) 0 (cols ldata)"

text \<open>A number, seven bits at a time, least significant first.\<close>

function put_number :: "bytes \<Rightarrow> uint32 \<Rightarrow> bytes" where
  "put_number b n =
     (if n \<ge> 128 then put_number (b @ [ucast ((n AND 0x7F) OR 0x80)]) (drop_bit 7 n)
      else b @ [ucast n])"
  by pat_completeness auto
termination
  by (relation "measure (\<lambda>(_, n). unat n)")
    (auto simp: word_le_nat_alt word_less_nat_alt drop_bit_eq_div unat_div)

declare put_number.simps [simp del]

definition compressline :: "termline \<Rightarrow> bytes option" where
  "compressline ldata =
     (let b = put_number [] (word_of_nat (cols ldata));
          b = put_number b (ucast (lattr ldata) OR (if trusted ldata then 0x10000 else 0)) in
      Option.bind (makerle makeliteral_chr b ldata) (\<lambda>b.
      Option.bind (makerle makeliteral_attr b ldata) (\<lambda>b.
      Option.bind (makerle makeliteral_truecolour b ldata) (\<lambda>b.
      makerle makeliteral_cc b ldata))))"

section \<open>The decoder\<close>

text \<open>A literal reader fills in one field of the cell at an index.\<close>

type_synonym readliteral =
  "BinarySource \<Rightarrow> nat \<Rightarrow> termline \<Rightarrow> uint32 \<Rightarrow> (BinarySource \<times> termline \<times> uint32) option"

definition get_chr :: "BinarySource \<Rightarrow> uint32 \<Rightarrow> (uint32 \<times> BinarySource) option" where
  "get_chr bs state =
     (let (byte, bs) = get_byte bs; byte = ucast byte in
      if byte < 0x80 then Some (byte OR state, bs)
      else if byte < 0xC0 then
        let c = push_bit 8 (byte AND NOT 0xC0); (x, bs) = get_byte bs in Some (c OR ucast x, bs)
      else if byte < 0xE0 then
        let c = push_bit 16 (byte AND NOT 0xE0); (x, bs) = get_uint16 bs in Some (c OR x, bs)
      else if byte < 0xF0 then
        let c = push_bit 24 (byte AND NOT 0xF0); (x, bs) = get_byte bs; c = c OR push_bit 16 (ucast x);
            (x, bs) = get_uint16 bs in Some (c OR x, bs)
      else if byte = 0xF0 then Some (get_uint32 bs)
      else None)"

definition readliteral_chr :: readliteral where
  "readliteral_chr bs c ldata state =
     (case get_chr bs state of
        None \<Rightarrow> None
      | Some (ch, bs) \<Rightarrow> Some (bs, upd_char c (\<lambda>x. x\<lparr>chr := ch\<rparr>) ldata, ch AND NOT 0xFF))"

definition unpermute_attr :: "uint32 \<Rightarrow> uint32" where
  "unpermute_attr val =
     (let colourbits = drop_bit (32 - 9) val AND 0xFF;
          a = val AND (push_bit (32 - 9) 1 - 1);
          a = push_bit (ATTR_FGSHIFT + 8) (drop_bit (ATTR_FGSHIFT + 4) a) OR
              (a AND (push_bit (ATTR_FGSHIFT + 4) 1 - 1));
          a = push_bit (ATTR_BGSHIFT + 8) (drop_bit (ATTR_BGSHIFT + 4) a) OR
              (a AND (push_bit (ATTR_BGSHIFT + 4) 1 - 1));
          a = a OR push_bit (ATTR_BGSHIFT + 4) (drop_bit 4 colourbits)
      in a OR push_bit (ATTR_FGSHIFT + 4) (colourbits AND 0xF))"

definition readliteral_attr :: readliteral where
  "readliteral_attr bs c ldata state =
     (let (val, bs) = get_uint16 bs;
          (val, bs) = (if val \<ge> 0x8000 then
                         let val = push_bit 16 (val AND NOT 0x8000); (x, bs) = get_uint16 bs
                         in (val OR x, bs)
                       else (val, bs))
      in Some (bs, upd_char c (\<lambda>x. x\<lparr>attr := unpermute_attr val\<rparr>) ldata, state))"

definition get_rgb :: "BinarySource \<Rightarrow> optionalrgb \<times> BinarySource" where
  "get_rgb bs =
     (let (r, bs) = get_byte bs; (g, bs) = get_byte bs; (b, bs) = get_byte bs
      in (\<lparr>rgb_enabled = True, rgb_r = r, rgb_g = g, rgb_b = b\<rparr>, bs))"

definition readliteral_truecolour :: readliteral where
  "readliteral_truecolour bs c ldata state =
     (let (flags, bs) = get_byte bs;
          (fg, bs) = (if flags AND 1 \<noteq> 0 then get_rgb bs else (optionalrgb_none, bs));
          (bg, bs) = (if flags AND 2 \<noteq> 0 then get_rgb bs else (optionalrgb_none, bs))
      in Some (bs, upd_char c (\<lambda>x. x\<lparr>truecolour := \<lparr>tc_fg = fg, tc_bg = bg\<rparr>\<rparr>) ldata, state))"

partial_function (option) readliteral_ccs ::
    "termchar \<Rightarrow> BinarySource \<Rightarrow> nat \<Rightarrow> termline \<Rightarrow> (BinarySource \<times> termline) option" where
  "readliteral_ccs junk bs x ldata =
     Option.bind (get_chr bs 0) (\<lambda>(n, bs).
       if n = 0 then Some (bs, ldata)
       else Option.bind (add_cc junk ldata x n) (readliteral_ccs junk bs x))"

declare readliteral_ccs.simps [code]

definition readliteral_cc :: "termchar \<Rightarrow> readliteral" where
  "readliteral_cc junk bs x ldata state =
     map_option (\<lambda>(bs, ldata). (bs, ldata, state))
       (readliteral_ccs junk bs x (upd_char x (\<lambda>c. c\<lparr>cc_next := 0\<rparr>) ldata))"

text \<open>
  The two inner loops of \<^verbatim>\<open>readrle\<close>: a run goes back to the position of its literal for each
  cell. \<open>ncols\<close> is the width of the line, which no literal reader changes.
\<close>

fun readrle_run ::
    "readliteral \<Rightarrow> nat \<Rightarrow> nat \<Rightarrow> nat \<Rightarrow> BinarySource \<Rightarrow> nat \<Rightarrow> termline \<Rightarrow> uint32 \<Rightarrow>
     (BinarySource \<times> nat \<times> termline \<times> uint32) option" where
  "readrle_run rd ncols pos 0 bs n ldata state = Some (bs, n, ldata, state)"
| "readrle_run rd ncols pos (Suc count) bs n ldata state =
     (if n < ncols then
        case rd (bs\<lparr>src_pos := pos\<rparr>) n ldata state of
          None \<Rightarrow> None
        | Some (bs, ldata, state) \<Rightarrow> readrle_run rd ncols pos count bs (n + 1) ldata state
      else None)"

fun readrle_literals ::
    "readliteral \<Rightarrow> nat \<Rightarrow> nat \<Rightarrow> BinarySource \<Rightarrow> nat \<Rightarrow> termline \<Rightarrow> uint32 \<Rightarrow>
     (BinarySource \<times> nat \<times> termline \<times> uint32) option" where
  "readrle_literals rd ncols 0 bs n ldata state = Some (bs, n, ldata, state)"
| "readrle_literals rd ncols (Suc count) bs n ldata state =
     (if n < ncols then
        case rd bs n ldata state of
          None \<Rightarrow> None
        | Some (bs, ldata, state) \<Rightarrow> readrle_literals rd ncols count bs (n + 1) ldata state
      else None)"

definition readrle_block ::
    "readliteral \<Rightarrow> nat \<Rightarrow> BinarySource \<Rightarrow> nat \<Rightarrow> termline \<Rightarrow> uint32 \<Rightarrow>
     (BinarySource \<times> nat \<times> termline \<times> uint32) option" where
  "readrle_block rd ncols bs n ldata state =
     (let (hdr, bs) = get_byte bs in
      if hdr \<ge> 0x80
      then readrle_run rd ncols (src_pos bs) (unat hdr + 2 - 0x80) bs n ldata state
      else readrle_literals rd ncols (unat hdr + 1) bs n ldata state)"

lemma readrle_block_le:
  assumes "readrle_block rd ncols bs n ldata st = Some (bs', n', ldata', st')"
  shows "n < n' \<and> n' \<le> ncols"
proof -
  have run: "readrle_run rd ncols pos k bs n ldata st = Some (bs', n', ldata', st') \<Longrightarrow>
      n' = n + k \<and> (0 < k \<longrightarrow> n + k \<le> ncols)" for pos k bs n ldata st
  proof (induction k arbitrary: bs n ldata st)
    case (Suc k)
    from Suc.prems show ?case by (cases "k = 0") (auto split: if_splits option.splits dest!: Suc.IH)
  qed simp
  have lits: "readrle_literals rd ncols k bs n ldata st = Some (bs', n', ldata', st') \<Longrightarrow>
      n' = n + k \<and> (0 < k \<longrightarrow> n + k \<le> ncols)" for k bs n ldata st
  proof (induction k arbitrary: bs n ldata st)
    case (Suc k)
    from Suc.prems show ?case by (cases "k = 0") (auto split: if_splits option.splits dest!: Suc.IH)
  qed simp
  obtain hdr bs1 where g: "get_byte bs = (hdr, bs1)" by (cases "get_byte bs")
  show ?thesis
  proof (cases "hdr \<ge> 0x80")
    case True
    then have "0 < unat hdr + 2 - 128" by (simp add: word_le_nat_alt)
    with True assms show ?thesis by (auto simp: readrle_block_def g dest!: run)
  next
    case False
    with assms lits [of "unat hdr + 1"] show ?thesis
      by (simp add: readrle_block_def g del: readrle_literals.simps) fastforce
  qed
qed

function readrle_loop ::
    "readliteral \<Rightarrow> nat \<Rightarrow> BinarySource \<Rightarrow> nat \<Rightarrow> termline \<Rightarrow> uint32 \<Rightarrow> (BinarySource \<times> termline) option" where
  "readrle_loop rd ncols bs n ldata state =
     (if n < ncols then
        case readrle_block rd ncols bs n ldata state of
          None \<Rightarrow> None
        | Some (bs, n, ldata, state) \<Rightarrow> readrle_loop rd ncols bs n ldata state
      else Some (bs, ldata))"
  by pat_completeness auto
termination
  by (relation "measure (\<lambda>(_, ncols, _, n, _, _). ncols - n)") (auto dest!: readrle_block_le)

declare readrle_loop.simps [simp del]

definition readrle :: "readliteral \<Rightarrow> BinarySource \<Rightarrow> termline \<Rightarrow> (BinarySource \<times> termline) option" where
  "readrle rd bs ldata = readrle_loop rd (cols ldata) bs 0 ldata 0"

text \<open>Reading a number; a shift of 32 or more has no meaning in C.\<close>

function get_number :: "BinarySource \<Rightarrow> nat \<Rightarrow> uint32 \<Rightarrow> (uint32 \<times> BinarySource) option" where
  "get_number bs shift acc =
     (if shift < 32 then
        let (byte, bs) = get_byte bs;
            acc = acc OR push_bit shift (ucast (byte AND 0x7F))
        in if byte AND 0x80 \<noteq> 0 then get_number bs (shift + 7) acc else Some (acc, bs)
      else None)"
  by pat_completeness auto
termination by (relation "measure (\<lambda>(_, shift, _). 32 - shift)") auto

declare get_number.simps [simp del]

definition decompressline :: "termchar \<Rightarrow> bytes \<Rightarrow> termline option" where
  "decompressline junk d =
     Option.bind (get_number (src_init d) 0 0) (\<lambda>(ncols, bs).
     Option.bind (get_number bs 0 0) (\<lambda>(la, bs).
       let ncols = unat ncols;
           ldata = \<lparr>lattr = ucast (la AND 0xFFFF), cols = ncols, temporary = True, cc_free = 0,
                    chars = replicate ncols (junk\<lparr>cc_next := 0\<rparr>), trusted = (la AND 0x10000 \<noteq> 0)\<rparr> in
       Option.bind (readrle readliteral_chr bs ldata) (\<lambda>(bs, ldata).
       Option.bind (readrle readliteral_attr bs ldata) (\<lambda>(bs, ldata).
       Option.bind (readrle readliteral_truecolour bs ldata) (\<lambda>(bs, ldata).
       Option.bind (readrle (readliteral_cc junk) bs ldata) (\<lambda>(bs, ldata).
         if \<not> get_err bs \<and> get_avail bs = 0 then Some ldata else None))))))"

end
