(* ===== verification/Term_Rle.thy ===== *)
theory Term_Rle
  imports Term_Compress
begin

text \<open>
  The run-length coding is correct for every pair of literal writer and reader that fit together.
  That they fit is the contract \<open>literal_codec\<close>; the streams of literals and runs between the
  encoder and the decoder are the inductive relation \<open>rle_stream\<close>.
\<close>

section \<open>Streams of literals\<close>

text \<open>\<open>k\<close> literals one after the other, from index \<open>i\<close> and state \<open>st\<close>.\<close>

fun literals :: "(nat \<Rightarrow> 's \<Rightarrow> bytes \<times> 's) \<Rightarrow> nat \<Rightarrow> nat \<Rightarrow> 's \<Rightarrow> bytes \<times> 's" where
  "literals lit i 0 st = ([], st)"
| "literals lit i (Suc k) st =
     (let (xs, st) = literals lit i k st; (x, st) = lit (i + k) st in (xs @ x, st))"

text \<open>\<open>k\<close> literals that are all encoded as \<open>x\<close>.\<close>

fun same_literals :: "(nat \<Rightarrow> 's \<Rightarrow> bytes \<times> 's) \<Rightarrow> bytes \<Rightarrow> nat \<Rightarrow> nat \<Rightarrow> 's \<Rightarrow> 's \<Rightarrow> bool" where
  "same_literals lit x i 0 st st' \<longleftrightarrow> st' = st"
| "same_literals lit x i (Suc k) st st' \<longleftrightarrow>
     (\<exists>s. same_literals lit x i k st s \<and> lit (i + k) s = (x, st'))"

definition lit_hdr :: "nat \<Rightarrow> byte" where
  "lit_hdr k = word_of_nat (k - 1)"

definition run_hdr :: "nat \<Rightarrow> byte" where
  "run_hdr k = word_of_nat (k - 2 + 128)"

lemma unat_hdr:
  "\<lbrakk>1 \<le> k; k \<le> 128\<rbrakk> \<Longrightarrow> unat (lit_hdr k) = k - 1"
  "\<lbrakk>2 \<le> k; k \<le> 129\<rbrakk> \<Longrightarrow> unat (run_hdr k) = k - 2 + 128"
proof -
  have *: "unat (word_of_nat n :: byte) = n" if "n < 256" for n
    using that by (simp add: unat_of_nat take_bit_nat_eq_self)
  show "\<lbrakk>1 \<le> k; k \<le> 128\<rbrakk> \<Longrightarrow> unat (lit_hdr k) = k - 1"
    "\<lbrakk>2 \<le> k; k \<le> 129\<rbrakk> \<Longrightarrow> unat (run_hdr k) = k - 2 + 128"
    unfolding lit_hdr_def run_hdr_def by (rule *; linarith)+
qed

inductive rle_stream :: "(nat \<Rightarrow> 's \<Rightarrow> bytes \<times> 's) \<Rightarrow> 's \<Rightarrow> bytes \<Rightarrow> nat \<Rightarrow> 's \<Rightarrow> bool"
  for lit :: "nat \<Rightarrow> 's \<Rightarrow> bytes \<times> 's" and st0 :: 's where
  stream_empty: "rle_stream lit st0 [] 0 st0"
| stream_literals: "\<lbrakk>rle_stream lit st0 e i st; literals lit i k st = (ys, st'); 1 \<le> k; k \<le> 128\<rbrakk>
    \<Longrightarrow> rle_stream lit st0 (e @ lit_hdr k # ys) (i + k) st'"
| stream_run: "\<lbrakk>rle_stream lit st0 e i st; same_literals lit x i k st st'; 2 \<le> k; k \<le> 129\<rbrakk>
    \<Longrightarrow> rle_stream lit st0 (e @ run_hdr k # x) (i + k) st'"

section \<open>The inner loops\<close>

lemma readrle_literals_snoc:
  "readrle_literals rd w (Suc k) bs n l st =
     (case readrle_literals rd w k bs n l st of
        None \<Rightarrow> None
      | Some (bs, n, l, st) \<Rightarrow> readrle_literals rd w 1 bs n l st)"
proof (induction k arbitrary: bs n l st)
  case (Suc k)
  show ?case
  proof (cases "n < w \<and> rd bs n l st \<noteq> None")
    case True
    then obtain bs1 l1 st1 where "rd bs n l st = Some (bs1, l1, st1)" by auto
    with True Suc.IH [of bs1 "n + 1" l1 st1] show ?thesis by simp
  next
    case False
    then show ?thesis by (simp del: not_None_eq)
  qed
qed simp

lemma readrle_run_snoc:
  "readrle_run rd w pos (Suc k) bs n l st =
     (case readrle_run rd w pos k bs n l st of
        None \<Rightarrow> None
      | Some (bs, n, l, st) \<Rightarrow> readrle_run rd w pos 1 bs n l st)"
proof (induction k arbitrary: bs n l st)
  case (Suc k)
  show ?case
  proof (cases "n < w \<and> rd (bs\<lparr>src_pos := pos\<rparr>) n l st \<noteq> None")
    case True
    then obtain bs1 l1 st1 where "rd (bs\<lparr>src_pos := pos\<rparr>) n l st = Some (bs1, l1, st1)" by auto
    with True Suc.IH [of bs1 "n + 1" l1 st1] show ?thesis by simp
  next
    case False
    then show ?thesis by (simp del: not_None_eq)
  qed
qed simp

lemma src_at_rewind: "(src_at (pre @ x) rest)\<lparr>src_pos := length pre\<rparr> = src_at pre (x @ rest)"
  "(src_at pre rest)\<lparr>src_pos := length pre\<rparr> = src_at pre rest"
  by (simp_all add: src_at_def)

lemma same_at_eq:
  "\<lbrakk>length x = n; length y = n; length p = m\<rbrakk> \<Longrightarrow> same_at (p @ y @ q @ x) m (m + n + length q) n \<longleftrightarrow> y = x"
  by (simp add: same_at_def)

lemma same_at_last:
  "\<lbrakk>b = p @ y; m = length p; length x = length y; same_at (b @ x) m (length b) (length x)\<rbrakk> \<Longrightarrow> y = x"
  by (simp add: same_at_def)

section \<open>The contract\<close>

text \<open>
  \<open>mk\<close> writes what \<open>lit\<close> says, and \<open>rd\<close> reads it back: \<open>done i l\<close> says that the cells
  below \<open>i\<close> of line \<open>l\<close> have been filled in.
\<close>

locale literal_codec =
  fixes mk :: mkfun and rd :: readliteral and lit :: "nat \<Rightarrow> uint32 \<Rightarrow> bytes \<times> uint32"
    and width :: nat and filled :: "nat \<Rightarrow> termline \<Rightarrow> bool"
  assumes mk_lit: "i < width \<Longrightarrow> mk b i st = Some (b @ fst (lit i st), snd (lit i st))"
    and lit_nonempty: "i < width \<Longrightarrow> fst (lit i st) \<noteq> []"
    and rd_lit: "\<lbrakk>i < width; filled i l\<rbrakk> \<Longrightarrow>
          \<exists>l'. rd (src_at pre (fst (lit i st) @ rest)) i l st
                 = Some (src_at (pre @ fst (lit i st)) rest, l', snd (lit i st)) \<and> filled (Suc i) l'"
begin

subsection \<open>Decoding a stream\<close>

lemma read_literals:
  assumes "literals lit i k st = (ys, st')" "filled i l" "i + k \<le> width"
  shows "\<exists>l'. readrle_literals rd width k (src_at pre (ys @ rest)) i l st
           = Some (src_at (pre @ ys) rest, i + k, l', st') \<and> filled (i + k) l'"
  using assms
proof (induction k arbitrary: ys st' rest)
  case (Suc k)
  obtain xs s x where ks: "literals lit i k st = (xs, s)" "lit (i + k) s = (x, st')" "ys = xs @ x"
    using Suc.prems(1) by (auto split: prod.splits)
  from Suc.IH [OF ks(1) Suc.prems(2), of "x @ rest"] Suc.prems(3) obtain l1 where l1:
    "readrle_literals rd width k (src_at pre (xs @ x @ rest)) i l st
       = Some (src_at (pre @ xs) (x @ rest), i + k, l1, s)" "filled (i + k) l1" by auto
  from rd_lit [of "i + k" l1 "pre @ xs" s rest] l1(2) Suc.prems(3) ks(2) obtain l2 where
    "rd (src_at (pre @ xs) (x @ rest)) (i + k) l1 s = Some (src_at (pre @ xs @ x) rest, l2, st')"
    "filled (Suc (i + k)) l2" by auto
  with l1 Suc.prems(3) show ?case
    by (subst readrle_literals_snoc) (auto simp: ks(3))
qed simp

lemma read_run:
  assumes "same_literals lit x i (Suc k) st st'" "filled i l" "i + Suc k \<le> width"
  shows "\<exists>l'. readrle_run rd width (length pre) (Suc k) (src_at pre (x @ rest)) i l st
           = Some (src_at (pre @ x) rest, i + Suc k, l', st') \<and> filled (i + Suc k) l'"
  using assms
proof (induction k arbitrary: st')
  case 0
  then have "lit i st = (x, st')" by simp
  with rd_lit [of i l pre st rest] 0 show ?case by (auto simp: src_at_rewind)
next
  case (Suc k)
  obtain s where s: "same_literals lit x i (Suc k) st s" "lit (i + Suc k) s = (x, st')"
    using Suc.prems(1) by (subst (asm) same_literals.simps) blast
  from Suc.IH [OF s(1) Suc.prems(2)] Suc.prems(3) obtain l1 where l1:
    "readrle_run rd width (length pre) (Suc k) (src_at pre (x @ rest)) i l st
       = Some (src_at (pre @ x) rest, i + Suc k, l1, s)" "filled (i + Suc k) l1" by auto
  from rd_lit [of "i + Suc k" l1 pre s rest] l1(2) Suc.prems(3) s(2) obtain l2 where
    "rd (src_at pre (x @ rest)) (i + Suc k) l1 s = Some (src_at (pre @ x) rest, l2, st')"
    "filled (Suc (i + Suc k)) l2" by auto
  with l1 Suc.prems(3) show ?case
    by (subst readrle_run_snoc) (auto simp: src_at_rewind simp del: same_literals.simps)
qed

lemma read_block:
  assumes "i + k \<le> width" "filled i l"
  shows "\<lbrakk>literals lit i k st = (ys, st'); 1 \<le> k; k \<le> 128\<rbrakk> \<Longrightarrow>
      \<exists>l'. readrle_block rd width (src_at pre (lit_hdr k # ys @ rest)) i l st
             = Some (src_at (pre @ lit_hdr k # ys) rest, i + k, l', st') \<and> filled (i + k) l'"
    and "\<lbrakk>same_literals lit x i k st st'; 2 \<le> k; k \<le> 129\<rbrakk> \<Longrightarrow>
      \<exists>l'. readrle_block rd width (src_at pre (run_hdr k # x @ rest)) i l st
             = Some (src_at (pre @ run_hdr k # x) rest, i + k, l', st') \<and> filled (i + k) l'"
proof -
  assume "literals lit i k st = (ys, st')" and k: "1 \<le> k" "k \<le> 128"
  moreover note u = unat_hdr(1) [OF k]
  moreover have "\<not> 0x80 \<le> lit_hdr k"
    using k by (simp add: word_le_nat_alt u)
  ultimately show "\<exists>l'. readrle_block rd width (src_at pre (lit_hdr k # ys @ rest)) i l st
             = Some (src_at (pre @ lit_hdr k # ys) rest, i + k, l', st') \<and> filled (i + k) l'"
    using read_literals [of i k st ys st' l "pre @ [lit_hdr k]" rest] assms
    by (simp add: readrle_block_def get_byte_at)
next
  assume "same_literals lit x i k st st'" and k: "2 \<le> k" "k \<le> 129"
  moreover note u = unat_hdr(2) [OF k]
  moreover have "0x80 \<le> run_hdr k"
    unfolding word_le_nat_alt u by simp
  moreover have "k - 2 + 128 + 2 - 128 = Suc (k - 1)" "Suc (k - 1) = k" using k by simp_all
  ultimately show "\<exists>l'. readrle_block rd width (src_at pre (run_hdr k # x @ rest)) i l st
             = Some (src_at (pre @ run_hdr k # x) rest, i + k, l', st') \<and> filled (i + k) l'"
    using read_run [of x i "k - 1" st st' l "pre @ [run_hdr k]" rest] assms
    by (simp add: readrle_block_def get_byte_at src_at_def [of "pre @ [run_hdr k]" "x @ rest"]
        del: same_literals.simps readrle_run.simps)
qed

lemma rle_stream_lit: "rle_stream lit st0 e i st \<Longrightarrow> i = 0 \<longrightarrow> e = []"
  by (induction rule: rle_stream.induct) auto

lemma read_stream:
  assumes "rle_stream lit st0 e i st" "filled 0 l" "i \<le> width"
  shows "\<exists>l'. readrle_loop rd width (src_at pre (e @ rest)) 0 l st0 = readrle_loop rd width (src_at (pre @ e) rest) i l' st \<and>
           filled i l'"
  using assms
proof (induction arbitrary: rest rule: rle_stream.induct)
  case (stream_literals e i st k ys st')
  from stream_literals.IH [of "lit_hdr k # ys @ rest"] stream_literals.prems obtain l1 where l1:
    "readrle_loop rd width (src_at pre (e @ lit_hdr k # ys @ rest)) 0 l st0
      = readrle_loop rd width (src_at (pre @ e) (lit_hdr k # ys @ rest)) i l1 st" "filled i l1" by auto
  from read_block(1) [OF stream_literals.prems(2) l1(2) stream_literals(2,3,4), of "pre @ e" rest] obtain l2 where
    "readrle_block rd width (src_at (pre @ e) (lit_hdr k # ys @ rest)) i l1 st
      = Some (src_at (pre @ e @ lit_hdr k # ys) rest, i + k, l2, st')" "filled (i + k) l2" by auto
  then show ?case
    using l1(1) stream_literals(3) stream_literals.prems(2)
    by (auto simp: readrle_loop.simps [of rd width "src_at (pre @ e) (lit_hdr k # ys @ rest)"])
next
  case (stream_run e i st x k st')
  from stream_run.IH [of "run_hdr k # x @ rest"] stream_run.prems obtain l1 where l1:
    "readrle_loop rd width (src_at pre (e @ run_hdr k # x @ rest)) 0 l st0
      = readrle_loop rd width (src_at (pre @ e) (run_hdr k # x @ rest)) i l1 st" "filled i l1" by auto
  from read_block(2) [OF stream_run.prems(2) l1(2) stream_run(2,3,4), of "pre @ e" rest] obtain l2 where
    "readrle_block rd width (src_at (pre @ e) (run_hdr k # x @ rest)) i l1 st
      = Some (src_at (pre @ e @ run_hdr k # x) rest, i + k, l2, st')" "filled (i + k) l2" by auto
  then show ?case
    using l1(1) stream_run(3) stream_run.prems(2)
    by (auto simp: readrle_loop.simps [of rd width "src_at (pre @ e) (run_hdr k # x @ rest)"]
        simp del: of_nat_add)
qed auto

lemma read_whole_stream:
  assumes "rle_stream lit 0 e width st" "filled 0 l" "cols l = width"
  shows "\<exists>l'. readrle rd (src_at pre (e @ rest)) l = Some (src_at (pre @ e) rest, l') \<and> filled width l'"
  using read_stream [OF assms(1,2) order_refl, of pre rest] assms(3)
  by (auto simp: readrle_def readrle_loop.simps [of rd width "src_at (pre @ e) rest"])

subsection \<open>What the encoder writes\<close>

text \<open>The literals pending in the buffer, and what the encoder remembers of the last one or two.\<close>

definition last_known :: "rle \<Rightarrow> nat \<Rightarrow> nat \<Rightarrow> uint32 \<Rightarrow> nat \<Rightarrow> bool" where
  "last_known r j h st base \<longleftrightarrow>
     (\<exists>g ys s x. h = Suc g \<and> literals lit j g st = (ys, s) \<and> lit (j + g) s = (x, rle_state r) \<and>
        rle_prevlen r = length x \<and> rle_prevpos r = base + 1 + length ys \<and>
        (rle_prev2 r \<longrightarrow> (\<exists>f zs t. g = Suc f \<and> literals lit j f st = (zs, t) \<and> lit (j + f) t = (x, s))))"

definition rle_inv :: "bytes \<Rightarrow> rle \<Rightarrow> nat \<Rightarrow> bool" where
  "rle_inv b0 r i \<longleftrightarrow>
     (\<exists>e j h st ys. i = j + h \<and> h < 128 \<and> rle_hdrsize r = int h \<and>
        rle_b r = (b0 @ e) @ 0 # ys \<and> rle_hdrpos r = length (b0 @ e) \<and>
        rle_stream lit 0 e j st \<and> literals lit j h st = (ys, rle_state r) \<and>
        (rle_prevlen r = 0 \<and> \<not> rle_prev2 r \<or> last_known r j h st (length (b0 @ e))))"

lemma last_knownE:
  assumes "last_known r j h st base"
  obtains g ys s x where "h = Suc g" "literals lit j g st = (ys, s)" "lit (j + g) s = (x, rle_state r)"
    "rle_prevlen r = length x" "rle_prevpos r = base + 1 + length ys"
    "rle_prev2 r \<longrightarrow> (\<exists>f zs t. g = Suc f \<and> literals lit j f st = (zs, t) \<and> lit (j + f) t = (x, s))"
  using assms unfolding last_known_def by (elim exE conjE) (rule that)

lemma rle_invE:
  assumes "rle_inv b0 r i"
  obtains e j h st ys where "i = j + h" "h < 128" "rle_hdrsize r = int h" "rle_b r = (b0 @ e) @ 0 # ys"
    "rle_hdrpos r = length (b0 @ e)" "rle_stream lit 0 e j st" "literals lit j h st = (ys, rle_state r)"
    "rle_prevlen r = 0 \<and> \<not> rle_prev2 r \<or> last_known r j h st (length (b0 @ e))"
  using assms unfolding rle_inv_def by (elim exE conjE) (rule that)

lemma rle_inv_new_block:
  assumes "rle_b r = b0 @ e" "rle_stream lit 0 e i (rle_state r)"
  shows "rle_inv b0 (rle_new_block r) i"
  unfolding rle_inv_def
  by (rule exI [of _ e], rule exI [of _ i], rule exI [of _ 0], rule exI [of _ "rle_state r"], rule exI [of _ "[]"])
    (use assms in \<open>simp add: rle_new_block_def\<close>)

lemma rle_count_inv:
  assumes I: "rle_b r = (b0 @ e) @ 0 # ys" "rle_hdrpos r = length (b0 @ e)" "rle_hdrsize r = int h"
    "h < 128" "rle_stream lit 0 e j st" "literals lit j (Suc h) st = (ys, rle_state r)"
    "last_known r j (Suc h) st (length (b0 @ e))"
  shows "rle_inv b0 (rle_count_literal r) (Suc (j + h))"
proof (cases "h = 127")
  case True
  have "rle_stream lit 0 (e @ lit_hdr 128 # ys) (j + 128) (rle_state r)"
    using stream_literals [OF I(5) I(6)] True by simp
  moreover have "((b0 @ e) @ 0 # ys)[length (b0 @ e) := word_of_int 127] = b0 @ e @ lit_hdr 128 # ys"
    by (subst list_update_length) (simp add: lit_hdr_def)
  ultimately show ?thesis
    using I(1-3) True
    by (simp add: rle_count_literal_def Let_def) (rule rle_inv_new_block; simp add: ac_simps)
next
  case False
  define r' where "r' = r\<lparr>rle_hdrsize := rle_hdrsize r + 1\<rparr>"
  have "rle_count_literal r = r'" using False I(3,4) by (simp add: rle_count_literal_def Let_def r'_def)
  moreover have "last_known r' j (Suc h) st (length (b0 @ e))"
    using I(7) by (simp add: last_known_def r'_def)
  then have "rle_inv b0 r' (Suc (j + h))"
    unfolding rle_inv_def using I(1-6) False
    by (intro exI [of _ e] exI [of _ j] exI [of _ "Suc h"] exI [of _ st] exI [of _ ys])
      (simp add: r'_def)
  ultimately show ?thesis by simp
qed

lemma rle_extend_run:
  assumes "same_literals lit x i0 k s0 st" "i = i0 + k" "i + n \<le> width" "runpos = length p" "k \<le> 129"
  shows "\<exists>m k' st'. rle_extend mk (p @ g # x) runpos (length x) i n (int k) st
           = Some (p @ g # x, i0 + k', m, int k', st') \<and>
         same_literals lit x i0 k' s0 st' \<and> i0 + k' + m = i + n \<and> k \<le> k' \<and> k' \<le> 129"
  using assms
proof (induction n arbitrary: i k st)
  case 0
  then show ?case by (auto simp: rle_extend.simps)
next
  case (Suc n)
  obtain y s where y: "lit i st = (y, s)" by (cases "lit i st")
  have mk: "mk (p @ g # x) i st = Some ((p @ g # x) @ y, s)"
    using mk_lit [of i "p @ g # x" st] Suc.prems(3) y by simp
  show ?case
  proof (cases "k < 129 \<and> y = x")
    case True
    have "same_literals lit x i0 (Suc k) s0 s" using Suc.prems(1,2) y True by auto
    from Suc.IH [OF this, of "Suc i"] Suc.prems True obtain m k' st' where
      "rle_extend mk (p @ g # x) runpos (length x) (Suc i) n (int (Suc k)) s
         = Some (p @ g # x, i0 + k', m, int k', st')"
      "same_literals lit x i0 k' s0 st'" "i0 + k' + m = Suc i + n" "Suc k \<le> k'" "k' \<le> 129" by auto
    moreover have "rle_extend mk (p @ g # x) runpos (length x) i (Suc n) (int k) st
        = rle_extend mk (p @ g # x) runpos (length x) (Suc i) n (int (Suc k)) s"
      using True mk same_at_eq [of x "length x" x "p @ [g]" "length p + 1" "[]"] Suc.prems(4)
      by (subst rle_extend.simps) (simp add: Let_def add.commute)
    ultimately show ?thesis by (intro exI [of _ m] exI [of _ k'] exI [of _ st']) simp
  next
    case False
    have "rle_extend mk (p @ g # x) runpos (length x) i (Suc n) (int k) st
        = Some (p @ g # x, i, Suc n, int k, st)"
    proof (cases "k < 129")
      case True
      then have "y \<noteq> x" using False by simp
      then have "\<not> (length y = length x \<and> same_at ((p @ g # x) @ y) (runpos + 1) (length (p @ g # x)) (length y))"
        using same_at_eq [of y "length y" x "p @ [g]" "length p + 1" "[]"] Suc.prems(4) by auto
      with True mk show ?thesis by (subst rle_extend.simps) (simp add: Let_def)
    next
      case f: False
      then show ?thesis by (subst rle_extend.simps) simp
    qed
    with Suc.prems show ?thesis by (intro exI [of _ "Suc n"] exI [of _ k] exI [of _ st]) simp
  qed
qed

lemma rle_run_at_inv:
  assumes b: "rle_b r = (b0 @ e) @ 0 # ys @ x @ z"
    and hp: "rle_hdrpos r = length (b0 @ e)" and pl: "rle_prevlen r = length x" "x \<noteq> []"
    and h: "h < 128" and e: "rle_stream lit 0 e j st" and ys: "literals lit j h st = (ys, s)"
    and run: "same_literals lit x (j + h) k s (rle_state r)" and k: "k = 2 \<or> k = 3"
    and i: "i = j + h + k" "i + n \<le> width"
  shows "\<exists>r' i' n'. rle_run_at mk r (int h) (length (b0 @ e) + 1 + length ys) (int k) (length x) i n = Some (r', i', n') \<and>
           rle_inv b0 r' i' \<and> i' + n' = i + n"
proof -
  define e' where "e' = (if h = 0 then e else e @ lit_hdr h # ys)"
  have st': "rle_stream lit 0 e' (j + h) s"
    using e ys h stream_literals [OF e ys] by (auto simp: e'_def)
  define g where "g = (if h = 0 then 0 else hd x)"
  obtain x0 xs where x: "x = x0 # xs" using pl(2) by (cases x) auto
  define rp where "rp = length (b0 @ e')"
  define b1 where "b1 = (b0 @ e') @ g # x"
  have cut: "rle_cut r (int h) (length (b0 @ e) + 1 + length ys) = (rp, b1)"
  proof (cases "h = 0")
    case True
    then have "ys = []" using ys by simp
    with True show ?thesis by (simp add: rle_cut_def rp_def b1_def b hp pl e'_def g_def)
  next
    case False
    have "(word_of_int (int h - 1) :: byte) = lit_hdr h" using False by (simp add: lit_hdr_def of_nat_diff)
    then show ?thesis
      using False
      by (simp add: rle_cut_def rp_def b1_def Let_def b hp pl e'_def g_def x list_update_append numeral_3_eq_3)
  qed
  from rle_extend_run [OF run i(1) i(2), of rp "b0 @ e'" g] k obtain m k' st'' where ex:
    "rle_extend mk b1 rp (length x) i n (int k) (rle_state r) = Some (b1, j + h + k', m, int k', st'')"
    "same_literals lit x (j + h) k' s st''" "j + h + k' + m = i + n" "k \<le> k'" "k' \<le> 129"
    by (auto simp: b1_def rp_def)
  have k2: "2 \<le> k'" using ex(4) k by auto
  define r' where "r' = r\<lparr>rle_b := b1[rp := word_of_int (int k' + 0x80 - 2)], rle_state := st''\<rparr>"
  have "rle_run_at mk r (int h) (length (b0 @ e) + 1 + length ys) (int k) (length x) i n
      = Some (rle_new_block r', j + h + k', m)"
  proof -
    define pp where "pp = length (b0 @ e) + 1 + length ys"
    have "h = 0 \<Longrightarrow> pp = rle_hdrpos r + 1" using ys hp by (simp add: pp_def)
    then show ?thesis
      unfolding pp_def [symmetric]
      using ex(1,5) k2 h cut [folded pp_def] by (auto simp: rle_run_at_def r'_def)
  qed
  moreover have "rle_inv b0 (rle_new_block r') (j + h + k')"
  proof (rule rle_inv_new_block)
    have "(word_of_int (int k' + 0x80 - 2) :: byte) = run_hdr k'"
    proof -
      have "int k' + 0x80 - 2 = int (k' - 2 + 128)" using ex(4) k by auto
      then show ?thesis by (simp only: run_hdr_def of_int_of_nat_eq)
    qed
    then show "rle_b r' = b0 @ e' @ run_hdr k' # x"
      by (simp add: r'_def b1_def rp_def list_update_append)
    show "rle_stream lit 0 (e' @ run_hdr k' # x) (j + h + k') (rle_state r')"
      using stream_run [OF st' ex(2)] ex(4,5) k by (auto simp: r'_def)
  qed
  ultimately show ?thesis using ex(3) by blast
qed

lemma rle_make_run_inv:
  assumes I: "rle_inv b0 r i" and x: "lit i (rle_state r) = (x, st)" "x \<noteq> []"
    and r': "r' = r\<lparr>rle_b := rle_b r @ x, rle_state := st\<rparr>"
    and m: "length x = rle_prevlen r" "same_at (rle_b r') (rle_prevpos r) (length (rle_b r)) (length x)"
    and n: "Suc i + n \<le> width"
  shows "\<exists>r'' i'' n''. rle_make_run mk r' (length x) (Suc i) n = Some (r'', i'', n'') \<and>
           rle_inv b0 r'' i'' \<and> i'' + n'' = Suc i + n"
proof -
  obtain e j h st0 ys where v: "i = j + h" "h < 128" "rle_hdrsize r = int h"
    "rle_b r = (b0 @ e) @ 0 # ys" "rle_hdrpos r = length (b0 @ e)" "rle_stream lit 0 e j st0"
    "literals lit j h st0 = (ys, rle_state r)"
    "rle_prevlen r = 0 \<and> \<not> rle_prev2 r \<or> last_known r j h st0 (length (b0 @ e))"
    by (rule rle_invE [OF I])
  have lk: "last_known r j h st0 (length (b0 @ e))" using v(8) m(1) x(2) by auto
  obtain g ys1 s1 y where k: "h = Suc g" "literals lit j g st0 = (ys1, s1)" "lit (j + g) s1 = (y, rle_state r)"
    "rle_prevlen r = length y" "rle_prevpos r = length (b0 @ e) + 1 + length ys1"
    "rle_prev2 r \<longrightarrow> (\<exists>f zs t. g = Suc f \<and> literals lit j f st0 = (zs, t) \<and> lit (j + f) t = (y, s1))"
    by (rule last_knownE [OF lk])
  have ys: "ys = ys1 @ y" using v(7) k(1-3) by simp
  have "y = x"
  proof (rule same_at_last)
    show "rle_b r = ((b0 @ e) @ 0 # ys1) @ y" by (simp add: v(4) ys)
    show "rle_prevpos r = length ((b0 @ e) @ 0 # ys1)" by (simp add: k(5))
    show "length x = length y" using m(1) k(4) by simp
    show "same_at (rle_b r @ x) (rle_prevpos r) (length (rle_b r)) (length x)" using m(2) by (simp add: r')
  qed
  then have ys: "ys = ys1 @ x" using ys by simp
  have hp: "rle_hdrpos r' = length (b0 @ e)" and pl: "rle_prevlen r' = length x"
    by (simp_all add: r' v(5) m(1))
  show ?thesis
  proof (cases "rle_prev2 r")
    case False
    have "same_literals lit x (j + g) 2 s1 (rle_state r')"
      using k(3) x(1) \<open>y = x\<close> v(1) k(1) by (auto simp: numeral_2_eq_2 r')
    note this_run = this
    have b: "rle_b r' = (b0 @ e) @ 0 # ys1 @ x @ x" by (simp add: r' v(4) ys)
    have i: "Suc i = j + g + 2" "g < 128" using v(1,2) k(1) by simp_all
    from rle_run_at_inv [OF b hp pl x(2) i(2) v(6) k(2) this_run disjI1 [OF refl] i(1) n]
    obtain r'' i'' n'' where "rle_run_at mk r' (int g) (length (b0 @ e) + 1 + length ys1) 2 (length x) (Suc i) n = Some (r'', i'', n'')"
      "rle_inv b0 r'' i''" "i'' + n'' = Suc i + n" by (simp only: of_nat_numeral) blast
    then show ?thesis
      using False k v(3) by (simp add: rle_make_run_def r' Let_def m(1))
  next
    case True
    then obtain f zs t where f: "g = Suc f" "literals lit j f st0 = (zs, t)" "lit (j + f) t = (y, s1)"
      using k(6) by blast
    have ys1: "ys1 = zs @ x" using f k(2) \<open>y = x\<close> by simp
    have "same_literals lit x (j + f) 3 t (rle_state r')"
      using k(3) x(1) f \<open>y = x\<close> v(1) k(1) by (auto simp: numeral_3_eq_3 r')
    note this_run = this
    have b: "rle_b r' = (b0 @ e) @ 0 # zs @ x @ x @ x" by (simp add: r' v(4) ys ys1)
    have i: "Suc i = j + f + 3" "f < 128" using v(1,2) k(1) f(1) by simp_all
    from rle_run_at_inv [OF b hp pl x(2) i(2) v(6) f(2) this_run disjI2 [OF refl] i(1) n]
    obtain r'' i'' n'' where "rle_run_at mk r' (int f) (length (b0 @ e) + 1 + length zs) 3 (length x) (Suc i) n = Some (r'', i'', n'')"
      "rle_inv b0 r'' i''" "i'' + n'' = Suc i + n" by (simp only: of_nat_numeral) blast
    moreover have "rle_prev2 r'" "rle_hdrsize r' = int f + 2"
      "rle_prevpos r' - rle_prevlen r' = length (b0 @ e) + 1 + length zs"
      using True k(1,5) v(3) f(1) ys1 m(1) by (simp_all add: r')
    ultimately show ?thesis by (simp add: rle_make_run_def del: length_append)
  qed
qed

lemma rle_literal_inv:
  assumes I: "rle_inv b0 r i" and x: "lit i (rle_state r) = (x, st)" "x \<noteq> []"
    and r': "r' = r\<lparr>rle_b := rle_b r @ x, rle_state := st, rle_prev2 := p2, rle_prevlen := length x,
               rle_prevpos := length (rle_b r)\<rparr>"
    and p2: "p2 \<longrightarrow> length x = rle_prevlen r \<and>
               same_at (rle_b r @ x) (rle_prevpos r) (length (rle_b r)) (length x)"
  shows "rle_inv b0 (rle_count_literal r') (Suc i)"
proof -
  obtain e j h st0 ys where v: "i = j + h" "h < 128" "rle_hdrsize r = int h"
    "rle_b r = (b0 @ e) @ 0 # ys" "rle_hdrpos r = length (b0 @ e)" "rle_stream lit 0 e j st0"
    "literals lit j h st0 = (ys, rle_state r)"
    "rle_prevlen r = 0 \<and> \<not> rle_prev2 r \<or> last_known r j h st0 (length (b0 @ e))"
    by (rule rle_invE [OF I])
  have two: "\<exists>f zs t. h = Suc f \<and> literals lit j f st0 = (zs, t) \<and> lit (j + f) t = (x, rle_state r)" if p2
  proof -
    have lk: "last_known r j h st0 (length (b0 @ e))" using v(8) p2 that x(2) by auto
    obtain g ys1 s1 y where k: "h = Suc g" "literals lit j g st0 = (ys1, s1)" "lit (j + g) s1 = (y, rle_state r)"
      "rle_prevlen r = length y" "rle_prevpos r = length (b0 @ e) + 1 + length ys1"
      by (rule last_knownE [OF lk])
    have "ys = ys1 @ y" using v(7) k(1-3) by simp
    have "y = x"
    proof (rule same_at_last)
      show "rle_b r = ((b0 @ e) @ 0 # ys1) @ y" using \<open>ys = ys1 @ y\<close> by (simp add: v(4))
      show "rle_prevpos r = length ((b0 @ e) @ 0 # ys1)" by (simp add: k(5))
      show "length x = length y" using p2 that k(4) by simp
      show "same_at (rle_b r @ x) (rle_prevpos r) (length (rle_b r)) (length x)" using p2 that by blast
    qed
    with k show ?thesis by blast
  qed
  have "literals lit j (Suc h) st0 = (ys @ x, rle_state r')"
    using v(1,7) x(1) by (simp add: r')
  moreover have "last_known r' j (Suc h) st0 (length (b0 @ e))"
    unfolding last_known_def using v two x(1)
    by (intro exI [of _ h] exI [of _ ys] exI [of _ "rle_state r"] exI [of _ x]) (simp add: r')
  ultimately have "rle_inv b0 (rle_count_literal r') (Suc (j + h))"
    using v by (intro rle_count_inv [of r' b0 e "ys @ x" h j st0]) (simp_all add: r')
  then show ?thesis by (simp add: v(1))
qed

lemma rle_finish_inv:
  assumes "rle_inv b0 r i"
  shows "\<exists>e st. rle_finish r = Some (b0 @ e) \<and> rle_stream lit 0 e i st"
proof -
  obtain e j h st0 ys where v: "i = j + h" "h < 128" "rle_hdrsize r = int h"
    "rle_b r = (b0 @ e) @ 0 # ys" "rle_hdrpos r = length (b0 @ e)" "rle_stream lit 0 e j st0"
    "literals lit j h st0 = (ys, rle_state r)"
    by (rule rle_invE [OF assms])
  show ?thesis
  proof (cases "h = 0")
    case True
    with v show ?thesis by (auto simp: rle_finish_def)
  next
    case False
    have hdr: "(word_of_int (int h - 1) :: byte) = lit_hdr h" using False by (simp add: lit_hdr_def of_nat_diff)
    have "rle_finish r = Some (b0 @ e @ lit_hdr h # ys)"
      unfolding rle_finish_def v(3-5) hdr using False v(2)
      by (simp add: list_update_append)
    then show ?thesis using stream_literals [OF v(6,7)] False v(1,2) by auto
  qed
qed

lemma makerle_loop_stream:
  assumes "rle_inv b0 r i" "i + n = width"
  shows "\<exists>e st. makerle_loop mk r i n = Some (b0 @ e) \<and> rle_stream lit 0 e width st"
  using assms
proof (induction n arbitrary: r i rule: less_induct)
  case (less n)
  show ?case
  proof (cases "n = 0")
    case True
    then show ?thesis using rle_finish_inv [OF less.prems(1)] less.prems(2) by (subst makerle_loop.simps) auto
  next
    case False
    obtain x st where x: "lit i (rle_state r) = (x, st)" by (cases "lit i (rle_state r)")
    have i: "i < width" using less.prems(2) False by simp
    have mk: "mk (rle_b r) i (rle_state r) = Some (rle_b r @ x, st)" "x \<noteq> []"
      using mk_lit [OF i, of "rle_b r" "rle_state r"] lit_nonempty [OF i, of "rle_state r"] x by simp_all
    define r1 where "r1 = r\<lparr>rle_b := rle_b r @ x, rle_state := st\<rparr>"
    define p2 where "p2 \<longleftrightarrow> length x = rle_prevlen r \<and> same_at (rle_b r1) (rle_prevpos r) (length (rle_b r)) (length x)"
    show ?thesis
    proof (cases "p2 \<and> (length x > 1 \<or> rle_prev2 r)")
      case True
      from rle_make_run_inv [OF less.prems(1) x mk(2) r1_def, of "n - 1"] True less.prems(2) False
      obtain r'' i'' n'' where m: "rle_make_run mk r1 (length x) (Suc i) (n - 1) = Some (r'', i'', n'')"
        "rle_inv b0 r'' i''" "i'' + n'' = Suc i + (n - 1)" by (auto simp: p2_def)
      have "n'' < n" using rle_make_run_le [OF m(1)] False by simp
      with less.IH [of n'' r'' i''] m less.prems(2) False obtain e s where
        "makerle_loop mk r'' i'' n'' = Some (b0 @ e)" "rle_stream lit 0 e width s" by auto
      moreover have "makerle_loop mk r i n = makerle_loop mk r'' i'' n''"
        using True False m(1) mk(1) by (subst makerle_loop.simps) (auto simp: Let_def r1_def p2_def)
      ultimately show ?thesis by auto
    next
      case f: False
      define r2 where "r2 = r\<lparr>rle_b := rle_b r @ x, rle_state := st, rle_prev2 := p2, rle_prevlen := length x,
               rle_prevpos := length (rle_b r)\<rparr>"
      have "rle_inv b0 (rle_count_literal r2) (Suc i)"
        by (rule rle_literal_inv [OF less.prems(1) x mk(2) r2_def]) (auto simp: p2_def r1_def)
      with less.IH [of "n - 1" "rle_count_literal r2" "Suc i"] False less.prems(2) obtain e s where
        "makerle_loop mk (rle_count_literal r2) (Suc i) (n - 1) = Some (b0 @ e)" "rle_stream lit 0 e width s" by auto
      moreover have "makerle_loop mk r i n = makerle_loop mk (rle_count_literal r2) (Suc i) (n - 1)"
      proof -
        have pd: "p2 \<longleftrightarrow> length x = rle_prevlen r \<and> same_at (rle_b r @ x) (rle_prevpos r) (length (rle_b r)) (length x)"
          by (auto simp: p2_def r1_def)
        show ?thesis
        proof (cases p2)
          case True
          with f have "\<not> 1 < length x" "\<not> rle_prev2 r" by auto
          with True False mk(1) show ?thesis
            by (subst makerle_loop.simps) (auto simp: Let_def r2_def pd)
        next
          case p: False
          then have "r2 = r\<lparr>rle_b := rle_b r @ x, rle_state := st, rle_prev2 := False, rle_prevlen := length x,
               rle_prevpos := length (rle_b r)\<rparr>" by (simp add: r2_def)
          with p False mk(1) show ?thesis
            by (subst makerle_loop.simps) (auto simp: Let_def pd)
        qed
      qed
      ultimately show ?thesis by auto
    qed
  qed
qed

lemma makerle_stream: "\<exists>e st. makerle_loop mk (rle_init b) 0 width = Some (b @ e) \<and> rle_stream lit 0 e width st"
proof (rule makerle_loop_stream)
  show "rle_inv b (rle_init b) 0"
    unfolding rle_inv_def rle_init_def
    by (intro exI [of _ "[]"] exI [of _ 0]) (simp add: stream_empty)
qed simp

text \<open>Encoding a whole stream succeeds, and what it wrote decodes to the cells.\<close>

lemma makerle_total: "\<exists>e. makerle_loop mk (rle_init b) 0 width = Some (b @ e)"
  using makerle_stream [of b] by blast

theorem rle_round_trip:
  assumes "makerle_loop mk (rle_init b) 0 width = Some (b @ e)" "filled 0 l" "cols l = width"
  shows "\<exists>l'. readrle rd (src_at pre (e @ rest)) l = Some (src_at (pre @ e) rest, l') \<and> filled width l'"
  using makerle_stream [of b] read_whole_stream [OF _ assms(2,3)] assms(1) by fastforce

end

end
