(* ===== verification/Term_Codec.thy ===== *)
theory Term_Codec
  imports Term_Rle
begin

text \<open>
  The four literal formats fit the contract of \<open>Term_Rle\<close>, and compressing a line and
  decompressing it gives the same cells.
\<close>

section \<open>Bits of the character encoding\<close>

lemma word_masks:
  "(0x7F :: 'a::len word) = mask 7" "(0xFF :: 'a word) = mask 8" "(0x3F :: 'a word) = mask 6"
  "(0x1F :: 'a word) = mask 5" "(0x0F :: 'a word) = mask 4" "(0xFFFF :: 'a word) = mask 16"
  "(0x80 :: 'a word) = push_bit 7 1" "(0xC0 :: 'a word) = push_bit 6 (mask 2)"
  "(0xE0 :: 'a word) = push_bit 5 (mask 3)" "(0xF0 :: 'a word) = push_bit 4 (mask 4)"
  by (simp_all add: mask_eq_exp_minus_1 push_bit_eq_mult)

lemma small_take_bit_word: "unat x < 2 ^ k \<Longrightarrow> take_bit k x = x" for x :: uint32
  by (rule word_unat_eq_iff [THEN iffD2]) (simp add: unat_take_bit)

lemma bit_less: "\<lbrakk>unat ch < 2 ^ k; bit ch n\<rbrakk> \<Longrightarrow> n < k" for ch :: uint32
  using small_take_bit_word [of ch k] by (metis bit_take_bit_iff)

lemma ascii_bits: "(ch AND 0x7F) OR (ch AND NOT 0x7F) = (ch :: uint32)"
  by (rule bit_word_eqI) (auto simp: bit_simps)

lemma ucast_byte_back: "unat x < 256 \<Longrightarrow> ucast (ucast x :: byte) = (x :: uint32)"
proof -
  assume "unat x < 256"
  moreover have "ucast (ucast x :: byte) = take_bit 8 x" by (rule bit_word_eqI) (auto simp: bit_simps)
  ultimately show ?thesis using small_take_bit_word [of x 8] by simp
qed

text \<open>A leading byte, its range and its low bits.\<close>

lemma lead_byte:
  assumes a: "unat (a :: uint32) < 2 ^ k" and P: "unat P = h * 2 ^ k" and lim: "h * 2 ^ k + 2 ^ k \<le> 256"
    and N: "P AND NOT M = 0" "\<And>n. bit M n \<Longrightarrow> k \<le> n"
  shows "unat (ucast (ucast (a OR P) :: byte) :: uint32) = h * 2 ^ k + unat a"
    and "ucast (ucast (a OR P) :: byte) AND NOT M = a"
proof -
  have u: "unat (a OR P) = h * 2 ^ k + unat a"
    using unat_or_add [OF P a] P by (simp add: or.commute)
  then have b: "ucast (ucast (a OR P) :: byte) = a OR P"
    using a lim by (intro ucast_byte_back) simp
  then show "unat (ucast (ucast (a OR P) :: byte) :: uint32) = h * 2 ^ k + unat a" by (simp add: u)
  have ta: "take_bit k a = a" using a by (rule small_take_bit_word)
  have "(a OR P) AND NOT M = (a AND NOT M) OR (P AND NOT M)" by (simp add: bit.conj_disj_distrib2)
  also have "\<dots> = a"
  proof (rule bit_word_eqI)
    fix n assume "n < LENGTH(32)"
    have "bit a n \<Longrightarrow> n < k" using ta by (metis bit_take_bit_iff)
    with N(2) [of n] \<open>n < LENGTH(32)\<close> show "bit (a AND NOT M OR (P AND NOT M)) n = bit a n"
      by (auto simp: N(1) bit_simps)
  qed
  finally show "ucast (ucast (a OR P) :: byte) AND NOT M = a" by (simp add: b)
qed

lemma unat_and_mask: "unat (x AND mask k) < 2 ^ k" for x :: uint32
  by (simp add: take_bit_eq_mask [symmetric] unat_take_bit)

lemma lead_bytes:
  fixes x :: uint32
  shows "unat (ucast (ucast ((x AND 0x3F) OR 0x80) :: byte) :: uint32) = 128 + unat (x AND 0x3F)"
    "ucast (ucast ((x AND 0x3F) OR 0x80) :: byte) AND NOT 0xC0 = x AND 0x3F"
    "unat (ucast (ucast ((x AND 0x1F) OR 0xC0) :: byte) :: uint32) = 192 + unat (x AND 0x1F)"
    "ucast (ucast ((x AND 0x1F) OR 0xC0) :: byte) AND NOT 0xE0 = x AND 0x1F"
    "unat (ucast (ucast ((x AND 0x0F) OR 0xE0) :: byte) :: uint32) = 224 + unat (x AND 0x0F)"
    "ucast (ucast ((x AND 0x0F) OR 0xE0) :: byte) AND NOT 0xF0 = x AND 0x0F"
proof -
  have m: "bit (push_bit j (mask l) :: uint32) n \<Longrightarrow> j \<le> n" for j l n by (auto simp: bit_simps)
  note l1 = lead_byte [of "x AND 0x3F" 6 "0x80" 2 "0xC0"] and l2 = lead_byte [of "x AND 0x1F" 5 "0xC0" 6 "0xE0"]
    and l3 = lead_byte [of "x AND 0x0F" 4 "0xE0" 14 "0xF0"]
  have b: "unat (x AND 0x3F) < 2 ^ 6" "unat (x AND 0x1F) < 2 ^ 5" "unat (x AND 0x0F) < 2 ^ 4"
    using unat_and_mask [of x 6] unat_and_mask [of x 5] unat_and_mask [of x 4] by (simp_all add: mask_eq_exp_minus_1)
  have n: "\<And>n. bit (0xC0 :: uint32) n \<Longrightarrow> 6 \<le> n" "\<And>n. bit (0xE0 :: uint32) n \<Longrightarrow> 5 \<le> n"
    "\<And>n. bit (0xF0 :: uint32) n \<Longrightarrow> 4 \<le> n"
    unfolding word_masks by (auto dest: m)
  show "unat (ucast (ucast ((x AND 0x3F) OR 0x80) :: byte) :: uint32) = 128 + unat (x AND 0x3F)"
    "ucast (ucast ((x AND 0x3F) OR 0x80) :: byte) AND NOT 0xC0 = x AND 0x3F"
    using l1 [OF b(1) _ _ _ n(1)] by simp_all
  show "unat (ucast (ucast ((x AND 0x1F) OR 0xC0) :: byte) :: uint32) = 192 + unat (x AND 0x1F)"
    "ucast (ucast ((x AND 0x1F) OR 0xC0) :: byte) AND NOT 0xE0 = x AND 0x1F"
    using l2 [OF b(2) _ _ _ n(2)] by simp_all
  show "unat (ucast (ucast ((x AND 0x0F) OR 0xE0) :: byte) :: uint32) = 224 + unat (x AND 0x0F)"
    "ucast (ucast ((x AND 0x0F) OR 0xE0) :: byte) AND NOT 0xF0 = x AND 0x0F"
    using l3 [OF b(3) _ _ _ n(3)] by simp_all
qed

lemma chr_bits:
  fixes ch :: uint32
  shows "ch < 0x4000 \<Longrightarrow> push_bit 8 (drop_bit 8 ch AND 0x3F) OR ucast (ucast (ch AND 0xFF) :: byte) = ch"
    "ch < 0x200000 \<Longrightarrow> push_bit 16 (drop_bit 16 ch AND 0x1F) OR ucast (ucast (ch AND 0xFFFF) :: 16 word) = ch"
    "ch < 0x10000000 \<Longrightarrow> push_bit 24 (drop_bit 24 ch AND 0x0F) OR
       push_bit 16 (ucast (ucast (drop_bit 16 ch AND 0xFF) :: byte)) OR ucast (ucast (ch AND 0xFFFF) :: 16 word) = ch"
proof -
  note b = bit_less [of ch]
  show "ch < 0x4000 \<Longrightarrow> push_bit 8 (drop_bit 8 ch AND 0x3F) OR ucast (ucast (ch AND 0xFF) :: byte) = ch"
    using b [of 14] unfolding word_less_nat_alt
    by (intro bit_word_eqI) (fastforce simp: word_masks bit_simps)
  show "ch < 0x200000 \<Longrightarrow> push_bit 16 (drop_bit 16 ch AND 0x1F) OR ucast (ucast (ch AND 0xFFFF) :: 16 word) = ch"
    using b [of 21] unfolding word_less_nat_alt
    by (intro bit_word_eqI) (fastforce simp: word_masks bit_simps)
  assume "ch < 0x10000000"
  then have lim: "bit ch n \<Longrightarrow> n < 28" for n using b [of 28 n] by (simp add: word_less_nat_alt)
  show "push_bit 24 (drop_bit 24 ch AND 0x0F) OR
       push_bit 16 (ucast (ucast (drop_bit 16 ch AND 0xFF) :: byte)) OR ucast (ucast (ch AND 0xFFFF) :: 16 word) = ch"
  proof (rule bit_word_eqI)
    fix n assume "n < LENGTH(32)"
    then consider "n < 16" | "16 \<le> n" "n < 24" | "24 \<le> n" "n < 32" by simp linarith
    then show "bit (push_bit 24 (drop_bit 24 ch AND 0x0F) OR
       push_bit 16 (ucast (ucast (drop_bit 16 ch AND 0xFF) :: byte)) OR ucast (ucast (ch AND 0xFFFF) :: 16 word)) n = bit ch n"
      by cases (use lim [of n] in \<open>auto simp: word_masks bit_simps\<close>)
  qed
qed

section \<open>Reading back a character\<close>

lemma put_chr_append: "put_chr b ch st = (b @ fst (put_chr [] ch st), snd (put_chr [] ch st))"
  by (simp add: put_chr_def)

lemma snd_put_chr: "snd (put_chr b ch st) = ch AND NOT 0xFF"
  by (simp add: put_chr_def)

lemma put_chr_nonempty: "fst (put_chr [] ch st) \<noteq> []"
  by (simp add: put_chr_def)

lemma byte_range: "unat (ucast (b :: byte) :: uint32) = unat b"
  by (rule unat_ucast_byte)

lemma ascii_byte:
  fixes x :: uint32
  shows "ucast (ucast (x AND 0x7F) :: byte) = x AND 0x7F" "x AND 0x7F < 0x80"
proof -
  have "unat (x AND 0x7F) < 2 ^ 7" using unat_and_mask [of x 7] by (simp add: mask_eq_exp_minus_1)
  then show "x AND 0x7F < 0x80" "ucast (ucast (x AND 0x7F) :: byte) = x AND 0x7F"
    by (simp_all add: word_less_nat_alt ucast_byte_back)
qed

lemma small_parts:
  fixes x :: uint32
  shows "unat (x AND 0x3F) < 64" "unat (x AND 0x1F) < 32" "unat (x AND 0x0F) < 16"
  using unat_and_mask [of x 6] unat_and_mask [of x 5] unat_and_mask [of x 4] by (simp_all add: mask_eq_exp_minus_1)

lemma get_uint16_after:
  "get_uint16 (src_at pre (put_16bit_msb_first v @ rest)) = (ucast v, src_at (pre @ put_16bit_msb_first v) rest)"
  by (rule get_uint16_at)

lemma get_chr_put:
  "get_chr (src_at pre (fst (put_chr [] ch st) @ rest)) st
     = Some (ch, src_at (pre @ fst (put_chr [] ch st)) rest)"
proof -
  consider (reuse) "ch AND NOT 0x7F = st"
    | (two) "ch AND NOT 0x7F \<noteq> st" "ch < 0x4000"
    | (three) "ch AND NOT 0x7F \<noteq> st" "\<not> ch < 0x4000" "ch < 0x200000"
    | (four) "ch AND NOT 0x7F \<noteq> st" "\<not> ch < 0x200000" "ch < 0x10000000"
    | (five) "ch AND NOT 0x7F \<noteq> st" "\<not> ch < 0x10000000" by blast
  then show ?thesis
  proof cases
    case reuse
    then have e: "fst (put_chr [] ch st) = [ucast (ch AND 0x7F)]" by (simp add: put_chr_def)
    have "(ch AND 0x7F) OR st = ch" using ascii_bits [of ch] reuse by simp
    then show ?thesis by (simp add: e get_chr_def get_byte_at ascii_byte Let_def)
  next
    case two
    define y where "y = (ucast ((drop_bit 8 ch AND 0x3F) OR 0x80) :: byte)"
    have e: "fst (put_chr [] ch st) = [y, ucast (ch AND 0xFF)]" using two by (simp add: put_chr_def y_def)
    have "\<not> (ucast y :: uint32) < 0x80" "(ucast y :: uint32) < 0xC0"
      using lead_bytes(1) [of "drop_bit 8 ch"] small_parts(1) [of "drop_bit 8 ch"]
      by (simp_all add: y_def word_less_nat_alt)
    then show ?thesis
      using lead_bytes(2) [of "drop_bit 8 ch", folded y_def] chr_bits(1) [OF two(2)]
      by (simp add: e get_chr_def get_byte_at Let_def)
  next
    case three
    define y where "y = (ucast ((drop_bit 16 ch AND 0x1F) OR 0xC0) :: byte)"
    have e: "fst (put_chr [] ch st) = y # put_16bit_msb_first (ucast (ch AND 0xFFFF))"
      using three by (simp add: put_chr_def y_def)
    have "\<not> (ucast y :: uint32) < 0x80" "\<not> (ucast y :: uint32) < 0xC0" "(ucast y :: uint32) < 0xE0"
      using lead_bytes(3) [of "drop_bit 16 ch"] small_parts(2) [of "drop_bit 16 ch"]
      by (simp_all add: y_def word_less_nat_alt)
    then show ?thesis
      using lead_bytes(4) [of "drop_bit 16 ch", folded y_def] chr_bits(2) [OF three(3)]
      by (simp add: e get_chr_def get_byte_at get_uint16_after Let_def)
  next
    case four
    define y where "y = (ucast ((drop_bit 24 ch AND 0x0F) OR 0xE0) :: byte)"
    have n: "\<not> ch < 0x4000" using four(2) by (auto simp: word_less_nat_alt)
    have e: "fst (put_chr [] ch st) =
        y # ucast (drop_bit 16 ch AND 0xFF) # put_16bit_msb_first (ucast (ch AND 0xFFFF))"
      using four n by (simp add: put_chr_def y_def)
    have "\<not> (ucast y :: uint32) < 0x80" "\<not> (ucast y :: uint32) < 0xC0" "\<not> (ucast y :: uint32) < 0xE0"
      "(ucast y :: uint32) < 0xF0"
      using lead_bytes(5) [of "drop_bit 24 ch"] small_parts(3) [of "drop_bit 24 ch"]
      by (simp_all add: y_def word_less_nat_alt)
    then show ?thesis
      using lead_bytes(6) [of "drop_bit 24 ch", folded y_def] chr_bits(3) [OF four(3)]
      by (simp add: e get_chr_def get_byte_at get_uint16_after Let_def or.assoc)
  next
    case five
    have n: "\<not> ch < 0x4000" "\<not> ch < 0x200000" using five(2) by (auto simp: word_less_nat_alt)
    have e: "fst (put_chr [] ch st) = 0xF0 # put_32bit_msb_first ch"
      using five n by (simp add: put_chr_def)
    show ?thesis by (simp add: e get_chr_def get_byte_at get_uint32_at Let_def)
  qed
qed

section \<open>Reading back attributes and colours\<close>

text \<open>The permutation of the attribute bits loses nothing below bit 31.\<close>

lemma below_32: "n < 32 \<Longrightarrow> n \<in> {..<32}" for n :: nat
  by simp

lemmas less_32_cases = below_32 [simplified lessThan_nat_numeral lessThan_0 pred_numeral_simps arith_simps
    insert_iff empty_iff lessThan_Suc numeral_1_eq_Suc_0 simp_thms]

lemma push_mask: "push_bit k 1 - 1 = (mask k :: 'a::len word)"
  by (simp add: push_bit_eq_mult mask_eq_exp_minus_1)

lemma bit_beyond: "32 \<le> n \<Longrightarrow> \<not> bit a n" for a :: uint32
  using bit_imp_le_length [of a n] by auto

lemma bit_permute_attr:
  assumes "\<not> bit a 31" "n < 32"
  shows "bit (permute_attr a) n \<longleftrightarrow>
     (if n < 4 then bit a n else if n < 9 then bit a (n + 4) else if n < 23 then bit a (n + 8)
      else if n < 27 then bit a (n - 19) else if n < 31 then bit a (n - 14) else False)"
proof -
  from less_32_cases [OF assms(2)] show ?thesis
    unfolding permute_attr_def Let_def ATTR_FGSHIFT_def ATTR_BGSHIFT_def push_mask word_masks
    by (elim disjE) (use assms(1) in \<open>simp_all add: bit_simps bit_beyond\<close>)
qed

lemma bit_unpermute_attr:
  assumes "n < 32"
  shows "bit (unpermute_attr v) n \<longleftrightarrow>
     (if n < 4 then bit v n else if n < 8 then bit v (n + 19) else if n < 13 then bit v (n - 4)
      else if n < 17 then bit v (n + 14) else if n < 31 then bit v (n - 8) else False)"
proof -
  from less_32_cases [OF assms] show ?thesis
    unfolding unpermute_attr_def Let_def ATTR_FGSHIFT_def ATTR_BGSHIFT_def push_mask word_masks
    by (elim disjE) (simp_all add: bit_simps bit_beyond)
qed

lemma top_bit_clear: "a < 0x80000000 \<longleftrightarrow> \<not> bit a 31" for a :: uint32
proof
  show "a < 0x80000000 \<Longrightarrow> \<not> bit a 31" using bit_less [of a 31 31] by (auto simp: word_less_nat_alt)
  assume a: "\<not> bit a 31"
  have "take_bit 31 a = a"
  proof (rule bit_word_eqI)
    fix n assume "n < LENGTH(32)"
    then show "bit (take_bit 31 a) n = bit a n" using a by (cases "n = 31") (auto simp: bit_simps)
  qed
  then have "unat a = unat a mod 2 ^ 31" using unat_take_bit [of 31 a] by simp
  then have "unat a < 2 ^ 31" using mod_less_divisor [of "2 ^ 31" "unat a"] by simp
  then show "a < 0x80000000" by (simp add: word_less_nat_alt)
qed

lemma permute_attr_bits:
  assumes "a < 0x80000000"
  shows "permute_attr a < 0x80000000" "unpermute_attr (permute_attr a) = a"
proof -
  have a: "\<not> bit a 31" using assms by (simp add: top_bit_clear)
  show "permute_attr a < 0x80000000" using bit_permute_attr [OF a, of 31] by (simp add: top_bit_clear)
  show "unpermute_attr (permute_attr a) = a"
  proof (rule bit_word_eqI)
    fix n assume "n < LENGTH(32)"
    then have n: "n < 32" by simp
    then consider "n < 31" | "n = 31" by linarith
    then show "bit (unpermute_attr (permute_attr a)) n = bit a n"
      by cases (auto simp: bit_unpermute_attr bit_permute_attr [OF a] a)
  qed
qed

lemma put_attr_append: "put_attr b a = b @ put_attr [] a"
  by (simp add: put_attr_def Let_def)

lemma put_16_bytes: "put_16bit_msb_first v = [ucast (drop_bit 8 v), ucast v]"
  by (simp add: put_16bit_msb_first_def)

lemma half_masks: "(0x7FFF :: uint32) = mask 15" "(0x8000 :: uint32) = push_bit 15 1"
  by (simp_all add: mask_eq_exp_minus_1 push_bit_eq_mult)

lemma attr_bytes:
  fixes v :: uint32
  shows "ucast (drop_bit 8 v AND 0xFF) = (ucast (drop_bit 8 (ucast v :: 16 word)) :: byte)"
    "ucast (v AND 0xFF) = (ucast (ucast v :: 16 word) :: byte)"
    "ucast ((drop_bit 24 v AND 0x7F) OR 0x80) =
       (ucast (drop_bit 8 (ucast ((drop_bit 16 v AND 0x7FFF) OR 0x8000) :: 16 word)) :: byte)"
    "ucast (drop_bit 16 v AND 0xFF) = (ucast (ucast ((drop_bit 16 v AND 0x7FFF) OR 0x8000) :: 16 word) :: byte)"
proof -
  note m = half_masks
  show "ucast (drop_bit 8 v AND 0xFF) = (ucast (drop_bit 8 (ucast v :: 16 word)) :: byte)"
    "ucast (v AND 0xFF) = (ucast (ucast v :: 16 word) :: byte)"
    unfolding word_masks by (rule bit_word_eqI; auto simp: bit_simps)+
  show "ucast ((drop_bit 24 v AND 0x7F) OR 0x80) =
       (ucast (drop_bit 8 (ucast ((drop_bit 16 v AND 0x7FFF) OR 0x8000) :: 16 word)) :: byte)"
  proof (rule bit_word_eqI)
    fix n assume "n < LENGTH(8)"
    then have "n < 8" by simp
    from less_8_cases [OF this]
    show "bit (ucast ((drop_bit 24 v AND 0x7F) OR 0x80) :: byte) n =
       bit (ucast (drop_bit 8 (ucast ((drop_bit 16 v AND 0x7FFF) OR 0x8000) :: 16 word)) :: byte) n"
      unfolding m word_masks by (elim disjE) (simp_all add: bit_simps)
  qed
  show "ucast (drop_bit 16 v AND 0xFF) = (ucast (ucast ((drop_bit 16 v AND 0x7FFF) OR 0x8000) :: 16 word) :: byte)"
  proof (rule bit_word_eqI)
    fix n assume "n < LENGTH(8)"
    then have "n < 8" by simp
    from less_8_cases [OF this]
    show "bit (ucast (drop_bit 16 v AND 0xFF) :: byte) n =
       bit (ucast (ucast ((drop_bit 16 v AND 0x7FFF) OR 0x8000) :: 16 word) :: byte) n"
      unfolding m word_masks by (elim disjE) (simp_all add: bit_simps)
  qed
qed

lemma ucast_16_back: "unat v < 0x10000 \<Longrightarrow> ucast (ucast v :: 16 word) = (v :: uint32)"
proof -
  assume "unat v < 0x10000"
  moreover have "ucast (ucast v :: 16 word) = take_bit 16 v" by (rule bit_word_eqI) (auto simp: bit_simps)
  ultimately show ?thesis using small_take_bit_word [of v 16] by simp
qed

lemma attr_halves:
  fixes v :: uint32
  assumes "v < 0x80000000"
  defines "w \<equiv> (drop_bit 16 v AND 0x7FFF) OR 0x8000"
  shows "ucast (ucast w :: 16 word) = w" "w \<ge> 0x8000"
    "push_bit 16 (w AND NOT 0x8000) OR ucast (ucast v :: 16 word) = v"
proof -
  note m = half_masks
  have "unat (drop_bit 16 v AND 0x7FFF) < 2 ^ 15" unfolding m by (rule unat_and_mask)
  then have "unat w = 0x8000 + unat (drop_bit 16 v AND 0x7FFF)"
    using unat_or_add [of "0x8000" 1 15 "drop_bit 16 v AND 0x7FFF"] unfolding w_def by (simp add: or.commute)
  with \<open>unat (drop_bit 16 v AND 0x7FFF) < 2 ^ 15\<close>
  show "ucast (ucast w :: 16 word) = w" "w \<ge> 0x8000"
    by (simp_all add: word_le_nat_alt ucast_16_back)
  have "\<not> bit v 31" using assms(1) by (simp add: top_bit_clear)
  then show "push_bit 16 (w AND NOT 0x8000) OR ucast (ucast v :: 16 word) = v"
  proof (intro bit_word_eqI)
    fix n assume "n < LENGTH(32)"
    then have "n < 32" by simp
    from less_32_cases [OF this]
    show "bit (push_bit 16 (w AND NOT 0x8000) OR ucast (ucast v :: 16 word)) n = bit v n"
      unfolding w_def m using \<open>\<not> bit v 31\<close> by (elim disjE) (simp_all add: bit_simps)
  qed
qed

lemma read_attr:
  assumes "a < 0x80000000"
  shows "readliteral_attr (src_at pre (put_attr [] a @ rest)) c l st
     = Some (src_at (pre @ put_attr [] a) rest, upd_char c (\<lambda>x. x\<lparr>attr := a\<rparr>) l, st)"
proof -
  define v where "v = permute_attr a"
  have v: "v < 0x80000000" "unpermute_attr v = a" using permute_attr_bits [OF assms] by (simp_all add: v_def)
  show ?thesis
  proof (cases "v < 0x8000")
    case True
    have "put_attr [] a = put_16bit_msb_first (ucast v)"
      unfolding put_attr_def v_def [symmetric] Let_def put_16_bytes attr_bytes [of v]
      using True by simp
    moreover have "ucast (ucast v :: 16 word) = v"
      using True by (intro ucast_16_back) (simp add: word_less_nat_alt)
    moreover have "\<not> 0x8000 \<le> v" using True by simp
    ultimately show ?thesis
      using v(2) by (simp add: readliteral_attr_def get_uint16_at Let_def del: not_le)
  next
    case False
    define w where "w = (drop_bit 16 v AND 0x7FFF) OR 0x8000"
    note h = attr_halves [OF v(1), folded w_def]
    have "put_attr [] a = put_16bit_msb_first (ucast w) @ put_16bit_msb_first (ucast v)"
      unfolding put_attr_def v_def [symmetric] Let_def put_16_bytes attr_bytes [of v] w_def
      using False by simp
    then show ?thesis
      using v(2) h by (simp add: readliteral_attr_def get_uint16_at Let_def)
  qed
qed

text \<open>What is stored of a true colour: the red, green and blue of a colour that is not enabled are lost.\<close>

definition tc_stored :: "truecolour \<Rightarrow> truecolour" where
  "tc_stored tc =
     \<lparr>tc_fg = (if rgb_enabled (tc_fg tc) then tc_fg tc else optionalrgb_none),
      tc_bg = (if rgb_enabled (tc_bg tc) then tc_bg tc else optionalrgb_none)\<rparr>"

lemma put_truecolour_append: "put_truecolour b tc = b @ put_truecolour [] tc"
  by (simp add: put_truecolour_def Let_def)

lemma get_rgb_at: 
  "get_rgb (src_at pre (r # g # b # rest)) =
     (\<lparr>rgb_enabled = True, rgb_r = r, rgb_g = g, rgb_b = b\<rparr>, src_at (pre @ [r, g, b]) rest)"
  by (simp add: get_rgb_def get_byte_at)

lemma read_truecolour:
  "readliteral_truecolour (src_at pre (put_truecolour [] tc @ rest)) c l st
     = Some (src_at (pre @ put_truecolour [] tc) rest, upd_char c (\<lambda>x. x\<lparr>truecolour := tc_stored tc\<rparr>) l, st)"
proof -
  obtain fg bg where tc: "tc = \<lparr>tc_fg = fg, tc_bg = bg\<rparr>" by (cases tc)
  show ?thesis
    by (cases "rgb_enabled fg"; cases "rgb_enabled bg"; cases fg; cases bg)
      (simp_all add: tc tc_stored_def put_truecolour_def Let_def readliteral_truecolour_def get_byte_at get_rgb_at
        optionalrgb_none_def)
qed

end
