(* ===== verification/Term_Scrollback.thy ===== *)
theory Term_Scrollback
  imports Term_Codec
begin

text \<open>
  Compressing a line for the scrollback and decompressing it: the literal formats as instances of
  \<open>literal_codec\<close>, and the round trip.
\<close>

section \<open>Codecs that fill in one field\<close>

text \<open>Line \<open>l\<close> is \<open>base\<close> with \<open>f\<close> applied to the cells below \<open>i\<close>.\<close>

definition filled_with :: "(nat \<Rightarrow> termchar \<Rightarrow> termchar) \<Rightarrow> termline \<Rightarrow> nat \<Rightarrow> termline \<Rightarrow> bool" where
  "filled_with f base i l \<longleftrightarrow>
     l = base\<lparr>chars := map (\<lambda>j. if j < i then f j (char_at base j) else char_at base j) [0..<size_of_line base]\<rparr>"

locale field_codec =
  fixes mk :: mkfun and rd :: readliteral and lit :: "nat \<Rightarrow> uint32 \<Rightarrow> bytes \<times> uint32"
    and width :: nat and f :: "nat \<Rightarrow> termchar \<Rightarrow> termchar" and base :: termline
  assumes mk_field: "i < width \<Longrightarrow> mk b i st = Some (b @ fst (lit i st), snd (lit i st))"
    and field_nonempty: "i < width \<Longrightarrow> fst (lit i st) \<noteq> []"
    and width_base: "width \<le> size_of_line base"
    and rd_field: "i < width \<Longrightarrow> rd (src_at pre (fst (lit i st) @ rest)) i l st
          = Some (src_at (pre @ fst (lit i st)) rest, upd_char i (f i) l, snd (lit i st))"
begin

lemma upd_filled:
  assumes "i < width" "filled_with f base i l"
  shows "filled_with f base (Suc i) (upd_char i (f i) l)"
proof -
  have i: "i < size_of_line base" using assms(1) width_base by simp
  have "(map (\<lambda>j. if j < i then f j (char_at base j) else char_at base j) [0..<size_of_line base])
          [i := f i (char_at base i)] =
        map (\<lambda>j. if j < Suc i then f j (char_at base j) else char_at base j) [0..<size_of_line base]"
    using i by (intro nth_equalityI) (auto simp: nth_list_update less_Suc_eq)
  then show ?thesis using assms(2) i by (simp add: filled_with_def)
qed

end

sublocale field_codec \<subseteq> literal_codec mk rd lit width "filled_with f base"
  by unfold_locales (auto simp: mk_field field_nonempty rd_field upd_filled)

text \<open>How many cells from the left satisfy what a codec needs of them.\<close>

definition ok_width :: "(nat \<Rightarrow> bool) \<Rightarrow> nat \<Rightarrow> nat" where
  "ok_width P n = length (takeWhile P [0..<n])"

lemma ok_widthD: "i < ok_width P n \<Longrightarrow> P i \<and> i < n"
proof -
  assume i: "i < ok_width P n"
  then have "takeWhile P [0..<n] ! i \<in> set (takeWhile P [0..<n])" by (simp add: ok_width_def)
  then have "P (takeWhile P [0..<n] ! i)" by (auto dest: set_takeWhileD)
  moreover have "i < n" using i length_takeWhile_le [of P "[0..<n]"] by (simp add: ok_width_def)
  ultimately show ?thesis using i by (simp add: ok_width_def takeWhile_nth)
qed

lemma ok_width_all: "(\<And>i. i < n \<Longrightarrow> P i) \<Longrightarrow> ok_width P n = n"
  by (simp add: ok_width_def takeWhile_eq_all_conv [THEN iffD2])

lemma ok_width_le: "ok_width P n \<le> n"
  using length_takeWhile_le [of P "[0..<n]"] by (simp add: ok_width_def)

definition chr_width :: "termchar list \<Rightarrow> termline \<Rightarrow> nat" where
  "chr_width cs base = min (length cs) (size_of_line base)"

definition attr_width :: "termchar list \<Rightarrow> termline \<Rightarrow> nat" where
  "attr_width cs base = ok_width (\<lambda>i. attr (cs ! i) < 0x80000000) (size_of_line base)"

interpretation chr_codec: field_codec "\<lambda>b. makeliteral_chr b cs" readliteral_chr
    "\<lambda>i. put_chr [] (chr (cs ! i))" "chr_width cs base" "\<lambda>i x. x\<lparr>chr := chr (cs ! i)\<rparr>" base
  for cs base
proof
  show "makeliteral_chr b cs i st = Some (b @ fst (put_chr [] (chr (cs ! i)) st), snd (put_chr [] (chr (cs ! i)) st))"
    for b i st by (simp add: makeliteral_chr_def put_chr_append [of b])
qed (simp_all add: put_chr_nonempty chr_width_def readliteral_chr_def get_chr_put snd_put_chr)

interpretation attr_codec: field_codec "\<lambda>b. makeliteral_attr b cs" readliteral_attr
    "\<lambda>i st. (put_attr [] (attr (cs ! i)), st)" "attr_width cs base" "\<lambda>i x. x\<lparr>attr := attr (cs ! i)\<rparr>" base
  for cs base
proof
  show "makeliteral_attr b cs i st = Some (b @ fst (put_attr [] (attr (cs ! i)), st), snd (put_attr [] (attr (cs ! i)), st))"
    for b i st by (simp add: makeliteral_attr_def put_attr_append [of b])
  show "fst (put_attr [] (attr (cs ! i)), st) \<noteq> []" for i st by (simp add: put_attr_def Let_def)
qed (auto simp: attr_width_def ok_width_le dest!: ok_widthD intro: read_attr)

interpretation truecolour_codec: field_codec "\<lambda>b. makeliteral_truecolour b cs" readliteral_truecolour
    "\<lambda>i st. (put_truecolour [] (truecolour (cs ! i)), st)" "size_of_line base"
    "\<lambda>i x. x\<lparr>truecolour := tc_stored (truecolour (cs ! i))\<rparr>" base
  for cs base
proof
  show "makeliteral_truecolour b cs i st = Some (b @ fst (put_truecolour [] (truecolour (cs ! i)), st),
      snd (put_truecolour [] (truecolour (cs ! i)), st))" for b i st
    by (simp add: makeliteral_truecolour_def put_truecolour_append [of b])
  show "fst (put_truecolour [] (truecolour (cs ! i)), st) \<noteq> []" for i st
    by (simp add: put_truecolour_def Let_def)
qed (simp_all add: read_truecolour)

section \<open>The codec of the combining characters\<close>

definition cc_bytes :: "uint32 list \<Rightarrow> bytes" where
  "cc_bytes chs = concat (map (\<lambda>c. fst (put_chr [] c 0)) chs) @ fst (put_chr [] 0 0)"

lemma makeliteral_ccs_linked:
  assumes "linked cs i ks" "0 \<notin> set (map (\<lambda>k. chr (cs ! k)) ks)"
  shows "makeliteral_ccs b cs i = Some (b @ cc_bytes (map (\<lambda>k. chr (cs ! k)) ks))"
  using assms
proof (induction ks arbitrary: b i)
  case Nil
  then show ?case by (simp add: makeliteral_ccs.simps cc_bytes_def put_chr_append [of b])
next
  case (Cons k ks)
  then show ?case
    using cc_step_linked [OF Cons.prems(1)] Cons.IH [of k]
    by (subst makeliteral_ccs.simps) (auto simp: cc_bytes_def put_chr_append [of b])
qed

text \<open>The cells below \<open>i\<close> have their combining characters, the others have none.\<close>

definition bare :: "cell \<Rightarrow> cell" where
  "bare c = c\<lparr>cl_cc := []\<rparr>"

definition filled_cells :: "cell list \<Rightarrow> nat \<Rightarrow> cell list" where
  "filled_cells cells i = take i cells @ map bare (drop i cells)"

lemma readliteral_ccs_rep:
  assumes "line_rep l (cells[i := c])" "i < length cells" "cells_ok (cells[i := c\<lparr>cl_cc := cl_cc c @ chs\<rparr>])"
    "0 \<notin> set chs"
  shows "\<exists>l'. readliteral_ccs junk (src_at pre (cc_bytes chs @ rest)) i l = Some (src_at (pre @ cc_bytes chs) rest, l') \<and>
           line_rep l' (cells[i := c\<lparr>cl_cc := cl_cc c @ chs\<rparr>]) \<and> line_frame l l'"
  using assms
proof (induction chs arbitrary: l c pre)
  case Nil
  have "c\<lparr>cl_cc := cl_cc c\<rparr> = c" by simp
  then show ?case
    using Nil get_chr_put [of pre 0 0 rest]
    by (subst readliteral_ccs.simps) (simp add: cc_bytes_def)
next
  case (Cons ch chs)
  have ok: "cell_ok (c\<lparr>cl_cc := cl_cc c @ ch # chs\<rparr>)"
    using cells_ok_nth [OF Cons.prems(3), of i] Cons.prems(2) by simp
  then have "cell_ok c" by (auto simp: cell_ok_def)
  then have okc: "cells_ok (cells[i := c])" using cells_ok_update [OF Cons.prems(3), of c i] by simp
  have add: "cell_add_cc ch c = c\<lparr>cl_cc := cl_cc c @ [ch]\<rparr>"
    using ok by (auto simp: cell_ok_def cell_add_cc_def)
  obtain l1 where l1: "add_cc junk l i ch = Some l1" "line_rep l1 (cells[i := c\<lparr>cl_cc := cl_cc c @ [ch]\<rparr>])" "line_frame l l1"
    using add_cc_rep [OF Cons.prems(1), of i junk ch] Cons.prems(2) okc add by auto
  let ?x = "fst (put_chr [] ch 0)"
  have "cells_ok (cells[i := (c\<lparr>cl_cc := cl_cc c @ [ch]\<rparr>)\<lparr>cl_cc := cl_cc (c\<lparr>cl_cc := cl_cc c @ [ch]\<rparr>) @ chs\<rparr>])"
    using Cons.prems(3) by simp
  from Cons.IH [OF l1(2) Cons.prems(2) this, of "pre @ ?x"] Cons.prems(4) obtain l2 where l2:
    "readliteral_ccs junk (src_at (pre @ ?x) (cc_bytes chs @ rest)) i l1
       = Some (src_at (pre @ ?x @ cc_bytes chs) rest, l2)"
    "line_rep l2 (cells[i := c\<lparr>cl_cc := cl_cc c @ ch # chs\<rparr>])" "line_frame l1 l2" by auto
  have "cc_bytes (ch # chs) = ?x @ cc_bytes chs" by (simp add: cc_bytes_def)
  with l1 l2 Cons.prems(4) show ?case
    using get_chr_put [of pre ch 0 "cc_bytes chs @ rest"]
    by (subst readliteral_ccs.simps) (auto intro: line_frame_trans)
qed

text \<open>What the codec needs of a cell: its list is in the array, legal, and free of NUL characters.\<close>

definition cc_width :: "termchar list \<Rightarrow> cell list \<Rightarrow> nat" where
  "cc_width cs cells =
     (if cells_ok cells
      then ok_width (\<lambda>i. map_option cl_cc (cell_at cs i) = Some (cl_cc (cells ! i)) \<and> 0 \<notin> set (cl_cc (cells ! i))) (length cells)
      else 0)"

definition filled_ccs :: "termline \<Rightarrow> cell list \<Rightarrow> nat \<Rightarrow> termline \<Rightarrow> bool" where
  "filled_ccs base cells i l \<longleftrightarrow> line_rep l (filled_cells cells i) \<and> line_frame base l"

lemma filled_cells_nth:
  "i < length cells \<Longrightarrow> filled_cells cells i ! i = bare (cells ! i)"
  "length (filled_cells cells i) = length cells"
  by (simp_all add: filled_cells_def nth_append)

lemma filled_cells_Suc:
  "i < length cells \<Longrightarrow> filled_cells cells (Suc i) = (filled_cells cells i)[i := cells ! i]"
  by (simp add: filled_cells_def take_Suc_conv_app_nth Cons_nth_drop_Suc [symmetric] list_update_append)

lemma filled_cells_ok: "cells_ok cells \<Longrightarrow> cells_ok (filled_cells cells i)"
  unfolding cells_ok_def filled_cells_def list_all_iff
  by (auto simp: cell_ok_def bare_def dest: in_set_takeD in_set_dropD)

lemma read_cc_cell:
  assumes i: "i < length cells" and ok: "cells_ok cells" "0 \<notin> set (cl_cc (cells ! i))"
    and l: "filled_ccs base cells i l"
  shows "\<exists>l'. readliteral_cc junk (src_at pre (cc_bytes (cl_cc (cells ! i)) @ rest)) i l st
           = Some (src_at (pre @ cc_bytes (cl_cc (cells ! i))) rest, l', st) \<and> filled_ccs base cells (Suc i) l'"
proof -
  have R: "line_rep l (filled_cells cells i)" and fr: "line_frame base l" using l by (simp_all add: filled_ccs_def)
  have "cc_next (char_at l i) = 0"
  proof -
    from R obtain L F where C: "chains l L F" and c: "filled_cells cells i = chain_cells l L" by (auto simp: line_rep_def)
    have il: "i < cols l" using i filled_cells_nth(2) [of cells i] by (simp add: c)
    have "cl_cc (chain_cells l L ! i) = []" using filled_cells_nth(1) [OF i] by (simp add: c bare_def)
    then have "L i = []" using il by (simp add: cell_of_def)
    then show ?thesis using chainsD(5) [OF C il] by simp
  qed
  then have same: "upd_char i (\<lambda>c. c\<lparr>cc_next := 0\<rparr>) l = l" by (simp add: cc_next_zero)
  have at: "(filled_cells cells i)[i := bare (cells ! i)] = filled_cells cells i"
    using filled_cells_nth(1) [OF i] by (metis list_update_id)
  have full: "(bare (cells ! i))\<lparr>cl_cc := cl_cc (bare (cells ! i)) @ cl_cc (cells ! i)\<rparr> = cells ! i"
    by (simp add: bare_def)
  have "\<exists>l'. readliteral_ccs junk (src_at pre (cc_bytes (cl_cc (cells ! i)) @ rest)) i l
           = Some (src_at (pre @ cc_bytes (cl_cc (cells ! i))) rest, l') \<and>
         line_rep l' ((filled_cells cells i)[i := cells ! i]) \<and> line_frame l l'"
    by (rule readliteral_ccs_rep [of l "filled_cells cells i" i "bare (cells ! i)" "cl_cc (cells ! i)", unfolded at full])
      (use R i ok filled_cells_nth(2) in \<open>auto intro!: cells_ok_update filled_cells_ok cells_ok_nth\<close>)
  then show ?thesis
    using fr by (auto simp: readliteral_cc_def same filled_ccs_def filled_cells_Suc [OF i] intro: line_frame_trans)
qed

interpretation cc_codec: literal_codec "\<lambda>b. makeliteral_cc b cs" "readliteral_cc junk"
    "\<lambda>i st. (cc_bytes (cl_cc (cells ! i)), st)" "cc_width cs cells" "filled_ccs base cells"
  for cs junk cells base
proof
  have live: "i < length cells \<and> cells_ok cells \<and> map_option cl_cc (cell_at cs i) = Some (cl_cc (cells ! i)) \<and> 0 \<notin> set (cl_cc (cells ! i))"
    if "i < cc_width cs cells" for i
    using that by (auto simp: cc_width_def split: if_splits dest: ok_widthD)
  show "makeliteral_cc b cs i st = Some (b @ fst (cc_bytes (cl_cc (cells ! i)), st), snd (cc_bytes (cl_cc (cells ! i)), st))"
    if "i < cc_width cs cells" for i b st
  proof -
    from live [OF that] obtain ks where "linked cs i ks" "cl_cc (cells ! i) = cl_cc (cell_of cs i ks)" "0 \<notin> set (cl_cc (cells ! i))"
      by (auto simp: cell_at_src src_cell_def)
    then show ?thesis
      using makeliteral_ccs_linked [of cs i ks b] by (simp add: makeliteral_cc_def cell_of_def)
  qed
  show "fst (cc_bytes (cl_cc (cells ! i)), st) \<noteq> []" for i st
    by (simp add: cc_bytes_def put_chr_nonempty)
  show "\<exists>l'. readliteral_cc junk (src_at pre (fst (cc_bytes (cl_cc (cells ! i)), st) @ rest)) i l st =
      Some (src_at (pre @ fst (cc_bytes (cl_cc (cells ! i)), st)) rest, l', snd (cc_bytes (cl_cc (cells ! i)), st)) \<and>
      filled_ccs base cells (Suc i) l'"
    if "i < cc_width cs cells" "filled_ccs base cells i l" for i l pre st rest
    using read_cc_cell [of i cells base l junk pre rest st] live [OF that(1)] that(2) by auto
qed

section \<open>Numbers\<close>

lemma unat_drop_7: "128 \<le> n \<Longrightarrow> unat (drop_bit 7 n) < unat n" for n :: uint32
  by (simp add: drop_bit_eq_div unat_div word_le_nat_alt)

lemma put_number_append: "put_number b n = b @ put_number [] n"
proof (induction "unat n" arbitrary: b n rule: less_induct)
  case less
  show ?case
  proof (cases "n \<ge> 128")
    case True
    let ?x = "ucast ((n AND 0x7F) OR 0x80) :: byte"
    have "put_number b n = (b @ [?x]) @ put_number [] (drop_bit 7 n)" for b
      using True less [OF unat_drop_7 [OF True], of "b @ [?x]"] by (subst put_number.simps) simp
    from this [of b] this [of "[]"] show ?thesis by simp
  next
    case False
    have "put_number b n = b @ [ucast n]" for b using False by (subst put_number.simps) simp
    then show ?thesis by simp
  qed
qed

lemma bit_0x80: "bit (0x80 :: int) n \<longleftrightarrow> n = 7" "bit (0x80 :: nat) n \<longleftrightarrow> n = 7"
proof -
  have p: "(0x80 :: int) = push_bit 7 1" "(0x80 :: nat) = push_bit 7 1" by (simp_all add: push_bit_eq_mult)
  show "bit (0x80 :: int) n \<longleftrightarrow> n = 7" "bit (0x80 :: nat) n \<longleftrightarrow> n = 7"
    unfolding p bit_push_bit_iff bit_1_iff by auto
qed

lemma number_byte:
  fixes n :: uint32
  defines "x \<equiv> ucast ((n AND 0x7F) OR 0x80) :: byte"
  shows "x AND 0x80 \<noteq> 0" "ucast (x AND 0x7F) = n AND 0x7F"
proof -
  have "bit (x AND 0x80) 7" unfolding x_def word_masks by (simp add: bit_simps)
  then show "x AND 0x80 \<noteq> 0" by (metis bit_0_eq bot_apply bot_bool_def)
  show "ucast (x AND 0x7F) = n AND 0x7F"
    unfolding x_def by (rule bit_word_eqI) (auto simp: bit_simps bit_0x80 word_masks(1) simp del: bit_numeral_iff)
qed

lemma last_number_byte:
  fixes n :: uint32
  assumes "n < 128"
  shows "(ucast n :: byte) AND 0x80 = 0" "ucast ((ucast n :: byte) AND 0x7F) = n"
proof -
  have "bit n i \<Longrightarrow> i < 7" for i using assms bit_less [of n 7 i] by (simp add: word_less_nat_alt)
  note lim = this
  show "(ucast n :: byte) AND 0x80 = 0"
    by (rule bit_word_eqI) (auto simp: bit_simps bit_0x80 dest: lim)
  show "ucast ((ucast n :: byte) AND 0x7F) = n"
    unfolding word_masks by (rule bit_word_eqI) (auto simp: bit_simps dest: lim)
qed

lemma shift_parts: "push_bit s (n AND 0x7F) OR push_bit (s + 7) (drop_bit 7 n) = push_bit s n" for n :: uint32
proof (rule bit_word_eqI)
  fix i assume "i < LENGTH(32)"
  consider "i < s" | "s \<le> i" "i < s + 7" | "s + 7 \<le> i" by linarith
  then show "bit (push_bit s (n AND 0x7F) OR push_bit (s + 7) (drop_bit 7 n)) i = bit (push_bit s n) i"
    unfolding word_masks by cases (auto simp: bit_simps)
qed

lemma get_number_put_at:
  assumes "unat n < 2 ^ (32 - shift)" "shift < 32"
  shows "get_number (src_at pre (put_number [] n @ rest)) shift acc
     = Some (acc OR push_bit shift n, src_at (pre @ put_number [] n) rest)"
  using assms
proof (induction "unat n" arbitrary: n shift acc pre rule: less_induct)
  case less
  show ?case
  proof (cases "n \<ge> 128")
    case True
    let ?x = "ucast ((n AND 0x7F) OR 0x80) :: byte"
    have put: "put_number [] n = ?x # put_number [] (drop_bit 7 n)"
      using True put_number_append [of "[?x]"] by (subst put_number.simps) simp
    have "(2::nat) ^ 7 < 2 ^ (32 - shift)" using True less.prems(1) by (simp add: word_le_nat_alt)
    then have s: "7 < 32 - shift" by (rule power_less_imp_less_exp [rotated]) simp
    have "2 ^ (32 - shift) = (2::nat) ^ (32 - (shift + 7)) * 2 ^ 7"
      using s by (subst power_add [symmetric]) simp
    then have "unat (drop_bit 7 n) < 2 ^ (32 - (shift + 7))"
      using less.prems(1) by (simp add: drop_bit_eq_div unat_div div_less_iff_less_mult)
    then have "get_number (src_at (pre @ [?x]) (put_number [] (drop_bit 7 n) @ rest)) (shift + 7) (acc OR push_bit shift (n AND 0x7F))
       = Some ((acc OR push_bit shift (n AND 0x7F)) OR push_bit (shift + 7) (drop_bit 7 n),
               src_at ((pre @ [?x]) @ put_number [] (drop_bit 7 n)) rest)"
      using s by (intro less.hyps [OF unat_drop_7 [OF True]]) simp_all
    then show ?thesis
      using less.prems(2) number_byte [of n] shift_parts [of shift n]
      by (simp add: put get_number.simps [of _ shift] get_byte_at or.assoc)
  next
    case False
    then have "put_number [] n = [ucast n]" by (subst put_number.simps) simp
    then show ?thesis
      using False less.prems(2) last_number_byte [of n]
      by (simp add: get_number.simps [of _ shift] get_byte_at)
  qed
qed

lemma get_number_put:
  "get_number (src_at pre (put_number [] n @ rest)) 0 0 = Some (n, src_at (pre @ put_number [] n) rest)"
  using get_number_put_at [of n 0 pre rest 0] unsigned_less [of n] by simp

section \<open>The four passes\<close>

lemma filled_with_0: "filled_with f base 0 base"
  by (simp add: filled_with_def map_nth)

lemma filled_with_all:
  "\<lbrakk>filled_with f base n l; size_of_line base = n\<rbrakk> \<Longrightarrow>
   l = base\<lparr>chars := map (\<lambda>j. f j (char_at base j)) [0..<n]\<rparr>"
  by (auto simp: filled_with_def intro!: map_cong)

text \<open>The first three passes fill in one field each of the fresh line of decompression.\<close>

definition fields_line :: "termline \<Rightarrow> (nat \<Rightarrow> termchar) \<Rightarrow> termline" where
  "fields_line l g = l\<lparr>chars := map g [0..<cols l]\<rparr>"

lemma size_fields_line [simp]: "size_of_line (fields_line l g) = cols l" "cols (fields_line l g) = cols l"
  by (simp_all add: fields_line_def)

lemma filled_fields:
  "filled_with f (fields_line l g) (cols l) l' \<Longrightarrow> l' = fields_line l (\<lambda>j. f j (g j))"
  by (drule filled_with_all) (auto simp: fields_line_def)

context field_codec begin

lemma encode_total: "\<exists>e. makerle_loop mk (rle_init b) 0 width = Some (b @ e)"
  by (rule makerle_total)

lemma decode_fields:
  assumes "makerle_loop mk (rle_init b) 0 width = Some (b @ e)" "base = fields_line l g" "cols l = width"
  shows "readrle rd (src_at pre (e @ rest)) base = Some (src_at (pre @ e) rest, fields_line l (\<lambda>i. f i (g i)))"
  using rle_round_trip [OF assms(1) filled_with_0, of pre rest] filled_fields [of f l g] assms(2,3) by auto

end

text \<open>A pass encodes any line, and fills in its field of any line of the same width.\<close>

definition encodes :: "makeliteral \<Rightarrow> readliteral \<Rightarrow> (nat \<Rightarrow> termchar \<Rightarrow> termchar) \<Rightarrow> termline \<Rightarrow> bool" where
  "encodes mk rd f line \<longleftrightarrow>
     (\<forall>b. \<exists>e. makerle mk b line = Some (b @ e) \<and>
        (\<forall>l g pre rest. cols l = cols line \<longrightarrow>
           readrle rd (src_at pre (e @ rest)) (fields_line l g)
             = Some (src_at (pre @ e) rest, fields_line l (\<lambda>i. f i (g i)))))"

lemma encodesE:
  assumes "encodes mk rd f line"
  obtains e where "makerle mk b line = Some (b @ e)"
    "\<And>l g pre rest. cols l = cols line \<Longrightarrow>
       readrle rd (src_at pre (e @ rest)) (fields_line l g) = Some (src_at (pre @ e) rest, fields_line l (\<lambda>i. f i (g i)))"
  using assms unfolding encodes_def by metis

lemma encodes_field:
  assumes codec: "\<And>l g. field_codec (\<lambda>b. mk b (chars line)) rd lit (w (fields_line l g)) f (fields_line l g)"
    and w: "\<And>l g. cols l = cols line \<Longrightarrow> w (fields_line l g) = cols line"
  shows "encodes mk rd f line"
proof -
  have c: "field_codec (\<lambda>b. mk b (chars line)) rd lit (cols line) f (fields_line l g)" if "cols l = cols line" for l g
    using codec [of l g] w [OF that] by simp
  have "\<exists>e. makerle mk b line = Some (b @ e)" for b
    using field_codec.encode_total [OF c [OF refl]] by (simp add: makerle_def)
  then show ?thesis
    using field_codec.decode_fields [OF c] unfolding encodes_def makerle_def by fast
qed

lemma encodes_chr:
  "cols line \<le> size_of_line line \<Longrightarrow>
   encodes makeliteral_chr readliteral_chr (\<lambda>i x. x\<lparr>chr := chr (char_at line i)\<rparr>) line"
  by (rule encodes_field [OF chr_codec.field_codec_axioms]) (simp add: chr_width_def)

lemma encodes_attr:
  "(\<And>i. i < cols line \<Longrightarrow> attr (char_at line i) < 0x80000000) \<Longrightarrow>
   encodes makeliteral_attr readliteral_attr (\<lambda>i x. x\<lparr>attr := attr (char_at line i)\<rparr>) line"
  by (rule encodes_field [OF attr_codec.field_codec_axioms]) (simp add: attr_width_def ok_width_all)

lemma encodes_truecolour:
  "encodes makeliteral_truecolour readliteral_truecolour
     (\<lambda>i x. x\<lparr>truecolour := tc_stored (truecolour (char_at line i))\<rparr>) line"
  by (rule encodes_field [OF truecolour_codec.field_codec_axioms]) simp

text \<open>
  What the format needs of a cell: a legal list of combining characters without NUL, and attributes
  with the top bit clear. What is stored of it.
\<close>

definition storable :: "cell \<Rightarrow> bool" where
  "storable c \<longleftrightarrow> cell_ok c \<and> 0 \<notin> set (cl_cc c) \<and> cl_attr c < 0x80000000"

definition stored_cell :: "cell \<Rightarrow> cell" where
  "stored_cell c = c\<lparr>cl_truecolour := tc_stored (cl_truecolour c)\<rparr>"

lemma stored_cell_fields [simp]:
  "cl_chr (stored_cell c) = cl_chr c" "cl_attr (stored_cell c) = cl_attr c" "cl_cc (stored_cell c) = cl_cc c"
  "cl_truecolour (stored_cell c) = tc_stored (cl_truecolour c)" "storable (stored_cell c) = storable c"
  by (simp_all add: stored_cell_def storable_def cell_ok_def)

lemma bare_fields_line:
  assumes "cols l = length cells" "cells \<noteq> []"
    "\<And>i. i < length cells \<Longrightarrow> cc_next (g i) = 0 \<and> chr (g i) = cl_chr (cells ! i) \<and>
       attr (g i) = cl_attr (cells ! i) \<and> truecolour (g i) = cl_truecolour (cells ! i)"
    "cc_free l = 0"
  shows "line_rep (fields_line l g) (map bare cells)"
proof -
  have "chains (fields_line l g) (\<lambda>_. []) []"
    using assms by (simp add: chains_def free_list_def fields_line_def)
  moreover have "map bare cells = chain_cells (fields_line l g) (\<lambda>_. [])"
    using assms by (intro nth_equalityI) (simp_all add: bare_def cell_of_def fields_line_def)
  ultimately show ?thesis by (auto simp: line_rep_def)
qed

lemma those_nth: "\<lbrakk>those xs = Some ys; i < length xs\<rbrakk> \<Longrightarrow> xs ! i = Some (ys ! i)"
  by (induction xs arbitrary: ys i) (auto split: option.splits simp: nth_Cons')

lemma cc_pass:
  assumes R: "line_rep line cells0" and ok: "list_all storable cells" and small: "cols line < 2 ^ 24"
    and cc: "map cl_cc cells = map cl_cc cells0"
  shows "\<exists>e. makerle makeliteral_cc b line = Some (b @ e) \<and>
     (\<forall>l pre rest. line_rep l (map bare cells) \<and> cols l = cols line \<longrightarrow>
        (\<exists>l'. readrle (readliteral_cc junk) (src_at pre (e @ rest)) l = Some (src_at (pre @ e) rest, l') \<and>
           line_rep l' cells \<and> line_frame l l'))"
proof -
  have len: "length cells = cols line" "length cells0 = cols line"
    using line_rep_cols [OF R] map_eq_imp_length_eq [OF cc] by simp_all
  have "map_option cl_cc (cell_at (chars line) i) = Some (cl_cc (cells ! i))" if "i < length cells" for i
  proof -
    have "cell_at (chars line) i = Some (cells0 ! i)"
      using line_rep_cells [OF R] that len by (auto simp: line_cells_def dest: those_nth)
    moreover have "cl_cc (cells0 ! i) = cl_cc (cells ! i)" using arg_cong [OF cc, of "\<lambda>xs. xs ! i"] that len by simp
    ultimately show ?thesis by simp
  qed
  then have w: "cc_width (chars line) cells = cols line"
    using ok small by (auto simp: cc_width_def len cells_ok_def list_all_length storable_def intro!: ok_width_all)
  obtain e where e: "makerle makeliteral_cc b line = Some (b @ e)"
    using cc_codec.makerle_total [where cs = "chars line" and cells = cells and b = b] by (auto simp: makerle_def w)
  have "\<exists>l'. readrle (readliteral_cc junk) (src_at pre (e @ rest)) l = Some (src_at (pre @ e) rest, l') \<and>
           line_rep l' cells \<and> line_frame l l'"
    if "line_rep l (map bare cells)" "cols l = cols line" for l pre rest
    using cc_codec.rle_round_trip [where cs = "chars line" and cells = cells and b = b and e = e and base = l and l = l and junk = junk and pre = pre and rest = rest] e that
    by (auto simp: makerle_def w filled_ccs_def filled_cells_def len)
  with e show ?thesis by blast
qed

lemma bit_0x10000: "bit (0x10000 :: int) n \<longleftrightarrow> n = 16" "bit (0x10000 :: nat) n \<longleftrightarrow> n = 16"
proof -
  have p: "(0x10000 :: int) = push_bit 16 1" "(0x10000 :: nat) = push_bit 16 1" by (simp_all add: push_bit_eq_mult)
  show "bit (0x10000 :: int) n \<longleftrightarrow> n = 16" "bit (0x10000 :: nat) n \<longleftrightarrow> n = 16"
    unfolding p bit_push_bit_iff bit_1_iff by auto
qed

lemma line_info_bits:
  fixes la :: "16 word" and t :: bool
  defines "v \<equiv> ucast la OR (if t then 0x10000 else 0 :: uint32)"
  shows "ucast (v AND 0xFFFF) = la" "v AND 0x10000 \<noteq> 0 \<longleftrightarrow> t"
proof -
  have b: "bit v n \<longleftrightarrow> bit la n \<or> t \<and> n = 16" if "n < 32" for n
    using that by (auto simp: v_def bit_or_iff bit_0x10000 bit_ucast_iff)
  show "ucast (v AND 0xFFFF) = la"
    unfolding word_masks
  proof (rule bit_word_eqI)
    fix n assume "n < LENGTH(16)"
    then have "n < 16" by simp
    then show "bit (ucast (v AND mask 16) :: 16 word) n = bit la n"
      using b [of n] by (simp add: bit_ucast_iff bit_and_iff bit_mask_iff)
  qed
  have "\<not> bit la 16" using bit_imp_le_length [of la 16] by auto
  then have "bit (v AND 0x10000) n \<longleftrightarrow> t \<and> n = 16" for n
    using b [of 16] by (auto simp: bit_and_iff bit_0x10000)
  then have z: "v AND 0x10000 = (if t then 0x10000 else 0)"
    by (intro bit_word_eqI) (simp add: bit_0x10000)
  show "v AND 0x10000 \<noteq> 0 \<longleftrightarrow> t" unfolding z by simp
qed

lemma compress_decompress:
  assumes R: "line_rep line cells" and ok: "list_all storable cells" and small: "cols line < 2 ^ 24"
  shows "\<exists>d line'. compressline line = Some d \<and> decompressline junk d = Some line' \<and>
     line_rep line' (map stored_cell cells) \<and> cols line' = cols line \<and> lattr line' = lattr line \<and>
     trusted line' = trusted line \<and> temporary line'"
proof -
  define scells where "scells = map stored_cell cells"
  have scells: "list_all storable scells" "map cl_cc scells = map cl_cc cells" "length scells = length cells"
    using ok by (simp_all add: scells_def list_all_iff)
  define n1 where "n1 = put_number [] (word_of_nat (cols line))"
  define n2 where "n2 = put_number [] (ucast (lattr line) OR (if trusted line then 0x10000 else 0))"
  define l0 where "l0 = \<lparr>lattr = lattr line, cols = cols line, temporary = True, cc_free = 0,
      chars = replicate (cols line) (junk\<lparr>cc_next := 0\<rparr>), trusted = trusted line\<rparr>"
  have len: "length cells = cols line" "0 < cols line" "cols line \<le> size_of_line line"
    using line_rep_cols [OF R] by auto
  have st: "storable (cells ! i)" if "i < cols line" for i using ok len that by (simp add: list_all_length)
  obtain L F where cells: "cells = chain_cells line L" using R by (auto simp: line_rep_def)
  have enc: "encodes makeliteral_chr readliteral_chr (\<lambda>i x. x\<lparr>chr := chr (char_at line i)\<rparr>) line"
    "encodes makeliteral_attr readliteral_attr (\<lambda>i x. x\<lparr>attr := attr (char_at line i)\<rparr>) line"
    "encodes makeliteral_truecolour readliteral_truecolour (\<lambda>i x. x\<lparr>truecolour := tc_stored (truecolour (char_at line i))\<rparr>) line"
    using len st by (intro encodes_chr encodes_attr encodes_truecolour;
        fastforce simp: storable_def cells cell_of_def)+
  obtain e1 where e1: "makerle makeliteral_chr (n1 @ n2) line = Some ((n1 @ n2) @ e1)"
    "\<And>l g pre rest. cols l = cols line \<Longrightarrow> readrle readliteral_chr (src_at pre (e1 @ rest)) (fields_line l g)
       = Some (src_at (pre @ e1) rest, fields_line l (\<lambda>i. (g i)\<lparr>chr := chr (char_at line i)\<rparr>))"
    by (rule encodesE [OF enc(1), of "n1 @ n2"]) blast
  obtain e2 where e2: "makerle makeliteral_attr ((n1 @ n2) @ e1) line = Some (((n1 @ n2) @ e1) @ e2)"
    "\<And>l g pre rest. cols l = cols line \<Longrightarrow> readrle readliteral_attr (src_at pre (e2 @ rest)) (fields_line l g)
       = Some (src_at (pre @ e2) rest, fields_line l (\<lambda>i. (g i)\<lparr>attr := attr (char_at line i)\<rparr>))"
    by (rule encodesE [OF enc(2), of "(n1 @ n2) @ e1"]) blast
  obtain e3 where e3: "makerle makeliteral_truecolour (((n1 @ n2) @ e1) @ e2) line = Some ((((n1 @ n2) @ e1) @ e2) @ e3)"
    "\<And>l g pre rest. cols l = cols line \<Longrightarrow> readrle readliteral_truecolour (src_at pre (e3 @ rest)) (fields_line l g)
       = Some (src_at (pre @ e3) rest, fields_line l (\<lambda>i. (g i)\<lparr>truecolour := tc_stored (truecolour (char_at line i))\<rparr>))"
    by (rule encodesE [OF enc(3), of "((n1 @ n2) @ e1) @ e2"]) blast
  obtain e4 where e4: "makerle makeliteral_cc ((((n1 @ n2) @ e1) @ e2) @ e3) line = Some (((((n1 @ n2) @ e1) @ e2) @ e3) @ e4)"
    "\<And>l pre rest. \<lbrakk>line_rep l (map bare scells); cols l = cols line\<rbrakk> \<Longrightarrow>
        \<exists>l'. readrle (readliteral_cc junk) (src_at pre (e4 @ rest)) l = Some (src_at (pre @ e4) rest, l') \<and>
           line_rep l' scells \<and> line_frame l l'"
    using cc_pass [OF R scells(1) small scells(2)] by metis
  define d where "d = n1 @ n2 @ e1 @ e2 @ e3 @ e4"
  define g where "g i = \<lparr>chr = chr (char_at line i), attr = attr (char_at line i),
      truecolour = tc_stored (truecolour (char_at line i)), cc_next = 0\<rparr>" for i
  have "line_rep (fields_line l0 g) (map bare scells)"
    using len st by (intro bare_fields_line) (auto simp: l0_def g_def cells cell_of_def scells_def simp flip: length_0_conv)
  from e4(2) [OF this, of "n1 @ n2 @ e1 @ e2 @ e3" "[]"] obtain l4 where l4:
    "readrle (readliteral_cc junk) (src_at (n1 @ n2 @ e1 @ e2 @ e3) e4) (fields_line l0 g) = Some (src_at d [], l4)"
    "line_rep l4 scells" "line_frame (fields_line l0 g) l4"
    by (auto simp: l0_def d_def)
  have l0: "l0 = fields_line l0 (\<lambda>_. junk\<lparr>cc_next := 0\<rparr>)" "cols l0 = cols line"
    by (simp_all add: l0_def fields_line_def map_replicate_const)
  have comp: "compressline line = Some d"
    using e1(1) e2(1) e3(1) e4(1) put_number_append [of n1]
    by (simp add: compressline_def Let_def n1_def [symmetric] n2_def [symmetric] d_def)
  have "decompressline junk d = Some l4"
  proof -
    have p1: "get_number (src_init d) 0 0 = Some (word_of_nat (cols line), src_at n1 (n2 @ e1 @ e2 @ e3 @ e4))"
      using get_number_put [of "[]" "word_of_nat (cols line)" "n2 @ e1 @ e2 @ e3 @ e4"]
      by (simp add: src_init_at d_def n1_def)
    have p2: "get_number (src_at n1 (n2 @ e1 @ e2 @ e3 @ e4)) 0 0 =
        Some (ucast (lattr line) OR (if trusted line then 0x10000 else 0), src_at (n1 @ n2) (e1 @ e2 @ e3 @ e4))"
      using get_number_put [of n1 "ucast (lattr line) OR (if trusted line then 0x10000 else 0)" "e1 @ e2 @ e3 @ e4"]
      by (simp only: n2_def)
    have u: "unat (word_of_nat (cols line) :: uint32) = cols line"
      using small by (simp add: unat_of_nat take_bit_nat_eq_self)
    have p3: "readrle readliteral_chr (src_at (n1 @ n2) (e1 @ e2 @ e3 @ e4)) l0 =
        Some (src_at (n1 @ n2 @ e1) (e2 @ e3 @ e4), fields_line l0 (\<lambda>i. (junk\<lparr>cc_next := 0\<rparr>)\<lparr>chr := chr (char_at line i)\<rparr>))"
      using e1(2) [OF l0(2)] by (subst l0(1)) simp
    have p4: "readrle readliteral_truecolour (src_at (n1 @ n2 @ e1 @ e2) (e3 @ e4))
        (fields_line l0 (\<lambda>i. ((junk\<lparr>cc_next := 0\<rparr>)\<lparr>chr := chr (char_at line i)\<rparr>)\<lparr>attr := attr (char_at line i)\<rparr>)) =
        Some (src_at (n1 @ n2 @ e1 @ e2 @ e3) e4, fields_line l0 g)"
      using e3(2) [OF l0(2)] by (cases junk) (simp add: g_def [abs_def])
    show ?thesis
      using p1 p2 p3 p4 l4(1) e2(2) [OF l0(2)]
      by (simp add: decompressline_def u line_info_bits l0_def [symmetric])
  qed
  with comp l4 show ?thesis by (auto simp: line_frame_def fields_line_def l0_def scells_def)
qed

end
