(* ===== verification/Term_Scripts.thy ===== *)
theory Term_Scripts
  imports Term_Scrollback
begin

text \<open>
  The properties of terminal lines: the array with its linked lists behaves as a list of cells, the
  diagnostic check decides the structural invariant, comparison of cells is equality of what
  they show, and a line survives compression.
\<close>

section \<open>Lines behave as lists of cells\<close>

lemma run_line_ops:
  assumes "cc_next erase = 0" "line_ok line cs" "run_ops (cells_step erase) cs ops = Some (rs, cs')"
  shows "\<exists>line'. run_ops (line_step junk erase) line ops = Some (rs, line') \<and> line_ok line' cs'"
  by (rule run_ops_simulation [where g = "cells_step erase" and R = line_ok])
    (rule line_step_cells [OF assms(1)], assumption+, rule assms(2), rule assms(3))

lemma line_ok_iff:
  "0 < cols line \<Longrightarrow> line_ok line cs \<longleftrightarrow> cc_check line = Some () \<and> line_cells line = Some cs \<and> cells_ok cs"
  by (auto simp: line_ok_def line_rep_iff)

lemma line_okD:
  assumes "line_ok line cs"
  shows "cc_check line = Some ()" "line_cells line = Some cs" "cells_ok cs" "cols line = length cs" "0 < cols line"
proof -
  have R: "line_rep line cs" using assms by (simp add: line_ok_def)
  show "0 < cols line" "cols line = length cs" using line_rep_cols [OF R] by simp_all
  then show "cc_check line = Some ()" "line_cells line = Some cs" "cells_ok cs"
    using assms by (simp_all add: line_ok_iff)
qed

text \<open>
  C4: The operations on a line's combining characters (adding one to a cell, clearing a cell, copying
  a cell between lines, moving a cell within the line, resizing the line), run in any order on a line
  that passes the check, succeed whenever they are possible on a plain list of cells, leave a line
  that passes the check again, and have the effect of the list operations.
\<close>

theorem line_refines_cells:
  assumes "cc_next erase = 0" "0 < cols line" "cc_check line = Some ()" "line_cells line = Some cs"
    "cells_ok cs" "run_ops (cells_step erase) cs ops = Some (rs, cs')"
  shows "\<exists>line'. run_ops (line_step junk erase) line ops = Some (rs, line') \<and>
           cc_check line' = Some () \<and> line_cells line' = Some cs' \<and> cells_ok cs'"
  using run_line_ops [OF assms(1) _ assms(6), of line junk] assms(2-5) by (auto simp: line_ok_iff dest: line_okD)

definition plain_char :: "uint32 \<Rightarrow> termchar" where
  "plain_char c = \<lparr>chr = c, attr = 0, truecolour = \<lparr>tc_fg = optionalrgb_none, tc_bg = optionalrgb_none\<rparr>, cc_next = 0\<rparr>"

definition plain_cell :: "uint32 \<Rightarrow> uint32 list \<Rightarrow> cell" where
  "plain_cell c ccs =
     \<lparr>cl_chr = c, cl_attr = 0, cl_truecolour = \<lparr>tc_fg = optionalrgb_none, tc_bg = optionalrgb_none\<rparr>, cl_cc = ccs\<rparr>"

definition sample_line :: termline where
  "sample_line = newtermline (plain_char 0x20) (plain_char 0x20) 3 False"

definition sample_ops :: "line_op list" where
  "sample_ops = [Add_CC 0 0x301, Add_CC 2 0x302, Add_CC 0 0x303, Move_Termchar 1 0, Clear_CC 2,
     Copy_Termchar 0 [plain_char 0x41] 0, Resizeline 2]"

lemma sample_line_facts:
  "cc_check sample_line = Some ()" "line_cells sample_line = Some [plain_cell 0x20 [], plain_cell 0x20 [], plain_cell 0x20 []]"
  "cells_ok [plain_cell 0x20 [], plain_cell 0x20 [], plain_cell 0x20 []]" "0 < cols sample_line"
proof -
  have "line_rep sample_line [plain_cell 0x20 [], plain_cell 0x20 [], plain_cell 0x20 []]"
    using newtermline_rep [of 3 "plain_char 0x20" "plain_char 0x20" False]
    by (simp add: sample_line_def plain_char_def plain_cell_def cell_of_def numeral_3_eq_3)
  moreover show pos: "0 < cols sample_line" by (simp add: sample_line_def newtermline_def)
  ultimately show "cc_check sample_line = Some ()"
    "line_cells sample_line = Some [plain_cell 0x20 [], plain_cell 0x20 [], plain_cell 0x20 []]"
    by (simp_all add: line_rep_iff)
  show "cells_ok [plain_cell 0x20 [], plain_cell 0x20 [], plain_cell 0x20 []]"
    by (simp add: cells_ok_def cell_ok_def plain_cell_def list_all_iff)
qed

lemma sample_ops_cells:
  "run_ops (cells_step (plain_char 0x20)) [plain_cell 0x20 [], plain_cell 0x20 [], plain_cell 0x20 []] sample_ops
     = Some ([(), (), (), (), (), (), ()], [plain_cell 0x41 [], plain_cell 0x20 [0x301, 0x303]])"
  by (simp add: sample_ops_def cells_step_def plain_cell_def cell_add_cc_def cell_clear_cc_def CC_LIMIT_def
      cell_at_def cc_chain.simps plain_char_def cell_of_def cell_ok_def)

theorem line_refines_cells_witness:
  "\<exists>line'. run_ops (line_step (plain_char 0) (plain_char 0x20)) sample_line sample_ops = Some ([(), (), (), (), (), (), ()], line') \<and>
     cc_check line' = Some () \<and> line_cells line' = Some [plain_cell 0x41 [], plain_cell 0x20 [0x301, 0x303]] \<and>
     cells_ok [plain_cell 0x41 [], plain_cell 0x20 [0x301, 0x303]]"
  by (rule line_refines_cells [OF _ sample_line_facts(4,1,2,3) sample_ops_cells]) (simp add: plain_char_def)

section \<open>The check and the limit\<close>

text \<open>
  C20: The diagnostic check, which marks the positions it walks over and then looks for a position
  left unmarked, ends without a failed assertion exactly on the lines whose array is partitioned into
  the columns, one duplicate-free list per column and the free list.
\<close>

theorem cc_check_decides_chains:
  assumes "0 < cols line"
  shows "cc_check line = Some () \<longleftrightarrow> (\<exists>L F. chains line L F)"
  using cc_check_iff_rep [OF assms] by (auto simp: line_rep_def)

theorem cc_check_decides_chains_witness:
  "cc_check sample_line = Some () \<longleftrightarrow> (\<exists>L F. chains sample_line L F)"
  using cc_check_decides_chains [of sample_line] by (simp add: sample_line_def newtermline_def)

text \<open>
  C21: Starting from a new line of blanks, no sequence of operations that stays within the line's
  columns ever makes the check fail or gives a cell more than 32 combining characters.
\<close>

theorem combining_characters_bounded:
  assumes "0 < n" "n < 2 ^ 24" "cc_next erase = 0" "cc_next basic = 0"
    and "run_ops (cells_step erase) (replicate n (cell_of [if bce then erase else basic] 0 [])) ops = Some (rs, cs)"
  shows "\<exists>line. run_ops (line_step junk erase) (newtermline erase basic n bce) ops = Some (rs, line) \<and>
           cc_check line = Some () \<and> line_cells line = Some cs \<and> (\<forall>c \<in> set cs. length (cl_cc c) \<le> 32)"
proof -
  have "line_ok (newtermline erase basic n bce) (replicate n (cell_of [if bce then erase else basic] 0 []))"
    using newtermline_rep [OF assms(1,3,4)] assms(2)
    by (auto simp: line_ok_def cells_ok_def list_all_iff cell_ok_def cell_of_def)
  from run_line_ops [OF assms(3) this assms(5), of junk] obtain line where
    "run_ops (line_step junk erase) (newtermline erase basic n bce) ops = Some (rs, line)" "line_ok line cs" by blast
  then show ?thesis
    using line_okD [of line cs] by (auto simp: cells_ok_def list_all_iff cell_ok_def CC_LIMIT_def)
qed

theorem combining_characters_bounded_witness:
  "\<exists>line. run_ops (line_step (plain_char 0) (plain_char 0x20))
        (newtermline (plain_char 0x20) (plain_char 0x20) 1 False) (replicate 33 (Add_CC 0 0x301))
        = Some (replicate 33 (), line) \<and>
     cc_check line = Some () \<and> line_cells line = Some [plain_cell 0xFFFD []] \<and>
     (\<forall>c \<in> set [plain_cell 0xFFFD []]. length (cl_cc c) \<le> 32)"
proof (rule combining_characters_bounded)
  show "run_ops (cells_step (plain_char 0x20))
      (replicate 1 (cell_of [if False then plain_char 0x20 else plain_char 0x20] 0 [])) (replicate 33 (Add_CC 0 0x301))
      = Some (replicate 33 (), [plain_cell 0xFFFD []])"
    by code_simp
qed (simp_all add: plain_char_def)

section \<open>Comparing cells\<close>

text \<open>
  C37: Comparing two cells of possibly different lines terminates, and says equal exactly if character,
  true colours, attributes (apart from the display-only bits) and the whole lists of combining characters agree.
\<close>

theorem termchars_equal_decides:
  assumes "cell_at as a = Some c" "cell_at bs b = Some d"
  shows "termchars_equal as a bs b =
           Some (cl_truecolour c = cl_truecolour d \<and> cl_chr c = cl_chr d \<and>
                 cl_attr c AND NOT DATTR_MASK = cl_attr d AND NOT DATTR_MASK \<and> cl_cc c = cl_cc d)"
proof -
  obtain ls where "d = cell_of bs b ls" using assms(2) by (auto simp: cell_at_def)
  then have "cl_chr d = chr (bs ! b)" "cl_attr d = attr (bs ! b)" by (simp_all add: cell_of_def)
  then show ?thesis
    using assms by (simp add: termchars_equal_def cell_at_src termchars_equal_override_cells cells_equal_def)
qed

theorem termchars_equal_decides_witness:
  "termchars_equal [plain_char 0x41, plain_char 0x42] 1 [plain_char 0x42] 0 = Some True"
  using termchars_equal_decides [of "[plain_char 0x41, plain_char 0x42]" 1 "plain_cell 0x42 []"
      "[plain_char 0x42]" 0 "plain_cell 0x42 []"]
  by (simp add: cell_at_def cc_chain.simps plain_char_def plain_cell_def cell_of_def)

section \<open>The scrollback\<close>

text \<open>
  C5: A line compressed for the scrollback and decompressed again passes the check and has the same
  width, line attributes and cells, with one difference that the format makes: a true colour that
  is not enabled comes back with red, green and blue zero, whatever they were. The combining
  characters must be legal (at most 32, none on the replacement character) and none of them NUL, and
  the top bit of the attributes clear, as the comments of the encoder take for granted; there is no
  condition on the colours.
\<close>

theorem scrollback_round_trip:
  assumes "0 < cols line" "cols line < 2 ^ 24" "cc_check line = Some ()" "line_cells line = Some cells"
    "list_all storable cells"
  shows "\<exists>d line'. compressline line = Some d \<and> decompressline junk d = Some line' \<and>
           cc_check line' = Some () \<and> line_cells line' = Some (map stored_cell cells) \<and> cols line' = cols line \<and>
           lattr line' = lattr line \<and> trusted line' = trusted line \<and> temporary line'"
proof -
  have "line_rep line cells" using assms by (simp add: line_rep_iff)
  from compress_decompress [OF this assms(5,2), of junk] show ?thesis
    using assms(1) by (metis line_rep_iff)
qed

text \<open>
  A line of one character on which \<^verbatim>\<open>ESC[38;2;1;2;3m\<close> and then \<^verbatim>\<open>ESC[31m\<close> have acted: its foreground is
  not enabled, but its red, green and blue are still there.
\<close>

definition stale_colour_line :: termline where
  "stale_colour_line = \<lparr>lattr = 0, cols = 1, temporary = False, cc_free = 0,
     chars = [(plain_char 0x41)\<lparr>truecolour := \<lparr>tc_fg = \<lparr>rgb_enabled = False, rgb_r = 1, rgb_g = 2, rgb_b = 3\<rparr>,
                tc_bg = optionalrgb_none\<rparr>\<rparr>], trusted = False\<rparr>"

theorem scrollback_round_trip_witness:
  "\<exists>d line' cells. compressline stale_colour_line = Some d \<and> decompressline (plain_char 7) d = Some line' \<and>
     cc_check line' = Some () \<and> line_cells stale_colour_line = Some cells \<and>
     line_cells line' = Some [plain_cell 0x41 []] \<and> cells \<noteq> [plain_cell 0x41 []]"
proof -
  define stale where "stale = (plain_cell 0x41 [])\<lparr>cl_truecolour := \<lparr>tc_fg = \<lparr>rgb_enabled = False, rgb_r = 1, rgb_g = 2, rgb_b = 3\<rparr>,
      tc_bg = optionalrgb_none\<rparr>\<rparr>"
  have "cc_check stale_colour_line = Some ()" by code_simp
  moreover have c: "line_cells stale_colour_line = Some [stale]" unfolding stale_def by code_simp
  moreover have "list_all storable [stale]"
    by (simp add: storable_def stale_def plain_cell_def cell_ok_def)
  ultimately have "\<exists>d line'. compressline stale_colour_line = Some d \<and> decompressline (plain_char 7) d = Some line' \<and>
      cc_check line' = Some () \<and> line_cells line' = Some (map stored_cell [stale]) \<and> cols line' = cols stale_colour_line \<and>
      lattr line' = lattr stale_colour_line \<and> trusted line' = trusted stale_colour_line \<and> temporary line'"
    by (intro scrollback_round_trip) (simp_all add: stale_colour_line_def)
  moreover have "map stored_cell [stale] = [plain_cell 0x41 []]" "[stale] \<noteq> [plain_cell 0x41 []]"
    by (simp_all add: stale_def stored_cell_def tc_stored_def plain_cell_def optionalrgb_none_def)
  ultimately show ?thesis using c by auto
qed

end
