(* ===== verification/Telnet_Model.thy ===== *)
theory Telnet_Model
  imports Ldisc_Model Conf_Scripts
begin

text \<open>
  The Telnet back end (\<^verbatim>\<open>otherbackends/telnet.c\<close>): the byte-driven state machine that reads
  from the network, option negotiation, subnegotiations, and the escaping of what is sent.
\<close>

unbundle bit_operations_syntax

section \<open>Options\<close>

abbreviation (input) "IAC \<equiv> 255 :: byte"
abbreviation (input) "DONT \<equiv> 254 :: byte"
abbreviation (input) "DO \<equiv> 253 :: byte"
abbreviation (input) "WONT \<equiv> 252 :: byte"
abbreviation (input) "WILL \<equiv> 251 :: byte"
abbreviation (input) "SB \<equiv> 250 :: byte"
abbreviation (input) "SE \<equiv> 240 :: byte"
abbreviation (input) "DM \<equiv> 242 :: byte"
abbreviation (input) "CR \<equiv> 13 :: byte"
abbreviation (input) "LF \<equiv> 10 :: byte"
abbreviation (input) "NUL \<equiv> 0 :: byte"

abbreviation (input) "TELOPT_BINARY \<equiv> 0 :: byte"
abbreviation (input) "TELOPT_ECHO \<equiv> 1 :: byte"
abbreviation (input) "TELOPT_SGA \<equiv> 3 :: byte"
abbreviation (input) "TELOPT_TTYPE \<equiv> 24 :: byte"
abbreviation (input) "TELOPT_NAWS \<equiv> 31 :: byte"
abbreviation (input) "TELOPT_TSPEED \<equiv> 32 :: byte"
abbreviation (input) "TELOPT_OLD_ENVIRON \<equiv> 36 :: byte"
abbreviation (input) "TELOPT_NEW_ENVIRON \<equiv> 39 :: byte"

abbreviation (input) "TELQUAL_IS \<equiv> 0 :: byte"
abbreviation (input) "TELQUAL_SEND \<equiv> 1 :: byte"
abbreviation (input) "BSD_VAR \<equiv> 1 :: byte"
abbreviation (input) "BSD_VALUE \<equiv> 0 :: byte"
abbreviation (input) "RFC_VAR \<equiv> 0 :: byte"
abbreviation (input) "RFC_VALUE \<equiv> 1 :: byte"

datatype optstate = REQUESTED | ACTIVE | INACTIVE | REALLY_INACTIVE

datatype optindex =
    OPTINDEX_NAWS | OPTINDEX_TSPEED | OPTINDEX_TTYPE | OPTINDEX_OENV | OPTINDEX_NENV
  | OPTINDEX_ECHO | OPTINDEX_WE_SGA | OPTINDEX_THEY_SGA | OPTINDEX_WE_BIN | OPTINDEX_THEY_BIN

record Opt =
  opt_send :: byte
  opt_nsend :: byte
  opt_ack :: byte
  opt_nak :: byte
  opt_option :: byte
  opt_index :: optindex
  opt_initial_state :: optstate

text \<open>The rows of the table are written in the order of the structure's fields.\<close>

definition mk_opt :: "byte \<Rightarrow> byte \<Rightarrow> byte \<Rightarrow> byte \<Rightarrow> byte \<Rightarrow> optindex \<Rightarrow> optstate \<Rightarrow> Opt" where
  "mk_opt s ns a n code i st =
     \<lparr>opt_send = s, opt_nsend = ns, opt_ack = a, opt_nak = n, opt_option = code,
      opt_index = i, opt_initial_state = st\<rparr>"

definition o_naws :: Opt where
  "o_naws = mk_opt WILL WONT DO DONT TELOPT_NAWS OPTINDEX_NAWS REQUESTED"
definition o_tspeed :: Opt where
  "o_tspeed = mk_opt WILL WONT DO DONT TELOPT_TSPEED OPTINDEX_TSPEED REQUESTED"
definition o_ttype :: Opt where
  "o_ttype = mk_opt WILL WONT DO DONT TELOPT_TTYPE OPTINDEX_TTYPE REQUESTED"
definition o_oenv :: Opt where
  "o_oenv = mk_opt WILL WONT DO DONT TELOPT_OLD_ENVIRON OPTINDEX_OENV INACTIVE"
definition o_nenv :: Opt where
  "o_nenv = mk_opt WILL WONT DO DONT TELOPT_NEW_ENVIRON OPTINDEX_NENV REQUESTED"
definition o_echo :: Opt where
  "o_echo = mk_opt DO DONT WILL WONT TELOPT_ECHO OPTINDEX_ECHO REQUESTED"
definition o_we_sga :: Opt where
  "o_we_sga = mk_opt WILL WONT DO DONT TELOPT_SGA OPTINDEX_WE_SGA REQUESTED"
definition o_they_sga :: Opt where
  "o_they_sga = mk_opt DO DONT WILL WONT TELOPT_SGA OPTINDEX_THEY_SGA REQUESTED"
definition o_we_bin :: Opt where
  "o_we_bin = mk_opt WILL WONT DO DONT TELOPT_BINARY OPTINDEX_WE_BIN INACTIVE"
definition o_they_bin :: Opt where
  "o_they_bin = mk_opt DO DONT WILL WONT TELOPT_BINARY OPTINDEX_THEY_BIN INACTIVE"

definition opts :: "Opt list" where
  "opts = [o_naws, o_tspeed, o_ttype, o_oenv, o_nenv, o_echo, o_we_sga, o_they_sga, o_we_bin, o_they_bin]"

section \<open>State\<close>

datatype telnet_state =
    TOP_LEVEL | SEENIAC | SEENWILL | SEENWONT | SEENDO | SEENDONT
  | SEENSB | SUBNEGOT | SUBNEG_IAC | SEENCR

text \<open>What the back end does to the socket, the seat and the line discipline, in order.\<close>

datatype tn_event =
    SockWrite bytes
  | SockOob bytes
  | SockFrozen bool
  | SockClose
  | SeatStdout bytes
  | SeatSent nat
  | SeatRemoteExit
  | SeatRemoteDisconnect
  | SeatFatal
  | LdiscEchoEdit
  | LdiscCheckSendok

text \<open>
  What it asks of them, as functions of what has happened so far: the backlogs that a write to the
  socket and an output to the seat report; and the local user name.
\<close>

record tn_env =
  env_sock_backlog :: "tn_event list \<Rightarrow> nat"
  env_seat_backlog :: "tn_event list \<Rightarrow> nat"
  env_username :: "bytes option"

text \<open>\<open>tn_open\<close> is whether the socket pointer is not null. Sizes are C \<^verbatim>\<open>int\<close>s.\<close>

record telnet =
  tn_open :: bool
  socket_connected :: bool
  closed_on_socket_error :: bool
  tn_has_ldisc :: bool
  term_width :: uint32
  term_height :: uint32
  opt_states :: "optindex \<Rightarrow> optstate"
  tn_echoing :: bool
  tn_editing :: bool
  activated :: bool
  bufsize :: nat
  in_synch :: bool
  sb_opt :: byte
  sb_buf :: bytes
  tn_state :: telnet_state
  tn_conf :: conf
  tn_log :: "tn_event list"

abbreviation set_opt :: "optindex \<Rightarrow> optstate \<Rightarrow> telnet \<Rightarrow> telnet" where
  "set_opt i s t \<equiv> t\<lparr>opt_states := (opt_states t)(i := s)\<rparr>"

definition tn_emit :: "tn_event \<Rightarrow> telnet \<Rightarrow> telnet" where
  "tn_emit e t = t\<lparr>tn_log := tn_log t @ [e]\<rparr>"

text \<open>\<^verbatim>\<open>telnet->bufsize = sk_write(telnet->s, ...)\<close>, and the out-of-band form.\<close>

definition tn_write :: "tn_env \<Rightarrow> bytes \<Rightarrow> telnet \<Rightarrow> telnet" where
  "tn_write env bs t =
     (let t = tn_emit (SockWrite bs) t in t\<lparr>bufsize := env_sock_backlog env (tn_log t)\<rparr>)"

definition tn_write_oob :: "tn_env \<Rightarrow> bytes \<Rightarrow> telnet \<Rightarrow> telnet" where
  "tn_write_oob env bs t =
     (let t = tn_emit (SockOob bs) t in t\<lparr>bufsize := env_sock_backlog env (tn_log t)\<rparr>)"

definition TELNET_MAX_BACKLOG :: nat where
  "TELNET_MAX_BACKLOG = 4096"

text \<open>Only reached from \<^verbatim>\<open>telnet_receive\<close>, which has no outcome when the socket pointer is null.\<close>

definition c_write :: "tn_env \<Rightarrow> bytes \<Rightarrow> telnet \<Rightarrow> telnet" where
  "c_write env buf t =
     (let t = tn_emit (SeatStdout buf) t;
          backlog = env_seat_backlog env (tn_log t)
      in tn_emit (SockFrozen (backlog > TELNET_MAX_BACKLOG)) t)"

section \<open>Window size\<close>

text \<open>A byte of a subnegotiation, with an \<open>IAC\<close> doubled.\<close>

definition put_iac :: "byte \<Rightarrow> bytes" where
  "put_iac b = (if b = IAC then [b, IAC] else [b])"

definition naws_message :: "uint32 \<Rightarrow> uint32 \<Rightarrow> bytes" where
  "naws_message width height =
     (let b = [IAC, SB, TELOPT_NAWS];
          b = b @ put_iac (ucast (drop_bit 8 width));
          b = b @ put_iac (ucast (width AND 0xFF));
          b = b @ put_iac (ucast (drop_bit 8 height));
          b = b @ put_iac (ucast (height AND 0xFF))
      in b @ [IAC, SE])"

definition telnet_size :: "tn_env \<Rightarrow> uint32 \<Rightarrow> uint32 \<Rightarrow> telnet \<Rightarrow> telnet" where
  "telnet_size env width height t =
     (let t = t\<lparr>term_width := width, term_height := height\<rparr> in
      if \<not> tn_open t \<or> opt_states t (opt_index o_naws) \<noteq> ACTIVE then t
      else tn_write env (naws_message (term_width t) (term_height t)) t)"

section \<open>Option negotiation\<close>

definition send_opt :: "tn_env \<Rightarrow> byte \<Rightarrow> byte \<Rightarrow> telnet \<Rightarrow> telnet" where
  "send_opt env cmd option t = tn_write env [IAC, cmd, option] t"

definition deactivate_option :: "tn_env \<Rightarrow> Opt \<Rightarrow> telnet \<Rightarrow> telnet" where
  "deactivate_option env p t =
     (let t = (if opt_states t (opt_index p) = REQUESTED \<or> opt_states t (opt_index p) = ACTIVE
               then send_opt env (opt_nsend p) (opt_option p) t else t)
      in set_opt (opt_index p) REALLY_INACTIVE t)"

text \<open>Requesting one of the minimum options when it is inactive.\<close>

definition ensure_option :: "tn_env \<Rightarrow> Opt \<Rightarrow> telnet \<Rightarrow> telnet" where
  "ensure_option env p t =
     (if opt_states t (opt_index p) = INACTIVE
      then send_opt env (opt_send p) (opt_option p) (set_opt (opt_index p) REQUESTED t)
      else t)"

definition option_side_effects :: "tn_env \<Rightarrow> Opt \<Rightarrow> bool \<Rightarrow> telnet \<Rightarrow> telnet" where
  "option_side_effects env p enabled t =
     (let t = (if opt_option p = TELOPT_ECHO \<and> opt_send p = DO then t\<lparr>tn_echoing := \<not> enabled\<rparr>
               else if opt_option p = TELOPT_SGA \<and> opt_send p = DO then t\<lparr>tn_editing := \<not> enabled\<rparr>
               else t);
          t = (if tn_has_ldisc t then tn_emit LdiscEchoEdit t else t)
      in if \<not> activated t
         then (ensure_option env o_they_sga (ensure_option env o_we_sga (ensure_option env o_echo t)))
                \<lparr>activated := True\<rparr>
         else t)"

definition activate_option :: "tn_env \<Rightarrow> Opt \<Rightarrow> telnet \<Rightarrow> telnet" where
  "activate_option env p t =
     (let t = (if opt_send p = WILL \<and> opt_option p = TELOPT_NAWS
               then telnet_size env (term_width t) (term_height t) t else t);
          t = (if opt_send p = WILL \<and> (opt_option p = TELOPT_NEW_ENVIRON \<or> opt_option p = TELOPT_OLD_ENVIRON)
               then deactivate_option env (if opt_option p = TELOPT_NEW_ENVIRON then o_oenv else o_nenv) t
               else t)
      in option_side_effects env p True t)"

definition refused_option :: "tn_env \<Rightarrow> Opt \<Rightarrow> telnet \<Rightarrow> telnet" where
  "refused_option env p t =
     (let t = (if opt_send p = WILL \<and> opt_option p = TELOPT_NEW_ENVIRON \<and>
                  opt_states t (opt_index o_oenv) = INACTIVE
               then set_opt (opt_index o_oenv) REQUESTED (send_opt env WILL TELOPT_OLD_ENVIRON t)
               else t)
      in option_side_effects env p False t)"

text \<open>The two switches of \<^verbatim>\<open>proc_rec_opt\<close>, on an acknowledgement and on a refusal.\<close>

definition rec_ack :: "tn_env \<Rightarrow> Opt \<Rightarrow> telnet \<Rightarrow> telnet" where
  "rec_ack env p t =
     (case opt_states t (opt_index p) of
        REQUESTED \<Rightarrow> activate_option env p (set_opt (opt_index p) ACTIVE t)
      | ACTIVE \<Rightarrow> t
      | INACTIVE \<Rightarrow>
          activate_option env p (send_opt env (opt_send p) (opt_option p) (set_opt (opt_index p) ACTIVE t))
      | REALLY_INACTIVE \<Rightarrow> send_opt env (opt_nsend p) (opt_option p) t)"

definition rec_nak :: "tn_env \<Rightarrow> Opt \<Rightarrow> telnet \<Rightarrow> telnet" where
  "rec_nak env p t =
     (case opt_states t (opt_index p) of
        REQUESTED \<Rightarrow> refused_option env p (set_opt (opt_index p) INACTIVE t)
      | ACTIVE \<Rightarrow>
          option_side_effects env p False
            (send_opt env (opt_nsend p) (opt_option p) (set_opt (opt_index p) INACTIVE t))
      | INACTIVE \<Rightarrow> t
      | REALLY_INACTIVE \<Rightarrow> t)"

fun proc_opts :: "tn_env \<Rightarrow> Opt list \<Rightarrow> byte \<Rightarrow> byte \<Rightarrow> telnet \<Rightarrow> telnet" where
  "proc_opts env [] cmd option t =
     (if cmd = WILL \<or> cmd = DO then send_opt env (if cmd = WILL then DONT else WONT) option t else t)"
| "proc_opts env (p # ps) cmd option t =
     (if opt_option p = option \<and> opt_ack p = cmd then rec_ack env p t
      else if opt_option p = option \<and> opt_nak p = cmd then rec_nak env p t
      else proc_opts env ps cmd option t)"

definition proc_rec_opt :: "tn_env \<Rightarrow> byte \<Rightarrow> byte \<Rightarrow> telnet \<Rightarrow> telnet" where
  "proc_rec_opt env cmd option t = proc_opts env opts cmd option t"

section \<open>Subnegotiation\<close>

text \<open>Filling a buffer of \<open>cap\<close> bytes; an overflow has no defined outcome.\<close>

definition fill_buffer :: "nat \<Rightarrow> bytes list \<Rightarrow> bytes option" where
  "fill_buffer cap parts = (let b = concat parts in if length b \<le> cap then Some b else None)"

definition upper_case :: "byte \<Rightarrow> byte" where
  "upper_case c = (if 97 \<le> c \<and> c \<le> 122 then c + 65 - 97 else c)"

definition get_remote_username :: "tn_env \<Rightarrow> conf \<Rightarrow> bytes option option" where
  "get_remote_username env conf =
     (case conf_get_str conf (conf_index ''username'') of
        None \<Rightarrow> None
      | Some username \<Rightarrow>
          if username \<noteq> [] then Some (Some username)
          else case conf_get_bool conf (conf_index ''username_from_env'') of
                 None \<Rightarrow> None
               | Some b \<Rightarrow> Some (if b then env_username env else None))"

text \<open>The loop over the environment variables of the configuration.\<close>

partial_function (option) environ_list :: "conf \<Rightarrow> bytes option \<Rightarrow> (bytes \<times> bytes) list option" where
  "environ_list conf k =
     Option.bind (conf_get_str_strs conf (conf_index ''environmt'') k) (\<lambda>next_var.
       case next_var of
         None \<Rightarrow> Some []
       | Some kv \<Rightarrow> Option.bind (environ_list conf (Some (fst kv))) (\<lambda>vs. Some (kv # vs)))"

declare environ_list.simps [code]

text \<open>Guessing the sense of the two markers from the request; a pair is \<open>(var, value)\<close>.\<close>

fun guess_vars :: "bytes \<Rightarrow> byte \<times> byte \<Rightarrow> byte \<times> byte" where
  "guess_vars [] vv = vv"
| "guess_vars (c # cs) vv =
     guess_vars cs (if c = RFC_VAR then (RFC_VAR, RFC_VALUE)
                    else if c = BSD_VAR then (BSD_VAR, BSD_VALUE) else vv)"

definition environ_parts :: "byte \<Rightarrow> byte \<Rightarrow> byte \<Rightarrow> (bytes \<times> bytes) list \<Rightarrow> bytes option \<Rightarrow> bytes list" where
  "environ_parts code var val vs user =
     [[IAC, SB, code, TELQUAL_IS]] @
     map (\<lambda>(ekey, eval). [var] @ ekey @ [val] @ eval) vs @
     (case user of None \<Rightarrow> [] | Some u \<Rightarrow> [[var, 85, 83, 69, 82, val] @ u]) @ [[IAC, SE]]"

definition environ_bsize :: "(bytes \<times> bytes) list \<Rightarrow> bytes option \<Rightarrow> nat" where
  "environ_bsize vs user =
     20 + sum_list (map (\<lambda>(ekey, eval). length ekey + length eval + 2) vs) +
     (case user of None \<Rightarrow> 0 | Some u \<Rightarrow> 6 + length u)"

definition subneg_environ :: "tn_env \<Rightarrow> telnet \<Rightarrow> telnet option" where
  "subneg_environ env t =
     (case sb_buf t of
        [] \<Rightarrow> Some t
      | c # rest \<Rightarrow>
          if c \<noteq> TELQUAL_SEND then Some t
          else
            case (if sb_opt t = TELOPT_OLD_ENVIRON then
                    map_option (\<lambda>rfc. guess_vars rest
                        (if rfc then (RFC_VAR, RFC_VALUE) else (BSD_VAR, BSD_VALUE)))
                      (conf_get_bool (tn_conf t) (conf_index ''rfc_environ''))
                  else Some (RFC_VAR, RFC_VALUE)) of
              None \<Rightarrow> None
            | Some (var, val) \<Rightarrow>
                (case (environ_list (tn_conf t) None, get_remote_username env (tn_conf t)) of
                   (Some vs, Some user) \<Rightarrow>
                     map_option (\<lambda>b. tn_write env b t)
                       (fill_buffer (environ_bsize vs user) (environ_parts (sb_opt t) var val vs user))
                 | _ \<Rightarrow> None))"

definition process_subneg :: "tn_env \<Rightarrow> telnet \<Rightarrow> telnet option" where
  "process_subneg env t =
     (if sb_opt t = TELOPT_TSPEED then
        if sb_buf t = [TELQUAL_SEND] then
          case conf_get_str (tn_conf t) (conf_index ''termspeed'') of
            None \<Rightarrow> None
          | Some termspeed \<Rightarrow>
              map_option (\<lambda>b. tn_write env b t)
                (fill_buffer (20 + length termspeed) [[IAC, SB, TELOPT_TSPEED, TELQUAL_IS], termspeed, [IAC, SE]])
        else Some t
      else if sb_opt t = TELOPT_TTYPE then
        if sb_buf t = [TELQUAL_SEND] then
          case conf_get_str (tn_conf t) (conf_index ''termtype'') of
            None \<Rightarrow> None
          | Some termtype \<Rightarrow>
              map_option (\<lambda>b. tn_write env b t)
                (fill_buffer (20 + length termtype)
                   [[IAC, SB, TELOPT_TTYPE, TELQUAL_IS], map upper_case termtype, [IAC, SE]])
        else Some t
      else if sb_opt t = TELOPT_OLD_ENVIRON \<or> sb_opt t = TELOPT_NEW_ENVIRON then subneg_environ env t
      else Some t)"

section \<open>Reading from the network\<close>

text \<open>One byte; the data for the seat collects in a buffer.\<close>

definition read_top_level :: "byte \<Rightarrow> telnet \<Rightarrow> bytes \<Rightarrow> telnet \<times> bytes" where
  "read_top_level c t outbuf =
     (if c = NUL \<and> tn_state t = SEENCR then (t\<lparr>tn_state := TOP_LEVEL\<rparr>, outbuf)
      else if c = IAC then (t\<lparr>tn_state := SEENIAC\<rparr>, outbuf)
      else
        let (t, outbuf) =
              (if \<not> in_synch t then (t, outbuf @ [c])
               else if c = DM then (t\<lparr>in_synch := False\<rparr>, outbuf)
               else (t, outbuf))
        in if c = CR \<and> opt_states t (opt_index o_they_bin) \<noteq> ACTIVE
           then (t\<lparr>tn_state := SEENCR\<rparr>, outbuf) else (t\<lparr>tn_state := TOP_LEVEL\<rparr>, outbuf))"

definition read_iac :: "byte \<Rightarrow> telnet \<Rightarrow> bytes \<Rightarrow> telnet \<times> bytes" where
  "read_iac c t outbuf =
     (if c = DO then (t\<lparr>tn_state := SEENDO\<rparr>, outbuf)
      else if c = DONT then (t\<lparr>tn_state := SEENDONT\<rparr>, outbuf)
      else if c = WILL then (t\<lparr>tn_state := SEENWILL\<rparr>, outbuf)
      else if c = WONT then (t\<lparr>tn_state := SEENWONT\<rparr>, outbuf)
      else if c = SB then (t\<lparr>tn_state := SEENSB\<rparr>, outbuf)
      else if c = DM then (t\<lparr>in_synch := False, tn_state := TOP_LEVEL\<rparr>, outbuf)
      else (t\<lparr>tn_state := TOP_LEVEL\<rparr>, if c = IAC then outbuf @ [c] else outbuf))"

definition telnet_read_byte :: "tn_env \<Rightarrow> byte \<Rightarrow> telnet \<Rightarrow> bytes \<Rightarrow> (telnet \<times> bytes) option" where
  "telnet_read_byte env c t outbuf =
     (case tn_state t of
        TOP_LEVEL \<Rightarrow> Some (read_top_level c t outbuf)
      | SEENCR \<Rightarrow> Some (read_top_level c t outbuf)
      | SEENIAC \<Rightarrow> Some (read_iac c t outbuf)
      | SEENWILL \<Rightarrow> Some ((proc_rec_opt env WILL c t)\<lparr>tn_state := TOP_LEVEL\<rparr>, outbuf)
      | SEENWONT \<Rightarrow> Some ((proc_rec_opt env WONT c t)\<lparr>tn_state := TOP_LEVEL\<rparr>, outbuf)
      | SEENDO \<Rightarrow> Some ((proc_rec_opt env DO c t)\<lparr>tn_state := TOP_LEVEL\<rparr>, outbuf)
      | SEENDONT \<Rightarrow> Some ((proc_rec_opt env DONT c t)\<lparr>tn_state := TOP_LEVEL\<rparr>, outbuf)
      | SEENSB \<Rightarrow> Some (t\<lparr>sb_opt := c, sb_buf := [], tn_state := SUBNEGOT\<rparr>, outbuf)
      | SUBNEGOT \<Rightarrow>
          Some (if c = IAC then t\<lparr>tn_state := SUBNEG_IAC\<rparr>
                else t\<lparr>sb_buf := sb_buf t @ [c], tn_state := SUBNEGOT\<rparr>, outbuf)
      | SUBNEG_IAC \<Rightarrow>
          if c \<noteq> SE then Some (t\<lparr>sb_buf := sb_buf t @ [c], tn_state := SUBNEGOT\<rparr>, outbuf)
          else map_option (\<lambda>t. (t\<lparr>tn_state := TOP_LEVEL\<rparr>, outbuf)) (process_subneg env t))"

fun telnet_read_loop :: "tn_env \<Rightarrow> bytes \<Rightarrow> telnet \<Rightarrow> bytes \<Rightarrow> (telnet \<times> bytes) option" where
  "telnet_read_loop env [] t outbuf = Some (t, outbuf)"
| "telnet_read_loop env (c # buf) t outbuf =
     (case telnet_read_byte env c t outbuf of
        None \<Rightarrow> None
      | Some (t, outbuf) \<Rightarrow>
          if length outbuf \<ge> 4096 then telnet_read_loop env buf (c_write env outbuf t) []
          else telnet_read_loop env buf t outbuf)"

definition do_telnet_read :: "tn_env \<Rightarrow> bytes \<Rightarrow> telnet \<Rightarrow> telnet option" where
  "do_telnet_read env buf t =
     map_option (\<lambda>(t, outbuf). if outbuf \<noteq> [] then c_write env outbuf t else t)
       (telnet_read_loop env buf t [])"

section \<open>The plug\<close>

definition telnet_connect_success :: "telnet \<Rightarrow> telnet" where
  "telnet_connect_success t =
     (let t = t\<lparr>socket_connected := True\<rparr>
      in if tn_has_ldisc t then tn_emit LdiscCheckSendok t else t)"

datatype PlugCloseType = PLUGCLOSE_NORMAL | PLUGCLOSE_ERROR | PLUGCLOSE_BROKEN_PIPE | PLUGCLOSE_USER_ABORT

definition telnet_closing :: "PlugCloseType \<Rightarrow> bool \<Rightarrow> telnet \<Rightarrow> telnet" where
  "telnet_closing type has_error_msg t =
     (let t = (if tn_open t then
                 let t = (tn_emit SockClose t)\<lparr>tn_open := False\<rparr>;
                     t = (if has_error_msg then t\<lparr>closed_on_socket_error := True\<rparr> else t)
                 in tn_emit SeatRemoteDisconnect (tn_emit SeatRemoteExit t)
               else t)
      in if type \<noteq> PLUGCLOSE_NORMAL \<and> type \<noteq> PLUGCLOSE_USER_ABORT then tn_emit SeatFatal t else t)"

definition telnet_receive :: "tn_env \<Rightarrow> bool \<Rightarrow> bytes \<Rightarrow> telnet \<Rightarrow> telnet option" where
  "telnet_receive env urgent data t =
     (if tn_open t then do_telnet_read env data (if urgent then t\<lparr>in_synch := True\<rparr> else t) else None)"

definition telnet_sent :: "nat \<Rightarrow> telnet \<Rightarrow> telnet" where
  "telnet_sent n t = (let t = t\<lparr>bufsize := n\<rparr> in tn_emit (SeatSent (bufsize t)) t)"

section \<open>The back end\<close>

definition telnet_new :: "conf \<Rightarrow> uint32 \<Rightarrow> uint32 \<Rightarrow> telnet" where
  "telnet_new conf width height =
     \<lparr>tn_open = True, socket_connected = False, closed_on_socket_error = False, tn_has_ldisc = False,
      term_width = width, term_height = height, opt_states = (\<lambda>_. REQUESTED), tn_echoing = True,
      tn_editing = True, activated = False, bufsize = 0, in_synch = False, sb_opt = 0, sb_buf = [],
      tn_state = TOP_LEVEL, tn_conf = conf, tn_log = []\<rparr>"

fun init_options :: "tn_env \<Rightarrow> bool \<Rightarrow> Opt list \<Rightarrow> telnet \<Rightarrow> telnet" where
  "init_options env passive [] t = t"
| "init_options env passive (p # ps) t =
     init_options env passive ps
       (if passive then set_opt (opt_index p) INACTIVE t
        else
          let t = set_opt (opt_index p) (opt_initial_state p) t
          in if opt_states t (opt_index p) = REQUESTED then send_opt env (opt_send p) (opt_option p) t else t)"

text \<open>The initialisation, from the point where the socket has been opened.\<close>

definition telnet_init :: "tn_env \<Rightarrow> conf \<Rightarrow> telnet option" where
  "telnet_init env conf =
     (case conf_copy conf of
        None \<Rightarrow> None
      | Some conf \<Rightarrow>
          (case (conf_get_int conf (conf_index ''width''), conf_get_int conf (conf_index ''height''),
                 conf_get_bool conf (conf_index ''passive_telnet'')) of
             (Some w, Some h, Some passive) \<Rightarrow>
               let t = init_options env passive opts (telnet_new conf w h);
                   t = (if passive then t else t\<lparr>activated := True\<rparr>)
               in Some (t\<lparr>in_synch := False\<rparr>)
           | _ \<Rightarrow> None))"

definition telnet_reconfig :: "conf \<Rightarrow> telnet \<Rightarrow> telnet option" where
  "telnet_reconfig conf t = map_option (\<lambda>c. t\<lparr>tn_conf := c\<rparr>) (conf_copy conf)"

definition iswritable :: "telnet \<Rightarrow> byte \<Rightarrow> bool" where
  "iswritable t x \<longleftrightarrow> x \<noteq> IAC \<and> (opt_states t (opt_index o_we_bin) = ACTIVE \<or> x \<noteq> CR)"

fun send_escaped :: "tn_env \<Rightarrow> bytes \<Rightarrow> telnet \<Rightarrow> bytes \<times> telnet" where
  "send_escaped env [] t = ([], t)"
| "send_escaped env (p # ps) t =
     (if iswritable t p then (p # ps, t)
      else send_escaped env ps (tn_write env (if p = IAC then [IAC, IAC] else [CR, NUL]) t))"

lemma send_escaped_le: "length (fst (send_escaped env ps t)) \<le> length ps"
  by (induction env ps t rule: send_escaped.induct) (auto simp: le_Suc_eq)

lemma send_escaped_less: "\<lbrakk>ps \<noteq> []; \<not> iswritable t (hd ps)\<rbrakk> \<Longrightarrow> length (fst (send_escaped env ps t)) < length ps"
  using send_escaped_le [of env "tl ps"] by (cases ps) (auto simp: less_Suc_eq_le)

function telnet_send_loop :: "tn_env \<Rightarrow> bytes \<Rightarrow> telnet \<Rightarrow> telnet" where
  "telnet_send_loop env p t =
     (if p = [] then t
      else
        let t' = tn_write env (takeWhile (iswritable t) p) t;
            (p, t') = send_escaped env (dropWhile (iswritable t) p) t'
        in telnet_send_loop env p t')"
  by pat_completeness auto
termination
proof (relation "measure (\<lambda>(_, p, _). length p)", goal_cases)
  case (2 env p t t1 x p' t2)
  have w: "iswritable (tn_write env bs t) = iswritable t" for bs
    by (rule ext) (simp add: iswritable_def tn_write_def tn_emit_def Let_def)
  let ?r = "dropWhile (iswritable t) p"
  have "length (fst (send_escaped env ?r t1)) < length p"
  proof (cases "?r = []")
    case True
    show ?thesis unfolding True using 2(1) by simp
  next
    case False
    then have "\<not> iswritable t1 (hd ?r)" using 2(2) w hd_dropWhile [OF False] by simp
    from send_escaped_less [OF False this, of env] show ?thesis
      using length_dropWhile_le [of "iswritable t" p] by linarith
  qed
  then show ?case using 2(3,4) by (metis fst_conv in_measure split_conv)
qed simp

declare telnet_send_loop.simps [simp del]

definition telnet_send :: "tn_env \<Rightarrow> bytes \<Rightarrow> telnet \<Rightarrow> telnet" where
  "telnet_send env buf t = (if \<not> tn_open t then t else telnet_send_loop env buf t)"

section \<open>Special commands\<close>

abbreviation (input) "SS_BRK \<equiv> 0 :: uint32"
abbreviation (input) "SS_NOP \<equiv> 2 :: uint32"
abbreviation (input) "SS_PING \<equiv> 3 :: uint32"
abbreviation (input) "SS_AYT \<equiv> 4 :: uint32"
abbreviation (input) "SS_SYNCH \<equiv> 5 :: uint32"
abbreviation (input) "SS_GA \<equiv> 8 :: uint32"
abbreviation (input) "SS_AO \<equiv> 10 :: uint32"
abbreviation (input) "SS_EOR \<equiv> 13 :: uint32"

definition telnet_special :: "tn_env \<Rightarrow> uint32 \<Rightarrow> telnet \<Rightarrow> telnet" where
  "telnet_special env code t =
     (if \<not> tn_open t then t
      else if code = SS_AYT then tn_write env [IAC, 246] t
      else if code = SS_BRK then tn_write env [IAC, 243] t
      else if code = SS_EC then tn_write env [IAC, 247] t
      else if code = SS_EL then tn_write env [IAC, 248] t
      else if code = SS_GA then tn_write env [IAC, 249] t
      else if code = SS_NOP then tn_write env [IAC, 241] t
      else if code = SS_ABORT then tn_write env [IAC, 238] t
      else if code = SS_AO then tn_write env [IAC, 245] t
      else if code = SS_IP then tn_write env [IAC, 244] t
      else if code = SS_SUSP then tn_write env [IAC, 237] t
      else if code = SS_EOR then tn_write env [IAC, 239] t
      else if code = SS_EOF then tn_write env [IAC, 236] t
      else if code = SS_EOL then
        tn_write env (if opt_states t (opt_index o_we_bin) = ACTIVE then [CR] else [CR, LF]) t
      else if code = SS_SYNCH then tn_write_oob env [DM] (tn_write env [IAC] t)
      else if code = SS_PING then
        (if opt_states t (opt_index o_they_sga) = ACTIVE then tn_write env [IAC, 241] t else t)
      else t)"

section \<open>The small entry points\<close>

definition telnet_connected :: "telnet \<Rightarrow> bool" where
  "telnet_connected t \<longleftrightarrow> tn_open t"

definition telnet_sendok :: "telnet \<Rightarrow> bool" where
  "telnet_sendok t = socket_connected t"

definition telnet_sendbuffer :: "telnet \<Rightarrow> nat" where
  "telnet_sendbuffer t = bufsize t"

text \<open>The socket is used without a test; a null pointer has no defined outcome.\<close>

definition telnet_unthrottle :: "nat \<Rightarrow> telnet \<Rightarrow> telnet option" where
  "telnet_unthrottle backlog t =
     (if tn_open t then Some (tn_emit (SockFrozen (backlog > TELNET_MAX_BACKLOG)) t) else None)"

abbreviation (input) "LD_EDIT \<equiv> 0 :: nat"
abbreviation (input) "LD_ECHO \<equiv> 1 :: nat"

definition telnet_ldisc :: "telnet \<Rightarrow> nat \<Rightarrow> bool" where
  "telnet_ldisc t option =
     (if option = LD_ECHO then tn_echoing t else if option = LD_EDIT then tn_editing t else False)"

definition telnet_provide_ldisc :: "bool \<Rightarrow> telnet \<Rightarrow> telnet" where
  "telnet_provide_ldisc given t = t\<lparr>tn_has_ldisc := given\<rparr>"

definition telnet_exitcode :: "telnet \<Rightarrow> int" where
  "telnet_exitcode t =
     (if tn_open t then -1 else if closed_on_socket_error t then 2 ^ 31 - 1 else 0)"

end
