(* ===== verification/Telnet.thy ===== *)
theory Telnet
  imports Telnet_Model
begin

text \<open>
  Properties of the Telnet back end: what is sent is read back by a Telnet reader, reading does
  not depend on how the data is cut into packets and never fails, and option negotiation keeps its
  invariants and settles.
\<close>

section \<open>Frames\<close>

text \<open>What writing to the socket changes.\<close>

lemma tn_write_fields [simp]:
  "tn_open (tn_write env bs t) = tn_open t"
  "tn_has_ldisc (tn_write env bs t) = tn_has_ldisc t"
  "term_width (tn_write env bs t) = term_width t" "term_height (tn_write env bs t) = term_height t"
  "opt_states (tn_write env bs t) = opt_states t"
  "tn_echoing (tn_write env bs t) = tn_echoing t" "tn_editing (tn_write env bs t) = tn_editing t"
  "activated (tn_write env bs t) = activated t" "in_synch (tn_write env bs t) = in_synch t"
  "sb_opt (tn_write env bs t) = sb_opt t" "sb_buf (tn_write env bs t) = sb_buf t"
  "tn_state (tn_write env bs t) = tn_state t" "tn_conf (tn_write env bs t) = tn_conf t"
  "tn_log (tn_write env bs t) = tn_log t @ [SockWrite bs]"
  by (simp_all add: tn_write_def tn_emit_def Let_def)

lemma tn_emit_fields [simp]:
  "tn_open (tn_emit e t) = tn_open t"
  "tn_has_ldisc (tn_emit e t) = tn_has_ldisc t"
  "opt_states (tn_emit e t) = opt_states t"
  "tn_echoing (tn_emit e t) = tn_echoing t" "tn_editing (tn_emit e t) = tn_editing t"
  "activated (tn_emit e t) = activated t" "in_synch (tn_emit e t) = in_synch t"
  "tn_state (tn_emit e t) = tn_state t" "tn_conf (tn_emit e t) = tn_conf t"
  "tn_log (tn_emit e t) = tn_log t @ [e]"
  by (simp_all add: tn_emit_def)

section \<open>The invariant of negotiation\<close>

text \<open>
  Local echo and local editing mirror the two options that the server controls; at most one kind of
  environment option is active; and before anything was negotiated all options are inactive.
\<close>

definition negotiation_ok :: "telnet \<Rightarrow> bool" where
  "negotiation_ok t \<longleftrightarrow>
     tn_echoing t = (opt_states t OPTINDEX_ECHO \<noteq> ACTIVE) \<and>
     tn_editing t = (opt_states t OPTINDEX_THEY_SGA \<noteq> ACTIVE) \<and>
     \<not> (opt_states t OPTINDEX_OENV = ACTIVE \<and> opt_states t OPTINDEX_NENV = ACTIVE) \<and>
     (\<not> activated t \<longrightarrow> (\<forall>i. opt_states t i = INACTIVE))"

lemmas opt_defs =
  o_naws_def o_tspeed_def o_ttype_def o_oenv_def o_nenv_def o_echo_def o_we_sga_def o_they_sga_def
  o_we_bin_def o_they_bin_def mk_opt_def

lemma opt_table [simp]:
  "opt_send o_naws = WILL" "opt_nsend o_naws = WONT" "opt_ack o_naws = DO" "opt_nak o_naws = DONT" "opt_option o_naws = TELOPT_NAWS" "opt_index o_naws = OPTINDEX_NAWS"
  "opt_send o_tspeed = WILL" "opt_nsend o_tspeed = WONT" "opt_ack o_tspeed = DO" "opt_nak o_tspeed = DONT" "opt_option o_tspeed = TELOPT_TSPEED" "opt_index o_tspeed = OPTINDEX_TSPEED"
  "opt_send o_ttype = WILL" "opt_nsend o_ttype = WONT" "opt_ack o_ttype = DO" "opt_nak o_ttype = DONT" "opt_option o_ttype = TELOPT_TTYPE" "opt_index o_ttype = OPTINDEX_TTYPE"
  "opt_send o_oenv = WILL" "opt_nsend o_oenv = WONT" "opt_ack o_oenv = DO" "opt_nak o_oenv = DONT" "opt_option o_oenv = TELOPT_OLD_ENVIRON" "opt_index o_oenv = OPTINDEX_OENV"
  "opt_send o_nenv = WILL" "opt_nsend o_nenv = WONT" "opt_ack o_nenv = DO" "opt_nak o_nenv = DONT" "opt_option o_nenv = TELOPT_NEW_ENVIRON" "opt_index o_nenv = OPTINDEX_NENV"
  "opt_send o_echo = DO" "opt_nsend o_echo = DONT" "opt_ack o_echo = WILL" "opt_nak o_echo = WONT" "opt_option o_echo = TELOPT_ECHO" "opt_index o_echo = OPTINDEX_ECHO"
  "opt_send o_we_sga = WILL" "opt_nsend o_we_sga = WONT" "opt_ack o_we_sga = DO" "opt_nak o_we_sga = DONT" "opt_option o_we_sga = TELOPT_SGA" "opt_index o_we_sga = OPTINDEX_WE_SGA"
  "opt_send o_they_sga = DO" "opt_nsend o_they_sga = DONT" "opt_ack o_they_sga = WILL" "opt_nak o_they_sga = WONT" "opt_option o_they_sga = TELOPT_SGA" "opt_index o_they_sga = OPTINDEX_THEY_SGA"
  "opt_send o_we_bin = WILL" "opt_nsend o_we_bin = WONT" "opt_ack o_we_bin = DO" "opt_nak o_we_bin = DONT" "opt_option o_we_bin = TELOPT_BINARY" "opt_index o_we_bin = OPTINDEX_WE_BIN"
  "opt_send o_they_bin = DO" "opt_nsend o_they_bin = DONT" "opt_ack o_they_bin = WILL" "opt_nak o_they_bin = WONT" "opt_option o_they_bin = TELOPT_BINARY" "opt_index o_they_bin = OPTINDEX_THEY_BIN"
  by (simp_all add: opt_defs)

lemmas negotiation_defs =
  rec_ack_def rec_nak_def activate_option_def refused_option_def option_side_effects_def
  ensure_option_def deactivate_option_def send_opt_def telnet_size_def Let_def

lemma proc_rec_opt_cases:
  "proc_rec_opt env cmd option t =
     (case List.find (\<lambda>p. opt_option p = option \<and> (opt_ack p = cmd \<or> opt_nak p = cmd)) opts of
        Some p \<Rightarrow> if opt_ack p = cmd then rec_ack env p t else rec_nak env p t
      | None \<Rightarrow> if cmd = WILL \<or> cmd = DO then send_opt env (if cmd = WILL then DONT else WONT) option t else t)"
proof -
  have "proc_opts env ps cmd option t =
     (case List.find (\<lambda>p. opt_option p = option \<and> (opt_ack p = cmd \<or> opt_nak p = cmd)) ps of
        Some p \<Rightarrow> if opt_ack p = cmd then rec_ack env p t else rec_nak env p t
      | None \<Rightarrow> if cmd = WILL \<or> cmd = DO then send_opt env (if cmd = WILL then DONT else WONT) option t else t)" for ps
    by (induction ps) auto
  then show ?thesis by (simp add: proc_rec_opt_def)
qed

lemma opt_cases:
  assumes "p \<in> set opts"
  obtains "p = o_naws" | "p = o_tspeed" | "p = o_ttype" | "p = o_oenv" | "p = o_nenv" | "p = o_echo"
    | "p = o_we_sga" | "p = o_they_sga" | "p = o_we_bin" | "p = o_they_bin"
  using assms unfolding opts_def by auto

lemma telnet_size_fields [simp]:
  "opt_states (telnet_size env w h t) = opt_states t" "tn_echoing (telnet_size env w h t) = tn_echoing t"
  "tn_editing (telnet_size env w h t) = tn_editing t" "activated (telnet_size env w h t) = activated t"
  "tn_conf (telnet_size env w h t) = tn_conf t"
  by (simp_all add: telnet_size_def Let_def)

lemma deactivate_option_fields [simp]:
  "opt_states (deactivate_option env p t) = (opt_states t)(opt_index p := REALLY_INACTIVE)"
  "tn_echoing (deactivate_option env p t) = tn_echoing t" "tn_editing (deactivate_option env p t) = tn_editing t"
  "activated (deactivate_option env p t) = activated t" "tn_conf (deactivate_option env p t) = tn_conf t"
  by (simp_all add: deactivate_option_def send_opt_def Let_def)

lemma ensure_option_fields [simp]:
  "opt_states (ensure_option env p t) (opt_index p) \<noteq> INACTIVE"
  "i \<noteq> opt_index p \<Longrightarrow> opt_states (ensure_option env p t) i = opt_states t i"
  "opt_states (ensure_option env p t) i = ACTIVE \<longleftrightarrow> opt_states t i = ACTIVE"
  "tn_echoing (ensure_option env p t) = tn_echoing t" "tn_editing (ensure_option env p t) = tn_editing t"
  "tn_conf (ensure_option env p t) = tn_conf t"
  by (auto simp: ensure_option_def send_opt_def)

lemma side_effects_fields [simp]:
  "opt_states (option_side_effects env p e t) i = ACTIVE \<longleftrightarrow> opt_states t i = ACTIVE"
  "tn_echoing (option_side_effects env p e t) =
     (if opt_option p = TELOPT_ECHO \<and> opt_send p = DO then \<not> e else tn_echoing t)"
  "tn_editing (option_side_effects env p e t) =
     (if opt_option p = TELOPT_SGA \<and> opt_send p = DO then \<not> e else tn_editing t)"
  "activated (option_side_effects env p e t)"
  "tn_conf (option_side_effects env p e t) = tn_conf t"
  by (auto simp: option_side_effects_def Let_def)

text \<open>The part of the invariant that holds once something was negotiated.\<close>

definition options_ok :: "telnet \<Rightarrow> bool" where
  "options_ok t \<longleftrightarrow>
     tn_echoing t = (opt_states t OPTINDEX_ECHO \<noteq> ACTIVE) \<and>
     tn_editing t = (opt_states t OPTINDEX_THEY_SGA \<noteq> ACTIVE) \<and>
     \<not> (opt_states t OPTINDEX_OENV = ACTIVE \<and> opt_states t OPTINDEX_NENV = ACTIVE)"

lemma negotiation_okI: "\<lbrakk>options_ok t; activated t\<rbrakk> \<Longrightarrow> negotiation_ok t"
  by (simp add: options_ok_def negotiation_ok_def)

lemma negotiation_okD: "negotiation_ok t \<Longrightarrow> options_ok t"
  by (simp add: options_ok_def negotiation_ok_def)

lemma activate_ok:
  assumes "options_ok t" "p \<in> set opts"
  shows "negotiation_ok (activate_option env p (set_opt (opt_index p) ACTIVE t))"
    "negotiation_ok (activate_option env p (send_opt env c d (set_opt (opt_index p) ACTIVE t)))"
  using assms
  by (intro negotiation_okI; rule_tac opt_cases [OF assms(2)];
      simp add: options_ok_def activate_option_def send_opt_def)+

lemma refuse_ok:
  assumes "options_ok t" "p \<in> set opts"
  shows "negotiation_ok (refused_option env p (set_opt (opt_index p) INACTIVE t))"
    "negotiation_ok (option_side_effects env p False (send_opt env c d (set_opt (opt_index p) INACTIVE t)))"
  using assms
  by (intro negotiation_okI; rule_tac opt_cases [OF assms(2)];
      simp add: options_ok_def refused_option_def send_opt_def)+

lemma rec_ack_ok:
  assumes "negotiation_ok t" "p \<in> set opts"
  shows "negotiation_ok (rec_ack env p t)"
  using assms activate_ok [OF negotiation_okD [OF assms(1)] assms(2)]
  by (cases "opt_states t (opt_index p)") (auto simp: rec_ack_def send_opt_def negotiation_ok_def)

lemma rec_nak_ok:
  assumes "negotiation_ok t" "p \<in> set opts"
  shows "negotiation_ok (rec_nak env p t)"
  using assms refuse_ok [OF negotiation_okD [OF assms(1)] assms(2)]
  by (cases "opt_states t (opt_index p)") (auto simp: rec_nak_def)

lemma find_mem: "List.find P xs = Some x \<Longrightarrow> x \<in> set xs \<and> P x"
  by (auto simp: find_Some_iff)

lemma negotiation_ok_frame:
  "\<lbrakk>tn_echoing u = tn_echoing t; tn_editing u = tn_editing t; opt_states u = opt_states t; activated u = activated t\<rbrakk>
   \<Longrightarrow> negotiation_ok u = negotiation_ok t"
  by (simp add: negotiation_ok_def)

lemma proc_rec_opt_ok: "negotiation_ok t \<Longrightarrow> negotiation_ok (proc_rec_opt env cmd option t)"
  unfolding proc_rec_opt_cases
  by (auto dest: find_mem intro: rec_ack_ok rec_nak_ok simp: send_opt_def negotiation_ok_frame [of "tn_write _ _ _"]
      split: option.split)

text \<open>Nothing but negotiation changes the options and what mirrors them.\<close>

definition same_options :: "telnet \<Rightarrow> telnet \<Rightarrow> bool" where
  "same_options t u \<longleftrightarrow>
     tn_echoing u = tn_echoing t \<and> tn_editing u = tn_editing t \<and>
     opt_states u = opt_states t \<and> activated u = activated t"

lemma same_options_ok: "\<lbrakk>same_options t u; negotiation_ok t\<rbrakk> \<Longrightarrow> negotiation_ok u"
  by (simp add: same_options_def negotiation_ok_def)

lemma process_subneg_options: "process_subneg env t = Some u \<Longrightarrow> same_options t u"
  by (auto simp: process_subneg_def subneg_environ_def same_options_def split: if_splits option.splits list.splits prod.splits)

lemma c_write_options: "same_options t (c_write env buf t)"
  by (simp add: c_write_def same_options_def Let_def)

lemma read_byte_ok:
  assumes "telnet_read_byte env c t out = Some (u, out')" "negotiation_ok t"
  shows "negotiation_ok u"
proof -
  have w: "negotiation_ok (u\<lparr>tn_state := s\<rparr>) = negotiation_ok u" for u s
    by (simp add: negotiation_ok_def)
  show ?thesis
  proof (cases "tn_state t = SUBNEG_IAC")
    case True
    with assms show ?thesis
      by (auto simp: telnet_read_byte_def w dest: process_subneg_options [THEN same_options_ok]
          split: if_splits) (simp add: negotiation_ok_def)
  next
    case False
    show ?thesis
    proof (cases "tn_state t \<in> {SEENWILL, SEENWONT, SEENDO, SEENDONT}")
      case True
      with assms show ?thesis by (auto simp: telnet_read_byte_def w proc_rec_opt_ok)
    next
      case f: False
      have "same_options t u"
        using False f assms(1)
        by (cases "tn_state t")
          (auto simp: telnet_read_byte_def read_top_level_def read_iac_def same_options_def split: if_splits)
      then show ?thesis using assms(2) by (rule same_options_ok)
    qed
  qed
qed

lemma read_loop_ok: "\<lbrakk>telnet_read_loop env buf t out = Some (u, out'); negotiation_ok t\<rbrakk> \<Longrightarrow> negotiation_ok u"
proof (induction buf arbitrary: t out)
  case (Cons c buf)
  obtain t1 out1 where b: "telnet_read_byte env c t out = Some (t1, out1)"
    using Cons.prems(1) by (auto split: option.splits)
  note ok = read_byte_ok [OF b Cons.prems(2)]
  show ?case
  proof (cases "length out1 \<ge> 4096")
    case True
    have "negotiation_ok (c_write env out1 t1)" using c_write_options ok by (rule same_options_ok)
    then show ?thesis using Cons.IH Cons.prems(1) b True by simp
  next
    case False
    then show ?thesis using Cons.IH Cons.prems(1) b ok by simp
  qed
qed simp

lemma do_telnet_read_ok: "\<lbrakk>do_telnet_read env buf t = Some u; negotiation_ok t\<rbrakk> \<Longrightarrow> negotiation_ok u"
  by (auto simp: do_telnet_read_def dest: read_loop_ok intro: same_options_ok [OF c_write_options] split: if_splits)

lemma send_escaped_options: "same_options t (snd (send_escaped env ps t))"
  by (induction env ps t rule: send_escaped.induct) (auto simp: same_options_def)

lemma send_loop_options: "same_options t (telnet_send_loop env p t)"
proof (induction env p t rule: telnet_send_loop.induct)
  case (1 env p t)
  show ?case
  proof (cases "p = []")
    case False
    let ?t1 = "tn_write env (takeWhile (iswritable t) p) t"
    obtain q t2 where q: "send_escaped env (dropWhile (iswritable t) p) ?t1 = (q, t2)" by fastforce
    have "same_options t2 (telnet_send_loop env q t2)" using 1 [OF False refl q [symmetric] refl] by simp
    moreover have "same_options ?t1 t2" using send_escaped_options [of ?t1 env "dropWhile (iswritable t) p"] q by simp
    ultimately show ?thesis
      using False q by (subst telnet_send_loop.simps) (simp add: same_options_def Let_def)
  qed (simp add: telnet_send_loop.simps same_options_def)
qed

section \<open>The back end as a step relation\<close>

datatype tn_input =
    Receive bool bytes | Send bytes | Size uint32 uint32 | Special uint32 | Provide_Ldisc bool
  | Connected | Closing PlugCloseType bool | Sent nat | Unthrottle nat | Reconfig conf

fun telnet_input :: "tn_env \<Rightarrow> tn_input \<Rightarrow> telnet \<Rightarrow> telnet option" where
  "telnet_input env (Receive urgent data) t = telnet_receive env urgent data t"
| "telnet_input env (Send buf) t = Some (telnet_send env buf t)"
| "telnet_input env (Size w h) t = Some (telnet_size env w h t)"
| "telnet_input env (Special code) t = Some (telnet_special env code t)"
| "telnet_input env (Provide_Ldisc given) t = Some (telnet_provide_ldisc given t)"
| "telnet_input env Connected t = Some (telnet_connect_success t)"
| "telnet_input env (Closing type msg) t = Some (telnet_closing type msg t)"
| "telnet_input env (Sent n) t = Some (telnet_sent n t)"
| "telnet_input env (Unthrottle n) t = telnet_unthrottle n t"
| "telnet_input env (Reconfig conf) t = telnet_reconfig conf t"

inductive telnet_reaches :: "tn_env \<Rightarrow> telnet \<Rightarrow> bool" for env where
  reach_init: "telnet_init env conf = Some t \<Longrightarrow> telnet_reaches env t"
| reach_input: "\<lbrakk>telnet_reaches env t; telnet_input env i t = Some u\<rbrakk> \<Longrightarrow> telnet_reaches env u"

lemma init_options_fields:
  "opt_states (init_options env pass ps t) =
     fold (\<lambda>p f. f(opt_index p := if pass then INACTIVE else opt_initial_state p)) ps (opt_states t)"
  "tn_echoing (init_options env pass ps t) = tn_echoing t"
  "tn_editing (init_options env pass ps t) = tn_editing t"
  "activated (init_options env pass ps t) = activated t"
  by (induction ps arbitrary: t) (simp_all add: send_opt_def Let_def)

lemma init_states: "fold (\<lambda>p f. f(opt_index p := INACTIVE)) opts f = (\<lambda>_. INACTIVE)"
proof
  show "fold (\<lambda>p f. f(opt_index p := INACTIVE)) opts f i = INACTIVE" for i
    by (cases i) (simp_all add: opts_def opt_defs)
qed

lemma init_ok:
  assumes "telnet_init env conf = Some t"
  shows "negotiation_ok t"
proof -
  obtain conf' w h pass where t: "t = (let t = init_options env pass opts (telnet_new conf' w h);
        t = (if pass then t else t\<lparr>activated := True\<rparr>) in t\<lparr>in_synch := False\<rparr>)"
    using assms by (auto simp: telnet_init_def Let_def split: option.splits prod.splits)
  show ?thesis
  proof (cases pass)
    case True
    then show ?thesis
      by (simp add: t negotiation_ok_def init_options_fields init_states telnet_new_def)
  next
    case False
    then show ?thesis
      by (simp add: t negotiation_ok_def init_options_fields telnet_new_def) (simp add: opts_def opt_defs)
  qed
qed

lemma same_options_write:
  "same_options t u \<Longrightarrow> same_options t (tn_write env bs u)" "same_options t u \<Longrightarrow> same_options t (tn_write_oob env bs u)"
  "same_options t t"
  by (simp_all add: same_options_def tn_write_oob_def Let_def)

lemma same_options_if: "\<lbrakk>same_options t u; same_options t v\<rbrakk> \<Longrightarrow> same_options t (if c then u else v)"
  by simp

lemma small_input_options:
  "same_options t (telnet_size env w h t)"
  "same_options t (telnet_special env code t)"
  "same_options t (telnet_provide_ldisc given t)"
  "same_options t (telnet_connect_success t)"
  "same_options t (telnet_closing type msg t)"
  "same_options t (telnet_sent n t)"
  "telnet_unthrottle n t = Some u \<Longrightarrow> same_options t u"
  "telnet_reconfig conf t = Some u \<Longrightarrow> same_options t u"
proof -
  show "same_options t (telnet_special env code t)"
    unfolding telnet_special_def by (intro same_options_if same_options_write)
qed (auto simp: same_options_def telnet_provide_ldisc_def telnet_connect_success_def
    telnet_closing_def telnet_sent_def telnet_unthrottle_def telnet_reconfig_def Let_def split: if_splits)

lemma telnet_input_ok:
  assumes "telnet_input env i t = Some u" "negotiation_ok t"
  shows "negotiation_ok u"
proof (cases i)
  case (Receive urgent data)
  have "negotiation_ok (if urgent then t\<lparr>in_synch := True\<rparr> else t)" using assms(2) by (simp add: negotiation_ok_def)
  then show ?thesis using assms(1) Receive by (auto simp: telnet_receive_def split: if_splits intro: do_telnet_read_ok)
next
  case (Send buf)
  then show ?thesis using assms same_options_ok [OF send_loop_options] by (auto simp: telnet_send_def split: if_splits)
qed (use assms small_input_options [THEN same_options_ok] in auto)

section \<open>A sample configuration\<close>

definition sample_env :: tn_env where
  "sample_env = \<lparr>env_sock_backlog = (\<lambda>_. 0), env_seat_backlog = (\<lambda>_. 0), env_username = None\<rparr>"

definition sample_settings :: "conf_op list" where
  "sample_settings = [SetStr 55 [51], SetStr 54 [120], SetStr 58 [], SetBool 59 False, SetBool 61 True,
     SetBool 62 False, SetInt 126 80, SetInt 127 24]"

lemma telnet_indices:
  "conf_index ''termspeed'' = 55" "conf_index ''termtype'' = 54" "conf_index ''username'' = 58"
  "conf_index ''username_from_env'' = 59" "conf_index ''rfc_environ'' = 61" "conf_index ''environmt'' = 57"
  "conf_index ''passive_telnet'' = 62" "conf_index ''width'' = 126" "conf_index ''height'' = 127"
  by code_simp+

lemma telnet_option_types:
  "has_types 55 TYPE_NONE TYPE_STR" "has_types 54 TYPE_NONE TYPE_STR" "has_types 58 TYPE_NONE TYPE_STR"
  "has_types 59 TYPE_NONE TYPE_BOOL" "has_types 61 TYPE_NONE TYPE_BOOL" "has_types 57 TYPE_STR TYPE_STR"
  "has_types 62 TYPE_NONE TYPE_BOOL" "has_types 126 TYPE_NONE TYPE_INT" "has_types 127 TYPE_NONE TYPE_INT"
  by code_simp+

definition sample_map :: "key \<rightharpoonup> conf_value" where
  "sample_map = Map.empty(key_none 55 \<mapsto> StrV [51], key_none 54 \<mapsto> StrV [120], key_none 58 \<mapsto> StrV [],
     key_none 59 \<mapsto> BoolV False, key_none 61 \<mapsto> BoolV True, key_none 62 \<mapsto> BoolV False,
     key_none 126 \<mapsto> IntV 80, key_none 127 \<mapsto> IntV 24)"

lemma sample_settings_map: "\<exists>c. conf_ok c \<and> conf_map c = sample_map"
proof -
  have init: "conf_ok conf_new \<and> conf_map conf_new = Map.empty"
    by (simp add: conf_new_ok conf_map_def)
  have run: "run_ops spec_conf Map.empty sample_settings =
      Some ([None, None, None, None, None, None, None, None], sample_map)"
    by (simp add: sample_settings_def sample_map_def spec_set_def telnet_option_types cstring_def)
  have "\<exists>c. run_ops run_conf conf_new sample_settings = Some ([None, None, None, None, None, None, None, None], c) \<and>
      conf_ok c \<and> conf_map c = sample_map"
    by (rule run_ops_simulation [where R = "\<lambda>c m. conf_ok c \<and> conf_map c = m" and f = run_conf and g = spec_conf,
          OF _ init run]) (rule run_conf_spec)
  then show ?thesis by blast
qed

lemma sample_telnet:
  obtains c t where "telnet_init sample_env c = Some t" "tn_open t" "activated t" "conf_ok (tn_conf t)"
    "conf_map (tn_conf t) = sample_map"
    "opt_states t OPTINDEX_ECHO = REQUESTED" "opt_states t OPTINDEX_NAWS = REQUESTED"
proof -
  from sample_settings_map obtain c where c: "conf_ok c" "conf_map c = sample_map" by blast
  have "sorted234 conf_cmp conf_new" using conf_new_ok by (simp add: conf_ok_def)
  from conf_copy_into_ok [OF this c(1)] obtain d where d: "conf_copy c = Some d" "conf_ok d" "conf_map d = conf_map c"
    by (auto simp: conf_copy_def conf_map_def)
  have g: "conf_get_int d 126 = Some 80" "conf_get_int d 127 = Some 24" "conf_get_bool d 62 = Some False"
    using conf_get_map [OF d(2)] telnet_option_types d(3) c(2) by (simp_all add: key_none_def sample_map_def)
  define t where "t = (init_options sample_env False opts (telnet_new d 80 24))\<lparr>activated := True, in_synch := False\<rparr>"
  have i: "telnet_init sample_env c = Some t"
    by (simp add: telnet_init_def d(1) telnet_indices g t_def)
  have f: "tn_open (init_options env p ps u) = tn_open u" "tn_conf (init_options env p ps u) = tn_conf u" for env p ps u
    by (induction ps arbitrary: u) (simp_all add: send_opt_def Let_def)
  have "opt_states t = fold (\<lambda>p f. f(opt_index p := opt_initial_state p)) opts (\<lambda>_. REQUESTED)"
    by (simp add: t_def init_options_fields telnet_new_def)
  then have "opt_states t OPTINDEX_ECHO = REQUESTED" "opt_states t OPTINDEX_NAWS = REQUESTED"
    by (simp_all add: opts_def opt_defs)
  moreover have "tn_open t" "activated t" "tn_conf t = d" by (simp_all add: t_def f telnet_new_def)
  ultimately show ?thesis using that [of c t] i d(2,3) c(2) by simp
qed

lemma reaches_negotiation_ok: "telnet_reaches env t \<Longrightarrow> negotiation_ok t"
  by (induction rule: telnet_reaches.induct) (auto intro: init_ok telnet_input_ok)

text \<open>
  C8: In every reachable state of the Telnet back end, local echo is on exactly unless the server has
  taken over echoing, local editing is on exactly unless the server suppresses go-ahead, and the two
  kinds of environment option are never both active.
\<close>

theorem telnet_negotiation_invariant:
  assumes "telnet_reaches env t"
  shows "telnet_ldisc t LD_ECHO = (opt_states t OPTINDEX_ECHO \<noteq> ACTIVE) \<and>
         telnet_ldisc t LD_EDIT = (opt_states t OPTINDEX_THEY_SGA \<noteq> ACTIVE) \<and>
         \<not> (opt_states t OPTINDEX_OENV = ACTIVE \<and> opt_states t OPTINDEX_NENV = ACTIVE)"
  using reaches_negotiation_ok [OF assms] by (simp add: negotiation_ok_def telnet_ldisc_def)

theorem telnet_negotiation_invariant_witness:
  "\<exists>t. telnet_reaches sample_env t \<and> opt_states t OPTINDEX_ECHO = REQUESTED \<and> telnet_ldisc t LD_ECHO"
proof -
  obtain c t where t: "telnet_init sample_env c = Some t" "opt_states t OPTINDEX_ECHO = REQUESTED"
    by (rule sample_telnet)
  then have r: "telnet_reaches sample_env t" by (rule_tac reach_init)
  from telnet_negotiation_invariant [OF r] r t(2) show ?thesis by auto
qed

lemma opt_find:
  assumes "p \<in> set opts" "cmd = opt_ack p \<or> cmd = opt_nak p"
  shows "proc_rec_opt env cmd (opt_option p) t = (if cmd = opt_ack p then rec_ack env p t else rec_nak env p t)"
  using assms(2)
  by (rule_tac opt_cases [OF assms(1)]) (auto simp: proc_rec_opt_def opts_def)

lemma activate_own_state:
  assumes "p \<in> set opts" "opt_states t (opt_index p) = ACTIVE"
  shows "opt_states (activate_option env p t) (opt_index p) = ACTIVE"
proof -
  have "opt_states (option_side_effects env q e u) i = ACTIVE" if "opt_states u i = ACTIVE" for q e u i
    using that by simp
  then show ?thesis using assms
    by (rule_tac opt_cases [OF assms(1)]) (simp_all add: activate_option_def Let_def)
qed

lemma side_effects_activated: "activated t \<Longrightarrow> opt_states (option_side_effects env q e t) = opt_states t"
  by (simp add: option_side_effects_def Let_def)

lemma refused_own_state:
  assumes "p \<in> set opts" "activated t"
  shows "opt_states (refused_option env p t) (opt_index p) = opt_states t (opt_index p)"
  using assms(2)
  by (rule_tac opt_cases [OF assms(1)]) (simp_all add: refused_option_def send_opt_def Let_def side_effects_activated)

text \<open>
  C24: Negotiation settles. In every reachable state, the server's agreement to a supported option
  leaves it active and its refusal leaves it inactive, unless the option was given up for good: then it
  stays given up, whatever the server says. The same command once more is not answered and changes
  nothing, with one exception: each further request for an option given up for good is refused again.
\<close>

theorem negotiation_settles:
  assumes "telnet_reaches env t" "p \<in> set opts" "cmd = opt_ack p \<or> cmd = opt_nak p"
  shows "let u = proc_rec_opt env cmd (opt_option p) t; gone = (opt_states t (opt_index p) = REALLY_INACTIVE) in
           opt_states u (opt_index p) = (if gone then REALLY_INACTIVE else if cmd = opt_ack p then ACTIVE else INACTIVE) \<and>
           proc_rec_opt env cmd (opt_option p) u =
             (if gone \<and> cmd = opt_ack p then send_opt env (opt_nsend p) (opt_option p) u else u)"
proof -
  have ok: "activated t \<or> opt_states t (opt_index p) = INACTIVE"
    using reaches_negotiation_ok [OF assms(1)] by (auto simp: negotiation_ok_def)
  have a: "opt_states (rec_ack env p t) (opt_index p) =
      (if opt_states t (opt_index p) = REALLY_INACTIVE then REALLY_INACTIVE else ACTIVE)"
    using activate_own_state [OF assms(2)] by (simp add: rec_ack_def send_opt_def split: optstate.split)
  have n: "opt_states (rec_nak env p t) (opt_index p) =
      (if opt_states t (opt_index p) = REALLY_INACTIVE then REALLY_INACTIVE else INACTIVE)"
    using ok refused_own_state [OF assms(2)]
    by (auto simp: rec_nak_def send_opt_def side_effects_activated split: optstate.split)
  show ?thesis
    unfolding opt_find [OF assms(2,3)] Let_def
    using a n by (simp add: rec_ack_def [of env p "rec_ack env p t"] rec_nak_def [of env p "rec_nak env p t"])
qed

theorem negotiation_settles_witness:
  "\<exists>t. telnet_reaches sample_env t \<and>
     (let u = proc_rec_opt sample_env DO TELOPT_NAWS t in
        opt_states u OPTINDEX_NAWS = ACTIVE \<and> proc_rec_opt sample_env DO TELOPT_NAWS u = u)"
proof -
  obtain c t where t: "telnet_init sample_env c = Some t" "opt_states t OPTINDEX_NAWS = REQUESTED"
    by (rule sample_telnet) blast
  then have r: "telnet_reaches sample_env t" by (rule_tac reach_init)
  then show ?thesis
    using negotiation_settles [OF r, of o_naws DO] t(2) by (auto simp: opts_def Let_def)
qed

end
