(* ===== verification/Telnet_Stream.thy ===== *)
theory Telnet_Stream
  imports Telnet
begin

text \<open>
  The Telnet back end as a transformer of byte streams: what is sent is read back by a Telnet
  reader, reading does not depend on how the data is cut into packets, and never fails.
\<close>

section \<open>What is sent is read back\<close>

fun sock_bytes :: "tn_event list \<Rightarrow> bytes" where
  "sock_bytes [] = []"
| "sock_bytes (SockWrite bs # es) = bs @ sock_bytes es"
| "sock_bytes (_ # es) = sock_bytes es"

fun seat_bytes :: "tn_event list \<Rightarrow> bytes" where
  "seat_bytes [] = []"
| "seat_bytes (SeatStdout bs # es) = bs @ seat_bytes es"
| "seat_bytes (_ # es) = seat_bytes es"

lemma sock_bytes_append [simp]: "sock_bytes (es @ fs) = sock_bytes es @ sock_bytes fs"
  by (induction es rule: sock_bytes.induct) auto

lemma seat_bytes_append [simp]: "seat_bytes (es @ fs) = seat_bytes es @ seat_bytes fs"
  by (induction es rule: seat_bytes.induct) auto

definition escape :: "bool \<Rightarrow> byte \<Rightarrow> bytes" where
  "escape binary x = (if x = IAC then [IAC, IAC] else if x = CR \<and> \<not> binary then [CR, NUL] else [x])"

abbreviation we_binary :: "telnet \<Rightarrow> bool" where
  "we_binary t \<equiv> opt_states t OPTINDEX_WE_BIN = ACTIVE"

abbreviation they_binary :: "telnet \<Rightarrow> bool" where
  "they_binary t \<equiv> opt_states t OPTINDEX_THEY_BIN = ACTIVE"

lemma iswritable_same: "same_options t u \<Longrightarrow> iswritable u = iswritable t"
  by (rule ext) (simp add: iswritable_def same_options_def)

lemma escape_writable: "iswritable t x \<Longrightarrow> escape (we_binary t) x = [x]"
  by (auto simp: iswritable_def escape_def)

lemma send_escaped_bytes:
  assumes "send_escaped env ps t = (q, u)"
  shows "\<exists>es. ps = es @ q \<and> tn_log u = tn_log t @ map (\<lambda>x. SockWrite (escape (we_binary t) x)) es \<and>
           (\<forall>x \<in> set es. \<not> iswritable t x)"
  using assms
proof (induction ps arbitrary: t)
  case (Cons p ps)
  show ?case
  proof (cases "iswritable t p")
    case False
    then have e: "(if p = IAC then [IAC, IAC] else [CR, NUL]) = escape (we_binary t) p"
      by (auto simp: iswritable_def escape_def)
    let ?t = "tn_write env (escape (we_binary t) p) t"
    have w: "iswritable ?t = iswritable t" by (rule ext) (simp add: iswritable_def)
    have "send_escaped env ps ?t = (q, u)" using Cons.prems False e by simp
    from Cons.IH [OF this] obtain es where "ps = es @ q"
      "tn_log u = tn_log ?t @ map (\<lambda>x. SockWrite (escape (we_binary t) x)) es" "\<forall>x \<in> set es. \<not> iswritable t x"
      unfolding w by auto
    then show ?thesis using False by (intro exI [of _ "p # es"]) auto
  qed (use Cons.prems in auto)
qed simp

lemma sock_bytes_writes: "sock_bytes (map (\<lambda>x. SockWrite (f x)) xs) = concat (map f xs)"
  by (induction xs) auto

lemma concat_map_single: "(\<And>x. x \<in> set xs \<Longrightarrow> f x = [x]) \<Longrightarrow> concat (map f xs) = xs"
  by (induction xs) auto

lemma telnet_send_bytes:
  "sock_bytes (tn_log (telnet_send_loop env p t)) = sock_bytes (tn_log t) @ concat (map (escape (we_binary t)) p)"
proof (induction env p t rule: telnet_send_loop.induct)
  case (1 env p t)
  show ?case
  proof (cases "p = []")
    case False
    let ?w = "takeWhile (iswritable t) p" and ?r = "dropWhile (iswritable t) p"
    let ?t1 = "tn_write env ?w t"
    obtain q t2 where q: "send_escaped env ?r ?t1 = (q, t2)" by fastforce
    from send_escaped_bytes [OF q] obtain es where es: "?r = es @ q"
      "tn_log t2 = tn_log ?t1 @ map (\<lambda>x. SockWrite (escape (we_binary t) x)) es" by auto
    have "we_binary t2 = we_binary t"
      using send_escaped_options [of ?t1 env ?r] q by (simp add: same_options_def)
    with 1 [OF False refl q [symmetric] refl]
    have "sock_bytes (tn_log (telnet_send_loop env q t2)) = sock_bytes (tn_log t2) @ concat (map (escape (we_binary t)) q)"
      by simp
    moreover have "concat (map (escape (we_binary t)) ?w) = ?w"
      by (rule concat_map_single) (auto dest: set_takeWhileD intro: escape_writable)
    moreover have "concat (map (escape (we_binary t)) p) =
        concat (map (escape (we_binary t)) ?w) @ concat (map (escape (we_binary t)) es) @ concat (map (escape (we_binary t)) q)"
      using es(1) takeWhile_dropWhile_id [of "iswritable t" p] by (metis concat_append map_append)
    ultimately show ?thesis
      using False q es(2) by (subst telnet_send_loop.simps) (simp add: Let_def sock_bytes_writes)
  qed (simp add: telnet_send_loop.simps)
qed

text \<open>Reading a byte is followed by giving the output to the seat when there is enough of it.\<close>

definition flush_output :: "tn_env \<Rightarrow> telnet \<times> bytes \<Rightarrow> telnet \<times> bytes" where
  "flush_output env tb = (if length (snd tb) \<ge> 4096 then (c_write env (snd tb) (fst tb), []) else tb)"

lemma telnet_read_loop_Cons:
  "telnet_read_loop env (c # buf) t out =
     (case telnet_read_byte env c t out of
        None \<Rightarrow> None
      | Some tb \<Rightarrow> (case flush_output env tb of (t, out) \<Rightarrow> telnet_read_loop env buf t out))"
  by (simp add: flush_output_def split: option.split prod.split)

declare telnet_read_loop.simps(2) [simp del]

section \<open>Packets\<close>

text \<open>
  How the data is cut into packets shows in the backlogs asked for and in the sizes of the pieces
  given to the seat, and in nothing else. \<open>core\<close> leaves out what depends on it.
\<close>

definition core :: "telnet \<Rightarrow> telnet" where
  "core t = t\<lparr>bufsize := 0, tn_log := []\<rparr>"

lemma core_fields [simp]:
  "tn_open (core t) = tn_open t" "socket_connected (core t) = socket_connected t"
  "tn_has_ldisc (core t) = tn_has_ldisc t"
  "term_width (core t) = term_width t" "term_height (core t) = term_height t"
  "opt_states (core t) = opt_states t" "tn_echoing (core t) = tn_echoing t"
  "tn_editing (core t) = tn_editing t" "activated (core t) = activated t" "in_synch (core t) = in_synch t"
  "sb_opt (core t) = sb_opt t" "sb_buf (core t) = sb_buf t" "tn_state (core t) = tn_state t"
  "tn_conf (core t) = tn_conf t" "tn_log (core t) = []"
  by (simp_all add: core_def)

lemma core_simps [simp]:
  "core (core t) = core t"
  "core (tn_emit e t) = core t" "core (tn_write env bs t) = core t" "core (c_write env bs t) = core t"
  "core (t\<lparr>opt_states := x\<rparr>) = (core t)\<lparr>opt_states := x\<rparr>"
  "core (t\<lparr>tn_echoing := b\<rparr>) = (core t)\<lparr>tn_echoing := b\<rparr>"
  "core (t\<lparr>tn_editing := b\<rparr>) = (core t)\<lparr>tn_editing := b\<rparr>"
  "core (t\<lparr>activated := b\<rparr>) = (core t)\<lparr>activated := b\<rparr>"
  "core (t\<lparr>in_synch := b\<rparr>) = (core t)\<lparr>in_synch := b\<rparr>"
  "core (t\<lparr>tn_state := s\<rparr>) = (core t)\<lparr>tn_state := s\<rparr>"
  "core (t\<lparr>sb_opt := c\<rparr>) = (core t)\<lparr>sb_opt := c\<rparr>"
  "core (t\<lparr>sb_buf := bs\<rparr>) = (core t)\<lparr>sb_buf := bs\<rparr>"
  "core (t\<lparr>term_width := w\<rparr>) = (core t)\<lparr>term_width := w\<rparr>"
  "core (t\<lparr>term_height := w\<rparr>) = (core t)\<lparr>term_height := w\<rparr>"
  by (simp_all add: core_def tn_emit_def tn_write_def c_write_def Let_def)

lemma core_eqD:
  assumes "core t = core u"
  shows "tn_open t = tn_open u" "opt_states t = opt_states u" "in_synch t = in_synch u"
    "sb_opt t = sb_opt u" "sb_buf t = sb_buf u" "tn_state t = tn_state u" "tn_conf t = tn_conf u"
  using assms by (metis core_fields)+

definition log_blind :: "(telnet \<Rightarrow> telnet) \<Rightarrow> bool" where
  "log_blind f \<longleftrightarrow>
     (\<forall>t. core (f t) = core (f (core t)) \<and> tn_log (f t) = tn_log t @ tn_log (f (core t)) \<and>
          seat_bytes (tn_log (f t)) = seat_bytes (tn_log t))"

lemma log_blindD:
  assumes "log_blind f"
  shows "core (f t) = core (f (core t))" "tn_log (f t) = tn_log t @ tn_log (f (core t))"
    "seat_bytes (tn_log (f t)) = seat_bytes (tn_log t)"
  using assms unfolding log_blind_def by blast+

lemma log_blind_comp:
  assumes "log_blind g" "log_blind f"
  shows "log_blind (g \<circ> f)"
  unfolding log_blind_def comp_def
proof (intro allI conjI)
  fix t
  have g: "core (g (f t)) = core (g (core (f (core t))))" "core (g (f (core t))) = core (g (core (f (core t))))"
    using log_blindD(1) [OF assms(1)] log_blindD(1) [OF assms(2)] by metis+
  then show "core (g (f t)) = core (g (f (core t)))" by simp
  have "tn_log (g (f t)) = tn_log (f t) @ tn_log (g (core (f t)))"
    "tn_log (g (f (core t))) = tn_log (f (core t)) @ tn_log (g (core (f (core t))))"
    by (rule log_blindD(2) [OF assms(1)])+
  moreover have "core (f t) = core (f (core t))" by (rule log_blindD(1) [OF assms(2)])
  ultimately show "tn_log (g (f t)) = tn_log t @ tn_log (g (f (core t)))"
    using log_blindD(2) [OF assms(2), of t] by simp
  show "seat_bytes (tn_log (g (f t))) = seat_bytes (tn_log t)"
    using log_blindD(3) [OF assms(1)] log_blindD(3) [OF assms(2)] by simp
qed

lemma log_blind_if:
  assumes "\<And>t. P (core t) = P t" "log_blind f" "log_blind g"
  shows "log_blind (\<lambda>t. if P t then f t else g t)"
  unfolding log_blind_def assms(1)
proof
  fix t
  show "core (if P t then f t else g t) = core (if P t then f (core t) else g (core t)) \<and>
      tn_log (if P t then f t else g t) = tn_log t @ tn_log (if P t then f (core t) else g (core t)) \<and>
      seat_bytes (tn_log (if P t then f t else g t)) = seat_bytes (tn_log t)"
  proof (cases "P t")
    case True
    show ?thesis unfolding if_P [OF True] by (intro conjI log_blindD [OF assms(2)])
  next
    case False
    show ?thesis unfolding if_not_P [OF False] by (intro conjI log_blindD [OF assms(3)])
  qed
qed

lemma log_blind_atoms:
  "log_blind (\<lambda>t. t)" "log_blind (set_opt i s)" "log_blind (send_opt env cmd option)"
  "log_blind (tn_emit LdiscEchoEdit)" "log_blind (\<lambda>t. t\<lparr>tn_echoing := b\<rparr>)"
  "log_blind (\<lambda>t. t\<lparr>tn_editing := b\<rparr>)" "log_blind (\<lambda>t. t\<lparr>activated := b\<rparr>)"
  by (simp_all add: log_blind_def send_opt_def)

lemma log_blind_size: "log_blind (\<lambda>t. telnet_size env (term_width t) (term_height t) t)"
proof -
  define ms where "ms = (\<lambda>t :: telnet. if tn_open t \<and> opt_states t OPTINDEX_NAWS = ACTIVE
      then [SockWrite (naws_message (term_width t) (term_height t))] else [])"
  have same: "t\<lparr>term_width := term_width t, term_height := term_height t\<rparr> = t" for t :: telnet by simp
  have "core (telnet_size env (term_width t) (term_height t) t) = core t"
    "tn_log (telnet_size env (term_width t) (term_height t) t) = tn_log t @ ms t"
    "seat_bytes (ms t) = []" "ms (core t) = ms t" for t
    by (auto simp: telnet_size_def ms_def same)
  then show ?thesis
    unfolding log_blind_def by (metis append_Nil append_Nil2 core_fields(4,5,15) core_simps(1) seat_bytes_append)
qed

lemma log_blind_ensure: "log_blind (ensure_option env p)" "log_blind (deactivate_option env p)"
proof -
  have e: "ensure_option env p =
      (\<lambda>t. if opt_states t (opt_index p) = INACTIVE
            then (send_opt env (opt_send p) (opt_option p) \<circ> set_opt (opt_index p) REQUESTED) t else t)"
    by (rule ext) (simp add: ensure_option_def)
  have d: "deactivate_option env p = set_opt (opt_index p) REALLY_INACTIVE \<circ>
      (\<lambda>t. if opt_states t (opt_index p) = REQUESTED \<or> opt_states t (opt_index p) = ACTIVE
            then send_opt env (opt_nsend p) (opt_option p) t else t)"
    by (rule ext) (simp add: deactivate_option_def Let_def)
  show "log_blind (ensure_option env p)"
    unfolding e by (intro log_blind_comp log_blind_if log_blind_atoms; simp)
  show "log_blind (deactivate_option env p)"
    unfolding d by (intro log_blind_comp log_blind_if log_blind_atoms; simp)
qed

lemma log_blind_side_effects: "log_blind (option_side_effects env p enabled)"
proof -
  have "option_side_effects env p enabled =
      (\<lambda>t. if activated t then t
            else ((\<lambda>t. t\<lparr>activated := True\<rparr>) \<circ> ensure_option env o_they_sga \<circ> ensure_option env o_we_sga \<circ>
                  ensure_option env o_echo) t) \<circ>
      (\<lambda>t. if tn_has_ldisc t then tn_emit LdiscEchoEdit t else t) \<circ>
      (\<lambda>t. if opt_option p = TELOPT_ECHO \<and> opt_send p = DO then t\<lparr>tn_echoing := \<not> enabled\<rparr>
            else if opt_option p = TELOPT_SGA \<and> opt_send p = DO then t\<lparr>tn_editing := \<not> enabled\<rparr> else t)"
    by (rule ext) (simp add: option_side_effects_def Let_def)
  then show ?thesis
    by (simp only:) (intro log_blind_comp log_blind_if log_blind_atoms log_blind_ensure; simp)
qed

lemma log_blind_activate: "log_blind (activate_option env p)"
proof -
  have "activate_option env p = option_side_effects env p True \<circ>
      (\<lambda>t. if opt_send p = WILL \<and> (opt_option p = TELOPT_NEW_ENVIRON \<or> opt_option p = TELOPT_OLD_ENVIRON)
            then deactivate_option env (if opt_option p = TELOPT_NEW_ENVIRON then o_oenv else o_nenv) t else t) \<circ>
      (\<lambda>t. if opt_send p = WILL \<and> opt_option p = TELOPT_NAWS
            then telnet_size env (term_width t) (term_height t) t else t)"
    by (rule ext) (simp add: activate_option_def Let_def)
  then show ?thesis
    by (simp only:) (intro log_blind_comp log_blind_if log_blind_atoms log_blind_ensure log_blind_size log_blind_side_effects; simp)
qed

lemma log_blind_refused: "log_blind (refused_option env p)"
proof -
  have "refused_option env p = option_side_effects env p False \<circ>
      (\<lambda>t. if opt_send p = WILL \<and> opt_option p = TELOPT_NEW_ENVIRON \<and> opt_states t (opt_index o_oenv) = INACTIVE
            then (set_opt (opt_index o_oenv) REQUESTED \<circ> send_opt env WILL TELOPT_OLD_ENVIRON) t else t)"
    by (rule ext) (simp add: refused_option_def Let_def)
  then show ?thesis
    by (simp only:) (intro log_blind_comp log_blind_if log_blind_atoms log_blind_side_effects; simp)
qed

lemma log_blind_rec: "log_blind (rec_ack env p)" "log_blind (rec_nak env p)"
proof -
  have a: "rec_ack env p =
      (\<lambda>t. if opt_states t (opt_index p) = REQUESTED then (activate_option env p \<circ> set_opt (opt_index p) ACTIVE) t
            else if opt_states t (opt_index p) = ACTIVE then t
            else if opt_states t (opt_index p) = INACTIVE
            then (activate_option env p \<circ> send_opt env (opt_send p) (opt_option p) \<circ> set_opt (opt_index p) ACTIVE) t
            else send_opt env (opt_nsend p) (opt_option p) t)"
    by (rule ext) (simp add: rec_ack_def split: optstate.split)
  have n: "rec_nak env p =
      (\<lambda>t. if opt_states t (opt_index p) = REQUESTED then (refused_option env p \<circ> set_opt (opt_index p) INACTIVE) t
            else if opt_states t (opt_index p) = ACTIVE
            then (option_side_effects env p False \<circ> send_opt env (opt_nsend p) (opt_option p) \<circ> set_opt (opt_index p) INACTIVE) t
            else t)"
    by (rule ext) (simp add: rec_nak_def split: optstate.split)
  show "log_blind (rec_ack env p)"
    unfolding a by (intro log_blind_comp log_blind_if log_blind_atoms log_blind_activate; simp)
  show "log_blind (rec_nak env p)"
    unfolding n by (intro log_blind_comp log_blind_if log_blind_atoms log_blind_refused log_blind_side_effects; simp)
qed

lemma log_blind_proc: "log_blind (proc_rec_opt env cmd option)"
proof -
  have "log_blind (proc_opts env ps cmd option)" for ps
  proof (induction ps)
    case Nil
    show ?case using log_blind_atoms(3) by (cases "cmd = WILL \<or> cmd = DO") (simp_all add: log_blind_atoms(1))
  next
    case (Cons p ps)
    have "proc_opts env (p # ps) cmd option =
        (\<lambda>t. if opt_option p = option \<and> opt_ack p = cmd then rec_ack env p t
              else if opt_option p = option \<and> opt_nak p = cmd then rec_nak env p t
              else proc_opts env ps cmd option t)"
      by (rule ext) simp
    then show ?case by (simp only:) (intro log_blind_if log_blind_rec Cons; simp)
  qed
  then have "log_blind (proc_opts env opts cmd option)" .
  moreover have "proc_rec_opt env cmd option = proc_opts env opts cmd option"
    by (rule ext) (simp add: proc_rec_opt_def)
  ultimately show ?thesis by simp
qed

text \<open>
  Two readers in the middle of a stream that differ only in how much they have already given to the
  seat.
\<close>

definition visible :: "tn_event list \<Rightarrow> tn_event list" where
  "visible es = filter (\<lambda>e. case e of SeatStdout _ \<Rightarrow> False | SockFrozen _ \<Rightarrow> False | _ \<Rightarrow> True) es"

lemma visible_append [simp]: "visible (es @ fs) = visible es @ visible fs"
  by (simp add: visible_def)

definition same_stream :: "telnet \<times> bytes \<Rightarrow> telnet \<times> bytes \<Rightarrow> bool" where
  "same_stream tb ub \<longleftrightarrow>
     core (fst tb) = core (fst ub) \<and> visible (tn_log (fst tb)) = visible (tn_log (fst ub)) \<and>
     seat_bytes (tn_log (fst tb)) @ snd tb = seat_bytes (tn_log (fst ub)) @ snd ub"

lemma same_stream_refl [simp]: "same_stream tb tb"
  by (simp add: same_stream_def)

lemma same_stream_trans: "\<lbrakk>same_stream a b; same_stream b c\<rbrakk> \<Longrightarrow> same_stream a c"
  by (simp add: same_stream_def)

lemma same_stream_sym: "same_stream a b \<Longrightarrow> same_stream b a"
  by (simp add: same_stream_def)

lemma same_stream_blind:
  assumes "log_blind f" "same_stream (t, out) (u, out')"
  shows "same_stream (f t, out @ xs) (f u, out' @ xs)"
proof -
  have c: "core t = core u" using assms(2) by (simp add: same_stream_def)
  then have "core (f t) = core (f u)" using log_blindD(1) [OF assms(1)] by metis
  moreover have "visible (tn_log (f t)) = visible (tn_log (f u))"
    using log_blindD(2) [OF assms(1), of t] log_blindD(2) [OF assms(1), of u] c assms(2)
    by (simp add: same_stream_def)
  ultimately show ?thesis
    using log_blindD(3) [OF assms(1)] assms(2) by (simp add: same_stream_def flip: append_assoc)
qed

lemma same_stream_flush: "same_stream (flush_output env tb) tb"
  by (auto simp: same_stream_def flush_output_def c_write_def Let_def visible_def)

lemma same_stream_update:
  assumes "same_stream (t, out) (u, out')" "\<And>t. core (g t) = h (core t)" "\<And>t. tn_log (g t) = tn_log t"
  shows "same_stream (g t, out @ xs) (g u, out' @ xs)"
  using assms(1) unfolding same_stream_def assms(2) fst_conv snd_conv assms(3) by (metis append_assoc)

lemma log_blind_write: "log_blind (tn_write env bs)"
  by (simp add: log_blind_def)

lemma subneg_stream:
  assumes "same_stream (t, out) (u, out')"
  shows "rel_option (\<lambda>t u. same_stream (t, out) (u, out')) (process_subneg env t) (process_subneg env u)"
proof -
  have c: "core t = core u" using assms by (simp add: same_stream_def)
  note f = core_eqD [OF c [symmetric]]
  have w: "same_stream (tn_write env b t, out) (tn_write env b u, out')" for b
    using same_stream_blind [OF log_blind_write assms, of env b "[]"] by simp
  have o: "rel_option (\<lambda>t u. same_stream (t, out) (u, out'))
      (map_option (\<lambda>b. tn_write env b t) r) (map_option (\<lambda>b. tn_write env b u) r)" for r
    using w by (cases r) auto
  have e: "rel_option (\<lambda>t u. same_stream (t, out) (u, out')) (subneg_environ env t) (subneg_environ env u)"
    unfolding subneg_environ_def f using assms o by (auto split: list.split option.split prod.split)
  show ?thesis
    unfolding process_subneg_def f using assms o e by (auto split: option.split)
qed

lemma read_byte_stream:
  assumes "same_stream (t, out) (u, out')"
  shows "rel_option same_stream (telnet_read_byte env c t out) (telnet_read_byte env c u out')"
proof -
  have c: "core t = core u" using assms by (simp add: same_stream_def)
  note f = core_eqD [OF c [symmetric]]
  note upd = same_stream_update [OF assms, where xs = "[]", simplified]
  note put = same_stream_update [OF assms]
  have st: "same_stream (t\<lparr>tn_state := s\<rparr>, out @ xs) (u\<lparr>tn_state := s\<rparr>, out' @ xs)" for s xs
    by (rule put) simp_all
  have op: "same_stream ((proc_rec_opt env cmd c t)\<lparr>tn_state := s\<rparr>, out) ((proc_rec_opt env cmd c u)\<lparr>tn_state := s\<rparr>, out')" for cmd s
    using same_stream_update [OF same_stream_blind [OF log_blind_proc assms, of env cmd c "[]"],
        where xs = "[]" and g = "\<lambda>t. t\<lparr>tn_state := s\<rparr>" and h = "\<lambda>t. t\<lparr>tn_state := s\<rparr>"] by simp
  have "rel_option same_stream
      (map_option (\<lambda>t. (t\<lparr>tn_state := TOP_LEVEL\<rparr>, out)) (process_subneg env t))
      (map_option (\<lambda>t. (t\<lparr>tn_state := TOP_LEVEL\<rparr>, out')) (process_subneg env u))"
    unfolding option.rel_map
    by (rule option.rel_mono_strong [OF subneg_stream [OF assms]])
      (use same_stream_update [where xs = "[]" and g = "\<lambda>t. t\<lparr>tn_state := TOP_LEVEL\<rparr>" and
          h = "\<lambda>t. t\<lparr>tn_state := TOP_LEVEL\<rparr>"] in simp)
  moreover have "same_stream (read_iac c t out) (read_iac c u out')"
    unfolding read_iac_def using st [where xs = "[]"] st [where xs = "[IAC]"]
      upd [where g = "\<lambda>t. t\<lparr>in_synch := False, tn_state := TOP_LEVEL\<rparr>" and
          h = "\<lambda>t. t\<lparr>in_synch := False, tn_state := TOP_LEVEL\<rparr>"] by simp
  moreover have "same_stream (read_top_level c t out) (read_top_level c u out')"
    unfolding read_top_level_def f Let_def
    using f st [where xs = "[]"] st
      upd [where g = "\<lambda>t. t\<lparr>in_synch := False, tn_state := s\<rparr>" and
          h = "\<lambda>t. t\<lparr>in_synch := False, tn_state := s\<rparr>" for s] by simp
  moreover have "same_stream (t\<lparr>sb_opt := c, sb_buf := [], tn_state := SUBNEGOT\<rparr>, out)
      (u\<lparr>sb_opt := c, sb_buf := [], tn_state := SUBNEGOT\<rparr>, out')"
    by (rule upd [where h = "\<lambda>t. t\<lparr>sb_opt := c, sb_buf := [], tn_state := SUBNEGOT\<rparr>"]) simp_all
  moreover have "same_stream (t\<lparr>sb_buf := sb_buf t @ [c], tn_state := SUBNEGOT\<rparr>, out)
      (u\<lparr>sb_buf := sb_buf u @ [c], tn_state := SUBNEGOT\<rparr>, out')"
    by (rule upd [where g = "\<lambda>t. t\<lparr>sb_buf := sb_buf t @ [c], tn_state := SUBNEGOT\<rparr>" and
          h = "\<lambda>t. t\<lparr>sb_buf := sb_buf t @ [c], tn_state := SUBNEGOT\<rparr>"]) simp_all
  ultimately show ?thesis
    unfolding telnet_read_byte_def f using op st [where xs = "[]"] f
    by (cases "tn_state t") simp_all
qed

lemma read_loop_stream:
  assumes "same_stream (t, out) (u, out')"
  shows "rel_option same_stream (telnet_read_loop env buf t out) (telnet_read_loop env buf u out')"
  using assms
proof (induction buf arbitrary: t out u out')
  case (Cons c buf)
  have "rel_option same_stream (telnet_read_byte env c t out) (telnet_read_byte env c u out')"
    by (rule read_byte_stream [OF Cons.prems])
  then show ?case
  proof (cases rule: option.rel_cases)
    case (Some tb ub)
    have "same_stream (flush_output env tb) (flush_output env ub)"
      using same_stream_flush same_stream_sym same_stream_trans Some(3) by metis
    then show ?thesis
      using Some Cons.IH
      by (cases "flush_output env tb"; cases "flush_output env ub") (simp add: telnet_read_loop_Cons)
  qed (simp add: telnet_read_loop_Cons)
qed simp

lemma telnet_read_loop_append:
  "telnet_read_loop env (a @ b) t out =
     (case telnet_read_loop env a t out of None \<Rightarrow> None | Some (t, out) \<Rightarrow> telnet_read_loop env b t out)"
  by (induction a arbitrary: t out) (auto simp: telnet_read_loop_Cons split: option.split prod.split)

definition finish_read :: "tn_env \<Rightarrow> telnet \<times> bytes \<Rightarrow> telnet" where
  "finish_read env tb = (if snd tb \<noteq> [] then c_write env (snd tb) (fst tb) else fst tb)"

lemma do_telnet_read_finish: "do_telnet_read env buf t = map_option (finish_read env) (telnet_read_loop env buf t [])"
  unfolding do_telnet_read_def by (rule arg_cong2 [where f = map_option]) (auto simp: finish_read_def)

lemma same_stream_finish: "same_stream (finish_read env tb, []) tb"
  by (auto simp: same_stream_def finish_read_def c_write_def Let_def visible_def)

text \<open>Reading two packets is reading their concatenation.\<close>

definition same_effect :: "telnet \<Rightarrow> telnet \<Rightarrow> bool" where
  "same_effect t u \<longleftrightarrow>
     core t = core u \<and> visible (tn_log t) = visible (tn_log u) \<and> seat_bytes (tn_log t) = seat_bytes (tn_log u)"

lemma same_effect_stream: "same_effect t u \<longleftrightarrow> same_stream (t, []) (u, [])"
  by (simp add: same_effect_def same_stream_def)

lemma read_packets_stream:
  assumes "telnet_read_loop env (concat ps) t [] = Some ub"
  shows "\<exists>v. fold (\<lambda>p r. Option.bind r (do_telnet_read env p)) ps (Some t) = Some v \<and> same_stream (v, []) ub"
  using assms
proof (induction ps arbitrary: ub rule: rev_induct)
  case (snoc p ps)
  obtain t1 o1 where a: "telnet_read_loop env (concat ps) t [] = Some (t1, o1)" "telnet_read_loop env p t1 o1 = Some ub"
    using snoc.prems by (auto simp: telnet_read_loop_append split: option.splits prod.splits)
  from snoc.IH [OF a(1)] obtain v where v: "fold (\<lambda>p r. Option.bind r (do_telnet_read env p)) ps (Some t) = Some v"
    "same_stream (v, []) (t1, o1)" by blast
  from read_loop_stream [OF v(2), of env p] a(2) obtain w where w: "telnet_read_loop env p v [] = Some w" "same_stream w ub"
    by (auto elim: option.rel_cases)
  have "same_stream (finish_read env w, []) ub" using same_stream_finish w(2) by (rule same_stream_trans)
  moreover have "do_telnet_read env p v = Some (finish_read env w)" by (simp add: do_telnet_read_finish w(1))
  ultimately show ?case using v(1) by simp
qed simp

text \<open>
  C9: The data from the network may arrive cut into packets in any way: reading the packets one after
  the other ends in the same state, with the same bytes shown to the user and the same events
  towards the socket and the line discipline in the same order, as reading it all at once.
\<close>

theorem telnet_packets_do_not_matter:
  assumes "do_telnet_read env (concat ps) t = Some u"
  shows "\<exists>v. fold (\<lambda>p r. Option.bind r (do_telnet_read env p)) ps (Some t) = Some v \<and> same_effect v u"
proof -
  obtain ub where ub: "telnet_read_loop env (concat ps) t [] = Some ub" "u = finish_read env ub"
    using assms by (auto simp: do_telnet_read_finish)
  from read_packets_stream [OF ub(1)] obtain v where
    "fold (\<lambda>p r. Option.bind r (do_telnet_read env p)) ps (Some t) = Some v" "same_stream (v, []) ub" by blast
  moreover have "same_stream ub (u, [])" using same_stream_finish [of env ub] ub(2) by (simp add: same_stream_sym)
  ultimately show ?thesis unfolding same_effect_stream using same_stream_trans by blast
qed

theorem telnet_packets_do_not_matter_witness:
  "\<exists>u v. do_telnet_read sample_env (concat [[72, 255], [255, 13], [0, 105]]) (telnet_new conf_new 80 24) = Some u \<and>
     fold (\<lambda>p r. Option.bind r (do_telnet_read sample_env p)) [[72, 255], [255, 13], [0, 105]]
       (Some (telnet_new conf_new 80 24)) = Some v \<and> same_effect v u"
proof -
  have "\<exists>u. do_telnet_read sample_env (concat [[72, 255], [255, 13], [0, 105]]) (telnet_new conf_new 80 24) = Some u"
    by (simp add: do_telnet_read_finish telnet_read_loop_Cons telnet_read_byte_def read_top_level_def read_iac_def
        telnet_new_def flush_output_def)
  then show ?thesis using telnet_packets_do_not_matter by blast
qed

text \<open>The reader is between commands and shows what it reads.\<close>

definition reads_data :: "bool \<Rightarrow> telnet \<Rightarrow> bool" where
  "reads_data binary r \<longleftrightarrow> tn_state r = TOP_LEVEL \<and> \<not> in_synch r \<and> they_binary r = binary"

text \<open>The loop without the flushing.\<close>

fun plain_read :: "tn_env \<Rightarrow> bytes \<Rightarrow> telnet \<Rightarrow> bytes \<Rightarrow> (telnet \<times> bytes) option" where
  "plain_read env [] t out = Some (t, out)"
| "plain_read env (c # buf) t out =
     (case telnet_read_byte env c t out of None \<Rightarrow> None | Some (t, out) \<Rightarrow> plain_read env buf t out)"

lemma read_loop_plain:
  assumes "same_stream (t, out) (u, out')"
  shows "rel_option same_stream (telnet_read_loop env buf t out) (plain_read env buf u out')"
  using assms
proof (induction buf arbitrary: t out u out')
  case (Cons c buf)
  have "rel_option same_stream (telnet_read_byte env c t out) (telnet_read_byte env c u out')"
    by (rule read_byte_stream [OF Cons.prems])
  then show ?case
  proof (cases rule: option.rel_cases)
    case (Some tb ub)
    have "same_stream (flush_output env tb) ub"
      using same_stream_flush Some(3) by (rule same_stream_trans)
    then show ?thesis
      using Some Cons.IH by (cases "flush_output env tb"; cases ub) (simp add: telnet_read_loop_Cons)
  qed (simp add: telnet_read_loop_Cons)
qed simp

lemma plain_escaped:
  assumes "reads_data binary r"
  shows "plain_read env (escape binary x @ rest) r out = plain_read env rest r (out @ [x])"
proof -
  have same: "r\<lparr>tn_state := TOP_LEVEL\<rparr> = r" using assms by (simp add: reads_data_def)
  show ?thesis
    using assms by (auto simp: reads_data_def escape_def telnet_read_byte_def read_top_level_def read_iac_def same Let_def)
qed

lemma plain_data:
  assumes "reads_data binary r"
  shows "plain_read env (concat (map (escape binary) xs)) r out = Some (r, out @ xs)"
  by (induction xs arbitrary: out) (simp_all add: plain_escaped [OF assms])

lemma read_data:
  assumes "reads_data binary r"
  shows "\<exists>u. do_telnet_read env (concat (map (escape binary) xs)) r = Some u \<and> core u = core r \<and>
           visible (tn_log u) = visible (tn_log r) \<and> seat_bytes (tn_log u) = seat_bytes (tn_log r) @ xs"
proof -
  have "rel_option same_stream (telnet_read_loop env (concat (map (escape binary) xs)) r []) (Some (r, xs))"
    using read_loop_plain [of r "[]" r "[]" env "concat (map (escape binary) xs)"]
    by (simp add: plain_data [OF assms])
  then obtain tb where tb: "telnet_read_loop env (concat (map (escape binary) xs)) r [] = Some tb" "same_stream tb (r, xs)"
    by (auto elim: option.rel_cases)
  have "same_stream (finish_read env tb, []) (r, xs)" using same_stream_finish tb(2) by (rule same_stream_trans)
  with tb(1) show ?thesis by (auto simp: do_telnet_read_finish same_stream_def)
qed

text \<open>
  C7: Whatever bytes are sent, what \<^verbatim>\<open>telnet_send\<close> writes to the socket is read by a Telnet
  reader that agrees about binary mode as exactly these bytes, with no change of its options and no
  answer.
\<close>

theorem telnet_data_round_trip:
  assumes "tn_open t" "reads_data (we_binary t) r"
  shows "\<exists>enc u. sock_bytes (tn_log (telnet_send env buf t)) = sock_bytes (tn_log t) @ enc \<and>
           do_telnet_read env' enc r = Some u \<and> core u = core r \<and>
           visible (tn_log u) = visible (tn_log r) \<and> seat_bytes (tn_log u) = seat_bytes (tn_log r) @ buf"
  using telnet_send_bytes [of env buf t] read_data [OF assms(2), of env' buf] assms(1)
  by (auto simp: telnet_send_def)

theorem telnet_data_round_trip_witness:
  "\<exists>enc u. sock_bytes (tn_log (telnet_send sample_env [72, 255, 13, 10] (telnet_new conf_new 80 24))) =
       sock_bytes (tn_log (telnet_new conf_new 80 24)) @ enc \<and>
     do_telnet_read sample_env enc (telnet_new conf_new 80 24) = Some u \<and>
     core u = core (telnet_new conf_new 80 24) \<and>
     visible (tn_log u) = visible (tn_log (telnet_new conf_new 80 24)) \<and>
     seat_bytes (tn_log u) = seat_bytes (tn_log (telnet_new conf_new 80 24)) @ [72, 255, 13, 10]"
  by (rule telnet_data_round_trip) (simp_all add: telnet_new_def reads_data_def)

lemma subneg_byte:
  assumes "tn_state r = SUBNEGOT"
  shows "plain_read env (put_iac c @ rest) r out = plain_read env rest (r\<lparr>sb_buf := sb_buf r @ [c]\<rparr>) out"
proof -
  have same: "r\<lparr>sb_buf := b, tn_state := SUBNEGOT\<rparr> = r\<lparr>sb_buf := b\<rparr>" for b
    using assms by (cases r) simp
  show ?thesis using assms by (auto simp: put_iac_def telnet_read_byte_def same)
qed

text \<open>
  C23: A window size sent to a server is what a Telnet reader finds in its subnegotiation buffer,
  whatever the bytes of the sizes are.
\<close>

theorem window_size_round_trip:
  assumes "tn_open t" "opt_states t OPTINDEX_NAWS = ACTIVE" "tn_state r = TOP_LEVEL"
  shows "\<exists>enc u. sock_bytes (tn_log (telnet_size env w h t)) = sock_bytes (tn_log t) @ enc \<and>
           do_telnet_read env' enc r = Some u \<and> tn_state u = TOP_LEVEL \<and> sb_opt u = TELOPT_NAWS \<and>
           sb_buf u = [ucast (drop_bit 8 w), ucast (w AND 0xFF), ucast (drop_bit 8 h), ucast (h AND 0xFF)] \<and>
           seat_bytes (tn_log u) = seat_bytes (tn_log r)"
proof -
  let ?u = "r\<lparr>sb_opt := TELOPT_NAWS,
      sb_buf := [ucast (drop_bit 8 w), ucast (w AND 0xFF), ucast (drop_bit 8 h), ucast (h AND 0xFF)]\<rparr>"
  have "plain_read env' (naws_message w h) r [] = Some (?u, [])"
    using assms(3)
    by (simp add: naws_message_def telnet_read_byte_def read_top_level_def read_iac_def subneg_byte process_subneg_def)
  then have "rel_option same_stream (telnet_read_loop env' (naws_message w h) r []) (Some (?u, []))"
    using read_loop_plain [of r "[]" r "[]" env' "naws_message w h"] by simp
  then obtain tb where tb: "telnet_read_loop env' (naws_message w h) r [] = Some tb" "same_stream tb (?u, [])"
    by (auto elim: option.rel_cases)
  have "same_stream (finish_read env' tb, []) (?u, [])" using same_stream_finish tb(2) by (rule same_stream_trans)
  then have "core (finish_read env' tb) = core ?u" "seat_bytes (tn_log (finish_read env' tb)) = seat_bytes (tn_log r)"
    by (auto simp: same_stream_def)
  moreover from this(1) have "tn_state (finish_read env' tb) = TOP_LEVEL" "sb_opt (finish_read env' tb) = sb_opt ?u"
    "sb_buf (finish_read env' tb) = sb_buf ?u"
    using assms(3) core_eqD [of "finish_read env' tb" ?u] by simp_all
  moreover have "sock_bytes (tn_log (telnet_size env w h t)) = sock_bytes (tn_log t) @ naws_message w h"
    using assms(1,2) by (simp add: telnet_size_def)
  moreover have "do_telnet_read env' (naws_message w h) r = Some (finish_read env' tb)"
    by (simp add: do_telnet_read_finish tb(1))
  ultimately show ?thesis by simp
qed

theorem window_size_round_trip_witness:
  "\<exists>enc u. sock_bytes (tn_log (telnet_size sample_env 255 511 ((telnet_new conf_new 80 24)\<lparr>opt_states := (\<lambda>_. ACTIVE)\<rparr>))) =
       [] @ enc \<and>
     do_telnet_read sample_env enc (telnet_new conf_new 80 24) = Some u \<and> sb_buf u = [0, 255, 1, 255]"
proof -
  have b: "ucast (drop_bit 8 (255 :: uint32)) = (0 :: byte)" "ucast ((255 :: uint32) AND 0xFF) = (255 :: byte)"
    "ucast (drop_bit 8 (511 :: uint32)) = (1 :: byte)" "ucast ((511 :: uint32) AND 0xFF) = (255 :: byte)"
    by code_simp+
  show ?thesis
    using window_size_round_trip [of "(telnet_new conf_new 80 24)\<lparr>opt_states := (\<lambda>_. ACTIVE)\<rparr>"
        "telnet_new conf_new 80 24" sample_env 255 511 sample_env]
    unfolding b by (auto simp: telnet_new_def)
qed

section \<open>Reading never fails\<close>

text \<open>The settings the back end asks for are in the configuration.\<close>

definition telnet_conf_ok :: "conf \<Rightarrow> bool" where
  "telnet_conf_ok c \<longleftrightarrow>
     conf_ok c \<and>
     list_all (\<lambda>name. conf_map c (key_none (conf_index name)) \<noteq> None)
       [''termspeed'', ''termtype'', ''username'', ''username_from_env'', ''rfc_environ'']"

lemma conf_get_some:
  assumes "conf_ok c" "conf_map c (key_none p) \<noteq> None"
  shows "has_types p TYPE_NONE TYPE_STR \<Longrightarrow> \<exists>s. conf_get_str c p = Some s"
    "has_types p TYPE_NONE TYPE_BOOL \<Longrightarrow> \<exists>b. conf_get_bool c p = Some b"
proof -
  obtain v where v: "conf_map c (key_none p) = Some v" using assms(2) by blast
  have ok: "value_ok (valuetypes p) v" using conf_map_value_ok [OF assms(1) v] by simp
  show "has_types p TYPE_NONE TYPE_STR \<Longrightarrow> \<exists>s. conf_get_str c p = Some s"
    "has_types p TYPE_NONE TYPE_BOOL \<Longrightarrow> \<exists>b. conf_get_bool c p = Some b"
    using ok v conf_get_map [OF assms(1)] by (cases v; simp add: has_types_def)+
qed

lemma walk_environ_list: "walk n c 57 k = Some kvs \<Longrightarrow> environ_list c k = Some kvs"
proof (induction n arbitrary: k kvs)
  case (Suc n)
  from Suc.prems obtain r where r: "conf_get_str_strs c 57 k = Some r" by (auto split: option.splits)
  show ?case
  proof (cases r)
    case None
    then show ?thesis using Suc.prems r by (subst environ_list.simps) (simp add: telnet_indices)
  next
    case (Some kv)
    with Suc.prems r obtain vs where "walk n c 57 (Some (fst kv)) = Some vs" "kvs = kv # vs"
      by (cases kv) auto
    with Suc.IH r Some show ?thesis by (subst environ_list.simps) (simp add: telnet_indices)
  qed
qed simp

lemma environ_list_total:
  assumes "conf_ok c"
  shows "\<exists>vs. environ_list c None = Some vs"
proof -
  have "walk (Suc (length (sub_entries c 57))) c 57 None = Some (map str_pair (sub_entries c 57))"
    by (rule walk_suffix [OF assms telnet_option_types(6), of "[]"]) simp_all
  then show ?thesis by (intro exI) (rule walk_environ_list)
qed

text \<open>The buffers the replies are built in are large enough.\<close>

lemma environ_parts_fit: "length (concat (environ_parts code var val vs user)) \<le> environ_bsize vs user"
proof -
  have "length (concat (map (\<lambda>(ekey, eval). [var] @ ekey @ [val] @ eval) vs)) =
      sum_list (map (\<lambda>(ekey, eval). length ekey + length eval + 2) vs)"
    by (induction vs) auto
  then show ?thesis by (cases user) (simp_all add: environ_parts_def environ_bsize_def)
qed

lemma process_subneg_total:
  assumes "telnet_conf_ok (tn_conf t)"
  shows "\<exists>u. process_subneg env t = Some u"
proof -
  note types = telnet_option_types
  have ok: "conf_ok (tn_conf t)" using assms by (simp add: telnet_conf_ok_def)
  have m: "conf_map (tn_conf t) (key_none 55) \<noteq> None" "conf_map (tn_conf t) (key_none 54) \<noteq> None"
    "conf_map (tn_conf t) (key_none 58) \<noteq> None" "conf_map (tn_conf t) (key_none 59) \<noteq> None"
    "conf_map (tn_conf t) (key_none 61) \<noteq> None"
    using assms unfolding telnet_conf_ok_def list.pred_inject telnet_indices by blast+
  obtain speed where speed: "conf_get_str (tn_conf t) 55 = Some speed" using conf_get_some(1) [OF ok m(1) types(1)] ..
  obtain type where type: "conf_get_str (tn_conf t) 54 = Some type" using conf_get_some(1) [OF ok m(2) types(2)] ..
  obtain user where user: "conf_get_str (tn_conf t) 58 = Some user" using conf_get_some(1) [OF ok m(3) types(3)] ..
  obtain fe where fe: "conf_get_bool (tn_conf t) 59 = Some fe" using conf_get_some(2) [OF ok m(4) types(4)] ..
  obtain rfc where rfc: "conf_get_bool (tn_conf t) 61 = Some rfc" using conf_get_some(2) [OF ok m(5) types(5)] ..
  obtain vs where vs: "environ_list (tn_conf t) None = Some vs" using environ_list_total [OF ok] ..
  obtain u where u: "get_remote_username env (tn_conf t) = Some u"
    using user fe by (cases "user = []") (simp_all add: get_remote_username_def telnet_indices)
  have fit: "fill_buffer (environ_bsize vs u) (environ_parts code var val vs u) =
      Some (concat (environ_parts code var val vs u))" for code var val
    using environ_parts_fit by (simp add: fill_buffer_def)
  have "\<exists>v. subneg_environ env t = Some v"
    by (simp add: subneg_environ_def telnet_indices rfc vs u fit split: list.split prod.split)
  moreover have "\<exists>b. fill_buffer (20 + length bs) [[x1, x2, x3, x4], bs, [x5, x6]] = Some b"
    "\<exists>b. fill_buffer (20 + length bs) [[x1, x2, x3, x4], map f bs, [x5, x6]] = Some b"
    for bs x1 x2 x3 x4 x5 x6 and f :: "byte \<Rightarrow> byte"
    by (simp_all add: fill_buffer_def)
  ultimately show ?thesis
    by (auto simp: process_subneg_def telnet_indices speed type)
qed

lemma activate_conf: "tn_conf (activate_option env p t) = tn_conf t"
  unfolding activate_option_def Let_def by simp

lemma refused_conf: "tn_conf (refused_option env p t) = tn_conf t"
  unfolding refused_option_def Let_def send_opt_def by simp

lemma rec_conf: "tn_conf (rec_ack env p t) = tn_conf t" "tn_conf (rec_nak env p t) = tn_conf t"
  unfolding rec_ack_def rec_nak_def send_opt_def
  by (simp_all add: activate_conf refused_conf split: optstate.split)

lemma proc_rec_opt_conf: "tn_conf (proc_rec_opt env cmd option t) = tn_conf t"
  unfolding proc_rec_opt_cases by (simp add: rec_conf send_opt_def split: option.split)

lemma process_subneg_conf: "process_subneg env t = Some u \<Longrightarrow> tn_conf u = tn_conf t"
  by (auto simp: process_subneg_def subneg_environ_def split: if_splits option.splits list.splits prod.splits)

lemma read_byte_total:
  assumes "telnet_conf_ok (tn_conf t)"
  shows "\<exists>u out'. telnet_read_byte env c t out = Some (u, out') \<and> tn_conf u = tn_conf t"
proof (cases "tn_state t = SUBNEG_IAC")
  case True
  with process_subneg_total [OF assms, of env] process_subneg_conf [of env t] show ?thesis
    by (auto simp: telnet_read_byte_def)
next
  case False
  then show ?thesis
    by (cases "tn_state t")
      (auto simp: telnet_read_byte_def read_top_level_def read_iac_def proc_rec_opt_conf Let_def)
qed

lemma read_loop_total: "telnet_conf_ok (tn_conf t) \<Longrightarrow> \<exists>tb. telnet_read_loop env buf t out = Some tb"
proof (induction buf arbitrary: t out)
  case (Cons c buf)
  from read_byte_total [OF Cons.prems, of env c out] obtain u out' where u:
    "telnet_read_byte env c t out = Some (u, out')" "tn_conf u = tn_conf t" by blast
  have "tn_conf (fst (flush_output env (u, out'))) = tn_conf t"
    using u(2) by (simp add: flush_output_def c_write_def Let_def)
  with Cons.IH [of "fst (flush_output env (u, out'))"] Cons.prems u(1) show ?case
    by (cases "flush_output env (u, out')") (simp add: telnet_read_loop_Cons)
qed simp

text \<open>
  C22: With a configuration that has the settings the back end looks up, whatever bytes the server
  sends, reading them ends without an overflow of a reply buffer or a failed look-up.
\<close>

theorem telnet_receive_safe:
  assumes "tn_open t" "telnet_conf_ok (tn_conf t)"
  shows "\<exists>u. telnet_receive env urgent data t = Some u"
proof -
  have "telnet_conf_ok (tn_conf (if urgent then t\<lparr>in_synch := True\<rparr> else t))" using assms(2) by simp
  from read_loop_total [OF this] assms(1) show ?thesis
    by (auto simp: telnet_receive_def do_telnet_read_finish)
qed

theorem telnet_receive_safe_witness:
  "\<exists>t u. tn_open t \<and> telnet_conf_ok (tn_conf t) \<and>
     telnet_receive sample_env True [255, 250, 24, 1, 255, 240, 255, 253, 31] t = Some u"
proof -
  obtain t :: telnet where t: "tn_open t" "conf_ok (tn_conf t)" "conf_map (tn_conf t) = sample_map" by (rule sample_telnet) blast
  then have "telnet_conf_ok (tn_conf t)" by (simp add: telnet_conf_ok_def telnet_indices key_none_def sample_map_def)
  with t(1) telnet_receive_safe show ?thesis by blast
qed

end
