(* ===== verification/Mp_Model.thy ===== *)
theory Mp_Model
  imports Prelude
begin

text \<open>
  Multiprecision integers (\<^verbatim>\<open>crypto/mpint.c\<close>): the words of a number and the operations on
  words. A number is the list of its words, the lowest first, of a nominal length that need not be
  the least possible; \<open>mp_val\<close> is the number it stands for.

  The word is the 64-bit one of the 64-bit compilers. A function of the code that writes into an
  existing number \<^verbatim>\<open>r\<close> takes the number of words of \<^verbatim>\<open>r\<close> and returns its new
  words: the loops read each word of their arguments before they write the word of the result at that
  place, so that the result does not depend on \<^verbatim>\<open>r\<close> being one of the arguments. A C
  \<^verbatim>\<open>unsigned\<close> that serves as truth value is a 32-bit word.
\<close>

unbundle bit_operations_syntax

type_synonym BignumInt = "64 word"
type_synonym mp_int = "BignumInt list"

abbreviation (input) BIGNUM_INT_BITS :: nat where "BIGNUM_INT_BITS \<equiv> 64"
abbreviation (input) BIGNUM_INT_BYTES :: nat where "BIGNUM_INT_BYTES \<equiv> 8"
abbreviation (input) BIGNUM_INT_BITS_BITS :: nat where "BIGNUM_INT_BITS_BITS \<equiv> 6"

text \<open>The statement macros of \<^verbatim>\<open>mpint_i.h\<close>; the pairs are in the order of their outputs.\<close>

definition BignumADC :: "BignumInt \<Rightarrow> BignumInt \<Rightarrow> BignumInt \<Rightarrow> BignumInt \<times> BignumInt" where
  "BignumADC a b c =
     (let ADC_temp = ucast a + ucast b + ucast c :: 128 word
      in (ucast ADC_temp, ucast (drop_bit BIGNUM_INT_BITS ADC_temp)))"

definition BignumMULADD :: "BignumInt \<Rightarrow> BignumInt \<Rightarrow> BignumInt \<Rightarrow> BignumInt \<times> BignumInt" where
  "BignumMULADD a b addend =
     (let MUL_temp = ucast a * ucast b + ucast addend :: 128 word
      in (ucast (drop_bit BIGNUM_INT_BITS MUL_temp), ucast MUL_temp))"

definition BignumMULADD2 :: "BignumInt \<Rightarrow> BignumInt \<Rightarrow> BignumInt \<Rightarrow> BignumInt \<Rightarrow> BignumInt \<times> BignumInt" where
  "BignumMULADD2 a b addend1 addend2 =
     (let MUL_temp = ucast a * ucast b + ucast addend1 + ucast addend2 :: 128 word
      in (ucast (drop_bit BIGNUM_INT_BITS MUL_temp), ucast MUL_temp))"

section \<open>The number a list of words stands for\<close>

fun mp_val :: "mp_int \<Rightarrow> int" where
  "mp_val [] = 0"
| "mp_val (w # ws) = uint w + 2 ^ 64 * mp_val ws"

abbreviation mp_base :: "nat \<Rightarrow> int" where
  "mp_base n \<equiv> 2 ^ (64 * n)"

section \<open>Making, copying and selecting\<close>

definition mp_word :: "mp_int \<Rightarrow> nat \<Rightarrow> BignumInt" where
  "mp_word x i = (if i < length x then x ! i else 0)"

definition shift_right_by_one_word :: "uint64 \<Rightarrow> uint64" where
  "shift_right_by_one_word n =
     (let shift_too_big = BIGNUM_INT_BYTES \<ge> 8
      in if shift_too_big then 0 else drop_bit (if shift_too_big then 0 else BIGNUM_INT_BITS) n)"

definition shift_left_by_one_word :: "uint64 \<Rightarrow> uint64" where
  "shift_left_by_one_word n =
     (let shift_too_big = BIGNUM_INT_BYTES \<ge> 8
      in if shift_too_big then 0 else push_bit (if shift_too_big then 0 else BIGNUM_INT_BITS) n)"

definition mp_make_sized :: "nat \<Rightarrow> mp_int option" where
  "mp_make_sized nw = (if nw = 0 then None else Some (replicate nw 0))"

definition mp_new :: "nat \<Rightarrow> mp_int option" where
  "mp_new maxbits = mp_make_sized ((maxbits + BIGNUM_INT_BITS - 1) div BIGNUM_INT_BITS)"

definition mp_copy_into :: "nat \<Rightarrow> mp_int \<Rightarrow> mp_int" where
  "mp_copy_into dest_nw src =
     (let copy_nw = min dest_nw (length src) in take copy_nw src @ replicate (dest_nw - copy_nw) 0)"

definition mp_resize :: "mp_int \<Rightarrow> nat \<Rightarrow> mp_int option" where
  "mp_resize mp newmaxbits = map_option (\<lambda>copy. mp_copy_into (length copy) mp) (mp_new newmaxbits)"

definition mp_from_integer :: "uint64 \<Rightarrow> mp_int" where
  "mp_from_integer n =
     map (\<lambda>i. drop_bit (i * BIGNUM_INT_BITS) n) [0..<(8 + BIGNUM_INT_BYTES - 1) div BIGNUM_INT_BYTES]"

definition mp_max_bytes :: "mp_int \<Rightarrow> nat" where
  "mp_max_bytes x = length x * BIGNUM_INT_BYTES"

definition mp_max_bits :: "mp_int \<Rightarrow> nat" where
  "mp_max_bits x = length x * BIGNUM_INT_BITS"

primrec mp_copy_integer_into :: "nat \<Rightarrow> uint64 \<Rightarrow> mp_int" where
  "mp_copy_integer_into 0 n = []"
| "mp_copy_integer_into (Suc k) n = n # mp_copy_integer_into k (shift_right_by_one_word n)"

definition mp_select_into :: "nat \<Rightarrow> mp_int \<Rightarrow> mp_int \<Rightarrow> uint32 \<Rightarrow> mp_int" where
  "mp_select_into dest_nw src0 src1 which =
     (let mask = - (ucast (1 AND which) :: BignumInt)
      in map (\<lambda>i. mp_word src0 i XOR ((mp_word src1 i XOR mp_word src0 i) AND mask)) [0..<dest_nw])"

definition mp_cond_swap :: "mp_int \<Rightarrow> mp_int \<Rightarrow> uint32 \<Rightarrow> (mp_int \<times> mp_int) option" where
  "mp_cond_swap x0 x1 swap =
     (if length x0 \<noteq> length x1 then None
      else
        let mask = - (ucast (1 AND swap) :: BignumInt);
            diffs = map2 (\<lambda>w0 w1. (w0 XOR w1) AND mask) x0 x1
        in Some (map2 (XOR) x0 diffs, map2 (XOR) x1 diffs))"

definition mp_clear :: "nat \<Rightarrow> mp_int" where
  "mp_clear nw = replicate nw 0"

definition mp_cond_clear :: "mp_int \<Rightarrow> uint32 \<Rightarrow> mp_int" where
  "mp_cond_clear x clear = (let mask = NOT (- (ucast (1 AND clear) :: BignumInt)) in map (\<lambda>w. w AND mask) x)"

text \<open>Loading bytes; the wrap-around index \<^verbatim>\<open>m*i+c\<close>, which stays inside the block, is taken in the integers.\<close>

primrec from_bytes_loop :: "bytes \<Rightarrow> int \<Rightarrow> int \<Rightarrow> nat \<Rightarrow> mp_int \<Rightarrow> mp_int" where
  "from_bytes_loop bs m c 0 n = n"
| "from_bytes_loop bs m c (Suc i) n =
     (let n = from_bytes_loop bs m c i n
      in n[i div BIGNUM_INT_BYTES :=
             n ! (i div BIGNUM_INT_BYTES) OR
               push_bit (8 * (i mod BIGNUM_INT_BYTES)) (ucast (bs ! nat (m * int i + c)))])"

definition mp_from_bytes_int :: "bytes \<Rightarrow> int \<Rightarrow> int \<Rightarrow> mp_int" where
  "mp_from_bytes_int bs m c =
     (let nw = (length bs + BIGNUM_INT_BYTES - 1) div BIGNUM_INT_BYTES;
          nw = max nw 1
      in from_bytes_loop bs m c (length bs) (replicate nw 0))"

definition mp_from_bytes_le :: "bytes \<Rightarrow> mp_int" where
  "mp_from_bytes_le bs = mp_from_bytes_int bs 1 0"

definition mp_from_bytes_be :: "bytes \<Rightarrow> mp_int" where
  "mp_from_bytes_be bs = mp_from_bytes_int bs (- 1) (int (length bs) - 1)"

definition mp_copy :: "mp_int \<Rightarrow> mp_int" where
  "mp_copy x = x"

definition mp_get_byte :: "mp_int \<Rightarrow> nat \<Rightarrow> byte" where
  "mp_get_byte x n =
     ucast (0xFF AND drop_bit (8 * (n mod BIGNUM_INT_BYTES)) (mp_word x (n div BIGNUM_INT_BYTES)))"

definition mp_get_bit :: "mp_int \<Rightarrow> nat \<Rightarrow> uint32" where
  "mp_get_bit x n =
     ucast (1 AND drop_bit (n mod BIGNUM_INT_BITS) (mp_word x (n div BIGNUM_INT_BITS)))"

definition mp_get_integer :: "mp_int \<Rightarrow> uint64" where
  "mp_get_integer x = foldr (\<lambda>w toret. shift_left_by_one_word toret OR w) x 0"

definition mp_set_bit :: "mp_int \<Rightarrow> nat \<Rightarrow> uint32 \<Rightarrow> mp_int option" where
  "mp_set_bit x n val =
     (let word = n div BIGNUM_INT_BITS; shift = n mod BIGNUM_INT_BITS
      in if word \<ge> length x then None
         else Some (x[word := (x ! word AND NOT (push_bit shift 1)) OR push_bit shift (ucast (val AND 1))]))"

definition normalise_to_1 :: "BignumInt \<Rightarrow> uint32" where
  "normalise_to_1 n =
     (let n = drop_bit 1 n OR (n AND 1); n = drop_bit (BIGNUM_INT_BITS - 1) (- n) in ucast n)"

definition normalise_to_1_u64 :: "uint64 \<Rightarrow> uint32" where
  "normalise_to_1_u64 n = (let n = drop_bit 1 n OR (n AND 1); n = drop_bit 63 (- n) in ucast n)"

section \<open>Adding and comparing\<close>

text \<open>
  The loop with a carry that all additions share: \<open>f\<close> and \<open>g\<close> give the two words added at each
  position from \<open>i\<close> on.
\<close>

primrec adc_loop :: "(nat \<Rightarrow> BignumInt) \<Rightarrow> (nat \<Rightarrow> BignumInt) \<Rightarrow> nat \<Rightarrow> nat \<Rightarrow> BignumInt \<Rightarrow> mp_int \<times> BignumInt" where
  "adc_loop f g i 0 carry = ([], carry)"
| "adc_loop f g i (Suc n) carry =
     (let (out, carry) = BignumADC (f i) (g i) carry;
          (outs, carry) = adc_loop f g (Suc i) n carry
      in (out # outs, carry))"

definition mp_add_masked_into ::
  "nat \<Rightarrow> mp_int \<Rightarrow> mp_int \<Rightarrow> BignumInt \<Rightarrow> BignumInt \<Rightarrow> BignumInt \<Rightarrow> mp_int \<times> BignumInt" where
  "mp_add_masked_into rw a b b_and b_xor carry =
     adc_loop (mp_word a) (\<lambda>i. (mp_word b i AND b_and) XOR b_xor) 0 rw carry"

definition mp_add_into_internal :: "nat \<Rightarrow> mp_int \<Rightarrow> mp_int \<Rightarrow> mp_int \<times> BignumInt" where
  "mp_add_into_internal rw a b = mp_add_masked_into rw a b (NOT 0) 0 0"

definition mp_add_into :: "nat \<Rightarrow> mp_int \<Rightarrow> mp_int \<Rightarrow> mp_int" where
  "mp_add_into rw a b = fst (mp_add_into_internal rw a b)"

definition mp_sub_into :: "nat \<Rightarrow> mp_int \<Rightarrow> mp_int \<Rightarrow> mp_int" where
  "mp_sub_into rw a b = fst (mp_add_masked_into rw a b (NOT 0) (NOT 0) 1)"

definition mp_and_into :: "nat \<Rightarrow> mp_int \<Rightarrow> mp_int \<Rightarrow> mp_int" where
  "mp_and_into rw a b = map (\<lambda>i. mp_word a i AND mp_word b i) [0..<rw]"

definition mp_or_into :: "nat \<Rightarrow> mp_int \<Rightarrow> mp_int \<Rightarrow> mp_int" where
  "mp_or_into rw a b = map (\<lambda>i. mp_word a i OR mp_word b i) [0..<rw]"

definition mp_xor_into :: "nat \<Rightarrow> mp_int \<Rightarrow> mp_int \<Rightarrow> mp_int" where
  "mp_xor_into rw a b = map (\<lambda>i. mp_word a i XOR mp_word b i) [0..<rw]"

definition mp_bic_into :: "nat \<Rightarrow> mp_int \<Rightarrow> mp_int \<Rightarrow> mp_int" where
  "mp_bic_into rw a b = map (\<lambda>i. mp_word a i AND NOT (mp_word b i)) [0..<rw]"

definition mp_cond_negate :: "nat \<Rightarrow> mp_int \<Rightarrow> uint32 \<Rightarrow> mp_int" where
  "mp_cond_negate rw x yes =
     (let flip = - (ucast yes :: BignumInt)
      in fst (adc_loop (\<lambda>i. 0) (\<lambda>i. mp_word x i XOR flip) 0 rw (ucast yes)))"

definition mp_add_masked_integer_into ::
  "nat \<Rightarrow> mp_int \<Rightarrow> uint64 \<Rightarrow> BignumInt \<Rightarrow> BignumInt \<Rightarrow> BignumInt \<Rightarrow> mp_int \<times> BignumInt" where
  "mp_add_masked_integer_into rw a b b_and b_xor carry =
     adc_loop (mp_word a) (\<lambda>i. ((shift_right_by_one_word ^^ i) b XOR b_xor) AND b_and) 0 rw carry"

definition mp_add_integer_into :: "nat \<Rightarrow> mp_int \<Rightarrow> uint64 \<Rightarrow> mp_int" where
  "mp_add_integer_into rw a n = fst (mp_add_masked_integer_into rw a n (NOT 0) 0 0)"

definition mp_sub_integer_into :: "nat \<Rightarrow> mp_int \<Rightarrow> uint64 \<Rightarrow> mp_int" where
  "mp_sub_integer_into rw a n = fst (mp_add_masked_integer_into rw a n (NOT 0) (NOT 0) 1)"

primrec add_shifted_loop :: "mp_int \<Rightarrow> uint64 \<Rightarrow> nat \<Rightarrow> nat \<Rightarrow> nat \<Rightarrow> uint32 \<Rightarrow> BignumInt \<Rightarrow> mp_int" where
  "add_shifted_loop a n word_index i 0 indicator carry = []"
| "add_shifted_loop a n word_index i (Suc k) indicator carry =
     (let indicator = indicator OR (1 XOR normalise_to_1 (of_nat i XOR of_nat word_index));
          bword = n AND - (ucast indicator);
          new_n = shift_right_by_one_word n;
          n = n XOR ((n XOR new_n) AND - (ucast indicator));
          (out, carry) = BignumADC (mp_word a i) bword carry
      in out # add_shifted_loop a n word_index (Suc i) k indicator carry)"

definition mp_add_integer_into_shifted_by_words :: "nat \<Rightarrow> mp_int \<Rightarrow> uint64 \<Rightarrow> nat \<Rightarrow> mp_int" where
  "mp_add_integer_into_shifted_by_words rw a n word_index = add_shifted_loop a n word_index 0 rw 0 0"

primrec mul_integer_loop :: "mp_int \<Rightarrow> BignumInt \<Rightarrow> nat \<Rightarrow> nat \<Rightarrow> BignumInt \<Rightarrow> mp_int \<times> BignumInt" where
  "mul_integer_loop a mult i 0 carry = ([], carry)"
| "mul_integer_loop a mult i (Suc k) carry =
     (let (carry, out) = BignumMULADD (mp_word a i) mult carry;
          (outs, carry) = mul_integer_loop a mult (Suc i) k carry
      in (out # outs, carry))"

definition mp_mul_integer_into :: "nat \<Rightarrow> mp_int \<Rightarrow> 16 word \<Rightarrow> mp_int option" where
  "mp_mul_integer_into rw a n =
     (let (out, carry) = mul_integer_loop a (ucast n) 0 rw 0 in if carry = 0 then Some out else None)"

definition mp_cond_add_into :: "nat \<Rightarrow> mp_int \<Rightarrow> mp_int \<Rightarrow> uint32 \<Rightarrow> mp_int" where
  "mp_cond_add_into rw a b yes =
     (let mask = - (ucast (yes AND 1) :: BignumInt) in fst (mp_add_masked_into rw a b mask 0 0))"

definition mp_cond_sub_into :: "nat \<Rightarrow> mp_int \<Rightarrow> mp_int \<Rightarrow> uint32 \<Rightarrow> mp_int" where
  "mp_cond_sub_into rw a b yes =
     (let mask = - (ucast (yes AND 1) :: BignumInt) in fst (mp_add_masked_into rw a b mask mask (1 AND mask)))"

definition mp_cmp_hs :: "mp_int \<Rightarrow> mp_int \<Rightarrow> uint32" where
  "mp_cmp_hs a b =
     (let rw = max (length a) (length b) in ucast (snd (mp_add_masked_into rw a b (NOT 0) (NOT 0) 1)))"

definition mp_hs_integer :: "mp_int \<Rightarrow> uint64 \<Rightarrow> uint32" where
  "mp_hs_integer x n =
     (let nwords = 8 div BIGNUM_INT_BYTES; e = max (length x) nwords
      in ucast (snd (adc_loop (mp_word x) (\<lambda>i. NOT ((shift_right_by_one_word ^^ i) n)) 0 e 1)))"

definition mp_cmp_eq :: "mp_int \<Rightarrow> mp_int \<Rightarrow> uint32" where
  "mp_cmp_eq a b =
     (let limit = max (length a) (length b);
          diff = foldl (\<lambda>diff i. diff OR (mp_word a i XOR mp_word b i)) 0 [0..<limit]
      in 1 XOR normalise_to_1 diff)"

definition mp_eq_integer :: "mp_int \<Rightarrow> uint64 \<Rightarrow> uint32" where
  "mp_eq_integer x n =
     (let nwords = 8 div BIGNUM_INT_BYTES; e = max (length x) nwords;
          diff = foldl (\<lambda>diff i. diff OR (mp_word x i XOR (shift_right_by_one_word ^^ i) n)) 0 [0..<e]
      in 1 XOR normalise_to_1 diff)"

definition mp_neg_into :: "nat \<Rightarrow> mp_int \<Rightarrow> mp_int" where
  "mp_neg_into rw a = mp_sub_into rw [] a"

definition mp_add :: "mp_int \<Rightarrow> mp_int \<Rightarrow> mp_int" where
  "mp_add x y = mp_add_into (max (length x) (length y) + 1) x y"

definition mp_sub :: "mp_int \<Rightarrow> mp_int \<Rightarrow> mp_int option" where
  "mp_sub x y = map_option (\<lambda>r. mp_sub_into (length r) x y) (mp_make_sized (max (length x) (length y)))"

definition mp_min_into :: "nat \<Rightarrow> mp_int \<Rightarrow> mp_int \<Rightarrow> mp_int" where
  "mp_min_into rw x y = mp_select_into rw x y (mp_cmp_hs x y)"

definition mp_max_into :: "nat \<Rightarrow> mp_int \<Rightarrow> mp_int \<Rightarrow> mp_int" where
  "mp_max_into rw x y = mp_select_into rw y x (mp_cmp_hs x y)"

definition mp_min :: "mp_int \<Rightarrow> mp_int \<Rightarrow> mp_int option" where
  "mp_min x y = map_option (\<lambda>r. mp_min_into (length r) x y) (mp_make_sized (min (length x) (length y)))"

definition mp_max :: "mp_int \<Rightarrow> mp_int \<Rightarrow> mp_int option" where
  "mp_max x y = map_option (\<lambda>r. mp_max_into (length r) x y) (mp_make_sized (max (length x) (length y)))"

definition mp_power_2 :: "nat \<Rightarrow> mp_int option" where
  "mp_power_2 p = Option.bind (mp_new (p + 1)) (\<lambda>x. mp_set_bit x p 1)"

end
