(* ===== verification/Mp_Arith.thy ===== *)
theory Mp_Arith
  imports Mp_Model
begin

text \<open>
  The operations on the words of a number, stated through \<open>mp_val\<close>: sums and differences modulo
  the size of the result, comparisons, selections, and the bits of a number.
\<close>

unbundle bit_operations_syntax

named_theorems mp_simps \<open>the value and the length of the result of an operation\<close>

section \<open>Values\<close>

lemma int_div_less_iff: "0 < q \<Longrightarrow> m div q < n \<longleftrightarrow> m < n * q" for m n q :: int
proof
  assume q: "0 < q" and "m div q < n"
  then have "(m div q + 1) * q \<le> n * q" by (intro mult_right_mono) simp_all
  moreover have "m < (m div q + 1) * q" using q by (simp add: distrib_right pos_mod_bound flip: minus_mod_eq_div_mult)
  ultimately show "m < n * q" by linarith
next
  assume q: "0 < q" and "m < n * q"
  moreover have "m div q * q \<le> m" using q by (simp flip: minus_mod_eq_div_mult)
  ultimately have "m div q * q < n * q" by linarith
  then show "m div q < n" using q by (simp add: mult_less_cancel_right)
qed

lemma uint_limb: "0 \<le> uint (w :: BignumInt)" "uint (w :: BignumInt) < 2 ^ 64"
  using uint_bounded [of w] by simp_all

lemma uint_limb_less: "uint (w :: BignumInt) < 18446744073709551616"
  using uint_limb(2) [of w] by simp

lemma mp_base_Suc: "mp_base (Suc n) = 2 ^ 64 * mp_base n"
  by (simp add: power_add mult.commute)

lemma mp_base_add: "mp_base (m + n) = mp_base m * mp_base n"
  by (simp add: power_add distrib_left)

lemma mp_val_nonneg [simp]: "0 \<le> mp_val x"
  by (induction x) (simp_all add: uint_limb)

lemma mp_val_less: "mp_val x < mp_base (length x)"
proof (induction x)
  case (Cons w ws)
  have "uint w + 2 ^ 64 * mp_val ws \<le> uint w + 2 ^ 64 * (mp_base (length ws) - 1)"
    using Cons by (intro add_left_mono mult_left_mono) simp_all
  also have "\<dots> < 2 ^ 64 * mp_base (length ws)" using uint_limb(2) [of w] by (simp add: right_diff_distrib)
  finally show ?case by (simp only: mp_val.simps length_Cons mp_base_Suc)
qed simp

lemma mp_val_mod_base: "length x \<le> n \<Longrightarrow> mp_val x mod mp_base n = mp_val x"
proof (rule mod_pos_pos_trivial [OF mp_val_nonneg])
  assume "length x \<le> n"
  then have "mp_base (length x) \<le> mp_base n" by (intro power_increasing) simp_all
  with mp_val_less [of x] show "mp_val x < mp_base n" by (rule less_le_trans)
qed

lemma mp_val_append: "mp_val (x @ y) = mp_val x + mp_base (length x) * mp_val y"
  by (induction x) (simp_all add: mp_base_Suc [unfolded mult_Suc_right] algebra_simps power_add del: power_Suc)

lemma mp_val_zeros [simp]: "mp_val (replicate n 0) = 0"
  by (induction n) simp_all

lemma mp_val_split: "n \<le> length x \<Longrightarrow> mp_val x = mp_val (take n x) + mp_base n * mp_val (drop n x)"
  using mp_val_append [of "take n x" "drop n x"] by (simp add: min_def)

lemma mp_val_take: "mp_val (take n x) = mp_val x mod mp_base n"
proof (cases "n \<le> length x")
  case True
  have "mp_val (take n x) mod mp_base n = mp_val (take n x)" by (rule mp_val_mod_base) simp
  with mp_val_split [OF True] show ?thesis by simp
qed (simp add: mp_val_mod_base)

lemma mp_val_drop: "mp_val (drop n x) = mp_val x div mp_base n"
proof (cases "n \<le> length x")
  case True
  have "mp_val (take n x) div mp_base n = 0"
    using mp_val_less [of "take n x"] True by (simp add: min_absorb2 div_pos_pos_trivial)
  with mp_val_split [OF True] show ?thesis by simp
next
  case False
  then have "mp_base (length x) \<le> mp_base n" by (intro power_increasing) simp_all
  with mp_val_less [of x] have "mp_val x < mp_base n" by linarith
  with False show ?thesis by (simp add: div_pos_pos_trivial)
qed

lemma map_word_eq: "map (mp_word x) [0..<n] = take n x @ replicate (n - length x) 0"
  by (rule nth_equalityI) (auto simp: mp_word_def nth_append)

lemma mp_val_words [simp]: "mp_val (map (mp_word x) [0..<n]) = mp_val x mod mp_base n"
  by (simp add: map_word_eq mp_val_append mp_val_take)

lemma mp_word_nth: "i < length x \<Longrightarrow> mp_word x i = x ! i"
  by (simp add: mp_word_def)

lemma mp_word_beyond [simp]: "length x \<le> i \<Longrightarrow> mp_word x i = 0"
  by (simp add: mp_word_def)

lemma mp_word_Nil [simp]: "mp_word [] i = 0"
  by (simp add: mp_word_def)

lemma mp_val_inject: "length x = length y \<Longrightarrow> mp_val x = mp_val y \<longleftrightarrow> x = y"
proof (induction x y rule: list_induct2)
  case (Cons a x b y)
  have "uint a = uint b \<and> mp_val x = mp_val y" if e: "uint a + 2 ^ 64 * mp_val x = uint b + 2 ^ 64 * mp_val y"
  proof -
    have "uint a mod 2 ^ 64 = uint b mod 2 ^ 64" using arg_cong [OF e, of "\<lambda>v. v mod 2 ^ 64"] by simp
    then have "uint a = uint b" using uint_limb [of a] uint_limb [of b] by simp
    with e show ?thesis by simp
  qed
  with Cons show ?case by (auto simp: word_uint_eq_iff)
qed simp

section \<open>Bits\<close>

lemma bit_mp_val: "bit (mp_val x) k \<longleftrightarrow> bit (mp_word x (k div 64)) (k mod 64)"
proof (induction x arbitrary: k)
  case (Cons w ws)
  have d: "uint w + 2 ^ 64 * mp_val ws = push_bit 64 (mp_val ws) + take_bit 64 (uint w)"
    by (simp add: push_bit_eq_mult take_bit_int_eq_self [OF uint_limb])
  have o: "push_bit 64 (mp_val ws) + take_bit 64 (uint w) = push_bit 64 (mp_val ws) OR take_bit 64 (uint w)"
    by (rule disjunctive_add_eq_or) (rule bit_eqI, auto simp: bit_simps)
  show ?case
  proof (cases "k < 64")
    case True
    then show ?thesis unfolding mp_val.simps d o
      by (simp add: bit_simps mp_word_def)
  next
    case False
    then obtain j where j: "k = 64 + j" using le_Suc_ex not_less by blast
    then have "k div 64 = Suc (j div 64)" "k mod 64 = j mod 64" by simp_all
    with j Cons.IH [of j] show ?thesis unfolding mp_val.simps d o
      by (simp add: bit_simps mp_word_def)
  qed
qed simp

lemma mp_val_eqI: "(\<And>k. bit (mp_val x) k = bit v k) \<Longrightarrow> mp_val x = (v :: int)"
  by (rule bit_eqI) simp

lemma mp_val_map_bits:
  "bit (mp_val (map f [0..<n])) k \<longleftrightarrow> k < 64 * n \<and> bit (f (k div 64)) (k mod 64)"
  unfolding bit_mp_val by (auto simp: mp_word_def less_mult_imp_div_less mult.commute
      div_less_iff_less_mult)

lemma mp_word_val: "uint (mp_word x i) = mp_val x div mp_base i mod 2 ^ 64"
proof -
  have "uint (mp_word x i) = take_bit 64 (drop_bit (64 * i) (mp_val x))"
  proof (rule bit_eqI)
    fix n
    show "bit (uint (mp_word x i)) n \<longleftrightarrow> bit (take_bit 64 (drop_bit (64 * i) (mp_val x))) n"
      by (cases "n < 64") (auto simp: bit_simps bit_mp_val dest: bit_imp_le_length)
  qed
  then show ?thesis by (simp add: drop_bit_eq_div take_bit_eq_mod)
qed

section \<open>Addition with a carry\<close>

lemma uint_128: "uint (ucast (a :: BignumInt) :: 128 word) = uint a"
  by (simp add: unsigned_ucast_eq take_bit_int_eq_self [OF uint_limb(1) order_less_trans [OF uint_limb(2)]])

lemma split_128:
  assumes "uint (t :: 128 word) = v"
  shows "uint (ucast t :: BignumInt) = v mod 2 ^ 64" "uint (ucast (drop_bit 64 t) :: BignumInt) = v div 2 ^ 64"
proof -
  have t: "0 \<le> v" "v < 2 ^ 128" using uint_bounded [of t] assms by auto
  show "uint (ucast t :: BignumInt) = v mod 2 ^ 64" using assms by (simp add: unsigned_ucast_eq take_bit_eq_mod)
  have "v div 2 ^ 64 < 2 ^ 64" using t by (simp add: div_less_iff_less_mult)
  moreover have "0 \<le> v div 2 ^ 64" using t by (simp add: pos_imp_zdiv_nonneg_iff)
  moreover have "uint (drop_bit 64 t) = v div 2 ^ 64"
    using assms t by (subst unsigned_drop_bit_eq) (simp add: take_bit_int_eq_self drop_bit_eq_div)
  ultimately show "uint (ucast (drop_bit 64 t) :: BignumInt) = v div 2 ^ 64"
    by (simp add: unsigned_ucast_eq take_bit_int_eq_self)
qed

lemma BignumADC_val:
  assumes "BignumADC a b c = (r, d)"
  shows "uint a + uint b + uint c = uint r + 2 ^ 64 * uint d" and "c \<le> 1 \<Longrightarrow> d \<le> 1"
proof -
  let ?v = "uint a + uint b + uint c"
  let ?t = "ucast a + ucast b + ucast c :: 128 word"
  have v: "0 \<le> ?v" "?v < 2 ^ 128" using uint_limb [of a] uint_limb [of b] uint_limb [of c] by simp_all
  have "uint ?t = ?v" using v uint_limb [of a] uint_limb [of b] uint_limb [of c]
    by (simp add: uint_word_ariths uint_128)
  from split_128 [OF this] assms have rd: "uint r = ?v mod 2 ^ 64" "uint d = ?v div 2 ^ 64"
    by (auto simp: BignumADC_def Let_def)
  then show "?v = uint r + 2 ^ 64 * uint d" by simp
  assume "c \<le> 1"
  then have "uint c \<le> 1" by (simp add: word_le_def)
  then have "?v < 2 * 2 ^ 64" using uint_limb(2) [of a] uint_limb(2) [of b] by simp
  then have "uint d < 2" unfolding rd by (simp add: div_less_iff_less_mult)
  then show "d \<le> 1" by (simp add: word_le_def)
qed

lemma MULADD2_val:
  assumes "BignumMULADD2 a b c d = (h, l)"
  shows "uint a * uint b + uint c + uint d = uint l + 2 ^ 64 * uint h"
proof -
  let ?v = "uint a * uint b + uint c + uint d"
  let ?t = "ucast a * ucast b + ucast c + ucast d :: 128 word"
  have ab: "uint a * uint b \<le> (2 ^ 64 - 1) * (2 ^ 64 - 1)"
    using uint_limb [of a] uint_limb [of b] by (intro mult_mono) simp_all
  have v: "0 \<le> ?v" "?v < 2 ^ 128" using ab uint_limb [of c] uint_limb [of d] uint_limb [of a] uint_limb [of b] by simp_all
  have "0 \<le> uint a * uint b" using uint_limb [of a] uint_limb [of b] by simp
  then have "uint ?t = ?v" using v ab uint_limb [of c] uint_limb [of d]
    by (simp add: uint_word_ariths uint_128)
  from split_128 [OF this] assms have rd: "uint l = ?v mod 2 ^ 64" "uint h = ?v div 2 ^ 64"
    by (auto simp: BignumMULADD2_def Let_def)
  then show ?thesis by simp
qed

lemma MULADD_val:
  "BignumMULADD a b c = (h, l) \<Longrightarrow> uint a * uint b + uint c = uint l + 2 ^ 64 * uint h"
  using MULADD2_val [of a b c 0 h l] by (simp add: BignumMULADD_def BignumMULADD2_def)

lemma adc_loop_val:
  assumes "adc_loop f g i n c = (outs, d)"
  shows "length outs = n \<and> (c \<le> 1 \<longrightarrow> d \<le> 1) \<and>
    mp_val outs + mp_base n * uint d = mp_val (map f [i..<i + n]) + mp_val (map g [i..<i + n]) + uint c"
  using assms
proof (induction n arbitrary: i c d outs)
  case (Suc n)
  obtain w e where a: "BignumADC (f i) (g i) c = (w, e)" by fastforce
  obtain us e' where l: "adc_loop f g (Suc i) n e = (us, e')" by fastforce
  have o: "outs = w # us" "d = e'" using Suc.prems a l by auto
  note IH = Suc.IH [OF l]
  have u: "[i..<i + Suc n] = i # [Suc i..<Suc i + n]" by (simp add: upt_rec)
  have "mp_val outs + mp_base (Suc n) * uint d = uint w + 2 ^ 64 * (mp_val us + mp_base n * uint e')"
    unfolding o mp_base_Suc by (simp add: algebra_simps)
  also have "\<dots> = (uint w + 2 ^ 64 * uint e) +
      2 ^ 64 * (mp_val (map f [Suc i..<Suc i + n]) + mp_val (map g [Suc i..<Suc i + n]))"
    unfolding conjunct2 [OF conjunct2 [OF IH]] by (simp add: algebra_simps)
  also have "\<dots> = mp_val (map f [i..<i + Suc n]) + mp_val (map g [i..<i + Suc n]) + uint c"
    unfolding u BignumADC_val(1) [OF a, symmetric] by (simp add: algebra_simps del: upt_Suc)
  finally show ?case using IH BignumADC_val(2) [OF a] o by simp
qed simp

lemma mp_val_mod_range: "length x = n \<Longrightarrow> mp_val x mod mp_base n = mp_val x"
  by (simp add: mp_val_mod_base)

lemma adc_loop_sum:
  assumes "adc_loop f g 0 n c = (outs, d)" "c \<le> 1"
  defines "v \<equiv> mp_val (map f [0..<n]) + mp_val (map g [0..<n]) + uint c"
  shows "mp_val outs = v mod mp_base n" "d = of_bool (mp_base n \<le> v)" "length outs = n"
proof -
  note l = adc_loop_val [OF assms(1)]
  have v: "v = mp_val outs + mp_base n * uint d" using l by (simp add: v_def)
  have o: "0 \<le> mp_val outs" "mp_val outs < mp_base n" using mp_val_less [of outs] l by simp_all
  show "mp_val outs = v mod mp_base n" unfolding v using o by simp
  have "uint d \<le> 1" using l assms(2) by (simp add: word_le_def)
  then have "uint d = 0 \<or> uint d = 1" using uint_limb(1) [of d] by linarith
  then have "d = 0 \<or> d = 1" by (auto simp: word_uint_eq_iff)
  then show "d = of_bool (mp_base n \<le> v)" using v o by auto
  show "length outs = n" using l by simp
qed

lemma mp_val_map_not: "mp_val (map (\<lambda>i. NOT (f i)) [0..<n]) = mp_base n - 1 - mp_val (map f [0..<n])"
proof -
  have "uint (NOT w) = 2 ^ 64 - 1 - uint w" for w :: BignumInt
  proof -
    have "uint (NOT w) = (- uint w - 1) mod 2 ^ 64" by (subst unsigned_not_eq) (simp add: not_int_def take_bit_eq_mod)
    also have "\<dots> = (- uint w - 1 + 2 ^ 64) mod 2 ^ 64" by (rule mod_add_self2 [symmetric])
    also have "\<dots> = - uint w - 1 + 2 ^ 64" using uint_limb [of w] by (intro mod_pos_pos_trivial) linarith+
    finally show ?thesis by simp
  qed
  then have "mp_val (map NOT x) = mp_base (length x) - 1 - mp_val x" for x
    by (induction x) (simp_all add: mp_base_Suc [unfolded mult_Suc_right] power_add)
  from this [of "map f [0..<n]"] show ?thesis by (simp add: comp_def)
qed

text \<open>Adding and subtracting; a mask of all ones or none selects the second operand.\<close>

lemma mp_add_masked_into_add:
  assumes "mp_add_masked_into rw a b (NOT 0) 0 0 = (r, d)"
  shows "length r = rw \<and> mp_val r = (mp_val a + mp_val b) mod mp_base rw \<and>
     d = of_bool (mp_base rw \<le> mp_val a mod mp_base rw + mp_val b mod mp_base rw)"
proof -
  from assms have a: "adc_loop (mp_word a) (mp_word b) 0 rw 0 = (r, d)" by (simp add: mp_add_masked_into_def)
  show ?thesis using adc_loop_sum [OF a] by (simp add: mod_add_eq)
qed

lemma mp_add_masked_into_sub:
  assumes "mp_add_masked_into rw a b (NOT 0) (NOT 0) 1 = (r, d)"
  shows "length r = rw \<and> mp_val r = (mp_val a - mp_val b) mod mp_base rw \<and>
     d = of_bool (mp_val b mod mp_base rw \<le> mp_val a mod mp_base rw)"
proof -
  let ?B = "mp_base rw"
  have x: "(w AND NOT 0) XOR NOT 0 = NOT w" for w :: BignumInt by simp
  from assms have a: "adc_loop (mp_word a) (\<lambda>i. NOT (mp_word b i)) 0 rw 1 = (r, d)"
    unfolding mp_add_masked_into_def x .
  note l = adc_loop_sum [OF a, simplified]
  have v: "mp_val a mod ?B + mp_val (map (\<lambda>i. NOT (mp_word b i)) [0..<rw]) + 1 = ?B + (mp_val a mod ?B - mp_val b mod ?B)"
    by (simp add: mp_val_map_not)
  show ?thesis using l unfolding v by (simp add: mod_diff_eq)
qed

lemma masked_word: "(w AND - of_bool p) XOR 0 = (if p then w else 0)"
    "(w AND - of_bool p) XOR - of_bool p = (if p then NOT w else 0)" for w :: BignumInt
  by (cases p; simp)+

lemma adc_loop_zero: "adc_loop f (\<lambda>i. 0) i n 0 = (map f [i..<i + n], 0)"
proof (induction n arbitrary: i)
  case (Suc n)
  have "BignumADC w 0 0 = (w, 0)" for w
    using BignumADC_val(1) [of w 0 0] split_128 [OF uint_128 [of w]] uint_limb [of w]
    by (simp add: BignumADC_def Let_def word_uint_eq_iff)
  with Suc show ?case by (simp add: upt_rec del: upt_Suc)
qed simp

lemma mp_val_map_zero [simp]: "mp_val (map (\<lambda>i. 0) [0..<n]) = 0"
  by (simp add: map_replicate_const)


lemma mp_masked_zero:
  "mp_add_masked_into rw a b 0 0 0 = (map (mp_word a) [0..<rw], 0)"
  by (simp add: mp_add_masked_into_def adc_loop_zero)

lemma mp_add_into [mp_simps]:
  "length (mp_add_into rw a b) = rw"
  "mp_val (mp_add_into rw a b) = (mp_val a + mp_val b) mod mp_base rw"
  by (cases "mp_add_masked_into rw a b (NOT 0) 0 0",
      simp add: mp_add_into_def mp_add_into_internal_def mp_add_masked_into_add [of rw a b])+

lemma mp_add_into_internal:
  "mp_add_into_internal rw a b =
     (mp_add_into rw a b, of_bool (mp_base rw \<le> mp_val a mod mp_base rw + mp_val b mod mp_base rw))"
  using mp_add_masked_into_add [of rw a b]
  by (cases "mp_add_masked_into rw a b (NOT 0) 0 0") (auto simp: mp_add_into_def mp_add_into_internal_def)

lemma mp_sub_into [mp_simps]:
  "length (mp_sub_into rw a b) = rw"
  "mp_val (mp_sub_into rw a b) = (mp_val a - mp_val b) mod mp_base rw"
  using mp_add_masked_into_sub [of rw a b]
  by (cases "mp_add_masked_into rw a b (NOT 0) (NOT 0) 1", auto simp: mp_sub_into_def)+

lemma mp_neg_into [mp_simps]:
  "length (mp_neg_into rw a) = rw" "mp_val (mp_neg_into rw a) = (- mp_val a) mod mp_base rw"
  by (simp_all add: mp_neg_into_def mp_simps)

lemma ucast_flag [simp]: "ucast (of_bool p :: uint32) = (of_bool p :: BignumInt)"
    "ucast (of_bool p :: BignumInt) = (of_bool p :: uint32)"
    "of_bool p AND 1 = (of_bool p :: uint32)" "1 AND of_bool p = (of_bool p :: uint32)"
  by (cases p; simp)+

lemma mp_cond_add_into [mp_simps]:
  "length (mp_cond_add_into rw a b (of_bool p)) = rw"
  "mp_val (mp_cond_add_into rw a b (of_bool p)) = (mp_val a + (if p then mp_val b else 0)) mod mp_base rw"
  using mp_add_masked_into_add [of rw a b] mp_masked_zero [of rw a b]
  by (cases p; cases "mp_add_masked_into rw a b (NOT 0) 0 0"; auto simp: mp_cond_add_into_def)+

lemma mp_cond_sub_into [mp_simps]:
  "length (mp_cond_sub_into rw a b (of_bool p)) = rw"
  "mp_val (mp_cond_sub_into rw a b (of_bool p)) = (mp_val a - (if p then mp_val b else 0)) mod mp_base rw"
  using mp_add_masked_into_sub [of rw a b] mp_masked_zero [of rw a b]
  by (cases p; cases "mp_add_masked_into rw a b (NOT 0) (NOT 0) 1"; auto simp: mp_cond_sub_into_def)+

lemma mp_cmp_hs [mp_simps]: "mp_cmp_hs a b = of_bool (mp_val b \<le> mp_val a)"
proof -
  let ?n = "max (length a) (length b)"
  obtain r d where m: "mp_add_masked_into ?n a b (NOT 0) (NOT 0) 1 = (r, d)" by fastforce
  have "d = of_bool (mp_val b \<le> mp_val a)"
    using mp_add_masked_into_sub [OF m] by (simp add: mp_val_mod_base)
  then show ?thesis using m by (simp add: mp_cmp_hs_def Let_def)
qed

lemma mp_add_val [mp_simps]: "mp_val (mp_add x y) = mp_val x + mp_val y"
    "length (mp_add x y) = max (length x) (length y) + 1"
proof -
  let ?n = "max (length x) (length y)"
  have "mp_base (length x) \<le> mp_base ?n" "mp_base (length y) \<le> mp_base ?n" by (intro power_increasing; simp)+
  then have "mp_val x + mp_val y < 2 * mp_base ?n" using mp_val_less [of x] mp_val_less [of y] by linarith
  also have "\<dots> \<le> mp_base (?n + 1)" by (simp only: mp_base_Suc Suc_eq_plus1 [symmetric]) simp
  finally show "mp_val (mp_add x y) = mp_val x + mp_val y" by (simp add: mp_add_def mp_simps)
qed (simp add: mp_add_def mp_simps)

end
