(* ===== verification/Mp_Mul.thy ===== *)
theory Mp_Mul
  imports Mp_Arith "HOL-Library.Monad_Syntax"
begin

text \<open>
  Multiplication: the schoolbook routine, Karatsuba's recursion with its scratch space, and the
  proof that the recursion never runs out of it and returns the product modulo the size of the
  result. A pointer into an array of words is the rest of the array; the scratch space, whose
  content is never read before it is written, is its number of words.
\<close>

section \<open>The code\<close>

fun mul_row :: "BignumInt \<Rightarrow> mp_int \<Rightarrow> mp_int \<Rightarrow> BignumInt \<Rightarrow> mp_int" where
  "mul_row adata bs [] carry = []"
| "mul_row adata [] (rq # rs) carry =
     (let (out, carry) = BignumADC carry rq 0 in out # mul_row adata [] rs carry)"
| "mul_row adata (bdata # bs) (rq # rs) carry =
     (let (carry, out) = BignumMULADD2 adata bdata rq carry in out # mul_row adata bs rs carry)"

fun mp_mul_add_simple :: "mp_int \<Rightarrow> mp_int \<Rightarrow> mp_int \<Rightarrow> mp_int" where
  "mp_mul_add_simple r [] b = r"
| "mp_mul_add_simple r (adata # as) b =
     (case mul_row adata b r 0 of
        [] \<Rightarrow> []
      | w # ws \<Rightarrow> w # mp_mul_add_simple ws as b)"

definition mp_mul_scratchspace_unary :: "nat \<Rightarrow> nat" where
  "mp_mul_scratchspace_unary n = n * 6"

definition mp_mul_scratchspace :: "nat \<Rightarrow> nat \<Rightarrow> nat \<Rightarrow> nat" where
  "mp_mul_scratchspace rw aw bw = (let inlen = min rw (max aw bw) in mp_mul_scratchspace_unary inlen)"

definition mp_make_alias :: "mp_int \<Rightarrow> nat \<Rightarrow> nat \<Rightarrow> mp_int" where
  "mp_make_alias in_mp offset len =
     (let offset = (if offset > length in_mp then length in_mp else offset);
          len = (if len > length in_mp - offset then length in_mp - offset else len)
      in take len (drop offset in_mp))"

text \<open>The words that are left of the pool.\<close>

definition mp_alloc_from_scratch :: "nat \<Rightarrow> nat \<Rightarrow> nat option" where
  "mp_alloc_from_scratch pool len = (if len \<le> pool then Some (pool - len) else None)"

definition KARATSUBA_THRESHOLD :: nat where
  "KARATSUBA_THRESHOLD = 24"

lemma length_mp_make_alias [simp]: "length (mp_make_alias x i n) = min n (length x - i)"
  by (simp add: mp_make_alias_def Let_def)

lemma mp_make_alias_eq: "mp_make_alias x i n = take n (drop i x)"
  by (simp add: mp_make_alias_def Let_def)

lemma karatsuba_measure:
  assumes "\<not> (n < KARATSUBA_THRESHOLD \<or> P)" "q \<le> n - n div 2 + 1" "r \<le> n - n div 2 + 1"
  shows "min p (max q r) < n"
proof -
  have "24 \<le> n" using assms(1) by (simp add: KARATSUBA_THRESHOLD_def)
  then have "n - n div 2 + 1 < n" by presburger
  with assms(2,3) show ?thesis by simp
qed

lemma karatsuba_halves:
  "n - n div 2 \<le> n - n div 2 + 1" "n div 2 \<le> n - n div 2 + 1"
  "k \<le> m \<Longrightarrow> length (mp_make_alias x i k) \<le> m" "length (mp_add_into k a b) \<le> k" for n m :: nat
  by (simp_all add: mp_simps)

function mp_mul_internal :: "nat \<Rightarrow> mp_int \<Rightarrow> mp_int \<Rightarrow> nat \<Rightarrow> mp_int option" where
  "mp_mul_internal rw a b scratch =
     (let inlen = min rw (max (length a) (length b)) in
      if scratch < mp_mul_scratchspace_unary inlen then None
      else
        let r = mp_clear rw in
        if inlen < KARATSUBA_THRESHOLD \<or> length a = 0 \<or> length b = 0 then Some (mp_mul_add_simple r a b)
        else
          let toplen = inlen div 2;
              botlen = inlen - toplen;
              a0 = mp_make_alias a 0 botlen;
              b0 = mp_make_alias b 0 botlen;
              a1 = mp_make_alias a botlen toplen;
              b1 = mp_make_alias b botlen toplen
          in do {
            r0 \<leftarrow> mp_mul_internal (length (mp_make_alias r 0 (botlen * 2))) a0 b0 scratch;
            r2 \<leftarrow> mp_mul_internal (length (mp_make_alias r (botlen * 2) rw)) a1 b1 scratch;
            let r = r0 @ r2;
                r1 = mp_make_alias r botlen rw
            in
              if rw < inlen * 2 then do {
                let sw = min (botlen + toplen) (length r1);
                scratch \<leftarrow> mp_alloc_from_scratch scratch sw;
                s \<leftarrow> mp_mul_internal sw a0 b1 scratch;
                let r1 = mp_add_into (length r1) r1 s;
                s \<leftarrow> mp_mul_internal sw a1 b0 scratch;
                let r1 = mp_add_into (length r1) r1 s;
                Some (take botlen r @ r1)
              } else do {
                scratch \<leftarrow> mp_alloc_from_scratch scratch (botlen + 1);
                scratch \<leftarrow> mp_alloc_from_scratch scratch (botlen + 1);
                let asum = mp_add_into (botlen + 1) a0 a1;
                let bsum = mp_add_into (botlen + 1) b0 b1;
                scratch \<leftarrow> mp_alloc_from_scratch scratch (botlen * 2 + 1);
                product \<leftarrow> mp_mul_internal (botlen * 2 + 1) asum bsum scratch;
                let product = mp_sub_into (botlen * 2 + 1) product r0;
                let product = mp_sub_into (botlen * 2 + 1) product r2;
                Some (take botlen r @ mp_add_into (length r1) r1 product)
              }
          })"
  by pat_completeness auto
termination
  by (relation "measure (\<lambda>(rw, a, b, scratch). min rw (max (length a) (length b)))")
    (rule wf_measure | simp only: in_measure split_conv, rule karatsuba_measure, assumption, (rule karatsuba_halves)+)+

declare mp_mul_internal.simps [simp del]

definition mp_mul_into :: "nat \<Rightarrow> mp_int \<Rightarrow> mp_int \<Rightarrow> mp_int option" where
  "mp_mul_into rw a b = do {
     scratch \<leftarrow> mp_make_sized (mp_mul_scratchspace rw (length a) (length b));
     mp_mul_internal rw a b (length scratch) }"

definition mp_mul :: "mp_int \<Rightarrow> mp_int \<Rightarrow> mp_int option" where
  "mp_mul x y = do {
     r \<leftarrow> mp_make_sized (length x + length y);
     mp_mul_into (length r) x y }"

section \<open>The schoolbook routine\<close>

lemma low_digit_mod: "\<lbrakk>0 \<le> u; u < M; 0 < B\<rbrakk> \<Longrightarrow> (u + M * x) mod (M * B) = u + M * (x mod B)" for u :: int
  by (simp add: zmod_zmult2_eq)

lemma digit_step:
  "v = uint (u :: BignumInt) + 2 ^ 64 * d \<Longrightarrow>
     uint u + 2 ^ 64 * ((x + d) mod mp_base n) = (v + 2 ^ 64 * x) mod mp_base (Suc n)"
  unfolding mp_base_Suc
  by (subst low_digit_mod [symmetric]) (simp_all add: uint_limb_less algebra_simps)

lemma mul_row_val:
  "length (mul_row a bs rs c) = length rs \<and>
   mp_val (mul_row a bs rs c) = (mp_val rs + uint a * mp_val bs + uint c) mod mp_base (length rs)"
proof (induction a bs rs c rule: mul_row.induct)
  case (2 adata rq rs c)
  obtain out d where a: "BignumADC c rq 0 = (out, d)" by fastforce
  have "uint rq + uint c = uint out + 2 ^ 64 * uint d" using BignumADC_val(1) [OF a] by simp
  note d = digit_step [OF this, of "mp_val rs" "length rs"]
  show ?case using 2 [OF a [symmetric] refl] a d
    by (simp only: mul_row.simps Let_def prod.case length_Cons mp_val.simps) (simp add: ac_simps)
next
  case (3 adata bdata bs rq rs c)
  obtain out d where a: "BignumMULADD2 adata bdata rq c = (d, out)" by fastforce
  note d = digit_step [OF MULADD2_val [OF a], of "mp_val rs + uint adata * mp_val bs" "length rs"]
  have "uint adata * uint bdata + uint rq + uint c + 2 ^ 64 * (mp_val rs + uint adata * mp_val bs) =
      mp_val (rq # rs) + uint adata * mp_val (bdata # bs) + uint c" by (simp add: algebra_simps)
  then show ?case using 3 [OF a [symmetric] refl] a d
    by (simp only: mul_row.simps Let_def prod.case length_Cons mp_val.simps(2) [of out])
qed simp


lemma mp_mul_add_simple_val:
  "length (mp_mul_add_simple r a b) = length r \<and>
   mp_val (mp_mul_add_simple r a b) = (mp_val r + mp_val a * mp_val b) mod mp_base (length r)"
proof (induction r a b rule: mp_mul_add_simple.induct)
  case (1 r b)
  then show ?case by (simp add: mp_val_mod_base)
next
  case (2 r adata as b)
  note row = mul_row_val [of adata b r 0]
  show ?case
  proof (cases "mul_row adata b r 0")
    case Nil
    then show ?thesis using row by simp
  next
    case (Cons w ws)
    let ?n = "length ws"
    have l: "length r = Suc ?n" using row Cons by simp
    have e: "uint w + 2 ^ 64 * mp_val ws = (mp_val r + uint adata * mp_val b) mod mp_base (Suc ?n)"
      using row Cons l by simp
    have "mp_val (w # mp_mul_add_simple ws as b) =
        uint w + 2 ^ 64 * ((mp_val as * mp_val b + mp_val ws) mod mp_base ?n)"
      using 2 [OF Cons] by (simp add: add.commute)
    also have "\<dots> = (uint w + 2 ^ 64 * mp_val ws + 2 ^ 64 * (mp_val as * mp_val b)) mod mp_base (Suc ?n)"
      by (rule digit_step) simp
    also have "\<dots> = (mp_val r + mp_val (adata # as) * mp_val b) mod mp_base (Suc ?n)"
      unfolding e by (simp add: mod_add_left_eq algebra_simps)
    finally show ?thesis using 2 [OF Cons] Cons l by simp
  qed
qed

section \<open>Karatsuba's recursion\<close>

text \<open>Adding a number at a word position of another.\<close>

lemma low_words_mod: "mp_val x mod mp_base n + mp_base n * (v mod mp_base m) =
    (mp_val x mod mp_base n + mp_base n * v) mod mp_base (n + m)"
  unfolding mp_base_add by (rule low_digit_mod [symmetric]) simp_all

lemma add_at:
  assumes "k \<le> length r" "length q = length r - k" "mp_val q = (mp_val (drop k r) + v) mod mp_base (length r - k)"
  shows "mp_val (take k r @ q) = (mp_val r + mp_base k * v) mod mp_base (length r)"
proof -
  have "mp_val (take k r @ q) =
      (mp_val r mod mp_base k + mp_base k * (mp_val r div mp_base k + v)) mod mp_base (length r)"
    using assms low_words_mod [of r k "mp_val r div mp_base k + v" "length r - k"]
    by (simp add: mp_val_append mp_val_take mp_val_drop)
  then show ?thesis by (simp add: distrib_left mult.commute add.assoc [symmetric])
qed

text \<open>Two products side by side, cut off at the size of the result.\<close>

lemma concat_val:
  assumes "0 \<le> X" "X < mp_base k" "length r0 = min k rw" "mp_val r0 = X mod mp_base (min k rw)"
    "mp_val r2 = Y mod mp_base (rw - k)"
  shows "mp_val (r0 @ r2) = (X + mp_base k * Y) mod mp_base rw"
proof (cases "k \<le> rw")
  case True
  have "mp_val (r0 @ r2) = X + mp_base k * (Y mod mp_base (rw - k))"
    using assms True by (simp add: mp_val_append)
  also have "\<dots> = (X + mp_base k * Y) mod (mp_base k * mp_base (rw - k))"
    by (rule low_digit_mod [symmetric]) (use assms in simp_all)
  finally show ?thesis using True by (simp add: mp_base_add [symmetric])
next
  case False
  then have "mp_base k = mp_base rw * mp_base (k - rw)" by (simp add: mp_base_add [symmetric])
  moreover have "mp_val (r0 @ r2) = X mod mp_base rw" using assms False by (simp add: mp_val_append)
  ultimately show ?thesis by (simp add: mult.assoc)
qed

lemma alias_val: "mp_val (mp_make_alias x i k) = mp_val x div mp_base i mod mp_base k"
  by (simp add: mp_make_alias_eq mp_val_take mp_val_drop)

lemma mult_less_base:
  "\<lbrakk>0 \<le> x; x < mp_base m; 0 \<le> y; y < mp_base n\<rbrakk> \<Longrightarrow> x * y < mp_base (m + n)"
  unfolding mp_base_add by (rule mult_strict_mono') simp_all

lemma add_two_mod:
  fixes m :: int
  assumes "s mod m = x mod m" "t mod m = y mod m"
  shows "((w + s) mod m + t) mod m = (w + (x + y)) mod m"
proof -
  have "((w + s) mod m + t) mod m = (w + (s + t)) mod m" by (simp add: mod_add_left_eq add.assoc)
  also have "\<dots> = (w + (x + y)) mod m" by (intro mod_add_cong refl assms)
  finally show ?thesis .
qed

lemma mp_mul_internal_correct:
  "mp_mul_scratchspace_unary (min rw (max (length a) (length b))) \<le> scratch \<Longrightarrow>
     \<exists>r. mp_mul_internal rw a b scratch = Some r \<and> length r = rw \<and>
         mp_val r = (mp_val a * mp_val b) mod mp_base rw"
proof (induction "min rw (max (length a) (length b))" arbitrary: rw a b scratch rule: less_induct)
  case less
  define n where "n = min rw (max (length a) (length b))"
  define bot where "bot = n - n div 2"
  have scr: "n * 6 \<le> scratch" using less.prems by (simp add: mp_mul_scratchspace_unary_def n_def)
  show ?case
  proof (cases "n < KARATSUBA_THRESHOLD \<or> length a = 0 \<or> length b = 0")
    case True
    then have "mp_mul_internal rw a b scratch = Some (mp_mul_add_simple (mp_clear rw) a b)"
      using scr by (simp add: mp_mul_internal.simps [of rw] n_def Let_def mp_mul_scratchspace_unary_def)
    then show ?thesis using mp_mul_add_simple_val [of "mp_clear rw" a b] by (simp add: mp_clear_def)
  next
    case False
    then have n24: "24 \<le> n" by (simp add: KARATSUBA_THRESHOLD_def)
    then have bot: "n div 2 \<le> bot" "bot + 1 < n" "n \<le> 2 * bot" "2 * bot \<le> n + 1" "bot \<le> rw" "n \<le> rw"
      unfolding bot_def by (presburger, presburger, presburger, presburger, simp add: n_def, simp add: n_def)
    have IH: "\<exists>r. mp_mul_internal k x y s = Some r \<and> length r = k \<and> mp_val r = (mp_val x * mp_val y) mod mp_base k"
      if "length x \<le> m" "length y \<le> m" "m < n" "6 * m \<le> s" for k x y s m
    proof (rule less.hyps)
      have "min k (max (length x) (length y)) \<le> m" using that by simp
      with that show "min k (max (length x) (length y)) < min rw (max (length a) (length b))"
        "mp_mul_scratchspace_unary (min k (max (length x) (length y))) \<le> s"
        by (simp_all add: n_def [symmetric] mp_mul_scratchspace_unary_def)
    qed
    let ?D = "mp_base bot" and ?A = "mp_val a" and ?B = "mp_val b"
    define a0 b0 a1 b1 where ab: "a0 = mp_make_alias a 0 bot" "b0 = mp_make_alias b 0 bot"
      "a1 = mp_make_alias a bot (n div 2)" "b1 = mp_make_alias b bot (n div 2)"
    have len: "length a0 \<le> bot" "length b0 \<le> bot" "length a1 \<le> bot" "length b1 \<le> bot"
      using bot(1) by (simp_all add: ab)
    have bn: "mp_base n = ?D * mp_base (n div 2)" by (simp add: mp_base_add [symmetric] bot_def)
    have split: "x mod mp_base n = x mod ?D + ?D * (x div ?D mod mp_base (n div 2))" for x
      unfolding bn by (simp add: zmod_zmult2_eq)
    have A: "?A mod mp_base n = mp_val a0 + ?D * mp_val a1" and B: "?B mod mp_base n = mp_val b0 + ?D * mp_val b1"
      unfolding split by (simp_all add: ab alias_val)
    have le: "mp_val a0 < ?D" "mp_val b0 < ?D" "mp_val a1 < mp_base (n div 2)" "mp_val b1 < mp_base (n div 2)"
      by (simp_all add: ab alias_val)
    have AB: "(?A * ?B) mod mp_base rw = ((mp_val a0 + ?D * mp_val a1) * (mp_val b0 + ?D * mp_val b1)) mod mp_base rw"
    proof (cases "n = rw")
      case True
      then show ?thesis unfolding A [symmetric] B [symmetric] by (simp add: mod_mult_eq)
    next
      case False
      then have "length a \<le> n" "length b \<le> n" by (auto simp: n_def)
      then show ?thesis unfolding A [symmetric] B [symmetric] by (simp add: mp_val_mod_base)
    qed
    obtain r0 where r0: "mp_mul_internal (min (bot * 2) rw) a0 b0 scratch = Some r0" "length r0 = min (bot * 2) rw"
      "mp_val r0 = mp_val a0 * mp_val b0 mod mp_base (min (bot * 2) rw)"
      using IH [of a0 bot b0 scratch "min (bot * 2) rw"] len bot scr by auto
    obtain r2 where r2: "mp_mul_internal (rw - bot * 2) a1 b1 scratch = Some r2" "length r2 = rw - bot * 2"
      "mp_val r2 = mp_val a1 * mp_val b1 mod mp_base (rw - bot * 2)"
      using IH [of a1 bot b1 scratch "rw - bot * 2"] len bot scr by auto
    have "mp_val a0 * mp_val b0 < mp_base (bot + bot)" by (rule mult_less_base) (simp_all add: le)
    then have x0: "mp_val a0 * mp_val b0 < mp_base (bot * 2)" by (simp add: mult_2_right)
    define r where "r = r0 @ r2"
    have r: "length r = rw"
      "mp_val r = (mp_val a0 * mp_val b0 + mp_base (bot * 2) * (mp_val a1 * mp_val b1)) mod mp_base rw"
      using r0(2) r2(2) concat_val [OF _ x0 r0(2,3) r2(3)] by (auto simp: r_def)
    have r1: "mp_make_alias r bot rw = drop bot r" using r by (simp add: mp_make_alias_eq)
    let ?L = "rw - bot" and ?M = "mp_val a0 * mp_val b1 + mp_val a1 * mp_val b0"
    have D2: "mp_base (bot * 2) = ?D * ?D" unfolding mult_2_right mp_base_add ..
    have finish: "mp_val (take bot r @ q) = (?A * ?B) mod mp_base rw"
      if "length q = ?L" "mp_val q = (mp_val (drop bot r) + ?M) mod mp_base ?L" for q
    proof -
      have "mp_val (take bot r @ q) = (mp_val r + ?D * ?M) mod mp_base rw"
        using add_at [of bot r q ?M] that bot(5) r(1) by simp
      also have "\<dots> = (mp_val a0 * mp_val b0 + mp_base (bot * 2) * (mp_val a1 * mp_val b1) + ?D * ?M) mod mp_base rw"
        unfolding r(2) by (rule mod_add_left_eq)
      also have "mp_val a0 * mp_val b0 + mp_base (bot * 2) * (mp_val a1 * mp_val b1) + ?D * ?M =
          (mp_val a0 + ?D * mp_val a1) * (mp_val b0 + ?D * mp_val b1)"
        unfolding D2 by (simp add: algebra_simps)
      finally show ?thesis unfolding AB .
    qed
    have nn: "bot + n div 2 = n" by (simp add: bot_def)
    note unfold_def = nn mp_mul_internal.simps [of rw] n_def [symmetric] bot_def [symmetric] ab [symmetric] r_def [symmetric]
      mp_mul_scratchspace_unary_def mp_clear_def mp_alloc_from_scratch_def
    note mixed = mult_less_base [OF mp_val_nonneg le(1) mp_val_nonneg le(4)]
      mult_less_base [OF mp_val_nonneg le(3) mp_val_nonneg le(2)]
    have mixed: "mp_val a0 * mp_val b1 < mp_base n" "mp_val a1 * mp_val b0 < mp_base n"
      using mixed by (simp_all add: bot_def add.commute)
    show ?thesis
    proof (cases "rw < n * 2")
      case True
      define sw where "sw = min n ?L"
      have sw: "6 * bot \<le> scratch - sw" "sw \<le> scratch" using scr bot n24 by (simp_all add: sw_def)
      obtain s1 where s1: "mp_mul_internal sw a0 b1 (scratch - sw) = Some s1" "length s1 = sw"
        "mp_val s1 = mp_val a0 * mp_val b1 mod mp_base sw"
        using IH [of a0 bot b1 "scratch - sw" sw] len bot sw(1) by auto
      obtain s2 where s2: "mp_mul_internal sw a1 b0 (scratch - sw) = Some s2" "length s2 = sw"
        "mp_val s2 = mp_val a1 * mp_val b0 mod mp_base sw"
        using IH [of a1 bot b0 "scratch - sw" sw] len bot sw(1) by auto
      let ?q = "mp_add_into ?L (mp_add_into ?L (drop bot r) s1) s2"
      have "mp_mul_internal rw a b scratch = Some (take bot r @ ?q)"
        using False True scr r0(1) r2(1) s1(1) s2(1) sw(2) r1 r(1) by (simp add: unfold_def Let_def sw_def mp_simps del: take_append length_append)
      moreover have "x mod mp_base sw mod mp_base ?L = x mod mp_base ?L" if "0 \<le> x" "x < mp_base n" for x
        using that by (cases "n \<le> ?L") (simp_all add: sw_def min_def)
      then have "mp_val s1 mod mp_base ?L = mp_val a0 * mp_val b1 mod mp_base ?L"
        "mp_val s2 mod mp_base ?L = mp_val a1 * mp_val b0 mod mp_base ?L" using mixed s1(3) s2(3) by simp_all
      then have "mp_val ?q = (mp_val (drop bot r) + ?M) mod mp_base ?L"
        by (simp only: mp_add_into add_two_mod)
      ultimately show ?thesis using finish [of ?q] r(1) bot(5) by (simp add: mp_simps)
    next
      case wide: False
      let ?k = "bot * 2 + 1"
      have base_mono: "mp_base i \<le> mp_base j" if "i \<le> j" for i j using that by (intro power_increasing) simp_all
      have top: "n div 2 + n div 2 \<le> rw - bot * 2" using wide bot(4) unfolding bot_def by linarith
      have "mp_val a1 * mp_val b1 < mp_base (n div 2 + n div 2)" by (rule mult_less_base) (simp_all add: le)
      also note base_mono [OF top]
      finally have v2: "mp_val r2 = mp_val a1 * mp_val b1" using r2(3) by simp
      have v0: "mp_val r0 = mp_val a0 * mp_val b0" using r0(3) x0 wide bot(4) n24 by (simp add: min_absorb1)
      have sums: "mp_val (mp_add_into (bot + 1) a0 a1) = mp_val a0 + mp_val a1"
        "mp_val (mp_add_into (bot + 1) b0 b1) = mp_val b0 + mp_val b1"
      proof -
        have "mp_base (n div 2) \<le> ?D" by (rule base_mono [OF bot(1)])
        moreover have "2 * ?D \<le> mp_base (bot + 1)" by (simp add: power_add)
        ultimately have "mp_val a0 + mp_val a1 < mp_base (bot + 1)" "mp_val b0 + mp_val b1 < mp_base (bot + 1)"
          using le by linarith+
        then show "mp_val (mp_add_into (bot + 1) a0 a1) = mp_val a0 + mp_val a1"
          "mp_val (mp_add_into (bot + 1) b0 b1) = mp_val b0 + mp_val b1" by (simp_all add: mp_simps)
      qed
      define asum bsum where "asum = mp_add_into (bot + 1) a0 a1" "bsum = mp_add_into (bot + 1) b0 b1"
      define scratch' where "scratch' = scratch - (bot + 1) - (bot + 1) - ?k"
      have sc: "bot + 1 \<le> scratch" "bot + 1 \<le> scratch - (bot + 1)" "?k \<le> scratch - (bot + 1) - (bot + 1)"
        "6 * (bot + 1) \<le> scratch'"
        using scr bot(4) n24 by (simp_all add: scratch'_def)
      obtain p where p: "mp_mul_internal ?k asum bsum scratch' = Some p" "length p = ?k"
        "mp_val p = (mp_val a0 + mp_val a1) * (mp_val b0 + mp_val b1) mod mp_base ?k"
        using IH [of asum "bot + 1" bsum scratch' ?k] bot sc(4) sums by (auto simp: asum_bsum_def mp_simps)
      let ?p = "mp_sub_into ?k (mp_sub_into ?k p r0) r2"
      let ?q = "mp_add_into ?L (drop bot r) ?p"
      have "mp_mul_internal rw a b scratch = Some (take bot r @ ?q)"
        using False wide scr r0(1) r2(1) p(1) [unfolded asum_bsum_def scratch'_def] sc(1-3) r1 r(1)
        by (simp add: unfold_def Let_def del: take_append length_append)
      moreover have "mp_val ?p = ?M"
      proof -
        have "mp_val ?p = ((mp_val a0 + mp_val a1) * (mp_val b0 + mp_val b1) - mp_val r0 - mp_val r2) mod mp_base ?k"
          unfolding mp_sub_into p(3) by (simp add: mod_diff_left_eq)
        also have "(mp_val a0 + mp_val a1) * (mp_val b0 + mp_val b1) - mp_val r0 - mp_val r2 = ?M"
          unfolding v0 v2 by (simp add: algebra_simps)
        finally have p_val: "mp_val ?p = ?M mod mp_base ?k" .
        have "?M < 2 * mp_base n" using mixed by simp
        moreover have "mp_base n \<le> mp_base (bot * 2)" by (rule base_mono) (use bot(3) in simp)
        moreover have "2 * mp_base (bot * 2) \<le> mp_base ?k" by (simp add: power_add)
        ultimately have "?M mod mp_base ?k = ?M" by (intro mod_pos_pos_trivial) (simp, linarith)
        with p_val show ?thesis by simp
      qed
      ultimately show ?thesis using finish [of ?q] r(1) bot(5) by (simp add: mp_simps)
    qed
  qed
qed


lemma mp_mul_into_correct [mp_simps]:
  assumes "0 < rw" "0 < max (length a) (length b)"
  shows "\<exists>r. mp_mul_into rw a b = Some r \<and> length r = rw \<and> mp_val r = (mp_val a * mp_val b) mod mp_base rw"
  using mp_mul_internal_correct [of rw a b "mp_mul_scratchspace rw (length a) (length b)"] assms
  by (auto simp: mp_mul_into_def mp_make_sized_def mp_mul_scratchspace_def mp_mul_scratchspace_unary_def Let_def)

lemma mp_mul_correct:
  assumes "x \<noteq> []" "y \<noteq> []"
  shows "\<exists>r. mp_mul x y = Some r \<and> length r = length x + length y \<and> mp_val r = mp_val x * mp_val y"
proof -
  have "mp_val x * mp_val y < mp_base (length x + length y)" by (rule mult_less_base) (simp_all add: mp_val_less)
  then show ?thesis using mp_mul_into_correct [of "length x + length y" x y] assms
    by (auto simp: mp_mul_def mp_make_sized_def less_max_iff_disj)
qed

end
