(* ===== verification/Mp_Shift.thy ===== *)
theory Mp_Shift
  imports Mp_Arith "HOL-Library.Monad_Syntax"
begin

text \<open>
  Shifts, reduction modulo a power of two, and the routines that look for the highest bit of a
  number: the code and its effect on the value. All of it is stated through the bits of the value.
\<close>

unbundle bit_operations_syntax

section \<open>The code\<close>

definition mp_lshift_fixed_into :: "nat \<Rightarrow> mp_int \<Rightarrow> nat \<Rightarrow> mp_int" where
  "mp_lshift_fixed_into rw a bits =
     (let words = bits div BIGNUM_INT_BITS; bitoff = bits mod BIGNUM_INT_BITS in
      map (\<lambda>i.
        if i < words then 0
        else
          let w = mp_word a (i - words) in
          if bitoff \<noteq> 0 then
            let w = push_bit bitoff w in
            if i > words then w OR drop_bit (BIGNUM_INT_BITS - bitoff) (mp_word a (i - words - 1)) else w
          else w) [0..<rw])"

definition mp_rshift_fixed_into :: "nat \<Rightarrow> mp_int \<Rightarrow> nat \<Rightarrow> mp_int" where
  "mp_rshift_fixed_into rw a bits =
     (let words = bits div BIGNUM_INT_BITS; bitoff = bits mod BIGNUM_INT_BITS in
      map (\<lambda>i.
        let w = mp_word a (i + words) in
        if bitoff \<noteq> 0 then
          drop_bit bitoff w OR push_bit (BIGNUM_INT_BITS - bitoff) (mp_word a (i + words + 1))
        else w) [0..<rw])"

definition mp_lshift_fixed :: "mp_int \<Rightarrow> nat \<Rightarrow> mp_int option" where
  "mp_lshift_fixed x bits =
     (let words = (bits + BIGNUM_INT_BITS - 1) div BIGNUM_INT_BITS
      in map_option (\<lambda>r. mp_lshift_fixed_into (length r) x bits) (mp_make_sized (length x + words)))"

definition mp_rshift_fixed :: "mp_int \<Rightarrow> nat \<Rightarrow> mp_int option" where
  "mp_rshift_fixed x bits =
     (let words = bits div BIGNUM_INT_BITS; nw = length x - min (length x) words
      in map_option (\<lambda>r. mp_rshift_fixed_into (length r) x bits) (mp_make_sized (max nw 1)))"

text \<open>
  The shifts by a secret amount. One pass shifts by a power of two or leaves the number alone; an
  index that would wrap around below zero in the left shift reads as a word out of range.
\<close>

definition rshift_pass :: "nat \<Rightarrow> BignumInt \<Rightarrow> mp_int \<Rightarrow> mp_int" where
  "rshift_pass word_offset msk r =
     map (\<lambda>i. let w = mp_word r (i + word_offset) in r ! i XOR ((r ! i XOR w) AND msk)) [0..<length r]"

definition rshift_bit_pass :: "nat \<Rightarrow> BignumInt \<Rightarrow> mp_int \<Rightarrow> mp_int" where
  "rshift_bit_pass shift msk r =
     (let upshift = BIGNUM_INT_BITS - shift in
      map (\<lambda>i. let w = drop_bit shift (r ! i) OR push_bit upshift (mp_word r (i + 1))
               in r ! i XOR ((r ! i XOR w) AND msk)) [0..<length r])"

definition shift_mask :: "nat \<Rightarrow> nat \<Rightarrow> BignumInt" where
  "shift_mask n k = - of_nat (drop_bit k n AND 1)"

function shift_passes :: "(nat \<Rightarrow> BignumInt \<Rightarrow> mp_int \<Rightarrow> mp_int) \<Rightarrow> nat \<Rightarrow> nat \<Rightarrow> nat \<Rightarrow> mp_int \<Rightarrow> mp_int" where
  "shift_passes pass wordshift nw k r =
     (if drop_bit k nw = 0 then r
      else shift_passes pass wordshift nw (Suc k) (pass (2 ^ k) (shift_mask wordshift k) r))"
  by pat_completeness auto
termination
proof (relation "measure (\<lambda>(pass, wordshift, nw, k, r). drop_bit k nw)")
  fix pass :: "nat \<Rightarrow> BignumInt \<Rightarrow> mp_int \<Rightarrow> mp_int" and wordshift nw k :: nat and r :: mp_int
  assume "drop_bit k nw \<noteq> 0"
  then show "((pass, wordshift, nw, Suc k, pass (2 ^ k) (shift_mask wordshift k) r), pass, wordshift, nw, k, r)
      \<in> measure (\<lambda>(pass, wordshift, nw, k, r). drop_bit k nw)"
    by (simp add: drop_bit_Suc drop_bit_half)
qed simp

declare shift_passes.simps [simp del]

definition shift_clear :: "nat \<Rightarrow> nat \<Rightarrow> uint32" where
  "shift_clear nw wordshift = ucast (drop_bit 63 (of_nat nw - of_nat wordshift :: uint64))"

definition mp_rshift_safe_in_place :: "mp_int \<Rightarrow> nat \<Rightarrow> mp_int" where
  "mp_rshift_safe_in_place r bits =
     (let wordshift = bits div BIGNUM_INT_BITS; bitshift = bits mod BIGNUM_INT_BITS;
          r = mp_cond_clear r (shift_clear (length r) wordshift);
          r = shift_passes rshift_pass wordshift (length r) 0 r
      in fold (\<lambda>k. rshift_bit_pass (2 ^ k) (shift_mask bitshift k)) [0..<BIGNUM_INT_BITS_BITS] r)"

definition mp_rshift_safe :: "mp_int \<Rightarrow> nat \<Rightarrow> mp_int" where
  "mp_rshift_safe x bits = mp_rshift_safe_in_place (mp_copy x) bits"

definition mp_rshift_safe_into :: "nat \<Rightarrow> mp_int \<Rightarrow> nat \<Rightarrow> mp_int" where
  "mp_rshift_safe_into rw x bits = mp_rshift_safe_in_place (mp_copy_into rw x) bits"

definition lshift_pass :: "nat \<Rightarrow> BignumInt \<Rightarrow> mp_int \<Rightarrow> mp_int" where
  "lshift_pass word_offset msk r =
     map (\<lambda>i. let w = (if i < word_offset then 0 else mp_word r (i - word_offset))
              in r ! i XOR ((r ! i XOR w) AND msk)) [0..<length r]"

definition mp_lshift_safe_in_place :: "mp_int \<Rightarrow> nat \<Rightarrow> mp_int" where
  "mp_lshift_safe_in_place r bits =
     (let wordshift = bits div BIGNUM_INT_BITS; bitshift = bits mod BIGNUM_INT_BITS;
          r = mp_cond_clear r (shift_clear (length r) wordshift);
          r = shift_passes lshift_pass wordshift (length r) 0 r;
          downshift = BIGNUM_INT_BITS - bitshift;
          no_shift = drop_bit BIGNUM_INT_BITS_BITS downshift;
          downshift = (if no_shift = 1 then 0 else downshift);
          downshifted_mask = NOT (- (of_nat no_shift :: BignumInt))
      in map (\<lambda>i. push_bit bitshift (r ! i) OR
                (drop_bit downshift (if i = 0 then 0 else mp_word r (i - 1)) AND downshifted_mask)) [0..<length r])"

definition mp_lshift_safe_into :: "nat \<Rightarrow> mp_int \<Rightarrow> nat \<Rightarrow> mp_int" where
  "mp_lshift_safe_into rw x bits = mp_lshift_safe_in_place (mp_copy_into rw x) bits"

definition mp_reduce_mod_2to :: "mp_int \<Rightarrow> nat \<Rightarrow> mp_int" where
  "mp_reduce_mod_2to x p =
     (let word = p div BIGNUM_INT_BITS; msk = push_bit (p mod BIGNUM_INT_BITS) 1 - 1 in
      map (\<lambda>i. if i < word then x ! i else x ! i AND (if i = word then msk else 0)) [0..<length x])"

section \<open>Shifts by a public amount\<close>

lemma bit_pos: "bit (mp_val x) (64 * i + j) \<longleftrightarrow> bit (mp_word x (i + j div 64)) (j mod 64)"
  by (simp add: bit_mp_val)

lemma mod_base_take: "v mod mp_base n = take_bit (64 * n) v"
  by (simp add: take_bit_eq_mod)

lemma length_shift [mp_simps]:
  "length (mp_lshift_fixed_into rw a bits) = rw" "length (mp_rshift_fixed_into rw a bits) = rw"
  by (simp_all add: mp_lshift_fixed_into_def mp_rshift_fixed_into_def Let_def)

lemma mp_lshift_fixed_into_val [mp_simps]:
  "mp_val (mp_lshift_fixed_into rw a bits) = (mp_val a * 2 ^ bits) mod mp_base rw"
proof (rule bit_eqI)
  fix k :: nat
  define i j W b where ijWb: "i = k div 64" "j = k mod 64" "W = bits div 64" "b = bits mod 64"
  then have k: "k = 64 * i + j" "bits = 64 * W + b" "j < 64" "b < 64" by simp_all
  have rhs: "bit ((mp_val a * 2 ^ bits) mod mp_base rw) k \<longleftrightarrow> k < 64 * rw \<and> bits \<le> k \<and> bit (mp_val a) (k - bits)"
    by (simp add: mod_base_take push_bit_eq_mult [symmetric] bit_simps)
  have "bits \<le> k \<and> bit (mp_val a) (k - bits) \<longleftrightarrow>
      (if i < W then False else if b \<le> j then bit (mp_word a (i - W)) (j - b)
       else W < i \<and> bit (mp_word a (i - W - 1)) (64 + j - b))"
  proof -
    consider "i < W" | "W \<le> i" "b \<le> j" | "W = i" "j < b" | "W < i" "j < b" by linarith
    then show ?thesis
    proof cases
      case 2
      then have "k - bits = 64 * (i - W) + (j - b)" using k by (simp add: diff_mult_distrib2)
      then have "bit (mp_val a) (k - bits) \<longleftrightarrow> bit (mp_word a (i - W)) (j - b)"
        using bit_pos [of a "i - W" "j - b"] k by (simp only:) simp
      moreover have "bits \<le> k" using 2 k by simp
      ultimately show ?thesis using 2 by simp
    next
      case 4
      then obtain d where d: "i = W + 1 + d" using less_iff_Suc_add by auto
      then have "k - bits = 64 * d + (64 + j - b)" using k 4 by simp
      then have "bit (mp_val a) (k - bits) \<longleftrightarrow> bit (mp_word a d) (64 + j - b)"
        using bit_pos [of a d "64 + j - b"] k 4 by (simp only:) simp
      moreover have "bits \<le> k" using d k by simp
      ultimately show ?thesis using 4 d by simp
    qed (use k in simp_all)
  qed
  then show "bit (mp_val (mp_lshift_fixed_into rw a bits)) k \<longleftrightarrow> bit ((mp_val a * 2 ^ bits) mod mp_base rw) k"
    unfolding rhs mp_lshift_fixed_into_def Let_def mp_val_map_bits
    using k by (auto simp: bit_simps ijWb [symmetric] dest: bit_imp_le_length)
qed


lemma mp_rshift_fixed_into_val [mp_simps]:
  "mp_val (mp_rshift_fixed_into rw a bits) = (mp_val a div 2 ^ bits) mod mp_base rw"
proof (rule bit_eqI)
  fix k :: nat
  define i j W b where ijWb: "i = k div 64" "j = k mod 64" "W = bits div 64" "b = bits mod 64"
  then have k: "k = 64 * i + j" "bits = 64 * W + b" "j < 64" "b < 64" by simp_all
  have rhs: "bit ((mp_val a div 2 ^ bits) mod mp_base rw) k \<longleftrightarrow> k < 64 * rw \<and> bit (mp_val a) (k + bits)"
    by (simp add: mod_base_take drop_bit_eq_div [symmetric] bit_simps add.commute)
  have "bit (mp_val a) (k + bits) \<longleftrightarrow>
      (if j + b < 64 then bit (mp_word a (i + W)) (j + b) else bit (mp_word a (i + W + 1)) (j + b - 64))"
  proof (cases "j + b < 64")
    case True
    then show ?thesis using bit_pos [of a "i + W" "j + b"] k by (simp add: algebra_simps)
  next
    case False
    then have "k + bits = 64 * (i + W + 1) + (j + b - 64)" using k by simp
    moreover have "(j + b - 64) div 64 = 0" "(j + b - 64) mod 64 = j + b - 64" using k False by simp_all
    ultimately show ?thesis using False bit_pos [of a "i + W + 1" "j + b - 64"] by simp
  qed
  then show "bit (mp_val (mp_rshift_fixed_into rw a bits)) k \<longleftrightarrow> bit ((mp_val a div 2 ^ bits) mod mp_base rw) k"
    unfolding rhs mp_rshift_fixed_into_def Let_def mp_val_map_bits
    using k by (auto simp: bit_simps ijWb [symmetric] add.commute dest: bit_imp_le_length)
qed

lemma mp_reduce_mod_2to_val [mp_simps]:
  "length (mp_reduce_mod_2to x p) = length x" "mp_val (mp_reduce_mod_2to x p) = mp_val x mod 2 ^ p"
proof -
  show "length (mp_reduce_mod_2to x p) = length x" by (simp add: mp_reduce_mod_2to_def Let_def)
  show "mp_val (mp_reduce_mod_2to x p) = mp_val x mod 2 ^ p"
  proof (rule bit_eqI)
    fix k :: nat
    define i j W b where ijWb: "i = k div 64" "j = k mod 64" "W = p div 64" "b = p mod 64"
    then have k: "k = 64 * i + j" "p = 64 * W + b" "j < 64" "b < 64" by simp_all
    have "k < p \<longleftrightarrow> i < W \<or> i = W \<and> j < b"
      using k by (cases "i < W"; cases "i = W") auto
    moreover have "push_bit b 1 - 1 = (take_bit b (- 1) :: BignumInt)" by (simp add: mask_eq_exp_minus_1 push_bit_eq_mult)
    ultimately show "bit (mp_val (mp_reduce_mod_2to x p)) k \<longleftrightarrow> bit (mp_val x mod 2 ^ p) k"
      unfolding mp_reduce_mod_2to_def Let_def mp_val_map_bits
      using k by (auto simp: bit_simps ijWb [symmetric] take_bit_eq_mod [symmetric] bit_mp_val mp_word_def
          simp flip: mask_eq_exp_minus_1)
  qed
qed


section \<open>Selecting by a mask\<close>

lemma xor_select: "w XOR ((w XOR v) AND - of_bool p) = (if p then v else w)" for w :: BignumInt
  by (cases p) (simp_all add: xor.assoc [symmetric])

lemma xor_twice: "v XOR (v XOR w) = w" "w XOR (v XOR w) = v" for v w :: BignumInt
  by (simp add: xor.assoc [symmetric]) (subst xor.left_commute, simp)

lemma mp_select_into_val [mp_simps]:
  "length (mp_select_into rw x y (of_bool p)) = rw"
  "mp_val (mp_select_into rw x y (of_bool p)) = mp_val (if p then y else x) mod mp_base rw"
proof -
  have "mp_word x i XOR ((mp_word y i XOR mp_word x i) AND - of_bool p) = mp_word (if p then y else x) i" for i
    using xor_select [of "mp_word x i" "mp_word y i" p] by (simp add: xor.commute)
  then show "mp_val (mp_select_into rw x y (of_bool p)) = mp_val (if p then y else x) mod mp_base rw"
    by (simp add: mp_select_into_def Let_def del: if_distrib)
qed (simp add: mp_select_into_def Let_def)

lemma mp_cond_swap_eq [mp_simps]:
  "length x = length y \<Longrightarrow> mp_cond_swap x y (of_bool p) = Some (if p then (y, x) else (x, y))"
proof (cases p)
  case True
  assume l: "length x = length y"
  have "map2 (XOR) x (map2 (\<lambda>w0 w1. (w0 XOR w1) AND - 1) x y) = y"
    "map2 (XOR) y (map2 (\<lambda>w0 w1. (w0 XOR w1) AND - 1) x y) = x"
    using l by (simp_all add: list_eq_iff_nth_eq xor_twice)
  with True l show ?thesis by (simp add: mp_cond_swap_def)
next
  case False
  assume l: "length x = length y"
  have "map2 (XOR) z (map2 (\<lambda>w0 w1. 0) x y) = z" if "length z = length x" for z :: mp_int
    using l that by (intro nth_equalityI) simp_all
  with False l show ?thesis by (simp add: mp_cond_swap_def)
qed

lemma mp_cond_clear_eq [mp_simps]: "mp_cond_clear x (of_bool p) = (if p then mp_clear (length x) else x)"
  by (cases p) (simp_all add: mp_cond_clear_def mp_clear_def map_replicate_const)

lemma mp_copy_into_val [mp_simps]:
  "length (mp_copy_into rw x) = rw" "mp_val (mp_copy_into rw x) = mp_val x mod mp_base rw"
  by (simp_all add: mp_copy_into_def Let_def mp_val_append mp_val_take min_def mp_val_mod_base)

section \<open>Shifts by a secret amount\<close>

lemma shift_mask_eq: "shift_mask n k = - of_bool (bit n k)"
  by (simp add: shift_mask_def and_one_eq bit_iff_odd_drop_bit mod2_eq_if)

lemma shift_clear_eq:
  assumes "nw < 2 ^ 63" "ws < 2 ^ 63"
  shows "shift_clear nw ws = of_bool (nw < ws)"
proof -
  let ?d = "of_nat nw - of_nat ws :: uint64"
  have u: "uint ?d = (int nw - int ws) mod 2 ^ 64"
    by (simp add: uint_sub_lem uint_word_ariths unsigned_of_nat take_bit_eq_mod mod_diff_eq zmod_int)
  have v: "uint (drop_bit 63 ?d) = uint ?d div 2 ^ 63"
    by (subst unsigned_drop_bit_eq) (simp add: take_bit_int_eq_self uint_limb_less drop_bit_eq_div)
  have "uint ?d div 2 ^ 63 = of_bool (nw < ws)"
  proof (cases "nw < ws")
    case True
    have "(int nw - int ws) mod 2 ^ 64 = (int nw - int ws + 2 ^ 64) mod 2 ^ 64" by simp
    also have "\<dots> = int nw - int ws + 2 ^ 64" using True assms by (intro mod_pos_pos_trivial) simp_all
    finally have "uint ?d = int nw - int ws + 2 ^ 64" by (simp only: u)
    moreover have "(int nw - int ws + 2 ^ 64) div 2 ^ 63 = 1"
      using True assms by (intro int_div_pos_eq [of _ _ _ "int nw - int ws + 2 ^ 63"]) simp_all
    ultimately show ?thesis using True by simp
  next
    case False
    then have "uint ?d = int nw - int ws" unfolding u using assms by (intro mod_pos_pos_trivial) simp_all
    then show ?thesis using False assms by (simp add: div_pos_pos_trivial)
  qed
  then have "drop_bit 63 ?d = of_bool (nw < ws)" using v by (simp add: word_uint_eq_iff)
  then show ?thesis by (simp add: shift_clear_def)
qed

lemma rshift_pass_val: "length (rshift_pass w m r) = length r"
  "mp_val (rshift_pass w (shift_mask n k) r) = mp_val r div mp_base (if bit n k then w else 0)"
proof -
  show "length (rshift_pass w m r) = length r" by (simp add: rshift_pass_def)
  have "rshift_pass w (shift_mask n k) r = (if bit n k then map (\<lambda>i. mp_word r (i + w)) [0..<length r] else r)"
    by (rule nth_equalityI) (simp_all add: rshift_pass_def shift_mask_eq xor_select)
  moreover have "map (\<lambda>i. mp_word r (i + w)) [0..<length r] = drop w r @ replicate (min w (length r)) 0"
    by (rule nth_equalityI) (auto simp: mp_word_def nth_append add.commute min_def)
  ultimately show "mp_val (rshift_pass w (shift_mask n k) r) = mp_val r div mp_base (if bit n k then w else 0)"
    by (simp add: mp_val_append mp_val_drop)
qed

lemma word_shift_step: "push_bit k (drop_bit k n) = (if bit n k then 2 ^ k else 0) + push_bit (Suc k) (drop_bit (Suc k) n)" for n :: nat
proof -
  have "drop_bit k n = of_bool (bit n k) + 2 * drop_bit (Suc k) n"
    by (simp add: drop_bit_Suc drop_bit_half bit_iff_odd_drop_bit)
  then show ?thesis by (simp add: push_bit_eq_mult algebra_simps)
qed

lemma word_shift_done: "\<lbrakk>n \<le> nw; drop_bit k nw = 0\<rbrakk> \<Longrightarrow> drop_bit k n = 0" for n :: nat
  by (simp add: drop_bit_eq_div div_eq_0_iff)

lemma shift_passes_right:
  "n \<le> nw \<Longrightarrow> length (shift_passes rshift_pass n nw k r) = length r \<and>
     mp_val (shift_passes rshift_pass n nw k r) = mp_val r div mp_base (push_bit k (drop_bit k n))"
proof (induction rshift_pass n nw k r rule: shift_passes.induct)
  case (1 n nw k r)
  show ?case
  proof (cases "drop_bit k nw = 0")
    case True
    then show ?thesis using word_shift_done [OF 1(2) True] by (simp add: shift_passes.simps [of _ n])
  next
    case False
    note IH = 1(1) [OF False 1(2)]
    have "mp_val r div mp_base (if bit n k then 2 ^ k else 0) div mp_base (push_bit (Suc k) (drop_bit (Suc k) n)) =
        mp_val r div mp_base (push_bit k (drop_bit k n))"
      unfolding word_shift_step [of k n] mp_base_add by (rule zdiv_zmult2_eq [symmetric]) simp
    then show ?thesis using IH False by (simp add: shift_passes.simps [of _ n nw k] rshift_pass_val)
  qed
qed


lemma rshift_bit_pass_val:
  assumes "k < 6"
  shows "length (rshift_bit_pass (2 ^ k) m r) = length r"
    "mp_val (rshift_bit_pass (2 ^ k) (shift_mask n k) r) = mp_val r div 2 ^ (if bit n k then 2 ^ k else 0)"
proof -
  have k: "(2 :: nat) ^ k < 64" using assms power_strict_increasing [of k 6 "2 :: nat"] by simp
  show "length (rshift_bit_pass (2 ^ k) m r) = length r" by (simp add: rshift_bit_pass_def Let_def)
  have "rshift_bit_pass (2 ^ k) (shift_mask n k) r =
      (if bit n k then mp_rshift_fixed_into (length r) r (2 ^ k) else r)"
    using k by (intro nth_equalityI)
      (simp_all add: rshift_bit_pass_def mp_rshift_fixed_into_def Let_def shift_mask_eq xor_select mp_word_def)
  moreover have "mp_val r div 2 ^ j < mp_base (length r)" for j
    using zdiv_mono2 [of "mp_val r" 1 "2 ^ j"] mp_val_less [of r] by simp
  ultimately show "mp_val (rshift_bit_pass (2 ^ k) (shift_mask n k) r) = mp_val r div 2 ^ (if bit n k then 2 ^ k else 0)"
    by (simp add: mp_simps pos_imp_zdiv_nonneg_iff)
qed


lemma bit_passes_right:
  "m \<le> 6 \<Longrightarrow>
     length (fold (\<lambda>k. rshift_bit_pass (2 ^ k) (shift_mask n k)) [0..<m] r) = length r \<and>
     mp_val (fold (\<lambda>k. rshift_bit_pass (2 ^ k) (shift_mask n k)) [0..<m] r) = mp_val r div 2 ^ take_bit m n"
proof (induction m)
  case (Suc m)
  have "take_bit (Suc m) n = take_bit m n + (if bit n m then 2 ^ m else 0)" by (simp add: take_bit_Suc_from_most)
  then show ?case using Suc by (simp add: rshift_bit_pass_val power_add zdiv_zmult2_eq)
qed simp

lemma shift_passes_zero:
  assumes "\<And>k m r. length (pass k m r) = length r"
    and "\<And>w k r. mp_val r = 0 \<Longrightarrow> mp_val (pass w (shift_mask n k) r) = 0"
  shows "length (shift_passes pass n nw k r) = length r \<and>
    (mp_val r = 0 \<longrightarrow> mp_val (shift_passes pass n nw k r) = 0)"
  using assms
proof (induction pass n nw k r rule: shift_passes.induct)
  case (1 pass n nw k r)
  show ?case
  proof (cases "drop_bit k nw = 0")
    case False
    from 1(1) [OF False 1(2,3)] 1(2,3) False show ?thesis
      by (simp add: shift_passes.simps [of _ _ nw k])
  qed (simp add: shift_passes.simps [of _ _ nw k])
qed

text \<open>The part of both shifts that moves whole words.\<close>

lemma word_shift_right:
  assumes "length r < 2 ^ 63" "ws < 2 ^ 63"
  defines "q \<equiv> shift_passes rshift_pass ws (length r) 0 (mp_cond_clear r (shift_clear (length r) ws))"
  shows "length q = length r" "mp_val q = mp_val r div mp_base ws"
proof -
  note zero = shift_passes_zero [of rshift_pass ws "length r" 0 "mp_clear (length r)"]
  have q: "q = shift_passes rshift_pass ws (length r) 0 (if length r < ws then mp_clear (length r) else r)"
    unfolding q_def by (simp add: shift_clear_eq [OF assms(1,2)] mp_cond_clear_eq del: if_distrib)
  have "mp_val r div mp_base ws = 0" if "length r < ws"
  proof -
    have "mp_base (length r) \<le> mp_base ws" using that by (intro power_increasing) simp_all
    with mp_val_less [of r] have "mp_val r < mp_base ws" by (rule less_le_trans)
    then show ?thesis by (simp add: div_pos_pos_trivial)
  qed
  then show "length q = length r" "mp_val q = mp_val r div mp_base ws"
    unfolding q using zero shift_passes_right [of ws "length r" 0 r]
    by (cases "length r < ws"; simp add: mp_clear_def rshift_pass_val)+
qed

lemma mp_rshift_safe_in_place_val [mp_simps]:
  assumes "length r < 2 ^ 63" "bits div 64 < 2 ^ 63"
  shows "length (mp_rshift_safe_in_place r bits) = length r" "mp_val (mp_rshift_safe_in_place r bits) = mp_val r div 2 ^ bits"
proof -
  note q = word_shift_right [OF assms]
  have l: "length (mp_cond_clear r x) = length r" for x by (simp add: mp_cond_clear_def)
  have "bits = 64 * (bits div 64) + bits mod 64" by simp
  then have e: "(2 :: int) ^ bits = mp_base (bits div 64) * 2 ^ (bits mod 64)" by (metis power_add)
  have "mp_val r div 2 ^ bits = mp_val r div mp_base (bits div 64) div 2 ^ (bits mod 64)"
    unfolding e by (rule zdiv_zmult2_eq) simp
  moreover have "take_bit 6 (bits mod 64) = bits mod 64" by (simp add: take_bit_eq_mod)
  ultimately show "length (mp_rshift_safe_in_place r bits) = length r"
    "mp_val (mp_rshift_safe_in_place r bits) = mp_val r div 2 ^ bits"
    unfolding mp_rshift_safe_in_place_def Let_def l using q bit_passes_right [OF order_refl] by simp_all
qed


lemma lshift_pass_val: "length (lshift_pass w m r) = length r"
  "mp_val (lshift_pass w (shift_mask n k) r) = mp_val r * mp_base (if bit n k then w else 0) mod mp_base (length r)"
proof -
  show "length (lshift_pass w m r) = length r" by (simp add: lshift_pass_def)
  have "lshift_pass w (shift_mask n k) r = (if bit n k then mp_lshift_fixed_into (length r) r (64 * w) else r)"
    by (rule nth_equalityI)
      (simp_all add: lshift_pass_def mp_lshift_fixed_into_def Let_def shift_mask_eq xor_select mp_word_def)
  then show "mp_val (lshift_pass w (shift_mask n k) r) =
      mp_val r * mp_base (if bit n k then w else 0) mod mp_base (length r)"
    by (simp add: mp_simps mp_val_mod_base)
qed

lemma shift_passes_left:
  "n \<le> nw \<Longrightarrow> length (shift_passes lshift_pass n nw k r) = length r \<and>
     mp_val (shift_passes lshift_pass n nw k r) = mp_val r * mp_base (push_bit k (drop_bit k n)) mod mp_base (length r)"
proof (induction lshift_pass n nw k r rule: shift_passes.induct)
  case (1 n nw k r)
  show ?case
  proof (cases "drop_bit k nw = 0")
    case True
    then show ?thesis using word_shift_done [OF 1(2) True]
      by (simp add: shift_passes.simps [of _ n] mp_val_mod_base)
  next
    case False
    note IH = 1(1) [OF False 1(2)]
    have "mp_val r * mp_base (if bit n k then 2 ^ k else 0) mod mp_base (length r) *
          mp_base (push_bit (Suc k) (drop_bit (Suc k) n)) mod mp_base (length r) =
        mp_val r * mp_base (push_bit k (drop_bit k n)) mod mp_base (length r)"
      unfolding word_shift_step [of k n] mp_base_add by (simp add: mod_mult_left_eq mult.assoc)
    then show ?thesis using IH False by (simp add: shift_passes.simps [of _ n nw k] lshift_pass_val)
  qed
qed

lemma word_shift_left:
  assumes "length r < 2 ^ 63" "ws < 2 ^ 63"
  defines "q \<equiv> shift_passes lshift_pass ws (length r) 0 (mp_cond_clear r (shift_clear (length r) ws))"
  shows "length q = length r" "mp_val q = mp_val r * mp_base ws mod mp_base (length r)"
proof -
  note zero = shift_passes_zero [of lshift_pass ws "length r" 0 "mp_clear (length r)"]
  have q: "q = shift_passes lshift_pass ws (length r) 0 (if length r < ws then mp_clear (length r) else r)"
    unfolding q_def by (simp add: shift_clear_eq [OF assms(1,2)] mp_cond_clear_eq del: if_distrib)
  have "mp_val r * mp_base ws mod mp_base (length r) = 0" if "length r < ws"
  proof -
    have "mp_base ws = mp_base (length r) * mp_base (ws - length r)" using that by (simp add: mp_base_add [symmetric])
    then show ?thesis by simp
  qed
  then show "length q = length r" "mp_val q = mp_val r * mp_base ws mod mp_base (length r)"
    unfolding q using zero shift_passes_left [of ws "length r" 0 r]
    by (cases "length r < ws"; simp add: mp_clear_def lshift_pass_val)+
qed

lemma lshift_bits:
  assumes "b < 64"
  shows "map (\<lambda>i. push_bit b (r ! i) OR
        (drop_bit (if drop_bit 6 (64 - b) = 1 then 0 else 64 - b) (if i = 0 then 0 else mp_word r (i - 1))
          AND NOT (- (of_nat (drop_bit 6 (64 - b)) :: BignumInt)))) [0..<length r] =
     mp_lshift_fixed_into (length r) r b"
proof (cases "b = 0")
  case True
  then show ?thesis by (intro nth_equalityI) (simp_all add: mp_lshift_fixed_into_def mp_word_def Let_def)
next
  case False
  then have "drop_bit 6 (64 - b) = 0" by (simp add: drop_bit_eq_div)
  with False assms show ?thesis
    by (intro nth_equalityI) (auto simp: mp_lshift_fixed_into_def mp_word_def Let_def)
qed

lemma mp_lshift_safe_in_place_val [mp_simps]:
  assumes "length r < 2 ^ 63" "bits div 64 < 2 ^ 63"
  shows "length (mp_lshift_safe_in_place r bits) = length r"
    "mp_val (mp_lshift_safe_in_place r bits) = mp_val r * 2 ^ bits mod mp_base (length r)"
proof -
  note q = word_shift_left [OF assms]
  have l: "length (mp_cond_clear r x) = length r" for x by (simp add: mp_cond_clear_def)
  have "bits = 64 * (bits div 64) + bits mod 64" by simp
  then have e: "(2 :: int) ^ bits = mp_base (bits div 64) * 2 ^ (bits mod 64)" by (metis power_add)
  have "mp_lshift_safe_in_place r bits = mp_lshift_fixed_into (length r)
      (shift_passes lshift_pass (bits div 64) (length r) 0 (mp_cond_clear r (shift_clear (length r) (bits div 64))))
      (bits mod 64)"
    unfolding mp_lshift_safe_in_place_def Let_def l q(1)
    using lshift_bits [of "bits mod 64" "shift_passes lshift_pass (bits div 64) (length r) 0
          (mp_cond_clear r (shift_clear (length r) (bits div 64)))"] by (simp only: q(1) mod_less_divisor zero_less_numeral)
  then show "length (mp_lshift_safe_in_place r bits) = length r"
    "mp_val (mp_lshift_safe_in_place r bits) = mp_val r * 2 ^ bits mod mp_base (length r)"
    using q(2) by (simp_all add: mp_simps e mod_mult_left_eq mult.assoc)
qed

end
