(* ===== verification/Mp_Bits.thy ===== *)
theory Mp_Bits
  imports Mp_Shift
begin

text \<open>
  Tests, single bits and the size of a number, and the operations that mix a number with a machine
  integer.
\<close>

unbundle bit_operations_syntax

section \<open>The highest word and the number of bits\<close>

text \<open>The three outputs of the search are index, high word and low word.\<close>

primrec find_highest_loop ::
  "nat \<Rightarrow> mp_int \<Rightarrow> nat \<Rightarrow> uint64 \<Rightarrow> uint64 \<Rightarrow> uint64 \<times> uint64 \<times> uint64 \<Rightarrow> uint64 \<times> uint64 \<times> uint64" where
  "find_highest_loop shift_wanted [] curr_index curr_hi curr_lo out = out"
| "find_highest_loop shift_wanted (curr_word # ws) curr_index curr_hi curr_lo out =
     (let (index, hi, lo) = out;
          indicator = normalise_to_1 curr_word;
          curr_lo = (if BIGNUM_INT_BITS < 64 then drop_bit BIGNUM_INT_BITS curr_lo else 0) OR
                      push_bit (64 - BIGNUM_INT_BITS) curr_hi;
          curr_hi = (if BIGNUM_INT_BITS < 64 then drop_bit BIGNUM_INT_BITS curr_hi else 0) OR
                      push_bit shift_wanted curr_word;
          hi = hi XOR ((curr_hi XOR hi) AND - ucast indicator);
          lo = lo XOR ((curr_lo XOR lo) AND - ucast indicator);
          index = index XOR ((of_nat curr_index XOR index) AND - ucast indicator)
      in find_highest_loop shift_wanted ws (Suc curr_index) curr_hi curr_lo (index, hi, lo))"

definition mp_find_highest_nonzero_word_pair ::
  "mp_int \<Rightarrow> nat \<Rightarrow> uint64 \<times> uint64 \<times> uint64 \<Rightarrow> uint64 \<times> uint64 \<times> uint64" where
  "mp_find_highest_nonzero_word_pair x shift_wanted out = find_highest_loop shift_wanted x 0 0 0 out"

text \<open>The loop with \<^verbatim>\<open>i\<close> running down through the powers of two.\<close>

primrec nbits_loop :: "nat \<Rightarrow> BignumInt \<Rightarrow> BignumInt \<Rightarrow> BignumInt" where
  "nbits_loop 0 hiword hibit_index = hibit_index"
| "nbits_loop (Suc k) hiword hibit_index =
     (let i = 2 ^ k;
          shifted_word = drop_bit i hiword;
          indicator = drop_bit (BIGNUM_INT_BITS - 1) (- shifted_word);
          hiword = hiword XOR ((shifted_word XOR hiword) AND - indicator)
      in nbits_loop k hiword (hibit_index + (of_nat i AND - indicator)))"

definition mp_get_nbits :: "mp_int \<Rightarrow> nat" where
  "mp_get_nbits x =
     (let (hiword_index, hiword, _) = mp_find_highest_nonzero_word_pair x 0 (- 1, NOT 0, 0);
          hibit_index = nbits_loop BIGNUM_INT_BITS_BITS hiword 0
      in unat (push_bit BIGNUM_INT_BITS_BITS hiword_index + hibit_index + 1))"

section \<open>Tests\<close>

lemma top_bit_test: "uint w < 2 ^ 63 \<Longrightarrow> drop_bit 63 (- w) = of_bool (w \<noteq> 0)" for w :: BignumInt
proof (cases "w = 0")
  case False
  assume w: "uint w < 2 ^ 63"
  then have p: "0 < uint w" using False uint_limb(1) [of w] by (metis le_less unsigned_eq_0_iff)
  have "uint (- w) = (- uint w) mod 2 ^ 64" by (simp add: uint_word_ariths)
  also have "\<dots> = (- uint w + 2 ^ 64) mod 2 ^ 64" by simp
  also have "\<dots> = - uint w + 2 ^ 64" using w p by (intro mod_pos_pos_trivial) simp_all
  finally have m: "uint (- w) = 2 ^ 64 - uint w" by simp
  have "uint (drop_bit 63 (- w)) = (2 ^ 64 - uint w) div 2 ^ 63"
    by (subst unsigned_drop_bit_eq, subst m) (use w p in \<open>simp add: take_bit_int_eq_self drop_bit_eq_div\<close>)
  also have "\<dots> = 1" using w p by (intro int_div_pos_eq [of _ _ _ "2 ^ 63 - uint w"]) simp_all
  finally show ?thesis using False by (simp add: word_uint_eq_iff)
qed simp

lemma normalise_to_1_eq [mp_simps]: "normalise_to_1 n = of_bool (n \<noteq> 0)"
proof -
  let ?m = "drop_bit 1 n OR (n AND 1)"
  have z: "?m = 0 \<longleftrightarrow> n = 0"
  proof
    assume m: "?m = 0"
    show "n = 0"
    proof (rule bit_eqI)
      fix k
      from m have "\<not> bit ?m (k - 1)" "\<not> bit ?m 0" by simp_all
      then show "bit n k \<longleftrightarrow> bit (0 :: BignumInt) k"
        by (cases k) (auto simp: bit_simps dest: bit_imp_le_length)
    qed
  qed simp
  have "\<not> bit ?m k" if "63 \<le> k" for k using that by (auto simp: bit_simps dest: bit_imp_le_length)
  then have "take_bit 63 ?m = ?m" by (intro bit_eqI) (auto simp: bit_simps not_le)
  then have "uint ?m = take_bit 63 (uint ?m)" by (metis unsigned_take_bit_eq)
  then have "uint ?m < 2 ^ 63" by (metis take_bit_int_less_exp)
  from top_bit_test [OF this] show ?thesis unfolding normalise_to_1_def Let_def z by simp
qed

lemma normalise_to_1_u64_eq [mp_simps]: "normalise_to_1_u64 n = of_bool (n \<noteq> 0)"
  using normalise_to_1_eq [of n] by (simp add: normalise_to_1_def normalise_to_1_u64_def)

lemma diff_fold: "foldl (\<lambda>d i. d OR f i) z is = 0 \<longleftrightarrow> z = 0 \<and> (\<forall>i\<in>set is. f i = 0)" for f :: "nat \<Rightarrow> BignumInt"
  by (induction "is" arbitrary: z) (auto simp: or_eq_0_iff)

lemma words_eq:
  assumes "length x \<le> n" "length y \<le> n"
  shows "(\<forall>i\<in>set [0..<n]. mp_word x i XOR mp_word y i = 0) \<longleftrightarrow> mp_val x = mp_val y"
proof -
  have "mp_val x = mp_val y \<longleftrightarrow> map (mp_word x) [0..<n] = map (mp_word y) [0..<n]"
    using mp_val_inject [of "map (mp_word x) [0..<n]" "map (mp_word y) [0..<n]"] assms by (simp add: mp_val_mod_base)
  moreover have "w XOR v = 0 \<longleftrightarrow> w = v" for v w :: BignumInt
    by (metis xor.right_neutral xor_self_eq xor_twice(1))
  ultimately show ?thesis by simp
qed

lemma mp_cmp_eq_val [mp_simps]: "mp_cmp_eq a b = of_bool (mp_val a = mp_val b)"
  using words_eq [of a "max (length a) (length b)" b]
  by (auto simp: mp_cmp_eq_def Let_def mp_simps diff_fold)

lemma shift_word_iter: "(shift_right_by_one_word ^^ i) n = mp_word [n] i"
  by (cases i) (simp_all add: mp_word_def shift_right_by_one_word_def)

lemma mp_eq_integer_val [mp_simps]: "mp_eq_integer x n = of_bool (mp_val x = uint n)"
  using words_eq [of x "max (length x) 1" "[n]"]
  by (auto simp: mp_eq_integer_def Let_def mp_simps diff_fold shift_word_iter)


section \<open>The highest word\<close>

text \<open>The highest word that is not zero, and the word below it.\<close>

fun highest :: "nat \<Rightarrow> BignumInt \<Rightarrow> mp_int \<Rightarrow> (nat \<times> BignumInt \<times> BignumInt) option" where
  "highest i below [] = None"
| "highest i below (w # ws) =
     (case highest (Suc i) w ws of
        Some h \<Rightarrow> Some h
      | None \<Rightarrow> if w \<noteq> 0 then Some (i, w, below) else None)"

lemma find_highest_loop_eq:
  "find_highest_loop s x i curr_hi lo (index, hi0, lo0) =
     (case highest i below x of
        None \<Rightarrow> (index, hi0, lo0)
      | Some (j, w, b) \<Rightarrow> (of_nat j, push_bit s w, push_bit s b))"
  if "curr_hi = push_bit s below"
  using that
proof (induction x arbitrary: i curr_hi lo index hi0 lo0 below)
  case (Cons w ws)
  have z: "find_highest_loop s ws k 0 l (a, b, c) =
      (case highest k 0 ws of None \<Rightarrow> (a, b, c) | Some (j, w, b) \<Rightarrow> (of_nat j, push_bit s w, push_bit s b))" for k l a b c
    by (rule Cons.IH) simp
  show ?case
    by (cases "w = 0"; cases "highest (Suc i) w ws")
      (simp_all add: Cons.IH [OF refl] z normalise_to_1_eq xor_twice Cons.prems xor.commute split: option.splits)
qed simp

lemma highest_None: "highest i b x = None \<longleftrightarrow> mp_val x = 0"
  by (induction x arbitrary: i b) (auto split: option.splits simp: add_nonneg_eq_0_iff unsigned_eq_0_iff)

lemma highest_Some:
  "highest i b x = Some (j, w, l) \<Longrightarrow>
     i \<le> j \<and> j < i + length x \<and> w \<noteq> 0 \<and> x ! (j - i) = w \<and> l = (if j = i then b else x ! (j - i - 1)) \<and>
     mp_val x = mp_val (take (Suc (j - i)) x)"
proof (induction x arbitrary: i b)
  case (Cons v vs)
  show ?case
  proof (cases "highest (Suc i) v vs")
    case None
    then show ?thesis using Cons.prems highest_None [of "Suc i" v vs] by (auto split: if_splits)
  next
    case (Some h)
    then have "h = (j, w, l)" using Cons.prems by simp
    with Cons.IH [of "Suc i" v] Some have IH: "Suc i \<le> j" "j < Suc i + length vs" "w \<noteq> 0" "vs ! (j - Suc i) = w"
      "l = (if j = Suc i then v else vs ! (j - Suc i - 1))" "mp_val vs = mp_val (take (Suc (j - Suc i)) vs)" by simp_all
    obtain d where d: "j = Suc (i + d)" using IH(1) less_iff_Suc_add less_eq_Suc_le by metis
    show ?thesis using IH unfolding d by (auto simp: nth_Cons')
  qed
qed simp

lemma mp_find_highest_eq:
  "mp_find_highest_nonzero_word_pair x s (index, hi, lo) =
     (case highest 0 0 x of
        None \<Rightarrow> (index, hi, lo)
      | Some (j, w, b) \<Rightarrow> (of_nat j, push_bit s w, push_bit s b))"
  unfolding mp_find_highest_nonzero_word_pair_def by (rule find_highest_loop_eq) simp


section \<open>The number of bits\<close>

lemma nbits_loop_val:
  "\<lbrakk>k \<le> 6; uint w < 2 ^ (2 ^ k); w \<noteq> 0; unat acc + 2 ^ k \<le> 64\<rbrakk> \<Longrightarrow>
     \<exists>n < 2 ^ k. nbits_loop k w acc = acc + of_nat n \<and> 2 ^ n \<le> uint w \<and> uint w < 2 ^ Suc n"
proof (induction k arbitrary: w acc)
  case 0
  then have "uint w < 2" "uint w \<noteq> 0" by (simp_all add: unsigned_eq_0_iff)
  then have "uint w = 1" using uint_limb(1) [of w] by linarith
  then show ?case by simp
next
  case (Suc k)
  let ?i = "2 ^ k :: nat"
  let ?v = "drop_bit ?i w"
  have i: "1 \<le> ?i" "?i \<le> 32" using Suc.prems(1) power_increasing [of k 5 "2 :: nat"] by simp_all
  have v: "uint ?v = uint w div 2 ^ ?i"
    by (subst unsigned_drop_bit_eq) (simp add: take_bit_int_eq_self uint_limb_less drop_bit_eq_div)
  have "uint ?v < 2 ^ 63"
  proof -
    have "uint w div 2 ^ ?i \<le> uint w div 2 ^ 1" using power_increasing [OF i(1), of "2 :: int"] by (intro zdiv_mono2) simp_all
    also have "\<dots> < 2 ^ 63" using uint_limb_less [of w] by simp
    finally show ?thesis unfolding v .
  qed
  note ind = top_bit_test [OF this]
  have vi: "uint ?v < 2 ^ ?i" unfolding v using Suc.prems(2)
    by (simp add: int_div_less_iff flip: power_add mult_2)
  have step: "nbits_loop (Suc k) w acc =
      (if ?v = 0 then nbits_loop k w acc else nbits_loop k ?v (acc + of_nat ?i))"
    by (simp add: Let_def ind xor_twice xor.commute)
  show ?case
  proof (cases "?v = 0")
    case True
    then have "uint w div 2 ^ ?i = 0" using v by simp
    then have "uint w < 2 ^ ?i" using uint_limb(1) [of w] by (auto simp: zdiv_eq_0_iff)
    with Suc.IH [of w acc] Suc.prems obtain n where
      "n < 2 ^ k" "nbits_loop k w acc = acc + of_nat n" "2 ^ n \<le> uint w" "uint w < 2 ^ Suc n" by auto
    then show ?thesis using True step by (intro exI [of _ n]) simp
  next
    case False
    have a: "unat (acc + of_nat ?i) = unat acc + ?i"
    proof -
      have "unat (of_nat ?i :: BignumInt) = ?i"
        using i by (simp only: unsigned_of_nat of_nat_id, intro take_bit_nat_eq_self) simp
      then show ?thesis using Suc.prems(4) i
        by (simp only: unat_word_ariths, intro mod_less) simp
    qed
    with Suc.IH [of ?v "acc + of_nat ?i"] Suc.prems vi False obtain n where
      n: "n < 2 ^ k" "nbits_loop k ?v (acc + of_nat ?i) = acc + of_nat ?i + of_nat n" "2 ^ n \<le> uint ?v" "uint ?v < 2 ^ Suc n" by auto
    have "2 ^ n * 2 ^ ?i \<le> uint w div 2 ^ ?i * 2 ^ ?i" using n(3) unfolding v by (intro mult_right_mono) simp_all
    also have "\<dots> \<le> uint w" by (simp flip: minus_mod_eq_div_mult)
    finally have "2 ^ n * 2 ^ ?i \<le> uint w" .
    moreover have "uint w < 2 ^ Suc n * 2 ^ ?i" using n(4) unfolding v by (simp add: int_div_less_iff)
    ultimately show ?thesis using n(1,2) False step
      by (intro exI [of _ "?i + n"]) (simp add: power_add mult.commute)
  qed
qed


text \<open>The size in bits, as a function of the value.\<close>

lemma mp_get_nbits_val:
  assumes "length x < 2 ^ 57"
  shows "mp_val x < 2 ^ mp_get_nbits x" "mp_val x \<noteq> 0 \<Longrightarrow> 0 < mp_get_nbits x \<and> 2 ^ (mp_get_nbits x - 1) \<le> mp_val x"
    "mp_get_nbits x \<le> 64 * length x"
proof -
  have "mp_val x < 2 ^ mp_get_nbits x \<and>
      (mp_val x \<noteq> 0 \<longrightarrow> 0 < mp_get_nbits x \<and> 2 ^ (mp_get_nbits x - 1) \<le> mp_val x) \<and> mp_get_nbits x \<le> 64 * length x"
  proof (cases "highest 0 0 x")
    case None
    then have v: "mp_val x = 0" by (simp add: highest_None)
    have "nbits_loop 6 (- 1) 0 = 63" by code_simp
    moreover have "unat (push_bit 6 (- 1) + 63 + 1 :: BignumInt) = 0" by code_simp
    ultimately have "mp_get_nbits x = 0"
      by (simp only: mp_get_nbits_def mp_find_highest_eq None option.case Let_def prod.case bit.compl_zero)
    then show ?thesis using v by simp
  next
    case (Some h)
    obtain j w l where h: "h = (j, w, l)" by (cases h)
    note hs = highest_Some [OF Some [unfolded h]]
    have "uint w < 2 ^ 2 ^ 6" using uint_limb_less [of w] by simp
    with nbits_loop_val [of 6 w 0] hs obtain n where
      n: "n < 64" "nbits_loop 6 w 0 = of_nat n" "2 ^ n \<le> uint w" "uint w < 2 ^ Suc n" by auto
    have j: "j < 2 ^ 57" using hs assms by simp
    have "push_bit 6 (of_nat j :: uint64) + of_nat n + 1 = of_nat (64 * j + n + 1)" by (simp add: push_bit_eq_mult)
    moreover have U: "unat (of_nat (64 * j + n + 1) :: uint64) = 64 * j + n + 1"
      using j n(1) by (simp only: unsigned_of_nat of_nat_id, intro take_bit_nat_eq_self) simp
    ultimately have "unat (push_bit 6 (of_nat j :: uint64) + of_nat n + 1) = 64 * j + n + 1" by (simp only:)
    then have nb: "mp_get_nbits x = 64 * j + n + 1"
      by (simp only: mp_get_nbits_def mp_find_highest_eq Some h n(2) option.case Let_def prod.case push_bit_0_id id_apply)
    have "take (Suc j) x = take j x @ [w]" using hs by (simp add: take_Suc_conv_app_nth)
    then have v: "mp_val x = mp_val (take j x) + mp_base j * uint w" using hs by (simp add: mp_val_append min_def)
    have t: "mp_val (take j x) < mp_base j" by (simp add: mp_val_take)
    have "mp_base j * uint w \<le> mp_base j * (2 ^ Suc n - 1)" using n(4) by (intro mult_left_mono) simp_all
    then have "mp_val x < mp_base j * 2 ^ Suc n" unfolding v using t by (simp add: right_diff_distrib)
    moreover have "mp_base j * 2 ^ n \<le> mp_val x" unfolding v using n(3) by (intro add_increasing mult_left_mono) simp_all
    moreover have "j + 1 \<le> length x" using hs by simp
    ultimately show ?thesis unfolding nb using n(1) by (simp add: power_add)
  qed
  then show "mp_val x < 2 ^ mp_get_nbits x" "mp_val x \<noteq> 0 \<Longrightarrow> 0 < mp_get_nbits x \<and> 2 ^ (mp_get_nbits x - 1) \<le> mp_val x"
    "mp_get_nbits x \<le> 64 * length x" by blast+
qed

section \<open>Single bits and machine integers\<close>

lemma low_bit: "1 AND drop_bit k w = of_bool (bit w k)" for w :: BignumInt
  by (rule bit_eqI) (auto simp: bit_simps bit_1_iff bit_of_bool_iff split: if_splits)

lemma mp_get_bit_val [mp_simps]: "mp_get_bit x n = of_bool (bit (mp_val x) n)"
  by (simp only: mp_get_bit_def low_bit bit_mp_val ucast_flag)

lemma mp_set_bit_val:
  assumes "n < 64 * length x"
  shows "\<exists>y. mp_set_bit x n (of_bool p) = Some y \<and> length y = length x \<and>
     (\<forall>k. bit (mp_val y) k = (if k = n then p else bit (mp_val x) k))"
proof -
  let ?w = "n div 64" and ?s = "n mod 64"
  let ?y = "x[?w := (x ! ?w AND NOT (push_bit ?s 1)) OR push_bit ?s (of_bool p)]"
  have w: "?w < length x" using assms by (simp add: less_mult_imp_div_less mult.commute)
  have "bit (mp_val ?y) k = (if k = n then p else bit (mp_val x) k)" for k
  proof (cases "k div 64 = ?w")
    case True
    then have "k = n \<longleftrightarrow> k mod 64 = ?s" by (metis mult_div_mod_eq)
    with True w show ?thesis by (auto simp: bit_mp_val mp_word_def bit_simps)
  next
    case False
    then have "k \<noteq> n" by auto
    with False w show ?thesis by (simp add: bit_mp_val mp_word_def)
  qed
  with w show ?thesis by (auto simp: mp_set_bit_def Let_def)
qed


lemma adc_loop_fst:
  "c \<le> 1 \<Longrightarrow> length (fst (adc_loop f g 0 n c)) = n \<and>
     mp_val (fst (adc_loop f g 0 n c)) = (mp_val (map f [0..<n]) + mp_val (map g [0..<n]) + uint c) mod mp_base n"
  using adc_loop_sum [of f g n c] by (cases "adc_loop f g 0 n c") simp

lemma adc_loop_snd:
  "c \<le> 1 \<Longrightarrow> snd (adc_loop f g 0 n c) = of_bool (mp_base n \<le> mp_val (map f [0..<n]) + mp_val (map g [0..<n]) + uint c)"
  using adc_loop_sum [of f g n c] by (cases "adc_loop f g 0 n c") simp

lemma mp_add_integer_into_val [mp_simps]:
  "length (mp_add_integer_into rw a n) = rw" "mp_val (mp_add_integer_into rw a n) = (mp_val a + uint n) mod mp_base rw"
  unfolding mp_add_integer_into_def mp_add_masked_integer_into_def
  by (simp_all add: adc_loop_fst shift_word_iter mod_add_eq)

lemma mp_sub_integer_into_val [mp_simps]:
  "length (mp_sub_integer_into rw a n) = rw" "mp_val (mp_sub_integer_into rw a n) = (mp_val a - uint n) mod mp_base rw"
proof -
  have "mp_val (mp_sub_integer_into rw a n) = (mp_val a mod mp_base rw + (mp_base rw - 1 - uint n mod mp_base rw) + 1) mod mp_base rw"
    unfolding mp_sub_integer_into_def mp_add_masked_integer_into_def
    by (simp add: adc_loop_fst shift_word_iter mp_val_map_not)
  also have "\<dots> = (mp_base rw + (mp_val a mod mp_base rw - uint n mod mp_base rw)) mod mp_base rw" by (simp add: algebra_simps)
  finally show "mp_val (mp_sub_integer_into rw a n) = (mp_val a - uint n) mod mp_base rw" by (simp add: mod_diff_eq)
  show "length (mp_sub_integer_into rw a n) = rw"
    unfolding mp_sub_integer_into_def mp_add_masked_integer_into_def by (simp add: adc_loop_fst)
qed

lemma mp_hs_integer_val [mp_simps]: "mp_hs_integer x n = of_bool (uint n \<le> mp_val x)"
  unfolding mp_hs_integer_def Let_def
  by (simp add: adc_loop_snd shift_word_iter mp_val_map_not mp_val_mod_base [of "[n]", simplified] mp_val_mod_base)

lemma mul_integer_loop_val:
  "mul_integer_loop a m i k c = (outs, d) \<Longrightarrow>
     length outs = k \<and> mp_val outs + mp_base k * uint d = mp_val (map (mp_word a) [i..<i + k]) * uint m + uint c"
proof (induction k arbitrary: i c d outs)
  case (Suc k)
  obtain e w where a: "BignumMULADD (mp_word a i) m c = (e, w)" by fastforce
  obtain us d' where l: "mul_integer_loop a m (Suc i) k e = (us, d')" by fastforce
  have o: "outs = w # us" "d = d'" using Suc.prems a l by auto
  note IH = Suc.IH [OF l]
  have u: "[i..<i + Suc k] = i # [Suc i..<Suc i + k]" by (simp add: upt_rec)
  have "mp_val outs + mp_base (Suc k) * uint d = uint w + 2 ^ 64 * (mp_val us + mp_base k * uint d')"
    unfolding o mp_base_Suc by (simp add: algebra_simps)
  also have "\<dots> = (uint w + 2 ^ 64 * uint e) + 2 ^ 64 * (mp_val (map (mp_word a) [Suc i..<Suc i + k]) * uint m)"
    unfolding conjunct2 [OF IH] by (simp add: algebra_simps)
  also have "\<dots> = mp_val (map (mp_word a) [i..<i + Suc k]) * uint m + uint c"
    unfolding u MULADD_val [OF a, symmetric] by (simp add: algebra_simps del: upt_Suc)
  finally show ?case using IH o by simp
qed simp

text \<open>Multiplying by a small integer, which must fit.\<close>

lemma mp_mul_integer_into_val:
  assumes "length a \<le> rw"
  shows "mp_val a * uint n < mp_base rw \<Longrightarrow>
      \<exists>r. mp_mul_integer_into rw a n = Some r \<and> length r = rw \<and> mp_val r = mp_val a * uint n"
    and "mp_base rw \<le> mp_val a * uint n \<Longrightarrow> mp_mul_integer_into rw a n = None"
proof -
  obtain out d where l: "mul_integer_loop a (ucast n) 0 rw 0 = (out, d)" by fastforce
  have n: "uint (ucast n :: BignumInt) = uint n" 
    using uint_bounded [of n] by (simp add: unsigned_ucast_eq take_bit_int_eq_self)
  have v: "length out = rw" "mp_val out + mp_base rw * uint d = mp_val a * uint n"
    using mul_integer_loop_val [OF l] assms n by (simp_all add: mp_val_mod_base)
  have o: "0 \<le> mp_val out" "mp_val out < mp_base rw" using mp_val_less [of out] v(1) by simp_all
  { assume "mp_val a * uint n < mp_base rw"
    then have "mp_base rw * uint d < mp_base rw" using v o by linarith
    then have "uint d < 1" by simp
    then have "uint d = 0" using uint_limb(1) [of d] by linarith
    then have "d = 0" by (simp add: unsigned_eq_0_iff)
    then show "\<exists>r. mp_mul_integer_into rw a n = Some r \<and> length r = rw \<and> mp_val r = mp_val a * uint n"
      using l v by (simp add: mp_mul_integer_into_def) }
  { assume "mp_base rw \<le> mp_val a * uint n"
    then have "d \<noteq> 0" using v o by auto
    then show "mp_mul_integer_into rw a n = None" using l by (simp add: mp_mul_integer_into_def) }
qed


text \<open>Adding a word at a secret position.\<close>

lemma adc_loop_cong:
  "(\<And>j. i \<le> j \<Longrightarrow> g j = h j) \<Longrightarrow> adc_loop f g i n c = adc_loop f h i n c"
  by (induction n arbitrary: i c) (simp_all split: prod.split)

lemma add_shifted_after:
  "add_shifted_loop a 0 w i k ind c = fst (adc_loop (mp_word a) (\<lambda>j. 0) i k c)"
  by (induction k arbitrary: i ind c) (simp_all add: Let_def shift_right_by_one_word_def split: prod.split)

lemma add_shifted_before:
  "\<lbrakk>i \<le> w; w < 2 ^ 64; i + k \<le> 2 ^ 64\<rbrakk> \<Longrightarrow>
     add_shifted_loop a n w i k 0 c = fst (adc_loop (mp_word a) (\<lambda>j. if j = w then n else 0) i k c)"
proof (induction k arbitrary: i c)
  case (Suc k)
  have "(of_nat i XOR of_nat w = (0 :: BignumInt)) = (i = w)"
  proof -
    have "of_nat i XOR of_nat w = (0 :: BignumInt) \<longleftrightarrow> (of_nat i :: BignumInt) = of_nat w"
      by (metis xor.right_neutral xor_self_eq xor_twice(1))
    also have "\<dots> \<longleftrightarrow> i = w"
      using Suc.prems by (simp add: word_of_nat_eq_iff take_bit_nat_eq_self)
    finally show ?thesis .
  qed
  then have ind: "1 XOR normalise_to_1 (of_nat i XOR of_nat w) = of_bool (i = w)"
    by (simp add: normalise_to_1_eq)
  show ?case
  proof (cases "i = w")
    case True
    have "adc_loop (mp_word a) (\<lambda>j. if j = w then n else 0) (Suc w) k d = adc_loop (mp_word a) (\<lambda>j. 0) (Suc w) k d" for d
      by (rule adc_loop_cong) simp
    then show ?thesis using True
      by (simp add: normalise_to_1_eq Let_def shift_right_by_one_word_def add_shifted_after split: prod.split)
  next
    case False
    then show ?thesis using Suc.IH [of "Suc i"] Suc.prems by (simp add: ind Let_def split: prod.split)
  qed
qed simp

lemma one_word_val: "mp_val (map (\<lambda>j. if j = w then n else 0) [0..<rw]) = uint n * mp_base w mod mp_base rw"
proof (cases "w < rw")
  case True
  then have "map (\<lambda>j. if j = w then n else 0) [0..<rw] = replicate w 0 @ n # replicate (rw - w - 1) 0"
    by (intro nth_equalityI) (auto simp: nth_append nth_Cons' not_less)
  then have v: "mp_val (map (\<lambda>j. if j = w then n else 0) [0..<rw]) = uint n * mp_base w" by (simp add: mp_val_append)
  then show ?thesis using mp_val_mod_base [of "map (\<lambda>j. if j = w then n else 0) [0..<rw]" rw] by simp
next
  case False
  then have "mp_base w = mp_base rw * mp_base (w - rw)" by (simp add: mp_base_add [symmetric])
  moreover have "map (\<lambda>j. if j = w then n else 0) [0..<rw] = replicate rw 0"
    using False by (intro nth_equalityI) auto
  ultimately show ?thesis by simp
qed

lemma mp_add_shifted_val [mp_simps]:
  assumes "rw \<le> 2 ^ 64" "w < 2 ^ 64"
  shows "length (mp_add_integer_into_shifted_by_words rw a n w) = rw"
    "mp_val (mp_add_integer_into_shifted_by_words rw a n w) = (mp_val a + uint n * mp_base w) mod mp_base rw"
  using assms add_shifted_before [of 0 w rw a n 0]
  by (simp_all add: mp_add_integer_into_shifted_by_words_def adc_loop_fst one_word_val mod_add_eq)

end
