(* ===== verification/Mp_Recip.thy ===== *)
theory Mp_Recip
  imports Complex_Main Prelude
begin

text \<open>
  The reciprocal approximation that starts the division (\<^verbatim>\<open>recip_approx_32\<close>) and a bound on its
  error over the whole input range. The code evaluates a polynomial in fixed-point arithmetic, and
  its comment takes the bound from an exhaustive search. Here the bound is a proof: two polynomials
  enclose the computed value, rounding included, and their signs are decided on sixty-four pieces of
  the range by a Taylor expansion around the middle of each piece.
\<close>

unbundle bit_operations_syntax

section \<open>The code\<close>

definition recip_approx_32 :: "uint32 \<Rightarrow> uint32" where
  "recip_approx_32 x =
     (let x = ucast x :: uint64;
          r = 0x92db03d6;
          r = 0xf63e71ea - drop_bit 34 (r * x);
          r = 0xb63721e8 - drop_bit 34 (r * x);
          r = 0x9c2da00e - drop_bit 33 (r * x);
          r = 0xaada0bb8 - drop_bit 32 (r * x);
          r = 0xf75cd403 - drop_bit 31 (r * x);
          r = 0xecf97a41 - drop_bit 31 (r * x);
          r = 0x90d876cd - drop_bit 31 (r * x);
          r = 0x6682799a0 - drop_bit 26 (r * x)
      in ucast r)"

section \<open>Polynomials with integer coefficients\<close>

fun peval :: "int list \<Rightarrow> real \<Rightarrow> real" where
  "peval [] z = 0"
| "peval (c # cs) z = real_of_int c + z * peval cs z"

fun padd :: "int list \<Rightarrow> int list \<Rightarrow> int list" where
  "padd [] q = q"
| "padd p [] = p"
| "padd (a # p) (b # q) = (a + b) # padd p q"

definition pscale :: "int \<Rightarrow> int list \<Rightarrow> int list" where
  "pscale a p = map ((*) a) p"

fun pshift :: "int \<Rightarrow> int list \<Rightarrow> int list" where
  "pshift a [] = []"
| "pshift a (c # cs) = (let q = pshift a cs in padd (c # q) (pscale a q))"

lemma peval_padd [simp]: "peval (padd p q) z = peval p z + peval q z"
  by (induction p q rule: padd.induct) (simp_all add: algebra_simps)

lemma peval_pscale [simp]: "peval (pscale a p) z = real_of_int a * peval p z"
  unfolding pscale_def by (induction p) (simp_all add: algebra_simps)

lemma peval_pshift: "peval (pshift a p) u = peval p (u + real_of_int a)"
  by (induction p) (simp_all add: Let_def algebra_simps)

text \<open>
  Not negative at distance at most \<open>h\<close> from \<open>a\<close>: the constant coefficient of the expansion around
  \<open>a\<close> outweighs the others.
\<close>

fun psize :: "int \<Rightarrow> int list \<Rightarrow> int" where
  "psize h [] = 0"
| "psize h (c # cs) = \<bar>c\<bar> + h * psize h cs"

definition dominant :: "int \<Rightarrow> int list \<Rightarrow> bool" where
  "dominant h p = (case p of [] \<Rightarrow> True | c # cs \<Rightarrow> h * psize h cs \<le> c)"

definition nonneg_near :: "int \<Rightarrow> int \<Rightarrow> int list \<Rightarrow> bool" where
  "nonneg_near h p_mid p = dominant h (pshift p_mid p)"

text \<open>The range is cut into pieces of length two around the odd numbers from 129 to 255.\<close>

fun nonneg_pieces :: "nat \<Rightarrow> int \<Rightarrow> int list \<Rightarrow> bool" where
  "nonneg_pieces n a p = (if n = 0 then True else nonneg_near 1 a p \<and> nonneg_pieces (n - 1) (a + 2) p)"

declare nonneg_pieces.simps [simp del]

definition nonneg_on_range :: "int list \<Rightarrow> bool" where
  "nonneg_on_range p = nonneg_pieces 64 129 p"

lemma psize_nonneg: "0 \<le> h \<Longrightarrow> 0 \<le> psize h p"
  by (induction p) simp_all

lemma peval_abs: "\<bar>u\<bar> \<le> real_of_int h \<Longrightarrow> \<bar>peval p u\<bar> \<le> real_of_int (psize h p)"
proof (induction p)
  case (Cons c cs)
  have "\<bar>u * peval cs u\<bar> \<le> real_of_int h * real_of_int (psize h cs)"
    unfolding abs_mult using Cons by (intro mult_mono) simp_all
  then show ?case by simp
qed simp

lemma nonneg_near:
  assumes "nonneg_near h a p" "\<bar>z - real_of_int a\<bar> \<le> real_of_int h"
  shows "0 \<le> peval p z"
proof -
  let ?u = "z - real_of_int a"
  have "0 \<le> peval (pshift a p) ?u"
  proof (cases "pshift a p")
    case (Cons c cs)
    have "\<bar>?u * peval cs ?u\<bar> \<le> real_of_int h * real_of_int (psize h cs)"
      unfolding abs_mult using assms(2) peval_abs [OF assms(2)] by (intro mult_mono) simp_all
    also have "\<dots> \<le> real_of_int c" using assms(1) Cons
      by (simp add: nonneg_near_def dominant_def flip: of_int_mult)
    finally show ?thesis using Cons by simp
  qed simp
  then show ?thesis by (simp add: peval_pshift)
qed

lemma nonneg_pieces:
  "\<lbrakk>nonneg_pieces n a p; real_of_int a - 1 \<le> z; z < real_of_int a - 1 + 2 * real n\<rbrakk> \<Longrightarrow> 0 \<le> peval p z"
proof (induction n a p rule: nonneg_pieces.induct)
  case (1 n a p)
  then have n: "n \<noteq> 0" by (intro notI) simp
  then have near: "nonneg_near 1 a p" and rest: "nonneg_pieces (n - 1) (a + 2) p"
    using 1(2) by (simp_all add: nonneg_pieces.simps [of n])
  show ?case
  proof (cases "z < real_of_int a + 1")
    case True
    with near 1(3) show ?thesis by (intro nonneg_near) auto
  next
    case False
    with 1(1) [OF n rest] 1(4) n show ?thesis by (simp add: of_nat_diff)
  qed
qed

lemma nonneg_on_range:
  assumes "nonneg_on_range p" "128 \<le> z" "z < 256"
  shows "0 \<le> peval p z"
  using assms by (intro nonneg_pieces [of 64 129]) (simp_all add: nonneg_on_range_def)

section \<open>Enclosing the computed value\<close>

text \<open>
  After some steps the value is scaled by a power of two; one step of the evaluation turns the
  enclosing polynomials into the next ones.
\<close>

fun enclose :: "(int \<times> nat) list \<Rightarrow> nat \<Rightarrow> int list \<Rightarrow> int list \<Rightarrow> (nat \<times> int list \<times> int list) list" where
  "enclose [] t lo up = [(t, lo, up)]"
| "enclose ((c, s) # cs) t lo up =
     (t, lo, up) #
     (let t' = t + s in
      enclose cs t' ((c * 2 ^ t') # pscale (- 1) up) (((c + 1) * 2 ^ t') # pscale (- 1) lo))"

definition recip_steps :: "(int \<times> nat) list" where
  "recip_steps =
     [(0xf63e71ea, 10), (0xb63721e8, 10), (0x9c2da00e, 9), (0xaada0bb8, 8),
      (0xf75cd403, 7), (0xecf97a41, 7), (0x90d876cd, 7), (0x6682799a0, 2)]"

definition recip_bounds :: "(nat \<times> int list \<times> int list) list" where
  "recip_bounds = enclose recip_steps 0 [0x92db03d6] [0x92db03d6]"

definition bound_ok :: "nat \<times> int list \<times> int list \<Rightarrow> bool" where
  "bound_ok b = (case b of (t, lo, up) \<Rightarrow>
     nonneg_near 64 192 lo \<and> nonneg_near 64 192 (padd [(2 ^ 32 - 1) * 2 ^ t] (pscale (- 1) up)))"

definition error_ok :: "nat \<times> int list \<times> int list \<Rightarrow> bool" where
  "error_ok b = (case b of (t, lo, up) \<Rightarrow>
     nonneg_on_range (padd [2 ^ (39 + t), 2046 * 2 ^ t] (0 # pscale (- 1) up)) \<and>
     nonneg_on_range (padd [- (2 ^ (39 + t)), 2046 * 2 ^ t] (0 # lo)))"

lemma recip_bounds_ok: "list_all bound_ok recip_bounds"
  by code_simp

lemma recip_error_ok: "error_ok (last recip_bounds)"
  by code_simp

section \<open>The code inside the enclosure\<close>

definition inside :: "nat \<times> int list \<times> int list \<Rightarrow> real \<Rightarrow> uint64 \<Rightarrow> bool" where
  "inside b z r \<longleftrightarrow> (case b of (t, lo, up) \<Rightarrow>
     peval lo z \<le> of_int (uint r) * 2 ^ t \<and> of_int (uint r) * 2 ^ t \<le> peval up z)"

lemma inside_less:
  assumes "bound_ok b" "inside b z r" "128 \<le> z" "z < 256"
  shows "uint r < 2 ^ 32"
proof -
  obtain t lo up where b: "b = (t, lo, up)" by (cases b)
  have "\<bar>z - real_of_int 192\<bar> \<le> real_of_int 64" using assms(3,4) by simp
  then have "0 \<le> peval (padd [(2 ^ 32 - 1) * 2 ^ t] (pscale (- 1) up)) z"
    by (rule nonneg_near [rotated]) (use assms(1) b in \<open>simp add: bound_ok_def\<close>)
  then have "peval up z \<le> (2 ^ 32 - 1) * 2 ^ t" by simp
  moreover have "real_of_int (uint r) * 2 ^ t \<le> peval up z" using assms(2) unfolding inside_def b prod.case ..
  moreover have "(2 ^ 32 - 1 :: real) = real_of_int (2 ^ 32 - 1)" by simp
  ultimately have "real_of_int (uint r) * 2 ^ t \<le> real_of_int (2 ^ 32 - 1) * 2 ^ t" by (metis order_trans)
  then have "real_of_int (uint r) \<le> real_of_int (2 ^ 32 - 1)" by (rule mult_right_le_imp_le) simp
  then show ?thesis unfolding of_int_le_iff by simp
qed

lemma inside_step:
  assumes z: "z = of_int (uint x) / 2 ^ 24" "0 < uint x" "uint x < 2 ^ 32"
    and r: "inside (t, lo, up) z r" "uint r < 2 ^ 32"
    and c: "0 \<le> c" "c < 2 ^ 64" "0 \<le> peval ((c * 2 ^ (t + s)) # pscale (- 1) up) z"
  shows "inside (t + s, (c * 2 ^ (t + s)) # pscale (- 1) up, ((c + 1) * 2 ^ (t + s)) # pscale (- 1) lo) z
           (word_of_int c - drop_bit (24 + s) (r * x))"
proof -
  have "0 \<le> real_of_int (uint x)" by (rule of_int_nonneg) simp
  then have z0: "0 \<le> z" unfolding z(1) by (rule divide_nonneg_nonneg) simp
  have enc: "peval lo z \<le> of_int (uint r) * 2 ^ t" "of_int (uint r) * 2 ^ t \<le> peval up z"
    using r(1) unfolding inside_def prod.case by blast+
  let ?P = "2 ^ (t + s) :: real" and ?v = "uint (drop_bit (24 + s) (r * x))" and ?m = "uint r * uint x"
  have m: "0 \<le> ?m" "?m < 2 ^ 64"
    using mult_strict_mono' [OF r(2) z(3)] by simp_all
  then have "uint (r * x) = ?m" by (simp add: uint_word_ariths)
  then have v: "?v = ?m div 2 ^ (24 + s)"
    using m by (subst unsigned_drop_bit_eq) (simp add: take_bit_int_eq_self drop_bit_eq_div)
  have q: "real_of_int ?m / 2 ^ (24 + s) * ?P = (of_int (uint r) * 2 ^ t) * z"
    unfolding z(1) by (simp add: power_add)
  have "real_of_int ?v \<le> real_of_int ?m / 2 ^ (24 + s)"
    unfolding v using real_of_int_div4 [of ?m "2 ^ (24 + s)"] by simp
  then have "real_of_int ?v * ?P \<le> (of_int (uint r) * 2 ^ t) * z" unfolding q [symmetric] by (rule mult_right_mono) simp
  also have "\<dots> \<le> peval up z * z" by (rule mult_right_mono [OF enc(2) z0])
  finally have upper: "real_of_int ?v * ?P \<le> z * peval up z" by (simp add: mult.commute)
  have "real_of_int ?m / 2 ^ (24 + s) \<le> real_of_int ?v + 1"
    unfolding v using real_of_int_div3 [of ?m "2 ^ (24 + s)"] by simp
  then have "(of_int (uint r) * 2 ^ t) * z \<le> (real_of_int ?v + 1) * ?P" unfolding q [symmetric] by (rule mult_right_mono) simp
  moreover have "peval lo z * z \<le> (of_int (uint r) * 2 ^ t) * z" by (rule mult_right_mono [OF enc(1) z0])
  ultimately have lower: "z * peval lo z \<le> (real_of_int ?v + 1) * ?P" by (simp add: mult.commute)
  have "z * peval up z \<le> real_of_int c * ?P" using c(3) by simp
  from order_trans [OF upper this] have "real_of_int ?v \<le> real_of_int c" by (rule mult_right_le_imp_le) simp
  then have vc: "?v \<le> c" unfolding of_int_le_iff .
  have "uint (word_of_int c - drop_bit (24 + s) (r * x) :: uint64) = c - ?v"
  proof -
    have "0 \<le> ?v" by simp
    then have "(c - ?v) mod 2 ^ 64 = c - ?v" using c(1,2) vc by (intro mod_pos_pos_trivial) linarith+
    then show ?thesis using c(1,2) by (simp add: uint_word_ariths uint_word_of_int_eq take_bit_int_eq_self)
  qed
  then have "real_of_int (uint (word_of_int c - drop_bit (24 + s) (r * x) :: uint64)) = real_of_int c - real_of_int ?v"
    by simp
  then show ?thesis using upper lower unfolding inside_def prod.case peval.simps peval_pscale
    by (simp only: of_int_mult of_int_add of_int_power of_int_numeral of_int_minus of_int_1) (simp add: algebra_simps)
qed


definition run_steps :: "(int \<times> nat) list \<Rightarrow> uint64 \<Rightarrow> uint64 \<Rightarrow> uint64" where
  "run_steps cs x r = fold (\<lambda>(c, s) r. word_of_int c - drop_bit (24 + s) (r * x)) cs r"

lemma bound_ok_lower: "\<lbrakk>bound_ok (t, lo, up); 128 \<le> z; z < 256\<rbrakk> \<Longrightarrow> 0 \<le> peval lo z"
  by (rule nonneg_near [of 64 192]) (simp_all add: bound_ok_def)

lemma inside_run:
  assumes x: "z = of_int (uint x) / 2 ^ 24" "2 ^ 31 \<le> uint x" "uint x < 2 ^ 32"
  shows "\<lbrakk>inside (t, lo, up) z r; list_all bound_ok (enclose cs t lo up); list_all (\<lambda>(c, s). 0 \<le> c \<and> c < 2 ^ 64) cs\<rbrakk> \<Longrightarrow>
    inside (last (enclose cs t lo up)) z (run_steps cs x r) \<and> uint (run_steps cs x r) < 2 ^ 32"
proof (induction cs arbitrary: t lo up r)
  have "real_of_int (2 ^ 31) \<le> real_of_int (uint x)" "real_of_int (uint x) < real_of_int (2 ^ 32)"
    unfolding of_int_le_iff of_int_less_iff by (rule x)+
  then have z: "128 \<le> z" "z < 256" unfolding x(1) by simp_all
  {
    case Nil
    then show ?case using inside_less [OF _ _ z] by (simp add: run_steps_def)
  next
    case (Cons cs' cs)
    obtain c s where cs: "cs' = (c, s)" by (cases cs')
    let ?lo = "(c * 2 ^ (t + s)) # pscale (- 1) up" and ?up = "((c + 1) * 2 ^ (t + s)) # pscale (- 1) lo"
    have e: "enclose (cs' # cs) t lo up = (t, lo, up) # enclose cs (t + s) ?lo ?up" by (simp add: cs Let_def)
    have ok: "bound_ok (t, lo, up)" "list_all bound_ok (enclose cs (t + s) ?lo ?up)" using Cons.prems(2) unfolding e list.pred_inject by blast+
    have ne: "enclose cs (t + s) ?lo ?up \<noteq> []" by (cases cs) (auto simp: Let_def)
    have "bound_ok (t + s, ?lo, ?up)" using ok(2) by (cases cs) (auto simp: Let_def)
    then have nn: "0 \<le> peval ?lo z" using z by (rule bound_ok_lower)
    have r: "uint r < 2 ^ 32" by (rule inside_less [OF ok(1) Cons.prems(1) z])
    have x0: "0 < uint x" using x(2) by simp
    have "inside (t + s, ?lo, ?up) z (word_of_int c - drop_bit (24 + s) (r * x))"
      by (rule inside_step [OF x(1) x0 x(3) Cons.prems(1) r _ _ nn]) (use Cons.prems(3) cs in simp_all)
    from Cons.IH [OF this ok(2)] Cons.prems(3) show ?case unfolding e using ne by (simp add: run_steps_def cs)
  }
qed

lemma recip_approx_32_run: "recip_approx_32 x = ucast (run_steps recip_steps (ucast x) 0x92db03d6)"
  by (simp add: recip_approx_32_def run_steps_def recip_steps_def Let_def)

lemma recip_approx_32_error:
  assumes "2 ^ 31 \<le> uint x"
  shows "\<bar>uint (recip_approx_32 x) * uint x - 2 ^ 63\<bar> \<le> 2046 * uint x"
proof -
  define y where "y = (ucast x :: uint64)"
  define z where "z = real_of_int (uint y) / 2 ^ 24"
  have x32: "uint x < 2 ^ 32" using uint_bounded [of x] by simp
  then have y: "uint y = uint x" by (simp add: y_def unsigned_ucast_eq take_bit_int_eq_self)
  obtain t lo up where b: "last recip_bounds = (t, lo, up)" by (cases "last recip_bounds")
  let ?r = "run_steps recip_steps y 0x92db03d6"
  have "inside (last recip_bounds) z ?r \<and> uint ?r < 2 ^ 32"
    unfolding recip_bounds_def
    by (rule inside_run [OF z_def]) (use recip_bounds_ok assms x32 y in \<open>simp_all add: inside_def recip_bounds_def recip_steps_def\<close>)
  then have enc: "peval lo z \<le> of_int (uint ?r) * 2 ^ t" "of_int (uint ?r) * 2 ^ t \<le> peval up z" and r32: "uint ?r < 2 ^ 32"
    unfolding b inside_def prod.case by blast+
  have rv: "uint (recip_approx_32 x) = uint ?r"
    using r32 by (simp add: recip_approx_32_run y_def unsigned_ucast_eq take_bit_int_eq_self)
  have "real_of_int (2 ^ 31) \<le> real_of_int (uint x)" "real_of_int (uint x) < real_of_int (2 ^ 32)"
    unfolding of_int_le_iff of_int_less_iff by (rule assms x32)+
  then have z: "128 \<le> z" "z < 256" unfolding z_def y by simp_all
  define v where "v = real_of_int (uint ?r)"
  have "z * (v * 2 ^ t) \<le> z * peval up z" "z * peval lo z \<le> z * (v * 2 ^ t)"
    unfolding v_def by (intro mult_left_mono enc, use z in simp)+
  moreover have e: "nonneg_on_range (padd [2 ^ (39 + t), 2046 * 2 ^ t] (0 # pscale (- 1) up))"
      "nonneg_on_range (padd [- (2 ^ (39 + t)), 2046 * 2 ^ t] (0 # lo))"
    using recip_error_ok unfolding b error_ok_def prod.case by blast+
  from nonneg_on_range [OF e(1) z] nonneg_on_range [OF e(2) z]
  have "z * peval up z \<le> 2 ^ (39 + t) + z * (2046 * 2 ^ t)" "2 ^ (39 + t) - z * (2046 * 2 ^ t) \<le> z * peval lo z"
    by (simp_all add: algebra_simps)
  ultimately have "z * (v * 2 ^ t) \<le> 2 ^ (39 + t) + z * (2046 * 2 ^ t)" "2 ^ (39 + t) - z * (2046 * 2 ^ t) \<le> z * (v * 2 ^ t)"
    by linarith+
  then have "(z * v) * 2 ^ t \<le> (2 ^ 39 + z * 2046) * 2 ^ t" "(2 ^ 39 - z * 2046) * 2 ^ t \<le> (z * v) * 2 ^ t"
    by (simp_all add: power_add algebra_simps)
  then have zv: "z * v \<le> 2 ^ 39 + z * 2046" "2 ^ 39 - z * 2046 \<le> z * v"
    by (simp_all only: mult_le_cancel_right_pos zero_less_power zero_less_numeral)
  moreover have "z = real_of_int (uint x) / 2 ^ 24" by (simp add: z_def y)
  ultimately have "real_of_int (uint x) * v \<le> 2 ^ 63 + real_of_int (uint x) * 2046"
    "2 ^ 63 - real_of_int (uint x) * 2046 \<le> real_of_int (uint x) * v" by (simp_all add: field_simps)
  then have "real_of_int (uint x * uint ?r) \<le> real_of_int (2 ^ 63 + uint x * 2046)"
    "real_of_int (2 ^ 63 - uint x * 2046) \<le> real_of_int (uint x * uint ?r)" by (simp_all add: v_def)
  then have "uint x * uint ?r \<le> 2 ^ 63 + uint x * 2046" "2 ^ 63 - uint x * 2046 \<le> uint x * uint ?r"
    by (simp_all only: of_int_le_iff)
  then show ?thesis unfolding rv abs_le_iff by (simp add: mult.commute)
qed

end
