(* ===== verification/Mp_Div.thy ===== *)
theory Mp_Div
  imports Mp_Mul Mp_Bits Mp_Recip
begin

text \<open>
  Division by Newton's iteration on a reciprocal (\<^verbatim>\<open>mp_divmod_into\<close>): the code, the
  convergence of the iteration with its rounding errors, and the final correction. The differences
  of sizes that wrap around in the code are taken in the integers.
\<close>

unbundle bit_operations_syntax

section \<open>The code\<close>

text \<open>
  The two loops that shift a pair of words up, first until the highest bit is set, then by the
  amount found. The counter of the loop is the exponent of the shift.
\<close>

primrec shift_up_loop :: "nat \<Rightarrow> uint64 \<times> uint64 \<times> nat \<Rightarrow> uint64 \<times> uint64 \<times> nat" where
  "shift_up_loop 0 st = st"
| "shift_up_loop (Suc i) st =
     (let (hibits, lobits, shift_up) = st;
          sl = 2 ^ i;
          sr = 64 - sl;
          indicator = 1 XOR normalise_to_1_u64 (drop_bit sr hibits);
          new_hibits = push_bit sl hibits OR drop_bit sr lobits;
          new_lobits = push_bit sl lobits;
          new_shift_up = shift_up + sl
      in shift_up_loop i
           (hibits XOR ((hibits XOR new_hibits) AND - ucast indicator),
            lobits XOR ((lobits XOR new_lobits) AND - ucast indicator),
            if indicator = 1 then new_shift_up else shift_up))"

primrec shift_by_loop :: "nat \<Rightarrow> nat \<Rightarrow> uint64 \<times> uint64 \<Rightarrow> uint64 \<times> uint64" where
  "shift_by_loop 0 shift_up st = st"
| "shift_by_loop (Suc i) shift_up st =
     (let (hibits, lobits) = st;
          sl = 2 ^ i;
          sr = 64 - sl;
          indicator = of_nat (drop_bit i shift_up AND 1) :: uint32;
          new_hibits = push_bit sl hibits OR drop_bit sr lobits;
          new_lobits = push_bit sl lobits
      in shift_by_loop i shift_up
           (hibits XOR ((hibits XOR new_hibits) AND - ucast indicator),
            lobits XOR ((lobits XOR new_lobits) AND - ucast indicator)))"

definition div_log2_R :: "nat \<Rightarrow> nat \<Rightarrow> nat" where
  "div_log2_R n_nw d_nw =
     (let max_log2_n = (n_nw + d_nw) * BIGNUM_INT_BITS;
          log2_R = max_log2_n + 3;
          log2_R = log2_R - min 191 log2_R;
          log2_R = log2_R + BIGNUM_INT_BITS - 1 - take_bit BIGNUM_INT_BITS_BITS (log2_R + BIGNUM_INT_BITS - 1)
      in log2_R + 191)"

text \<open>The first approximation of the reciprocal of \<open>d\<close>, placed so that the product is near \<open>R\<close>.\<close>

definition div_start :: "mp_int \<Rightarrow> nat \<Rightarrow> nat \<Rightarrow> mp_int option" where
  "div_start d log2_R rw =
     (let (hiword_index, hibits, lobits) = mp_find_highest_nonzero_word_pair d (64 - BIGNUM_INT_BITS) (0, 0, 0);
          (hibits, lobits, shift_up) = shift_up_loop BIGNUM_INT_BITS_BITS (hibits, lobits, 0);
          lobits = push_bit 32 (ucast (recip_approx_32 (ucast (drop_bit 32 hibits))));
          hibits = 0;
          (hibits, lobits) = shift_by_loop BIGNUM_INT_BITS_BITS shift_up (hibits, lobits);
          input_bit_index = uint hiword_index * int BIGNUM_INT_BITS - (128 - int BIGNUM_INT_BITS);
          output_bit_index = int log2_R - 191 - input_bit_index
      in if output_bit_index mod int BIGNUM_INT_BITS \<noteq> 0 then None
         else do {
           r_approx \<leftarrow> mp_make_sized rw;
           let output_word_index = nat (output_bit_index div int BIGNUM_INT_BITS);
           let r_approx = mp_add_integer_into_shifted_by_words rw r_approx lobits output_word_index;
           Some (mp_add_integer_into_shifted_by_words rw r_approx hibits (output_word_index + 64 div BIGNUM_INT_BITS))
         })"

definition newton_step :: "mp_int \<Rightarrow> mp_int \<Rightarrow> nat \<Rightarrow> nat \<Rightarrow> nat \<Rightarrow> nat \<Rightarrow> mp_int \<Rightarrow> mp_int option" where
  "newton_step d two_R log2_R dr_nw product_nw scratch r_approx = do {
     dr \<leftarrow> mp_mul_internal dr_nw r_approx d scratch;
     let diff = mp_sub_into (max (length r_approx) dr_nw) two_R dr;
     product \<leftarrow> mp_mul_internal product_nw r_approx diff scratch;
     let product_shifted = mp_make_alias product (log2_R div BIGNUM_INT_BITS) (length product);
     Some (mp_rshift_fixed_into (length r_approx) product_shifted (log2_R mod BIGNUM_INT_BITS)) }"

function newton_loop :: "(mp_int \<Rightarrow> mp_int option) \<Rightarrow> nat \<Rightarrow> nat \<Rightarrow> mp_int \<Rightarrow> mp_int option" where
  "newton_loop step good_bits good_bits_needed r_approx =
     (if good_bits < 2 then None
      else if good_bits < good_bits_needed then do {
        r_approx \<leftarrow> step r_approx;
        newton_loop step (good_bits * 2 - 1) good_bits_needed r_approx }
      else Some r_approx)"
  by pat_completeness auto
termination
  by (relation "measure (\<lambda>(step, g, needed, r). needed - g)") auto

declare newton_loop.simps [simp del]

text \<open>The correction: at most two subtractions of \<open>d\<close>, counted.\<close>

primrec div_correct :: "nat \<Rightarrow> mp_int \<Rightarrow> mp_int \<Rightarrow> uint32 \<Rightarrow> mp_int \<times> uint32" where
  "div_correct 0 d remainder q_correction = (remainder, q_correction)"
| "div_correct (Suc k) d remainder q_correction =
     (let need_correction = mp_cmp_hs remainder d
      in div_correct k d (mp_cond_sub_into (length remainder) remainder d need_correction)
           (q_correction + need_correction))"

text \<open>The quotient and the remainder, before they are copied to the outputs.\<close>

definition mp_divmod :: "mp_int \<Rightarrow> mp_int \<Rightarrow> (mp_int \<times> mp_int) option" where
  "mp_divmod n d =
     (if mp_eq_integer d 0 \<noteq> 0 then None
      else
        let log2_R = div_log2_R (length n) (length d);
            rw = ((log2_R + 2) + BIGNUM_INT_BITS - 1) div BIGNUM_INT_BITS
        in do {
          r_approx \<leftarrow> div_start d log2_R rw;
          two_R \<leftarrow> mp_make_sized rw;
          let top_word = push_bit ((log2_R + 1) mod BIGNUM_INT_BITS) 1;
          let two_R = mp_add_integer_into_shifted_by_words rw two_R top_word ((log2_R + 1) div BIGNUM_INT_BITS);
          let dr_nw = rw + length d;
          let diff_nw = max rw dr_nw;
          let product_nw = rw + diff_nw;
          let scratchsize = max (mp_mul_scratchspace dr_nw rw (length d)) (mp_mul_scratchspace product_nw rw diff_nw);
          let good_bits = 31 - 11;
          let good_bits_needed = BIGNUM_INT_BITS * length n + 4;
          r_approx \<leftarrow> newton_loop (newton_step d two_R log2_R dr_nw product_nw scratchsize)
                         good_bits good_bits_needed r_approx;
          quotient_full \<leftarrow> mp_mul r_approx n;
          let quotient_alias = mp_make_alias quotient_full (log2_R div BIGNUM_INT_BITS) (length quotient_full);
          let quotient = mp_rshift_fixed_into (length n) quotient_alias (log2_R mod BIGNUM_INT_BITS);
          remainder \<leftarrow> mp_mul_into (length d) quotient d;
          let remainder = mp_sub_into (length d) n remainder;
          let (remainder, q_correction) = div_correct 2 d remainder 0;
          let quotient = mp_add_integer_into (length n) quotient (ucast q_correction);
          if mp_cmp_hs remainder d \<noteq> 0 then None else Some (quotient, remainder)
        })"

definition mp_divmod_into :: "mp_int \<Rightarrow> mp_int \<Rightarrow> nat \<Rightarrow> nat \<Rightarrow> (mp_int \<times> mp_int) option" where
  "mp_divmod_into n d q_nw r_nw =
     map_option (\<lambda>(quotient, remainder). (mp_copy_into q_nw quotient, mp_copy_into r_nw remainder)) (mp_divmod n d)"

definition mp_div :: "mp_int \<Rightarrow> mp_int \<Rightarrow> mp_int option" where
  "mp_div n d = do {
     q \<leftarrow> mp_make_sized (length n);
     map_option fst (mp_divmod_into n d (length q) (length d)) }"

definition mp_mod :: "mp_int \<Rightarrow> mp_int \<Rightarrow> mp_int option" where
  "mp_mod n d = do {
     r \<leftarrow> mp_make_sized (length d);
     map_option snd (mp_divmod_into n d (length n) (length r)) }"

section \<open>Convergence\<close>

text \<open>One step of the iteration squares the relative error and adds a rounding error.\<close>

lemma newton_error:
  fixes d r R :: int
  assumes R: "0 < R" and d: "0 < d"
  defines "r' \<equiv> r * (2 * R - d * r) div R"
  shows "d * r' \<le> R" "R * (R - d * r') \<le> (d * r - R) * (d * r - R) + R * d"
proof -
  define m where "m = r * (2 * R - d * r) mod R"
  have m: "0 \<le> m" "m < R" using R by (simp_all add: m_def)
  have "r * (2 * R - d * r) = R * r' + m" unfolding r'_def m_def by (rule mult_div_mod_eq [symmetric])
  then have "d * (R * r' + m) = d * (r * (2 * R - d * r))" by simp
  also have "\<dots> = R * R - (d * r - R) * (d * r - R)" by (simp add: algebra_simps)
  finally have e: "R * (R - d * r') = (d * r - R) * (d * r - R) + d * m" by (simp add: algebra_simps)
  have "0 \<le> R * (R - d * r')" unfolding e using d m by simp
  then show "d * r' \<le> R" using R by (simp add: zero_le_mult_iff)
  have "d * m \<le> d * R" using d m by (intro mult_left_mono) simp_all
  then show "R * (R - d * r') \<le> (d * r - R) * (d * r - R) + R * d" unfolding e by (simp add: mult.commute)
qed

definition recip_within :: "nat \<Rightarrow> int \<Rightarrow> int \<Rightarrow> int \<Rightarrow> bool" where
  "recip_within g R d r \<longleftrightarrow> 0 \<le> r \<and> d * r \<le> 2 * R \<and> (2 ^ g * \<bar>d * r - R\<bar> \<le> R \<or> \<bar>d * r - R\<bar> \<le> 2 * d)"

lemma newton_good_bits:
  fixes d r R :: int
  assumes d: "0 < d" "4 * d \<le> R" and g: "1 \<le> g" and r: "recip_within g R d r"
  defines "r' \<equiv> r * (2 * R - d * r) div R"
  shows "recip_within (g * 2 - 1) R d r'" "d * r' \<le> R"
proof -
  have R: "0 < R" using d by linarith
  note e = newton_error [OF R d(1), of r, folded r'_def]
  define E E' where "E = \<bar>d * r - R\<bar>" and "E' = R - d * r'"
  have E: "0 \<le> E" "R * E' \<le> E * E + R * d" "0 \<le> E'" using e by (simp_all add: E_def E'_def abs_if algebra_simps)
  have "2 ^ (g * 2 - 1) * E' \<le> R \<or> E' \<le> 2 * d"
  proof (cases "2 ^ g * E \<le> R")
    case True
    have "2 ^ (g * 2 - 1) * E' \<le> R" if "2 * d < E'"
    proof -
      have "R * (2 * d) \<le> R * E'" using that R by (intro mult_left_mono) simp_all
      then have f: "R * E' \<le> 2 * (E * E)" using E(2) by linarith
      have "(2 ^ g * E) * (2 ^ g * E) \<le> R * R" using True E(1) R by (intro mult_mono) simp_all
      moreover have "(2 :: int) ^ (g * 2) = 2 * 2 ^ (g * 2 - 1)" using g by (simp flip: power_Suc)
      moreover have "(2 :: int) ^ (g * 2) = 2 ^ g * 2 ^ g" by (simp only: mult_2_right power_add)
      ultimately have "2 ^ (g * 2 - 1) * (2 * (E * E)) \<le> R * R" by (simp add: ac_simps del: power_Suc)
      moreover have "2 ^ (g * 2 - 1) * (R * E') \<le> 2 ^ (g * 2 - 1) * (2 * (E * E))" using f by simp
      ultimately have "2 ^ (g * 2 - 1) * (R * E') \<le> R * R" by linarith
      then have "R * (2 ^ (g * 2 - 1) * E') \<le> R * R" by (simp only: mult.left_commute)
      then show ?thesis using R by simp
    qed
    then show ?thesis by linarith
  next
    case False
    then have "E \<le> 2 * d" using r by (auto simp: recip_within_def E_def)
    then have "E * E \<le> 2 * d * (2 * d)" using E(1) by (intro mult_mono) simp_all
    also have "\<dots> \<le> R * d" using mult_right_mono [OF d(2), of d] d by simp
    finally have "R * E' \<le> R * (2 * d)" using E(2) by linarith
    then show ?thesis using R by simp
  qed
  moreover have "0 \<le> r'" unfolding r'_def using r R
    by (intro div_int_pos_iff [THEN iffD2]) (simp add: recip_within_def mult.commute)
  moreover have "\<bar>d * r' - R\<bar> = E'" using E(3) by (simp add: E'_def)
  ultimately show "recip_within (g * 2 - 1) R d r'" using e(1) R by (simp add: recip_within_def)
  show "d * r' \<le> R" by (rule e)
qed

text \<open>With enough good bits the quotient is at most one too small.\<close>

lemma recip_quotient:
  fixes d r R n :: int
  assumes d: "0 < d" and n: "0 \<le> n" "16 * n \<le> 2 ^ g" "4 * (n * d) \<le> R"
    and r: "recip_within g R d r" "d * r \<le> R"
  defines "q \<equiv> r * n div R"
  shows "0 \<le> q" "0 \<le> n - q * d" "n - q * d \<le> d"
proof -
  have R: "0 < R \<or> n = 0" using n(1,3) d by (metis le_less less_le_trans mult_pos_pos zero_less_numeral)
  have "0 \<le> q \<and> 0 \<le> n - q * d \<and> n - q * d \<le> d" if R: "0 < R" 
  proof -
    define E m where "E = R - d * r" and "m = r * n mod R"
    have m: "0 \<le> m" "m < R" using R by (simp_all add: m_def)
    have "r * n = R * q + m" unfolding q_def m_def by (rule mult_div_mod_eq [symmetric])
    then have "d * (R * q + m) = d * (r * n)" by simp
    also have "\<dots> = R * n - n * E" by (simp add: E_def algebra_simps)
    finally have f: "R * (n - q * d) = n * E + d * m" by (simp add: algebra_simps)
    have E: "0 \<le> E" "2 ^ g * E \<le> R \<or> E \<le> 2 * d" using r by (auto simp: E_def recip_within_def)
    have nE: "n * E \<le> R"
      using E(2)
    proof
      assume "2 ^ g * E \<le> R"
      moreover have "n * E \<le> 2 ^ g * E" using n E by (intro mult_right_mono) simp_all
      ultimately show ?thesis by linarith
    next
      assume "E \<le> 2 * d"
      then have "n * E \<le> n * (2 * d)" using n by (intro mult_left_mono) simp_all
      moreover have "0 \<le> n * d" using n d by simp
      moreover have "n * (2 * d) = 2 * (n * d)" by simp
      ultimately show ?thesis using n(3) by linarith
    qed
    have "d * m < d * R" using d m by simp
    then have "R * (n - q * d) < R * (d + 1)" unfolding f using nE by (simp add: algebra_simps)
    then have "n - q * d \<le> d" using R by simp
    moreover have "0 \<le> R * (n - q * d)" unfolding f using n E d m by simp
    then have "0 \<le> n - q * d" using R by (simp add: zero_le_mult_iff)
    moreover have "0 \<le> q" unfolding q_def using r n R by (simp add: recip_within_def pos_imp_zdiv_nonneg_iff)
    ultimately show ?thesis by simp
  qed
  then show "0 \<le> q" "0 \<le> n - q * d" "n - q * d \<le> d" using R d by (auto simp: q_def)
qed

section \<open>The first approximation\<close>

lemma uint_drop_bit: "uint (drop_bit k w) = uint w div 2 ^ k" for w :: "'a::len word"
  by (subst unsigned_drop_bit_eq) (simp add: drop_bit_eq_div take_bit_eq_mod)

lemma shift_pair:
  assumes sl: "0 < sl" "sl < 64" and h: "uint hi < 2 ^ (64 - sl)"
  shows "uint (push_bit sl hi OR drop_bit (64 - sl) lo :: uint64) * 2 ^ 64 + uint (push_bit sl lo) =
    (uint hi * 2 ^ 64 + uint lo) * 2 ^ sl"
proof -
  have p: "(2 :: int) ^ 64 = 2 ^ (64 - sl) * 2 ^ sl" using sl by (simp flip: power_add)
  have push: "uint (push_bit sl w) = uint w * 2 ^ sl mod 2 ^ 64" for w :: uint64
    by (subst unsigned_push_bit_eq) (simp add: take_bit_eq_mod push_bit_eq_mult)
  have "uint hi * 2 ^ sl < 2 ^ 64" unfolding p using h by simp
  then have a: "uint (push_bit sl hi) = uint hi * 2 ^ sl" unfolding push by (intro mod_pos_pos_trivial) simp_all
  have b: "uint (drop_bit (64 - sl) lo) = uint lo div 2 ^ (64 - sl)" by (rule uint_drop_bit)
  have "uint lo < 2 ^ (64 - sl) * 2 ^ sl" using uint_limb(2) [of lo] unfolding p .
  then have b': "0 \<le> uint lo div 2 ^ (64 - sl)" "uint lo div 2 ^ (64 - sl) < 2 ^ sl"
    by (simp_all add: int_div_less_iff mult.commute pos_imp_zdiv_nonneg_iff)
  have "uint (push_bit sl hi OR drop_bit (64 - sl) lo) = push_bit sl (uint hi) OR take_bit sl (uint lo div 2 ^ (64 - sl))"
    using b' unfolding uint_or a b by (simp add: push_bit_eq_mult take_bit_int_eq_self)
  also have "\<dots> = push_bit sl (uint hi) + take_bit sl (uint lo div 2 ^ (64 - sl))"
    by (rule disjunctive_add [symmetric]) (auto simp: bit_simps)
  also have "\<dots> = uint hi * 2 ^ sl + uint lo div 2 ^ (64 - sl)"
    using b' by (simp add: push_bit_eq_mult take_bit_int_eq_self)
  finally have o: "uint (push_bit sl hi OR drop_bit (64 - sl) lo) = uint hi * 2 ^ sl + uint lo div 2 ^ (64 - sl)" .
  have "uint (push_bit sl lo) = uint lo * 2 ^ sl mod 2 ^ 64" by (rule push)
  also have "\<dots> = uint lo mod 2 ^ (64 - sl) * 2 ^ sl" unfolding p by (rule mod_mult_mult2)
  finally have l: "uint (push_bit sl lo) = uint lo mod 2 ^ (64 - sl) * 2 ^ sl" .
  have "uint lo div 2 ^ (64 - sl) * 2 ^ 64 + uint lo mod 2 ^ (64 - sl) * 2 ^ sl =
      (uint lo div 2 ^ (64 - sl) * 2 ^ (64 - sl) + uint lo mod 2 ^ (64 - sl)) * 2 ^ sl"
    unfolding p by (simp only: distrib_right mult.assoc)
  also have "\<dots> = uint lo * 2 ^ sl" by (simp only: div_mult_mod_eq)
  finally have "uint lo div 2 ^ (64 - sl) * 2 ^ 64 + uint lo mod 2 ^ (64 - sl) * 2 ^ sl = uint lo * 2 ^ sl" .
  then show ?thesis unfolding o l by (simp add: distrib_right)
qed


definition pair_val :: "uint64 \<Rightarrow> uint64 \<Rightarrow> int" where
  "pair_val hi lo = uint hi * 2 ^ 64 + uint lo"

lemma xor_select64: "w XOR ((w XOR v) AND - ucast (of_bool p :: uint32)) = (if p then v else w)" for w v :: uint64
  by (cases p) (simp_all add: xor_select [of _ _ True, simplified] flip: xor.assoc)

lemma drop_bit_0_iff: "drop_bit k w = 0 \<longleftrightarrow> uint w < 2 ^ k" for w :: uint64
proof -
  have "drop_bit k w = 0 \<longleftrightarrow> uint w div 2 ^ k = 0" unfolding uint_drop_bit [symmetric] by (simp only: unsigned_eq_0_iff)
  also have "\<dots> \<longleftrightarrow> uint w < 2 ^ k" using uint_limb(1) [of w] by (auto simp: zdiv_eq_0_iff not_le)
  finally show ?thesis .
qed

lemma shift_up_loop_val:
  "\<lbrakk>i \<le> 6; 2 ^ (64 - 2 ^ i) \<le> uint hi\<rbrakk> \<Longrightarrow>
     \<exists>hi' lo' s. shift_up_loop i (hi, lo, su) = (hi', lo', su + s) \<and> s < 2 ^ i \<and>
       pair_val hi' lo' = pair_val hi lo * 2 ^ s \<and> 2 ^ 63 \<le> uint hi'"
proof (induction i arbitrary: hi lo su)
  case (Suc i)
  have i: "i \<le> 5" "(2 :: nat) ^ i \<le> 2 ^ 5" using Suc.prems(1) power_increasing [of i 5 "2 :: nat"] by simp_all
  let ?c = "uint hi < 2 ^ (64 - 2 ^ i)"
  define hi1 lo1 where "hi1 = (if ?c then push_bit (2 ^ i) hi OR drop_bit (64 - 2 ^ i) lo else hi)"
    and "lo1 = (if ?c then push_bit (2 ^ i) lo else lo)"
  have ind: "1 XOR normalise_to_1_u64 (drop_bit (64 - 2 ^ i) hi) = of_bool ?c"
    using drop_bit_0_iff [of "64 - 2 ^ i" hi] by (simp add: normalise_to_1_u64_eq)
  have step: "shift_up_loop (Suc i) (hi, lo, su) = shift_up_loop i (hi1, lo1, if ?c then su + 2 ^ i else su)"
    by (simp only: shift_up_loop.simps Let_def prod.case ind xor_select64 hi1_def lo1_def of_bool_eq_1_iff)
  have v: "pair_val hi1 lo1 = pair_val hi lo * 2 ^ (if ?c then 2 ^ i else 0)"
    using shift_pair [of "2 ^ i" hi lo] i by (simp add: pair_val_def hi1_def lo1_def)
  have "2 ^ (64 - 2 ^ i) \<le> uint hi1"
  proof (cases ?c)
    case True
    have "(2 :: int) ^ (64 - 2 ^ i) = 2 ^ (64 - 2 ^ Suc i) * 2 ^ 2 ^ i" using i by (simp flip: power_add)
    also have "\<dots> \<le> uint hi * 2 ^ 2 ^ i" using Suc.prems(2) by (intro mult_right_mono) simp_all
    finally have "2 ^ (64 - 2 ^ i) * 2 ^ 64 \<le> uint hi * 2 ^ 2 ^ i * 2 ^ 64" by (intro mult_right_mono) simp_all
    also have "\<dots> \<le> pair_val hi lo * 2 ^ 2 ^ i" by (simp add: pair_val_def algebra_simps)
    also have "\<dots> < (uint hi1 + 1) * 2 ^ 64" using v True uint_limb(2) [of lo1] by (simp add: pair_val_def)
    finally show ?thesis by simp
  qed (simp add: hi1_def)
  then obtain hi' lo' s where
    "shift_up_loop i (hi1, lo1, if ?c then su + 2 ^ i else su) = (hi', lo', (if ?c then su + 2 ^ i else su) + s)"
    "s < 2 ^ i" "pair_val hi' lo' = pair_val hi1 lo1 * 2 ^ s" "2 ^ 63 \<le> uint hi'"
    using Suc.IH [of hi1 lo1 "if ?c then su + 2 ^ i else su"] i by auto
  then show ?case unfolding step v
    by (intro exI [of _ hi'] exI [of _ lo'] exI [of _ "(if ?c then 2 ^ i else 0) + s"]) (simp add: power_add)
qed simp

lemma shift_by_loop_val:
  "\<lbrakk>i \<le> 6; pair_val hi lo * 2 ^ take_bit i su < 2 ^ 128\<rbrakk> \<Longrightarrow>
     \<exists>hi' lo'. shift_by_loop i su (hi, lo) = (hi', lo') \<and> pair_val hi' lo' = pair_val hi lo * 2 ^ take_bit i su"
proof (induction i arbitrary: hi lo)
  case (Suc i)
  have i: "i \<le> 5" "(2 :: nat) ^ i \<le> 2 ^ 5" using Suc.prems(1) power_increasing [of i 5 "2 :: nat"] by simp_all
  let ?c = "bit su i"
  define hi1 lo1 where "hi1 = (if ?c then push_bit (2 ^ i) hi OR drop_bit (64 - 2 ^ i) lo else hi)"
    and "lo1 = (if ?c then push_bit (2 ^ i) lo else lo)"
  have ind: "of_nat (drop_bit i su AND 1) = (of_bool ?c :: uint32)"
    by (simp add: and_one_eq bit_iff_odd_drop_bit odd_iff_mod_2_eq_one)
  have step: "shift_by_loop (Suc i) su (hi, lo) = shift_by_loop i su (hi1, lo1)"
    by (simp only: shift_by_loop.simps Let_def prod.case ind xor_select64 hi1_def lo1_def)
  have t: "take_bit (Suc i) su = take_bit i su + (if ?c then 2 ^ i else 0)" by (simp add: take_bit_Suc_from_most)
  have "uint hi < 2 ^ (64 - 2 ^ i)" if ?c
  proof -
    have "uint hi * 2 ^ 64 * 2 ^ 2 ^ i \<le> pair_val hi lo * 2 ^ take_bit (Suc i) su"
      using that uint_limb(1) [of lo] by (intro mult_mono) (simp_all add: t pair_val_def)
    also have "\<dots> < 2 ^ 128" by (rule Suc.prems(2))
    also have "(2 :: int) ^ 128 = 2 ^ (64 - 2 ^ i) * 2 ^ 64 * 2 ^ 2 ^ i" using i by (simp flip: power_add)
    finally show ?thesis by simp
  qed
  then have v: "pair_val hi1 lo1 = pair_val hi lo * 2 ^ (if ?c then 2 ^ i else 0)"
    using shift_pair [of "2 ^ i" hi lo] i by (simp add: pair_val_def hi1_def lo1_def)
  then have "pair_val hi1 lo1 * 2 ^ take_bit i su = pair_val hi lo * 2 ^ take_bit (Suc i) su"
    by (simp add: t power_add)
  then show ?case using Suc.IH [of hi1 lo1] Suc.prems i unfolding step by simp
qed simp


lemma div_log2_R_val:
  obtains k where "div_log2_R n d = 64 * k + 191" "64 * (n + d) + 3 \<le> 64 * k + 191" "n + d \<le> k + 2" "k \<le> n + d"
proof -
  define m where "m = (n + d) * 64 + 3 - min 191 ((n + d) * 64 + 3)"
  have "m + 63 - take_bit 6 (m + 63) = 64 * ((m + 63) div 64)"
    by (simp add: take_bit_eq_mod minus_mod_eq_mult_div)
  moreover have "div_log2_R n d = m + 63 - take_bit 6 (m + 63) + 191"
    unfolding div_log2_R_def Let_def by (simp only: flip: m_def) (simp add: add.commute)
  ultimately have "div_log2_R n d = 64 * ((m + 63) div 64) + 191" by simp
  then obtain k where k: "div_log2_R n d = 64 * k + 191" "m \<le> 64 * k" "64 * k < m + 64"
    using mult_div_mod_eq [of 64 "m + 63"] by (intro that [of "(m + 63) div 64"]) linarith+
  obtain N where N: "n + d = N" by simp
  have m: "64 * N + 3 \<le> m + 191" "m \<le> 64 * N" unfolding m_def N by auto
  have "64 * N + 3 \<le> 64 * k + 191" using m(1) k(2) by simp
  moreover have "N \<le> k + 2" using m(1) k(2) by simp
  moreover have "k \<le> N" using m(2) k(3) by simp
  ultimately show ?thesis using k(1) by (intro that [of k]) (simp_all only: N)
qed

text \<open>
  The highest words of \<open>d\<close>, scaled so that the top bit is set, and the approximate
  reciprocal of the top 32 bits: the product is within \<open>2 ^ -20\<close> of \<open>R\<close>.
\<close>

lemma recip_scaled:
  fixes W :: int
  assumes x: "2 ^ 31 \<le> uint x" and W: "0 < W"
  defines "v \<equiv> uint (recip_approx_32 x)"
  assumes p: "uint x * v * W \<le> p" "p \<le> (uint x + 1) * v * W"
  shows "2 ^ 20 * \<bar>p - 2 ^ 63 * W\<bar> \<le> 2 ^ 63 * W"
proof -
  have b: "\<bar>v * uint x - 2 ^ 63\<bar> \<le> 2046 * uint x" unfolding v_def using x by (rule recip_approx_32_error)
  have u: "uint x < 2 ^ 32" "v < 2 ^ 32" "0 \<le> v"
    using uint_bounded [of x] uint_bounded [of "recip_approx_32 x"] by (simp_all add: v_def)
  have l: "2 ^ 63 - 2 ^ 43 \<le> v * uint x" and h: "v * uint x + v \<le> 2 ^ 63 + 2 ^ 43" using b u by (auto simp: abs_if split: if_splits)
  have "(2 ^ 63 - 2 ^ 43) * W \<le> uint x * v * W" using l W by (intro mult_right_mono) (simp_all add: mult.commute)
  moreover have "(uint x + 1) * v * W \<le> (2 ^ 63 + 2 ^ 43) * W" using h W by (intro mult_right_mono) (simp_all add: algebra_simps)
  ultimately have "\<bar>p - 2 ^ 63 * W\<bar> \<le> 2 ^ 43 * W" using p by (simp add: algebra_simps abs_le_iff)
  then show ?thesis by simp
qed

lemma highest_pair:
  assumes "highest 0 0 d = Some (j, w, b)"
  shows "pair_val w b * mp_base j \<le> mp_val d * 2 ^ 64" "mp_val d * 2 ^ 64 \<le> (pair_val w b + 1) * mp_base j"
proof -
  note h = highest_Some [OF assms]
  have t: "take (Suc j) d = take j d @ [w]" using h take_Suc_conv_app_nth [of j d] by simp
  have v: "mp_val d = mp_val (take j d) + mp_base j * uint w"
  proof -
    have "mp_val d = mp_val (take (Suc j) d)" using h by simp
    also have "\<dots> = mp_val (take j d) + mp_base j * uint w" unfolding t mp_val_append using h by (simp add: min_absorb2)
    finally show ?thesis .
  qed
  show "pair_val w b * mp_base j \<le> mp_val d * 2 ^ 64" "mp_val d * 2 ^ 64 \<le> (pair_val w b + 1) * mp_base j"
  proof (atomize (full), cases j)
    case 0
    then show "pair_val w b * mp_base j \<le> mp_val d * 2 ^ 64 \<and> mp_val d * 2 ^ 64 \<le> (pair_val w b + 1) * mp_base j"
      using v h by (simp add: pair_val_def)
  next
    case (Suc i)
    have t': "take j d = take i d @ [b]" using h Suc take_Suc_conv_app_nth [of i d] by simp
    have v': "mp_val (take j d) = mp_val (take i d) + mp_base i * uint b"
      unfolding t' mp_val_append using h Suc by (simp add: min_absorb2)
    have "mp_val d * 2 ^ 64 = mp_val (take i d) * 2 ^ 64 + pair_val w b * mp_base j"
      unfolding v v' by (simp add: Suc pair_val_def power_add algebra_simps)
    moreover have less: "mp_val (take i d) < mp_base i"
      using mp_val_less [of "take i d"] h Suc by (simp add: min_absorb2)
    moreover have "mp_val (take i d) * 2 ^ 64 \<le> mp_base j"
      unfolding Suc mp_base_Suc using less by (subst mult.commute) (intro mult_left_mono, simp_all)
    ultimately show "pair_val w b * mp_base j \<le> mp_val d * 2 ^ 64 \<and> mp_val d * 2 ^ 64 \<le> (pair_val w b + 1) * mp_base j"
      using mp_val_nonneg [of "take i d"] by (simp add: distrib_right)
  qed
qed


lemma top_words_scaled:
  assumes h: "highest 0 0 d = Some (j, w, b)"
  obtains hi lo s where "shift_up_loop 6 (w, b, 0) = (hi, lo, s)" "s < 64" "2 ^ 63 \<le> uint hi"
    "uint hi div 2 ^ 32 * 2 ^ 96 * mp_base j \<le> mp_val d * 2 ^ (64 + s)"
    "mp_val d * 2 ^ (64 + s) \<le> (uint hi div 2 ^ 32 + 1) * 2 ^ 96 * mp_base j"
proof -
  have "1 \<le> uint w" using highest_Some [OF h] uint_limb(1) [of w] by (auto simp: le_less unsigned_eq_0_iff)
  then obtain hi lo s where hi: "shift_up_loop 6 (w, b, 0) = (hi, lo, s)" "s < 64"
    "pair_val hi lo = pair_val w b * 2 ^ s" "2 ^ 63 \<le> uint hi"
    using shift_up_loop_val [of 6 w b 0] by auto
  define X where "X = uint hi div 2 ^ 32"
  define M where "M = uint hi mod 2 ^ 32"
  have "uint hi = X * 2 ^ 32 + M" unfolding X_def M_def by (rule div_mult_mod_eq [symmetric])
  moreover have "0 \<le> M" "M < 2 ^ 32" by (simp_all add: M_def)
  ultimately have X: "X * 2 ^ 96 \<le> pair_val hi lo" "pair_val hi lo < (X + 1) * 2 ^ 96"
    using uint_limb [of lo] by (auto simp: pair_val_def)
  have p: "(2 :: int) ^ 96 = 2 ^ (96 - s) * 2 ^ s" using hi(2) by (simp flip: power_add)
  have "pair_val w b * 2 ^ s < (X + 1) * 2 ^ (96 - s) * 2 ^ s" using X(2) unfolding hi(3) p by (simp only: mult.assoc)
  then have "pair_val w b < (X + 1) * 2 ^ (96 - s)" by simp
  then have "(pair_val w b + 1) * 2 ^ s \<le> (X + 1) * 2 ^ (96 - s) * 2 ^ s" by (intro mult_right_mono) simp_all
  then have u: "(pair_val w b + 1) * 2 ^ s \<le> (X + 1) * 2 ^ 96" unfolding p by (simp only: mult.assoc)
  have "X * 2 ^ 96 * mp_base j \<le> pair_val w b * mp_base j * 2 ^ s"
    using X(1) unfolding hi(3) by (simp add: mult_right_mono ac_simps)
  also have "\<dots> \<le> mp_val d * 2 ^ 64 * 2 ^ s" using highest_pair(1) [OF h] by (intro mult_right_mono) simp_all
  finally have l: "X * 2 ^ 96 * mp_base j \<le> mp_val d * 2 ^ (64 + s)" by (simp add: power_add)
  have "mp_val d * 2 ^ (64 + s) \<le> (pair_val w b + 1) * mp_base j * 2 ^ s"
    unfolding power_add mult.assoc [symmetric] using highest_pair(2) [OF h] by (intro mult_right_mono) simp_all
  also have "\<dots> = (pair_val w b + 1) * 2 ^ s * mp_base j" by (simp only: ac_simps)
  also have "\<dots> \<le> (X + 1) * 2 ^ 96 * mp_base j" using u by (intro mult_right_mono) simp_all
  finally show ?thesis using hi l by (intro that [of hi lo s]) (simp_all add: X_def)
qed


lemma div_start_val:
  assumes d: "mp_val d \<noteq> 0" and L: "L = 64 * k + 191" and k: "length d \<le> k + 1" "k < 2 ^ 60"
  shows "\<exists>r. div_start d L (k + 4) = Some r \<and> length r = k + 4 \<and> 2 ^ 20 * \<bar>mp_val d * mp_val r - 2 ^ L\<bar> \<le> 2 ^ L"
proof -
  obtain j w b where h: "highest 0 0 d = Some (j, w, b)" using d highest_None [of 0 0 d] by (cases "highest 0 0 d") auto
  then have j: "j < length d" using highest_Some by fastforce
  obtain hi lo s where up: "shift_up_loop 6 (w, b, 0) = (hi, lo, s)" "s < 64" "2 ^ 63 \<le> uint hi"
    "uint hi div 2 ^ 32 * 2 ^ 96 * mp_base j \<le> mp_val d * 2 ^ (64 + s)"
    "mp_val d * 2 ^ (64 + s) \<le> (uint hi div 2 ^ 32 + 1) * 2 ^ 96 * mp_base j"
    by (rule top_words_scaled [OF h])
  define x where "x = (ucast (drop_bit 32 hi) :: uint32)"
  define lo2 where "lo2 = (push_bit 32 (ucast (recip_approx_32 x)) :: uint64)"
  have "uint hi div 2 ^ 32 < 2 ^ 32" using uint_limb [of hi] by (simp add: int_div_less_iff)
  then have x: "uint x = uint hi div 2 ^ 32" unfolding x_def uint_drop_bit [symmetric]
    by (subst unsigned_ucast_eq) (simp add: take_bit_int_eq_self)
  have lo2: "uint lo2 = uint (recip_approx_32 x) * 2 ^ 32"
  proof -
    have "uint (ucast (recip_approx_32 x) :: uint64) = uint (recip_approx_32 x)"
      using uint_bounded [of "recip_approx_32 x"] by (subst unsigned_ucast_eq) (simp add: take_bit_int_eq_self)
    then show ?thesis using uint_bounded [of "recip_approx_32 x"] unfolding lo2_def
      by (subst unsigned_push_bit_eq) (simp add: take_bit_int_eq_self push_bit_eq_mult)
  qed
  have v: "uint (recip_approx_32 x) < 2 ^ 32" using uint_bounded [of "recip_approx_32 x"] by simp
  have ts: "take_bit 6 s = s" using up(2) by (simp add: take_bit_nat_eq_self)
  have p: "pair_val 0 lo2 * 2 ^ take_bit 6 s < 2 ^ 128"
  proof -
    have "pair_val 0 lo2 < 2 ^ 64" using uint_limb [of lo2] by (simp add: pair_val_def)
    moreover have "(2 :: int) ^ s \<le> 2 ^ 64" using up(2) by (intro power_increasing) simp_all
    ultimately have "pair_val 0 lo2 * 2 ^ s < 2 ^ 64 * 2 ^ 64" by (intro mult_less_le_imp_less) (simp_all add: pair_val_def)
    then show ?thesis by (simp add: ts)
  qed
  obtain hi3 lo3 where by_s: "shift_by_loop 6 s (0, lo2) = (hi3, lo3)" "pair_val hi3 lo3 = pair_val 0 lo2 * 2 ^ take_bit 6 s"
    using shift_by_loop_val [OF _ p] by auto
  define ow where "ow = k + 1 - j"
  have ow: "j + ow = k + 1" using j k by (simp add: ow_def)
  have out: "int L - 191 - (uint (of_nat j :: uint64) * int 64 - (128 - int 64)) = int ow * 64"
  proof -
    have "uint (of_nat j :: uint64) = int j" using j k by (simp only: uint_nat) (simp add: unsigned_of_nat take_bit_nat_eq_self)
    then show ?thesis using ow by (simp add: L)
  qed
  define r where "r = mp_add_integer_into_shifted_by_words (k + 4)
    (mp_add_integer_into_shifted_by_words (k + 4) (replicate (k + 4) 0) lo3 ow) hi3 (ow + 1)"
  have start: "div_start d L (k + 4) = Some r"
    by (simp only: div_start_def mp_find_highest_eq h up(1) option.case prod.case Let_def push_bit_0_id id_apply x_def [symmetric]
          lo2_def [symmetric] by_s(1) out diff_self_eq_0) (simp add: out mp_make_sized_def r_def)
  have z: "mp_val (replicate (k + 4) 0) = 0" by (simp add: mp_simps)
  have "mp_val r = (uint lo3 * mp_base ow + uint hi3 * mp_base (ow + 1)) mod mp_base (k + 4)"
    unfolding r_def using k ow by (simp add: mp_add_shifted_val z mod_add_left_eq)
  also have "\<dots> = pair_val hi3 lo3 * mp_base ow mod mp_base (k + 4)"
    by (simp add: pair_val_def power_add algebra_simps)
  also have "\<dots> = pair_val hi3 lo3 * mp_base ow"
  proof (rule mod_pos_pos_trivial)
    have "pair_val hi3 lo3 < mp_base 2" using p by (simp add: by_s)
    then have "pair_val hi3 lo3 * mp_base ow < mp_base 2 * mp_base ow" by (intro mult_strict_right_mono) simp_all
    also have "\<dots> \<le> mp_base (k + 4)" unfolding mp_base_add [symmetric] using ow by (intro power_increasing) simp_all
    finally show "pair_val hi3 lo3 * mp_base ow < mp_base (k + 4)" .
  qed (simp add: pair_val_def)
  finally have r: "mp_val r = uint (recip_approx_32 x) * 2 ^ (32 + s) * mp_base ow"
    unfolding by_s(2) ts by (simp add: pair_val_def lo2 power_add)
  have "2 ^ 20 * \<bar>mp_val d * mp_val r - 2 ^ 63 * mp_base (k + 2)\<bar> \<le> 2 ^ 63 * mp_base (k + 2)"
  proof (rule recip_scaled [of x])
    show "2 ^ 31 \<le> uint x" using up(3) by (simp add: x zdiv_mono1 [of "2 ^ 63" "uint hi" "2 ^ 32", simplified])
    have b: "2 ^ 96 * mp_base j * (2 ^ 32 * mp_base ow) = mp_base (k + 2) * 2 ^ 64"
    proof -
      have "2 ^ 96 * mp_base j * (2 ^ 32 * mp_base ow) = 2 ^ 128 * mp_base (j + ow)" by (simp only: mp_base_add) simp
      also have "\<dots> = mp_base (k + 2) * 2 ^ 64" by (simp only: ow) (simp add: power_add)
      finally show ?thesis .
    qed
    define c where "c = uint (recip_approx_32 x) * 2 ^ 32 * mp_base ow"
    have c: "0 \<le> c" by (simp add: c_def)
    have e: "mp_val d * mp_val r * 2 ^ 64 = mp_val d * 2 ^ (64 + s) * c" by (simp add: r power_add c_def)
    have "uint x * 2 ^ 96 * mp_base j * c = uint x * uint (recip_approx_32 x) * (2 ^ 96 * mp_base j * (2 ^ 32 * mp_base ow))"
      by (simp add: c_def)
    then have l: "uint x * 2 ^ 96 * mp_base j * c = uint x * uint (recip_approx_32 x) * mp_base (k + 2) * 2 ^ 64"
      unfolding b by simp
    have "(uint x + 1) * 2 ^ 96 * mp_base j * c = (uint x + 1) * uint (recip_approx_32 x) * (2 ^ 96 * mp_base j * (2 ^ 32 * mp_base ow))"
      by (simp add: c_def)
    then have h: "(uint x + 1) * 2 ^ 96 * mp_base j * c = (uint x + 1) * uint (recip_approx_32 x) * mp_base (k + 2) * 2 ^ 64"
      unfolding b by simp
    show "uint x * uint (recip_approx_32 x) * mp_base (k + 2) \<le> mp_val d * mp_val r"
      using mult_right_mono [OF up(4) c] unfolding x [symmetric] l e [symmetric] by simp
    show "mp_val d * mp_val r \<le> (uint x + 1) * uint (recip_approx_32 x) * mp_base (k + 2)"
      using mult_right_mono [OF up(5) c] unfolding x [symmetric] h e [symmetric] by simp
  qed simp
  moreover have "2 ^ 63 * mp_base (k + 2) = 2 ^ L" by (simp add: L power_add)
  moreover have "length r = k + 4" unfolding r_def using k ow by (simp add: mp_add_shifted_val)
  ultimately show ?thesis using start by simp
qed


section \<open>The division\<close>

lemma alias_rest: "length x \<le> k \<Longrightarrow> mp_val (mp_make_alias x i k) = mp_val x div mp_base i"
  by (simp add: mp_make_alias_eq mp_val_drop)

lemma newton_step_val:
  fixes k :: nat
  assumes d: "mp_val d \<noteq> 0" and len: "length r = k + 4" "length two_R = k + 4" "d \<noteq> []"
    and L: "L = 64 * k + 191" and R: "R = 2 ^ L" and two_R: "mp_val two_R = 2 * R"
    and g: "1 \<le> g" "recip_within g R (mp_val d) (mp_val r)" "4 * mp_val d \<le> R"
  defines "dn \<equiv> k + 4 + length d" and "pn \<equiv> k + 4 + max (k + 4) (k + 4 + length d)"
  assumes sc: "sc = max (mp_mul_scratchspace dn (k + 4) (length d)) (mp_mul_scratchspace pn (k + 4) (max (k + 4) dn))"
  shows "\<exists>r'. newton_step d two_R L dn pn sc r = Some r' \<and> length r' = k + 4 \<and>
    recip_within (g * 2 - 1) R (mp_val d) (mp_val r') \<and> mp_val d * mp_val r' \<le> R"
proof -
  have d0: "0 < mp_val d" using d mp_val_nonneg [of d] by linarith
  have R0: "0 < R" by (simp add: R)
  have r: "0 \<le> mp_val r" "mp_val d * mp_val r \<le> 2 * R" using g(2) by (simp_all add: recip_within_def)
  obtain dr where dr: "mp_mul_internal dn r d sc = Some dr" "length dr = dn"
    "mp_val dr = (mp_val r * mp_val d) mod mp_base dn"
    using mp_mul_internal_correct [of dn r d sc] len sc by (auto simp: mp_mul_scratchspace_def)
  have "mp_val r * mp_val d < mp_base dn"
    using mult_less_base [OF mp_val_nonneg mp_val_less mp_val_nonneg mp_val_less, of r d] len by (simp add: dn_def)
  then have dr_val: "mp_val dr = mp_val d * mp_val r" using dr(3) r(1) d0 by (simp add: mult.commute)
  define diff where "diff = mp_sub_into (max (length r) dn) two_R dr"
  have two_R_less: "2 * R < mp_base (k + 4)" using mp_val_less [of two_R] len two_R by simp
  have "mp_base (k + 4) \<le> mp_base (max (k + 4) dn)" by (intro power_increasing mult_le_mono2) simp_all
  then have "2 * R - mp_val d * mp_val r < mp_base (max (k + 4) dn)" using two_R_less mult_nonneg_nonneg [OF less_imp_le [OF d0] r(1)] by linarith
  then have diff: "mp_val diff = 2 * R - mp_val d * mp_val r" "length diff = max (k + 4) dn"
    using r(2) by (simp_all only: diff_def mp_simps len dr_val two_R) (simp_all add: mod_pos_pos_trivial)
  obtain product where product: "mp_mul_internal pn r diff sc = Some product" "length product = pn"
    "mp_val product = (mp_val r * mp_val diff) mod mp_base pn"
    using mp_mul_internal_correct [of pn r diff sc] len sc diff by (auto simp: mp_mul_scratchspace_def)
  have "mp_val r * mp_val diff < mp_base pn"
    using mult_less_base [OF mp_val_nonneg mp_val_less mp_val_nonneg mp_val_less, of r diff] len diff by (simp add: pn_def dn_def)
  then have product_val: "mp_val product = mp_val r * (2 * R - mp_val d * mp_val r)"
    using product(3) r(1) mp_val_nonneg [of diff] by (simp add: diff)
  define r' where "r' = mp_rshift_fixed_into (length r) (mp_make_alias product (L div 64) (length product)) (L mod 64)"
  note good = newton_good_bits [OF d0 g(3,1,2)]
  have "mp_val r' = mp_val product div mp_base (L div 64) div 2 ^ (L mod 64) mod mp_base (k + 4)"
    by (simp add: r'_def mp_simps alias_rest len)
  also have "mp_val product div mp_base (L div 64) div 2 ^ (L mod 64) = mp_val product div R"
    by (simp add: zdiv_zmult2_eq [symmetric] R flip: power_add)
  also have "mp_val product div R mod mp_base (k + 4) = mp_val product div R"
  proof (rule mod_pos_pos_trivial)
    have "mp_val product div R \<le> mp_val d * (mp_val product div R)"
      using d0 good(1) mult_right_mono [of 1 "mp_val d" "mp_val product div R"] by (simp add: recip_within_def product_val)
    also have "\<dots> \<le> R" using good(2) by (simp add: product_val)
    finally show "mp_val product div R < mp_base (k + 4)" using two_R_less R0 by linarith
  qed (use good(1) in \<open>simp add: recip_within_def product_val\<close>)
  finally have "mp_val r' = mp_val r * (2 * R - mp_val d * mp_val r) div R" by (simp add: product_val)
  moreover have "newton_step d two_R L dn pn sc r = Some r'"
    by (simp add: newton_step_def dr(1) product(1) r'_def flip: diff_def)
  moreover have "length r' = k + 4" by (simp add: r'_def mp_simps len)
  ultimately show ?thesis using good by simp
qed

lemma newton_loop_val:
  assumes "\<And>g r. \<lbrakk>2 \<le> g; P g r\<rbrakk> \<Longrightarrow> \<exists>r'. step r = Some r' \<and> P (g * 2 - 1) r' \<and> Q r'"
    "2 \<le> g" "P g r" "Q r \<or> g < need"
  shows "\<exists>r' g'. newton_loop step g need r = Some r' \<and> need \<le> g' \<and> P g' r' \<and> Q r'"
  using assms
proof (induction step g need r rule: newton_loop.induct)
  case (1 step g need r)
  show ?case
  proof (cases "g < need")
    case True
    obtain r' where r': "step r = Some r'" "P (g * 2 - 1) r'" "Q r'" using 1(2) [OF 1(3,4)] by blast
    have "\<exists>r'' g'. newton_loop step (g * 2 - 1) need r' = Some r'' \<and> need \<le> g' \<and> P g' r'' \<and> Q r''"
      using 1(3) True r' by (intro 1(1) 1(2)) auto
    then show ?thesis using r' 1(3) True by (subst newton_loop.simps) simp
  next
    case False
    then show ?thesis using 1(3-) by (intro exI [of _ r] exI [of _ g]) (subst newton_loop.simps, auto)
  qed
qed

lemma div_correct_val:
  assumes d: "0 < mp_val d" and r: "mp_val r \<le> mp_val d" "length r = length d"
  defines "p \<equiv> mp_val r = mp_val d"
  shows "\<exists>r'. div_correct 2 d r 0 = (r', of_bool p) \<and> length r' = length d \<and>
    mp_val r' = (if p then 0 else mp_val r)"
proof -
  define r1 r2 where "r1 = mp_cond_sub_into (length d) r d (of_bool p)" and "r2 = mp_cond_sub_into (length d) r1 d 0"
  have "mp_val d \<le> mp_val r \<longleftrightarrow> p" using r(1) unfolding p_def by linarith
  then have c: "mp_cmp_hs r d = of_bool p" by (simp add: mp_cmp_hs)
  have r1: "length r1 = length d" "mp_val r1 = (if p then 0 else mp_val r)"
  proof -
    have "mp_val r mod mp_base (length d) = mp_val r" using r(2) by (simp add: mp_val_mod_base)
    then show "mp_val r1 = (if p then 0 else mp_val r)" unfolding r1_def mp_cond_sub_into by (cases p) (simp_all add: p_def)
  qed (simp add: r1_def mp_cond_sub_into)
  have c1: "mp_cmp_hs r1 d = 0" using r(1) d by (cases p) (simp_all add: mp_cmp_hs r1 p_def)
  have r2: "length r2 = length d" "mp_val r2 = mp_val r1"
    using mp_cond_sub_into [of "length d" r1 d False] by (simp_all add: r2_def r1(1) mp_val_mod_base)
  have "div_correct 2 d r 0 = (r2, of_bool p)"
    by (simp add: numeral_2_eq_2 Let_def c r(2) c1 r1(1) r2_def flip: r1_def)
  then show ?thesis using r1 r2 by simp
qed

lemma mp_divmod_correct:
  assumes d: "mp_val d \<noteq> 0" and n: "n \<noteq> []" and len: "length n + length d < 2 ^ 58"
  shows "\<exists>q r. mp_divmod n d = Some (q, r) \<and> length q = length n \<and> length r = length d \<and>
    mp_val q = mp_val n div mp_val d \<and> mp_val r = mp_val n mod mp_val d"
proof -
  have d0: "0 < mp_val d" using d mp_val_nonneg [of d] by linarith
  have d1: "d \<noteq> []" using d by auto
  obtain k where k: "div_log2_R (length n) (length d) = 64 * k + 191"
    "64 * (length n + length d) + 3 \<le> 64 * k + 191" "length n + length d \<le> k + 2" "k \<le> length n + length d"
    by (rule div_log2_R_val)
  define L where "L = 64 * k + 191"
  define R :: int where "R = 2 ^ L"
  have "2 ^ 3 * mp_base (length n + length d) \<le> R"
    unfolding R_def power_add [symmetric] L_def using k(2) by (intro power_increasing) simp_all
  then have R: "8 * (mp_base (length n) * mp_base (length d)) \<le> R" unfolding mp_base_add by simp
  have b: "1 \<le> mp_base (length n)" "1 \<le> mp_base (length d)" by simp_all
  have n0: "0 \<le> mp_val n" "mp_val n < mp_base (length n)" by (simp_all add: mp_val_less mp_val_nonneg)
  have dl: "mp_val d < mp_base (length d)" by (rule mp_val_less)
  have "mp_val n * mp_val d \<le> mp_base (length n) * mp_base (length d)" using n0 d0 dl by (intro mult_mono) simp_all
  moreover have "0 \<le> mp_base (length n) * mp_base (length d)" by simp
  ultimately have R1: "4 * (mp_val n * mp_val d) \<le> R" using R by linarith
  have "1 * mp_val d \<le> mp_base (length n) * mp_base (length d)" using d0 dl b by (intro mult_mono) simp_all
  then have R2: "4 * mp_val d \<le> R" using R d0 by linarith
  have "length d \<le> k + 1" "k < 2 ^ 60" using k(3,4) n len by (cases n; simp)+
  then obtain r0 where r0: "div_start d L (k + 4) = Some r0" "length r0 = k + 4"
    "2 ^ 20 * \<bar>mp_val d * mp_val r0 - R\<bar> \<le> R"
    using div_start_val [OF d L_def] by (auto simp: R_def)
  have two_R_less: "2 * R < mp_base (k + 4)"
    by (simp add: R_def L_def power_increasing flip: power_Suc)
  define top_word where "top_word = (push_bit ((L + 1) mod 64) 1 :: BignumInt)"
  define two_R where "two_R = mp_add_integer_into_shifted_by_words (k + 4) (replicate (k + 4) 0) top_word ((L + 1) div 64)"
  have two_R: "length two_R = k + 4" "mp_val two_R = 2 * R"
  proof -
    have w: "(L + 1) div 64 = k + 3" "(L + 1) mod 64 = 0" by (simp_all add: L_def)
    have z: "mp_val (replicate (k + 4) 0) = 0" by (simp add: mp_simps)
    have "2 * R = mp_base (k + 3)" by (simp add: R_def L_def flip: power_Suc)
    moreover have "mp_val two_R = mp_base (k + 3) mod mp_base (k + 4)"
      using \<open>k < 2 ^ 60\<close> unfolding two_R_def top_word_def w by (simp add: mp_add_shifted_val z)
    ultimately show "mp_val two_R = 2 * R" using two_R_less by (simp add: R_def)
    show "length two_R = k + 4" using \<open>k < 2 ^ 60\<close> unfolding two_R_def w by (simp add: mp_add_shifted_val)
  qed
  define dn where "dn = k + 4 + length d"
  define pn where "pn = k + 4 + max (k + 4) dn"
  define sc where "sc = max (mp_mul_scratchspace dn (k + 4) (length d)) (mp_mul_scratchspace pn (k + 4) (max (k + 4) dn))"
  define P where "P g r \<longleftrightarrow> length r = k + 4 \<and> recip_within g R (mp_val d) (mp_val r)" for g r
  define Q where "Q r \<longleftrightarrow> mp_val d * mp_val r \<le> R" for r
  obtain r g where r: "newton_loop (newton_step d two_R L dn pn sc) 20 (64 * length n + 4) r0 = Some r"
    "64 * length n + 4 \<le> g" "P g r" "Q r"
  proof (rule exE [OF newton_loop_val [of P "newton_step d two_R L dn pn sc" Q 20 r0 "64 * length n + 4"]])
    fix g r
    assume "2 \<le> g" "P g r"
    then show "\<exists>r'. newton_step d two_R L dn pn sc r = Some r' \<and> P (g * 2 - 1) r' \<and> Q r'"
      using newton_step_val [OF d _ two_R(1) d1 L_def R_def two_R(2) _ _ R2, of r g sc]
      by (auto simp: P_def Q_def dn_def pn_def sc_def)
  next
    have "1 \<le> length n" using n by (cases n) simp_all
    then show "Q r0 \<or> 20 < 64 * length n + 4" by simp
  next
    have "0 \<le> R" by (simp add: R_def)
    moreover have "\<bar>mp_val d * mp_val r0 - R\<bar> \<le> R" using r0(3) by (rule order_trans [rotated]) simp
    ultimately have "mp_val d * mp_val r0 \<le> 2 * R" by linarith
    then show "P 20 r0" using r0(2,3) by (simp add: P_def recip_within_def mp_val_nonneg)
  qed auto
  have r_len: "length r = k + 4" and rw: "recip_within g R (mp_val d) (mp_val r)" using r(3) by (simp_all add: P_def)
  have "16 * mp_base (length n) = 2 ^ (64 * length n + 4)" by (simp add: power_add)
  also have "\<dots> \<le> 2 ^ g" using r(2) by (intro power_increasing) simp_all
  finally have "16 * mp_val n \<le> 2 ^ g" using n0 by linarith
  note rq = recip_quotient [OF d0 n0(1) this R1 rw r(4) [unfolded Q_def]]
  obtain qf where qf: "mp_mul r n = Some qf" "mp_val qf = mp_val r * mp_val n"
    using mp_mul_correct [of r n] r_len n by (cases r) auto
  define q where "q = mp_rshift_fixed_into (length n) (mp_make_alias qf (L div 64) (length qf)) (L mod 64)"
  define v where "v = mp_val r * mp_val n div R"
  have v: "0 \<le> v" "0 \<le> mp_val n - v * mp_val d" "mp_val n - v * mp_val d \<le> mp_val d" using rq by (simp_all add: v_def)
  have "v \<le> v * mp_val d" using mult_left_mono [of 1 "mp_val d" v] v d0 by simp
  then have vn: "v < mp_base (length n)" using v n0 by linarith
  have "mp_val q = mp_val qf div mp_base (L div 64) div 2 ^ (L mod 64) mod mp_base (length n)"
    by (simp add: q_def mp_simps alias_rest)
  also have "mp_val qf div mp_base (L div 64) div 2 ^ (L mod 64) = v"
    by (simp add: zdiv_zmult2_eq [symmetric] R_def v_def qf flip: power_add)
  also have "v mod mp_base (length n) = v" using v vn by (intro mod_pos_pos_trivial)
  finally have q: "mp_val q = v" "length q = length n" by (simp_all add: q_def mp_simps)
  obtain m where m: "mp_mul_into (length d) q d = Some m" "mp_val m = v * mp_val d mod mp_base (length d)"
    using mp_mul_into_correct [of "length d" q d] d1 q by (auto simp: less_max_iff_disj)
  define rem where "rem = mp_sub_into (length d) n m"
  have "mp_val rem = (mp_val n - v * mp_val d) mod mp_base (length d)"
    by (simp add: rem_def mp_simps m mod_diff_right_eq)
  then have rem: "mp_val rem = mp_val n - v * mp_val d" "length rem = length d"
    using v dl by (simp_all add: mod_pos_pos_trivial) (simp add: rem_def mp_simps)
  define p where "p \<longleftrightarrow> mp_val rem = mp_val d"
  obtain rem' where rem': "div_correct 2 d rem 0 = (rem', of_bool p)" "length rem' = length d"
    "mp_val rem' = (if p then 0 else mp_val rem)"
    using div_correct_val [OF d0, of rem] rem v by (auto simp: p_def)
  define q' where "q' = mp_add_integer_into (length n) q (of_bool p)"
  have div: "mp_val n div mp_val d = v + of_bool p" "mp_val n mod mp_val d = mp_val rem'"
  proof -
    have "mp_val n = (v + of_bool p) * mp_val d + mp_val rem'" "0 \<le> mp_val rem'" "mp_val rem' < mp_val d"
      using rem v d0 by (cases p; simp add: rem' p_def algebra_simps)+
    then show "mp_val n div mp_val d = v + of_bool p" "mp_val n mod mp_val d = mp_val rem'"
      by (simp_all add: int_div_pos_eq int_mod_pos_eq)
  qed
  have q': "mp_val q' = v + of_bool p" "length q' = length n"
  proof -
    have "v + of_bool p \<le> (v + of_bool p) * mp_val d" using mult_left_mono [of 1 "mp_val d" "v + of_bool p"] v d0 by simp
    also have "\<dots> = mp_val n - mp_val n mod mp_val d" unfolding div(1) [symmetric] by (rule minus_mod_eq_div_mult [symmetric])
    also have "\<dots> \<le> mp_val n" using d0 by simp
    finally have "v + of_bool p < mp_base (length n)" using n0 by linarith
    then show "mp_val q' = v + of_bool p" using v(1) by (cases p) (simp_all add: q'_def mp_simps q mod_pos_pos_trivial)
  qed (simp add: q'_def mp_simps)
  have hs: "mp_cmp_hs rem' d = 0" using v rem d0 by (cases p) (simp_all add: mp_cmp_hs rem' p_def)
  have rw_eq: "(L + 2 + 64 - 1) div 64 = k + 4" by (simp add: L_def)
  have two_R_alloc: "mp_make_sized (k + 4) = Some (replicate (k + 4) 0)" by (simp add: mp_make_sized_def)
  have eq0: "mp_eq_integer d 0 = 0" using d by (simp add: mp_eq_integer_val)
  have "ucast (of_bool p :: uint32) = (of_bool p :: uint64)" by (cases p) simp_all
  then have "mp_divmod n d = Some (q', rem')"
    using eq0 r0(1) two_R_alloc r(1) qf(1) m(1) rem'(1) hs
    by (simp only: mp_divmod_def Let_def k(1) L_def [symmetric] rw_eq dn_def [symmetric] pn_def [symmetric] sc_def [symmetric]
        top_word_def [symmetric] two_R_def [symmetric] bind.bind_lunit)
      (simp add: q_def rem_def q'_def)
  then show ?thesis using q' rem' div by simp
qed

end
