(* ===== verification/Mp_Modular.thy ===== *)
theory Mp_Modular
  imports Mp_Div
begin

text \<open>
  Arithmetic modulo a number: the routines built directly on the division, and the inverse modulo
  a power of two by doubling the number of bits.
\<close>

unbundle bit_operations_syntax

section \<open>The code\<close>

definition mp_modmul :: "mp_int \<Rightarrow> mp_int \<Rightarrow> mp_int \<Rightarrow> mp_int option" where
  "mp_modmul x y modulus = do { product \<leftarrow> mp_mul x y; mp_mod product modulus }"

definition mp_modadd :: "mp_int \<Rightarrow> mp_int \<Rightarrow> mp_int \<Rightarrow> mp_int option" where
  "mp_modadd x y modulus = mp_mod (mp_add x y) modulus"

definition mp_modsub :: "mp_int \<Rightarrow> mp_int \<Rightarrow> mp_int \<Rightarrow> mp_int option" where
  "mp_modsub x y modulus = do {
     diff \<leftarrow> mp_make_sized (max (length x) (length y));
     let diff = mp_sub_into (length diff) x y;
     let negate = mp_cmp_hs y x;
     let diff = mp_cond_negate (length diff) diff negate;
     residue \<leftarrow> mp_mod diff modulus;
     let residue = mp_cond_negate (length residue) residue negate;
     let make_positive = negate AND NOT (mp_eq_integer residue 0);
     Some (mp_cond_add_into (length residue) residue modulus make_positive) }"

definition mp_modadd_in_range :: "mp_int \<Rightarrow> mp_int \<Rightarrow> mp_int \<Rightarrow> mp_int option" where
  "mp_modadd_in_range x y modulus = do {
     sum \<leftarrow> mp_make_sized (length modulus);
     let (sum, carry) = mp_add_into_internal (length sum) x y;
     Some (mp_cond_sub_into (length sum) sum modulus (ucast carry OR mp_cmp_hs sum modulus)) }"

definition mp_modsub_in_range :: "mp_int \<Rightarrow> mp_int \<Rightarrow> mp_int \<Rightarrow> mp_int option" where
  "mp_modsub_in_range x y modulus = do {
     diff \<leftarrow> mp_make_sized (length modulus);
     let diff = mp_sub_into (length diff) x y;
     Some (mp_cond_add_into (length diff) diff modulus (1 XOR mp_cmp_hs x y)) }"

text \<open>
  One round of the inversion: \<open>r\<close> holds the inverse modulo \<open>2 ^ b\<close> and is extended to the inverse
  modulo \<open>2 ^ (2 * b)\<close>. Words of \<open>Kshift\<close> and \<open>K\<close> are reused as in the code.
\<close>

definition invert_step :: "mp_int \<Rightarrow> nat \<Rightarrow> nat \<Rightarrow> mp_int \<Rightarrow> nat \<Rightarrow> mp_int option" where
  "invert_step x scratch_per_iter mul_scratch r b =
     (let Bw = (b + BIGNUM_INT_BITS - 1) div BIGNUM_INT_BITS;
          B2w = (2 * b + BIGNUM_INT_BITS - 1) div BIGNUM_INT_BITS
      in do {
        scratch \<leftarrow> mp_alloc_from_scratch scratch_per_iter Bw;
        let x0 = mp_reduce_mod_2to (mp_copy_into Bw x) b;
        let r0 = mp_make_alias r 0 Bw;
        scratch \<leftarrow> mp_alloc_from_scratch scratch B2w;
        Kshift \<leftarrow> mp_mul_internal B2w x0 r0 mul_scratch;
        scratch \<leftarrow> mp_alloc_from_scratch scratch Bw;
        let K = mp_rshift_fixed_into Bw Kshift b;
        scratch \<leftarrow> mp_alloc_from_scratch scratch Bw;
        let x1 = mp_reduce_mod_2to (mp_rshift_fixed_into Bw x b) b;
        r0x1 \<leftarrow> mp_mul_internal (length (mp_make_alias Kshift 0 Bw)) r0 x1 mul_scratch;
        let r0x1 = mp_add_into (length r0x1) r0x1 K;
        let r0x1 = mp_neg_into (length r0x1) r0x1;
        scratch \<leftarrow> mp_alloc_from_scratch scratch Bw;
        r1 \<leftarrow> mp_mul_internal Bw r0 r0x1 mul_scratch;
        let r1 = mp_reduce_mod_2to r1 b;
        let K = mp_lshift_fixed_into (length K) r1 (b mod BIGNUM_INT_BITS);
        let Bpos = b div BIGNUM_INT_BITS;
        let r1_position = mp_make_alias r Bpos (B2w - Bpos);
        let r1_position = mp_add_into (length r1_position) r1_position K;
        Some (take Bpos r @ r1_position @ drop (Bpos + length r1_position) r)
      })"

function invert_loop :: "(mp_int \<Rightarrow> nat \<Rightarrow> mp_int option) \<Rightarrow> nat \<Rightarrow> mp_int \<Rightarrow> nat \<Rightarrow> mp_int option" where
  "invert_loop step p r b =
     (if b = 0 then None
      else if b < p then do { r \<leftarrow> step r b; invert_loop step p r (push_bit 1 b) }
      else Some r)"
  by pat_completeness auto
termination
  by (relation "measure (\<lambda>(step, p, r, b). p - b)") (auto simp: push_bit_eq_mult)

declare invert_loop.simps [simp del]

definition mp_invert_mod_2to :: "mp_int \<Rightarrow> nat \<Rightarrow> mp_int option" where
  "mp_invert_mod_2to x p =
     (if x = [] \<or> hd x AND 1 = 0 \<or> p = 0 then None
      else
        let rw = (p + BIGNUM_INT_BITS - 1) div BIGNUM_INT_BITS; rw = max rw 1 in do {
          r \<leftarrow> mp_make_sized rw;
          let mul_scratchsize = mp_mul_scratchspace (2 * rw) rw rw;
          scratch_orig \<leftarrow> mp_make_sized (6 * rw + mul_scratchsize);
          scratch_per_iter \<leftarrow> mp_alloc_from_scratch (length scratch_orig) mul_scratchsize;
          let r = r[0 := 1];
          r \<leftarrow> invert_loop (invert_step x scratch_per_iter mul_scratchsize) p r 1;
          Some (mp_reduce_mod_2to r p)
        })"

section \<open>Reduction by division\<close>

lemma mp_copy_into_same: "length x = n \<Longrightarrow> mp_copy_into n x = x"
  by (simp add: mp_copy_into_def)

lemma mp_val_less_base: "length x \<le> n \<Longrightarrow> mp_val x < mp_base n"
  by (rule less_le_trans [OF mp_val_less]) (rule power_increasing, simp_all)

lemma mp_mod_correct:
  assumes "mp_val d \<noteq> 0" "n \<noteq> []" "length n + length d < 2 ^ 58"
  shows "\<exists>r. mp_mod n d = Some r \<and> length r = length d \<and> mp_val r = mp_val n mod mp_val d"
proof -
  obtain q r where "mp_divmod n d = Some (q, r)" "length r = length d" "mp_val r = mp_val n mod mp_val d"
    using mp_divmod_correct [OF assms] by blast
  moreover have "d \<noteq> []" using assms(1) by auto
  ultimately show ?thesis
    by (simp add: mp_mod_def mp_divmod_into_def mp_make_sized_def mp_copy_into_same)
qed

lemma mp_div_correct:
  assumes "mp_val d \<noteq> 0" "n \<noteq> []" "length n + length d < 2 ^ 58"
  shows "\<exists>q. mp_div n d = Some q \<and> length q = length n \<and> mp_val q = mp_val n div mp_val d"
proof -
  obtain q r where "mp_divmod n d = Some (q, r)" "length q = length n" "mp_val q = mp_val n div mp_val d"
    using mp_divmod_correct [OF assms] by blast
  then show ?thesis
    using assms(2) by (simp add: mp_div_def mp_divmod_into_def mp_make_sized_def mp_copy_into_same)
qed

lemma mp_modmul_correct:
  assumes "mp_val m \<noteq> 0" "x \<noteq> []" "y \<noteq> []" "length x + length y + length m < 2 ^ 58"
  shows "\<exists>r. mp_modmul x y m = Some r \<and> length r = length m \<and> mp_val r = mp_val x * mp_val y mod mp_val m"
proof -
  obtain p where p: "mp_mul x y = Some p" "length p = length x + length y" "mp_val p = mp_val x * mp_val y"
    using mp_mul_correct [OF assms(2,3)] by blast
  then have "p \<noteq> []" using assms(2) by (cases p) auto
  then show ?thesis using mp_mod_correct [OF assms(1), of p] p assms(4) by (auto simp: mp_modmul_def)
qed

lemma mp_modadd_correct:
  assumes "mp_val m \<noteq> 0" "max (length x) (length y) + 1 + length m < 2 ^ 58"
  shows "\<exists>r. mp_modadd x y m = Some r \<and> length r = length m \<and> mp_val r = (mp_val x + mp_val y) mod mp_val m"
proof -
  have "length (mp_add x y) = max (length x) (length y) + 1" by (simp add: mp_add_val)
  then have "mp_add x y \<noteq> []" by (cases "mp_add x y") auto
  then show ?thesis using mp_mod_correct [OF assms(1), of "mp_add x y"] assms(2) by (simp add: mp_modadd_def mp_add_val)
qed


lemma mp_cond_negate_val [mp_simps]:
  "length (mp_cond_negate rw x (of_bool p)) = rw"
  "mp_val (mp_cond_negate rw x (of_bool p)) = (if p then - mp_val x else mp_val x) mod mp_base rw"
proof -
  let ?f = "\<lambda>i. mp_word x i XOR - of_bool p"
  have u: "ucast (of_bool p :: uint32) = (of_bool p :: BignumInt)" by (cases p) simp_all
  have z: "mp_val (map (\<lambda>i. 0) [0..<rw]) = 0" by (induction rw) (simp_all add: mp_val_append)
  have c: "mp_cond_negate rw x (of_bool p) = fst (adc_loop (\<lambda>i. 0) ?f 0 rw (of_bool p))"
    by (simp add: mp_cond_negate_def u Let_def)
  have le: "of_bool p \<le> (1 :: BignumInt)" by (cases p) simp_all
  show "length (mp_cond_negate rw x (of_bool p)) = rw" unfolding c by (simp add: adc_loop_fst [OF le])
  have m: "mp_val (map (mp_word x) [0..<rw]) = mp_val x mod mp_base rw" by (simp add: mp_val_words)
  have "mp_val (map ?f [0..<rw]) + uint (of_bool p :: BignumInt) = (if p then mp_base rw - mp_val x mod mp_base rw else mp_val x mod mp_base rw)"
    using mp_val_map_not [of "mp_word x" rw] by (cases p) (simp_all add: m)
  then show "mp_val (mp_cond_negate rw x (of_bool p)) = (if p then - mp_val x else mp_val x) mod mp_base rw"
    unfolding c by (simp add: adc_loop_fst [OF le] z mod_minus_eq)
qed

lemma mp_modsub_correct:
  assumes m: "mp_val m \<noteq> 0" and len: "x \<noteq> []" "max (length x) (length y) + length m < 2 ^ 58"
  shows "\<exists>r. mp_modsub x y m = Some r \<and> length r = length m \<and> mp_val r = (mp_val x - mp_val y) mod mp_val m"
proof -
  define n where "n = max (length x) (length y)"
  define p where "p \<longleftrightarrow> mp_val x \<le> mp_val y"
  have m0: "0 < mp_val m" using m mp_val_nonneg [of m] by linarith
  have b: "mp_val x < mp_base n" "mp_val y < mp_base n" "mp_val m < mp_base (length m)"
    by (simp_all add: n_def mp_val_less_base del: power_mult)
  define d where "d = mp_cond_negate n (mp_sub_into n x y) (of_bool p)"
  define a where "a = \<bar>mp_val x - mp_val y\<bar>"
  have a: "0 \<le> a" "a < mp_base n" unfolding a_def using b mp_val_nonneg [of x] mp_val_nonneg [of y] by linarith+
  have "mp_val d = (if p then mp_val y - mp_val x else mp_val x - mp_val y) mod mp_base n"
    by (simp add: d_def mp_simps mod_minus_eq)
  also have "\<dots> = a mod mp_base n" by (simp add: p_def a_def)
  finally have d: "mp_val d = a" "length d = n" using a by (simp_all add: mod_pos_pos_trivial) (simp add: d_def mp_simps)
  have "d \<noteq> []" using len(1) d by (auto simp: n_def)
  then obtain r where r: "mp_mod d m = Some r" "length r = length m" "mp_val r = a mod mp_val m"
    using mp_mod_correct [OF m, of d] d len by (auto simp: n_def)
  define r2 where "r2 = mp_cond_negate (length m) r (of_bool p)"
  define z where "z \<longleftrightarrow> a mod mp_val m = 0"
  have rb: "0 \<le> a mod mp_val m" "a mod mp_val m < mp_base (length m)" using m0 b(3) pos_mod_bound [OF m0, of a] pos_mod_sign [OF m0, of a] by linarith+
  have r2: "mp_val r2 = (if p then - (a mod mp_val m) else a mod mp_val m) mod mp_base (length m)" "length r2 = length m"
    by (simp_all add: r2_def mp_simps r)
  have "mp_val r2 = 0 \<longleftrightarrow> z"
    using rb by (auto simp: r2 z_def mod_pos_pos_trivial zmod_zminus1_eq_if)
  then have z: "mp_eq_integer r2 0 = of_bool z" by (simp add: mp_eq_integer_val)
  have pz: "of_bool p AND NOT (of_bool z) = (of_bool (p \<and> \<not> z) :: uint32)" by (cases p; cases z) simp_all
  define r3 where "r3 = mp_cond_add_into (length m) r2 m (of_bool (p \<and> \<not> z))"
  have "mp_val r3 = (if p \<and> \<not> z then mp_val m - a mod mp_val m else a mod mp_val m) mod mp_base (length m)"
    by (cases p; cases z) (simp_all add: r3_def mp_cond_add_into [of _ _ _ "True", simplified] mp_cond_add_into [of _ _ _ "False", simplified] r2 z_def mod_simps)
  also have "\<dots> = (if p \<and> \<not> z then mp_val m - a mod mp_val m else a mod mp_val m)"
  proof (rule mod_pos_pos_trivial)
    obtain t where t: "a mod mp_val m = t" "0 \<le> t" "t < mp_val m" using m0 by simp
    show "0 \<le> (if p \<and> \<not> z then mp_val m - a mod mp_val m else a mod mp_val m)"
      "(if p \<and> \<not> z then mp_val m - a mod mp_val m else a mod mp_val m) < mp_base (length m)"
      unfolding t(1) z_def using t(2,3) b(3) by simp_all
  qed
  also have "\<dots> = (mp_val x - mp_val y) mod mp_val m"
  proof (cases p)
    case True
    then have "mp_val x - mp_val y = - a" by (simp add: p_def a_def)
    then show ?thesis using True m0 by (simp add: z_def zmod_zminus1_eq_if)
  next
    case False
    then have "mp_val x - mp_val y = a" by (simp add: p_def a_def)
    then show ?thesis using False by simp
  qed
  finally have r3: "mp_val r3 = (mp_val x - mp_val y) mod mp_val m" "length r3 = length m" by (simp_all add: r3_def mp_simps)
  have "mp_make_sized n = Some (replicate n 0)" using len(1) by (auto simp: mp_make_sized_def n_def)
  then have "mp_modsub x y m = Some r3"
    by (simp only: mp_modsub_def Let_def n_def [symmetric] bind.bind_lunit length_replicate mp_sub_into
        mp_cmp_hs [of y x] p_def [symmetric] d_def [symmetric] r(1,2) r2_def [symmetric] r2(2) z pz r3_def [symmetric])
  then show ?thesis using r3 by simp
qed


lemma reduce_once:
  fixes v m B :: int
  assumes "m < B"
  shows "\<lbrakk>0 \<le> v; v < 2 * m\<rbrakk> \<Longrightarrow> (v - (if m \<le> v then m else 0)) mod B = v mod m"
    "\<lbrakk>- m \<le> v; v < m\<rbrakk> \<Longrightarrow> (v + (if v < 0 then m else 0)) mod B = v mod m"
proof -
  assume v: "0 \<le> v" "v < 2 * m"
  show "(v - (if m \<le> v then m else 0)) mod B = v mod m"
  proof (cases "m \<le> v")
    case True
    then have "v mod m = v - m" using v mod_pos_pos_trivial [of "v - m" m] by simp
    then show ?thesis using True v assms by (simp add: mod_pos_pos_trivial)
  qed (use v assms in \<open>simp add: mod_pos_pos_trivial\<close>)
next
  assume v: "- m \<le> v" "v < m"
  show "(v + (if v < 0 then m else 0)) mod B = v mod m"
  proof (cases "v < 0")
    case True
    then have "v mod m = v + m" using v mod_pos_pos_trivial [of "v + m" m] by simp
    then show ?thesis using True v assms by (simp add: mod_pos_pos_trivial)
  qed (use v assms in \<open>simp add: mod_pos_pos_trivial\<close>)
qed

lemma mp_modadd_in_range_correct:
  assumes "m \<noteq> []" "mp_val x < mp_val m" "mp_val y < mp_val m"
  shows "\<exists>r. mp_modadd_in_range x y m = Some r \<and> length r = length m \<and> mp_val r = (mp_val x + mp_val y) mod mp_val m"
proof -
  define n where "n = length m"
  define c where "c \<longleftrightarrow> mp_base n \<le> mp_val x + mp_val y"
  have b: "mp_val m < mp_base n" "0 \<le> mp_val x" "0 \<le> mp_val y" by (simp_all add: n_def mp_val_less mp_val_nonneg)
  define s where "s = mp_add_into n x y"
  have s_len: "length s = n" by (simp add: s_def mp_simps)
  have alloc: "mp_make_sized n = Some (replicate n 0)" using assms(1) by (cases m) (simp_all add: mp_make_sized_def n_def)
  have s: "mp_val s = mp_val x + mp_val y - (if c then mp_base n else 0)"
  proof -
    have "mp_val s = (mp_val x + mp_val y - (if c then mp_base n else 0)) mod mp_base n" by (simp add: s_def mp_simps)
    also have "\<dots> = mp_val x + mp_val y - (if c then mp_base n else 0)"
      using b assms(2,3) by (intro mod_pos_pos_trivial) (auto simp: c_def)
    finally show ?thesis .
  qed
  define p where "p \<longleftrightarrow> mp_val m \<le> mp_val x + mp_val y"
  have small: "mp_val x mod mp_base n = mp_val x" "mp_val y mod mp_base n = mp_val y"
    using b assms(2,3) by (simp_all add: mod_pos_pos_trivial)
  have pc: "c \<or> mp_val m \<le> mp_val s \<longleftrightarrow> p" using b assms(2,3) by (auto simp: s p_def c_def)
  have flag: "ucast (of_bool c :: BignumInt) OR mp_cmp_hs s m = (of_bool p :: uint32)"
    unfolding mp_cmp_hs pc [symmetric] by (cases c; cases "mp_val m \<le> mp_val s") simp_all
  define r where "r = mp_cond_sub_into n s m (of_bool p)"
  have e: "v - (if c then B else 0) - w = v - w - (if c then B else 0)" for v w B :: int by simp
  have "mp_val r = (mp_val x + mp_val y - (if p then mp_val m else 0)) mod mp_base n"
    unfolding r_def mp_cond_sub_into s e by (cases c) simp_all
  also have "\<dots> = (mp_val x + mp_val y) mod mp_val m"
    unfolding p_def using b assms(2,3) by (intro reduce_once) linarith+
  finally have "mp_val r = (mp_val x + mp_val y) mod mp_val m" "length r = n" by (simp_all add: r_def mp_simps)
  moreover have "mp_modadd_in_range x y m = Some r"
    by (simp only: mp_modadd_in_range_def n_def [symmetric] alloc bind.bind_lunit length_replicate mp_add_into_internal
        small c_def [symmetric] s_def [symmetric] prod.case Let_def s_len flag r_def [symmetric])
  ultimately show ?thesis by (simp add: n_def)
qed

lemma mp_modsub_in_range_correct:
  assumes "m \<noteq> []" "mp_val x < mp_val m" "mp_val y < mp_val m"
  shows "\<exists>r. mp_modsub_in_range x y m = Some r \<and> length r = length m \<and> mp_val r = (mp_val x - mp_val y) mod mp_val m"
proof -
  define n where "n = length m"
  define p where "p \<longleftrightarrow> \<not> mp_val y \<le> mp_val x"
  have b: "mp_val m < mp_base n" "0 \<le> mp_val x" "0 \<le> mp_val y" by (simp_all add: n_def mp_val_less mp_val_nonneg)
  define d where "d = mp_sub_into n x y"
  have d_len: "length d = n" by (simp add: d_def mp_simps)
  have alloc: "mp_make_sized n = Some (replicate n 0)" using assms(1) by (cases m) (simp_all add: mp_make_sized_def n_def)
  have flag: "1 XOR mp_cmp_hs x y = (of_bool p :: uint32)" unfolding mp_cmp_hs p_def by simp
  define r where "r = mp_cond_add_into n d m (of_bool p)"
  have "mp_val r = (mp_val x - mp_val y + (if p then mp_val m else 0)) mod mp_base n"
    unfolding r_def mp_cond_add_into d_def mp_sub_into by (simp add: mod_add_left_eq)
  also have "\<dots> = (mp_val x - mp_val y + (if mp_val x - mp_val y < 0 then mp_val m else 0)) mod mp_base n"
    by (simp add: p_def)
  also have "\<dots> = (mp_val x - mp_val y) mod mp_val m"
    using b assms(2,3) by (intro reduce_once) linarith+
  finally have "mp_val r = (mp_val x - mp_val y) mod mp_val m" "length r = n" by (simp_all add: r_def mp_simps)
  moreover have "mp_modsub_in_range x y m = Some r"
    by (simp only: mp_modsub_in_range_def n_def [symmetric] alloc bind.bind_lunit length_replicate Let_def d_def [symmetric]
        d_len flag r_def [symmetric])
  ultimately show ?thesis by (simp add: n_def)
qed


section \<open>Inversion modulo a power of two\<close>

text \<open>The arithmetic of one round: from the inverse modulo \<open>B\<close> to the inverse modulo \<open>B * B\<close>.\<close>

lemma invert_lift:
  fixes x r B W :: int
  assumes B: "1 < B" and W: "B dvd W" and r: "0 \<le> r" "r < B" "x * r mod B = 1"
  defines "K \<equiv> x mod B * r div B" and "x1 \<equiv> x div B mod B"
  defines "r1 \<equiv> r * (- ((r * x1 mod W + K) mod W) mod W) mod W mod B"
  shows "0 \<le> r + r1 * B" "r + r1 * B < B * B" "x * (r + r1 * B) mod (B * B) = 1"
proof -
  have r1: "r1 = r * (- (r * x1 + K)) mod B"
  proof -
    note c = mod_mod_cancel [OF W]
    define S where "S = (r * x1 mod W + K) mod W"
    have "S mod B = (r * x1 mod W + K) mod B" unfolding S_def by (rule c)
    also have "\<dots> = (r * x1 mod W mod B + K) mod B" by (rule mod_add_left_eq [symmetric])
    also have "\<dots> = (r * x1 + K) mod B" unfolding c by (rule mod_add_left_eq)
    finally have S: "S mod B = (r * x1 + K) mod B" .
    have "- S mod W mod B = - S mod B" by (rule c)
    also have "\<dots> = - (S mod B) mod B" by (rule mod_minus_eq [symmetric])
    also have "\<dots> = - (r * x1 + K) mod B" unfolding S by (rule mod_minus_eq)
    finally have n: "- S mod W mod B = - (r * x1 + K) mod B" .
    have "r1 = r * (- S mod W) mod B" unfolding r1_def S_def [symmetric] by (rule c)
    also have "\<dots> = r * (- S mod W mod B) mod B" by (rule mod_mult_right_eq [symmetric])
    also have "\<dots> = r * (- (r * x1 + K)) mod B" unfolding n by (rule mod_mult_right_eq)
    finally show ?thesis .
  qed
  have r1_less: "0 \<le> r1" "r1 \<le> B - 1" using B pos_mod_bound [of B "r * (- (r * x1 + K))"] by (auto simp: r1)
  then show "0 \<le> r + r1 * B" using r B by simp
  have "r1 * B \<le> (B - 1) * B" using r1_less B by (intro mult_right_mono) simp_all
  then show "r + r1 * B < B * B" using r(2) by (simp add: left_diff_distrib)
  have "x mod B * r mod B = 1" using r(3) by (simp add: mod_mult_left_eq)
  then have K: "x mod B * r = K * B + 1" unfolding K_def using div_mult_mod_eq [of "x mod B * r" B] by simp
  define t where "t = r * (- (r * x1 + K)) div B"
  have t: "r1 = r * (- (r * x1 + K)) - t * B" unfolding r1 t_def by (rule minus_div_mult_eq_mod [symmetric])
  define x0 x2 where "x0 = x mod B" and "x2 = x div B div B"
  have K0: "x0 * r = K * B + 1" using K by (simp add: x0_def)
  have "x div B = x2 * B + x1" unfolding x1_def x2_def by (rule div_mult_mod_eq [symmetric])
  moreover have "x = x div B * B + x0" unfolding x0_def by (rule div_mult_mod_eq [symmetric])
  ultimately have x: "x = (x2 * B + x1) * B + x0" by simp
  have "x * (r + r1 * B) - 1 = (B * B) * (x2 * (r + r1 * B) + x1 * r1 - K * (r * x1 + K) - x0 * t)"
    using K0 unfolding x t by algebra
  then have "B * B dvd x * (r + r1 * B) - 1" by simp
  then have "x * (r + r1 * B) mod (B * B) = 1 mod (B * B)" by (simp add: mod_eq_dvd_iff)
  also have "\<dots> = 1" using B less_1_mult [OF B B] by simp
  finally show "x * (r + r1 * B) mod (B * B) = 1" .
qed


lemma words_for_bits:
  fixes b :: nat
  shows "b \<le> 64 * ((b + 63) div 64)" "(2 * b + 63) div 64 \<le> 2 * ((b + 63) div 64)" "b \<le> c \<Longrightarrow> (b + 63) div 64 \<le> (c + 63) div 64"
proof -
  have "64 * ((b + 63) div 64) + (b + 63) mod 64 = b + 63" "(b + 63) mod 64 < 64" by (rule mult_div_mod_eq) simp
  moreover obtain q where q: "(b + 63) div 64 = q" by simp
  ultimately have b: "b \<le> 64 * q" by linarith
  then show "b \<le> 64 * ((b + 63) div 64)" by (simp add: q)
  have "2 * b + 63 < (2 * q + 1) * 64" using b by simp
  then have "(2 * b + 63) div 64 < 2 * q + 1" by (rule less_mult_imp_div_less)
  then show "(2 * b + 63) div 64 \<le> 2 * ((b + 63) div 64)" by (simp add: q)
qed (simp add: div_le_mono)

lemma power_of_two_pos: "b = 2 ^ i \<Longrightarrow> b < 64 \<and> 2 * b \<le> 64 \<or> b mod 64 = 0" for b :: nat
proof (cases "6 \<le> i")
  case True
  assume "b = 2 ^ i"
  moreover have "(2 :: nat) ^ i = 64 * 2 ^ (i - 6)" using True power_add [of "2 :: nat" 6 "i - 6"] by simp
  ultimately show ?thesis by simp
next
  case False
  assume "b = 2 ^ i"
  moreover have "(2 :: nat) ^ i \<le> 2 ^ 5" using False by (intro power_increasing) simp_all
  ultimately show ?thesis by simp
qed

lemma invert_step_val:
  fixes b rw :: nat
  assumes b: "b = 2 ^ i" "b \<le> 64 * rw" and r: "length r = rw" "mp_val r < 2 ^ b" "mp_val x * mp_val r mod 2 ^ b = 1"
  shows "\<exists>r' V. invert_step x (6 * rw) (6 * rw) r b = Some r' \<and> length r' = rw \<and> mp_val r' = V mod mp_base rw \<and>
    0 \<le> V \<and> V < 2 ^ (2 * b) \<and> mp_val x * V mod 2 ^ (2 * b) = 1"
proof -
  define Bw B2w where "Bw = (b + 63) div 64" and "B2w = (2 * b + 63) div 64"
  have b1: "1 \<le> b" by (simp add: b)
  have w: "b \<le> 64 * Bw" "2 * b \<le> 64 * B2w" "Bw \<le> rw" "B2w \<le> 2 * Bw" "1 \<le> Bw" "Bw \<le> B2w"
    using words_for_bits [of b] words_for_bits(1) [of "2 * b"] words_for_bits(3) [of b "64 * rw"] words_for_bits(3) [of 1 b]
      words_for_bits(3) [of b "2 * b"] b(2) b1 by (simp_all add: Bw_def B2w_def)
  define B :: int where "B = 2 ^ b"
  define W where "W = mp_base Bw"
  have BW: "B dvd W" "B \<le> W" "B * B \<le> mp_base B2w" "0 < B" "B * B = 2 ^ (2 * b)" "1 < B"
    using w b1 by (auto simp: B_def W_def mult_2 power_add [symmetric] intro: le_imp_power_dvd power_increasing one_less_power)
  have v0: "0 \<le> mp_val x" "0 \<le> mp_val r" "mp_val r < B" by (simp_all add: mp_val_nonneg r B_def)
  define x0 where "x0 = mp_reduce_mod_2to (mp_copy_into Bw x) b"
  have x0: "mp_val x0 = mp_val x mod B" "length x0 = Bw"
    using BW(1) by (simp_all add: x0_def mp_simps mod_mod_cancel flip: B_def W_def)
  define r0 where "r0 = mp_make_alias r 0 Bw"
  have r0: "mp_val r0 = mp_val r" "length r0 = Bw"
    using v0 BW(2) w by (simp_all add: r0_def alias_val r(1) mod_pos_pos_trivial flip: W_def)
  note sc = mp_mul_internal_correct [unfolded mp_mul_scratchspace_unary_def]
  obtain Kshift where Kshift: "mp_mul_internal B2w x0 r0 (6 * rw) = Some Kshift" "length Kshift = B2w"
    "mp_val Kshift = mp_val x mod B * mp_val r mod mp_base B2w"
    using sc [of B2w x0 r0 "6 * rw"] w by (auto simp: x0 r0)
  have x0r: "0 \<le> mp_val x mod B" "mp_val x mod B < B" using BW by simp_all
  have "mp_val x mod B * mp_val r < B * B" using x0r v0 BW by (intro mult_strict_mono) simp_all
  then have Kv: "mp_val Kshift = mp_val x mod B * mp_val r" unfolding Kshift using x0r v0 BW(3) by (intro mod_pos_pos_trivial mult_nonneg_nonneg) linarith+
  define K where "K = mp_rshift_fixed_into Bw Kshift b"
  define kv where "kv = mp_val x mod B * mp_val r div B"
  have "kv < B" "0 \<le> kv" unfolding kv_def using \<open>mp_val x mod B * mp_val r < B * B\<close> x0r v0 BW
    by (simp_all add: int_div_less_iff pos_imp_zdiv_nonneg_iff)
  then have K: "mp_val K = kv" "length K = Bw"
    using BW(2) by (simp_all add: K_def mp_simps Kv kv_def mod_pos_pos_trivial flip: B_def W_def)
  define x1 where "x1 = mp_reduce_mod_2to (mp_rshift_fixed_into Bw x b) b"
  have x1: "mp_val x1 = mp_val x div B mod B" "length x1 = Bw"
    using BW(1) by (simp_all add: x1_def mp_simps mod_mod_cancel flip: B_def W_def)
  obtain p where p: "mp_mul_internal Bw r0 x1 (6 * rw) = Some p" "length p = Bw" "mp_val p = mp_val r * mp_val x1 mod W"
    using sc [of Bw r0 x1 "6 * rw"] w by (auto simp: x1 r0 W_def)
  define q where "q = mp_neg_into Bw (mp_add_into Bw p K)"
  have q: "mp_val q = - ((mp_val r * mp_val x1 mod W + kv) mod W) mod W" "length q = Bw"
    by (simp_all add: q_def mp_simps p K flip: W_def)
  obtain u where u: "mp_mul_internal Bw r0 q (6 * rw) = Some u" "length u = Bw" "mp_val u = mp_val r * mp_val q mod W"
    using sc [of Bw r0 q "6 * rw"] w by (auto simp: q(2) r0 W_def)
  define r1 where "r1 = mp_reduce_mod_2to u b"
  have r1: "length r1 = Bw" "mp_val r1 = mp_val r * mp_val q mod W mod B" by (simp_all add: r1_def mp_simps u B_def)
  then have r1v: "0 \<le> mp_val r1" "mp_val r1 < B" using BW by simp_all
  define K2 where "K2 = mp_lshift_fixed_into Bw r1 (b mod 64)"
  have K2: "length K2 = Bw" "mp_val K2 = mp_val r1 * 2 ^ (b mod 64)"
  proof -
    have "mp_val r1 * 2 ^ (b mod 64) < W"
      using power_of_two_pos [OF b(1)]
    proof
      assume c: "b < 64 \<and> 2 * b \<le> 64"
      have "mp_val r1 * 2 ^ b < B * B" unfolding B_def [symmetric] using r1v BW by (intro mult_strict_right_mono) simp_all
      also have "\<dots> \<le> W" unfolding BW(5) W_def using c w by (intro power_increasing) simp_all
      finally show ?thesis using c by simp
    next
      assume "b mod 64 = 0"
      then show ?thesis using r1v BW(2) by simp
    qed
    then show "mp_val K2 = mp_val r1 * 2 ^ (b mod 64)"
      using r1v by (simp add: K2_def mp_simps mod_pos_pos_trivial flip: W_def)
  qed (simp add: K2_def mp_simps)
  define V where "V = mp_val r + mp_val r1 * B"
  have V: "0 \<le> V" "V < B * B" "mp_val x * V mod (B * B) = 1"
    unfolding V_def r1(2) q(1) x1(1) kv_def by (rule invert_lift [OF BW(6,1) v0(2,3) r(3) [folded B_def]])+
  define Bpos where "Bpos = b div 64"
  define s where "s = mp_add_into (length (mp_make_alias r Bpos (B2w - Bpos))) (mp_make_alias r Bpos (B2w - Bpos)) K2"
  define r' where "r' = take Bpos r @ s @ drop (Bpos + length s) r"
  have r': "length r' = rw" "mp_val r' = V mod mp_base rw"
  proof -
    define l where "l = length s"
    have l: "l = min (B2w - Bpos) (rw - Bpos)" by (simp add: l_def s_def mp_simps r)
    have Bpos: "64 * Bpos \<le> b" "Bpos \<le> rw" "Bpos \<le> B2w" using b(2) w(2) by (auto simp: Bpos_def)
    then have Bl: "Bpos + l = min B2w rw" unfolding l min_def by (cases "B2w \<le> rw") auto
    show "length r' = rw" using Bpos l by (simp add: r'_def r flip: l_def)
    define a where "a = mp_val r div mp_base Bpos"
    have "B \<le> mp_base (Bpos + l)" unfolding Bl B_def using b(2) w(2) by (intro power_increasing) (simp_all add: min_def)
    then have r_less: "mp_val r < mp_base (Bpos + l)" using v0 by linarith
    then have drop0: "mp_val (drop (Bpos + l) r) = 0" using v0 by (simp add: mp_val_drop)
    have "a < mp_base l" using r_less unfolding mp_base_add a_def by (simp add: int_div_less_iff mult.commute)
    also have "\<dots> \<le> mp_base (B2w - Bpos)" using l by (intro power_increasing) simp_all
    finally have a: "a mod mp_base (B2w - Bpos) = a" using v0 by (simp add: a_def pos_imp_zdiv_nonneg_iff)
    have s: "mp_val s = (a + mp_val K2) mod mp_base l"
      by (simp add: s_def mp_simps l r(1) alias_val a flip: a_def)
    have "mp_val r' = mp_val r mod mp_base Bpos + mp_base Bpos * ((a + mp_val K2) mod mp_base l)"
      using Bpos(2) by (simp add: r'_def mp_val_append mp_val_take r(1) drop0 s min_absorb2 flip: l_def)
    also have "\<dots> = (mp_val r mod mp_base Bpos + mp_base Bpos * (a + mp_val K2)) mod mp_base (Bpos + l)"
      by (rule low_words_mod)
    also have "mp_val r mod mp_base Bpos + mp_base Bpos * (a + mp_val K2) = mp_val r + mp_base Bpos * mp_val K2"
      unfolding a_def distrib_left by (simp only: add.assoc [symmetric] mod_mult_div_eq)
    also have "mp_base Bpos * mp_val K2 = mp_val r1 * B"
      by (simp add: K2 B_def Bpos_def flip: power_add)
    also have "(mp_val r + mp_val r1 * B) mod mp_base (Bpos + l) = V mod mp_base rw"
    proof (cases "B2w < rw")
      case True
      have "V < mp_base B2w" using V(2) BW(3) by linarith
      moreover from this have "V < mp_base rw" by (rule less_le_trans) (rule power_increasing, use True in simp_all)
      ultimately show ?thesis using True V(1) by (simp add: Bl V_def mod_pos_pos_trivial)
    qed (simp add: Bl V_def min_absorb2)
    finally show "mp_val r' = V mod mp_base rw" .
  qed
  have "invert_step x (6 * rw) (6 * rw) r b = Some r'"
  proof -
    have e: "(b + 64 - 1) div 64 = Bw" "(2 * b + 64 - 1) div 64 = B2w" by (simp_all add: Bw_def B2w_def)
    define s1 s2 s3 s4 where "s1 = 6 * rw - Bw" and "s2 = s1 - B2w" and "s3 = s2 - Bw" and "s4 = s3 - Bw"
    have al: "mp_alloc_from_scratch (6 * rw) Bw = Some s1" "mp_alloc_from_scratch s1 B2w = Some s2"
      "mp_alloc_from_scratch s2 Bw = Some s3" "mp_alloc_from_scratch s3 Bw = Some s4" "mp_alloc_from_scratch s4 Bw = Some (s4 - Bw)"
      using w(3,4) by (simp_all add: mp_alloc_from_scratch_def s1_def s2_def s3_def s4_def)
    have len: "length (mp_make_alias Kshift 0 Bw) = Bw" using w(6) by (simp add: Kshift(2) min_absorb1)
    show ?thesis
      by (simp only: invert_step_def Let_def e al bind.bind_lunit x0_def [symmetric] r0_def [symmetric] Kshift(1) K_def [symmetric]
          x1_def [symmetric] len p(1,2) mp_add_into(1) q_def [symmetric] u(1) r1_def [symmetric] K(2) K2_def [symmetric]
          Bpos_def [symmetric] s_def r'_def)
  qed
  then show ?thesis using r' V BW(5) by (intro exI [of _ r'] exI [of _ V]) simp
qed


lemma invert_loop_val:
  assumes x: "p \<le> 64 * rw"
  shows "\<lbrakk>b = 2 ^ i; length r = rw; 0 \<le> V; V < 2 ^ b; mp_val r = V mod mp_base rw; mp_val x * V mod 2 ^ b = 1\<rbrakk> \<Longrightarrow>
    \<exists>r' V b'. invert_loop (invert_step x (6 * rw) (6 * rw)) p r b = Some r' \<and> length r' = rw \<and> p \<le> b' \<and>
      mp_val r' = V mod mp_base rw \<and> mp_val x * V mod 2 ^ b' = 1"
proof (induction "p - b" arbitrary: b i r V rule: less_induct)
  case less
  show ?case
  proof (cases "b < p")
    case True
    have "(2 :: int) ^ b \<le> mp_base rw" using True x by (intro power_increasing) simp_all
    then have "V < mp_base rw" using less.prems(4) by linarith
    then have r: "mp_val r = V" using less.prems(3,5) by (simp add: mod_pos_pos_trivial)
    have "b \<le> 64 * rw" using True x by simp
    then obtain r' V' where s: "invert_step x (6 * rw) (6 * rw) r b = Some r'" "length r' = rw" "mp_val r' = V' mod mp_base rw"
      "0 \<le> V'" "V' < 2 ^ (2 * b)" "mp_val x * V' mod 2 ^ (2 * b) = 1"
      using invert_step_val [OF less.prems(1) _ less.prems(2), of x] less.prems r by auto
    have b0: "b \<noteq> 0" using less.prems(1) by simp
    have "p - 2 * b < p - b" using True b0 by simp
    from less.hyps [OF this, of "Suc i" r' V'] s show ?thesis
      using less.prems(1) True b0 by (subst invert_loop.simps) (simp add: push_bit_eq_mult mult.commute)
  next
    case False
    then have "invert_loop (invert_step x (6 * rw) (6 * rw)) p r b = Some r"
      using less.prems(1) by (subst invert_loop.simps) simp
    then show ?thesis using less.prems False by (intro exI [of _ r] exI [of _ V] exI [of _ b]) simp
  qed
qed

lemma limb_odd: "odd (uint w) \<Longrightarrow> w AND 1 \<noteq> 0" for w :: BignumInt
proof -
  assume "odd (uint w)"
  then have "bit (uint w) 0" by (simp add: bit_0)
  then have "bit w 0" by (simp only: bit_uint_iff)
  then show ?thesis using low_bit [of 0 w] by (simp add: and.commute)
qed

lemma mp_invert_mod_2to_correct:
  assumes x: "odd (mp_val x)" and p: "0 < p"
  shows "\<exists>r. mp_invert_mod_2to x p = Some r \<and> length r = (p + 63) div 64 \<and> mp_val r < 2 ^ p \<and>
    mp_val x * mp_val r mod 2 ^ p = 1"
proof -
  define rw where "rw = (p + 63) div 64"
  have rw: "p \<le> 64 * rw" "1 \<le> rw" using words_for_bits(1) [of p] words_for_bits(3) [of 1 p] p by (simp_all add: rw_def)
  obtain w ws where xw: "x = w # ws" using x by (cases x) auto
  then have w: "odd (uint w)" using x by simp
  then have w1: "w AND 1 \<noteq> 0" by (rule limb_odd)
  define r where "r = (replicate rw 0)[0 := 1 :: BignumInt]"
  have r: "length r = rw" "mp_val r = 1" using rw(2) by (simp add: r_def, cases rw, simp_all add: r_def mp_simps)
  have x1: "mp_val x * 1 mod 2 ^ 1 = 1" using x by (simp add: odd_iff_mod_2_eq_one)
  have "1 < mp_base rw" by (intro one_less_power) (use rw(2) in simp_all)
  then have "mp_val r = 1 mod mp_base rw" using r rw(2) by simp
  then obtain r' V b where r': "invert_loop (invert_step x (6 * rw) (6 * rw)) p r 1 = Some r'" "length r' = rw" "p \<le> b"
    "mp_val r' = V mod mp_base rw" "mp_val x * V mod 2 ^ b = 1"
    using invert_loop_val [OF rw(1), of 1 0 r 1 x] r x1 by auto
  define q where "q = mp_reduce_mod_2to r' p"
  have d: "(2 :: int) ^ p dvd mp_base rw" "(2 :: int) ^ p dvd 2 ^ b" using rw(1) r'(3) by (intro le_imp_power_dvd; simp)+
  have q: "length q = rw" "mp_val q = V mod 2 ^ p" by (simp_all add: q_def mp_simps r' mod_mod_cancel d)
  have "mp_val x * mp_val q mod 2 ^ p = mp_val x * V mod 2 ^ b mod 2 ^ p" by (simp add: q mod_mult_right_eq mod_mod_cancel d)
  then have inv: "mp_val x * mp_val q mod 2 ^ p = 1" using p by (simp add: r')
  have e: "max ((p + 64 - 1) div 64) 1 = rw" using rw(2) by (simp add: rw_def max_absorb1)
  have sc: "mp_mul_scratchspace (2 * rw) rw rw = 6 * rw"
    by (simp add: mp_mul_scratchspace_def mp_mul_scratchspace_unary_def Let_def min_absorb2)
  have al: "mp_make_sized rw = Some (replicate rw 0)" "mp_make_sized (6 * rw + 6 * rw) = Some (replicate (6 * rw + 6 * rw) 0)"
    "mp_alloc_from_scratch (6 * rw + 6 * rw) (6 * rw) = Some (6 * rw)"
    using rw(2) by (simp_all add: mp_make_sized_def mp_alloc_from_scratch_def)
  have g: "\<not> (x = [] \<or> hd x AND 1 = 0 \<or> p = 0)" using xw w1 p by simp
  have "mp_invert_mod_2to x p = Some q"
    by (simp only: mp_invert_mod_2to_def Let_def g if_False e sc al bind.bind_lunit length_replicate
        r_def [symmetric] r'(1) q_def [symmetric])
  then show ?thesis using q inv by (simp add: rw_def)
qed

end
