(* ===== verification/Mp_Monty.thy ===== *)
theory Mp_Monty
  imports Mp_Modular
begin

text \<open>
  Montgomery multiplication and modular exponentiation by windows of five bits. A context holds the
  size of its scratch space; the routines never read the content of that space before they write it.
\<close>

unbundle bit_operations_syntax

section \<open>The code\<close>

record MontyContext =
  mc_rw :: nat
  mc_rbits :: nat
  mc_pw :: nat
  mc_m :: mp_int
  mc_minus_minv_mod_r :: mp_int
  mc_powers_of_r_mod_m :: "mp_int list"
  mc_scratch :: nat

definition monty_scratch_size :: "nat \<Rightarrow> nat \<Rightarrow> nat" where
  "monty_scratch_size rw pw = 3 * rw + pw + mp_mul_scratchspace pw rw rw"

definition monty_new :: "mp_int \<Rightarrow> MontyContext option" where
  "monty_new modulus =
     (let rw = length modulus; rbits = rw * BIGNUM_INT_BITS; pw = rw * 2 + 1; m = mp_copy modulus in do {
        minv \<leftarrow> mp_invert_mod_2to m rbits;
        let minus_minv_mod_r = mp_neg_into (length minv) minv;
        r \<leftarrow> mp_make_sized (rw + 1);
        let r = r[rw := 1];
        r0 \<leftarrow> mp_mod r m;
        r1 \<leftarrow> mp_modmul r0 r0 m;
        r2 \<leftarrow> mp_modmul r0 r1 m;
        scratch \<leftarrow> mp_make_sized (monty_scratch_size rw pw);
        Some \<lparr>mc_rw = rw, mc_rbits = rbits, mc_pw = pw, mc_m = m, mc_minus_minv_mod_r = minus_minv_mod_r,
              mc_powers_of_r_mod_m = [r0, r1, r2], mc_scratch = length scratch\<rparr>
      })"

definition monty_reduce_internal :: "MontyContext \<Rightarrow> mp_int \<Rightarrow> nat \<Rightarrow> mp_int option" where
  "monty_reduce_internal mc x scratch = do {
     let x_lo = mp_make_alias x 0 (mc_rbits mc);
     scratch \<leftarrow> mp_alloc_from_scratch scratch (mc_rw mc);
     k \<leftarrow> mp_mul_internal (mc_rw mc) x_lo (mc_minus_minv_mod_r mc) scratch;
     scratch \<leftarrow> mp_alloc_from_scratch scratch (mc_pw mc);
     mk \<leftarrow> mp_mul_internal (mc_pw mc) (mc_m mc) k scratch;
     let mk = mp_add_into (length mk) x mk;
     let toret = mp_make_alias mk (mc_rw mc) (length mk - mc_rw mc);
     Some (mp_cond_sub_into (length toret) toret (mc_m mc) (mp_cmp_hs toret (mc_m mc))) }"

definition monty_mul_into :: "MontyContext \<Rightarrow> nat \<Rightarrow> mp_int \<Rightarrow> mp_int \<Rightarrow> mp_int option" where
  "monty_mul_into mc r_nw x y =
     (if \<not> (length x \<le> mc_rw mc \<and> length y \<le> mc_rw mc) then None
      else do {
        scratch \<leftarrow> mp_alloc_from_scratch (mc_scratch mc) (2 * mc_rw mc);
        tmp \<leftarrow> mp_mul_into (2 * mc_rw mc) x y;
        reduced \<leftarrow> monty_reduce_internal mc tmp scratch;
        Some (mp_copy_into r_nw reduced) })"

definition monty_mul :: "MontyContext \<Rightarrow> mp_int \<Rightarrow> mp_int \<Rightarrow> mp_int option" where
  "monty_mul mc x y = do {
     toret \<leftarrow> mp_make_sized (mc_rw mc);
     monty_mul_into mc (length toret) x y }"

definition monty_modulus :: "MontyContext \<Rightarrow> mp_int" where
  "monty_modulus mc = mc_m mc"

definition monty_identity :: "MontyContext \<Rightarrow> mp_int" where
  "monty_identity mc = mc_powers_of_r_mod_m mc ! 0"

definition monty_import :: "MontyContext \<Rightarrow> mp_int \<Rightarrow> mp_int option" where
  "monty_import mc x = mp_modmul x (mc_powers_of_r_mod_m mc ! 0) (mc_m mc)"

definition monty_import_into :: "MontyContext \<Rightarrow> nat \<Rightarrow> mp_int \<Rightarrow> mp_int option" where
  "monty_import_into mc r_nw x = map_option (mp_copy_into r_nw) (monty_import mc x)"

definition monty_export_into :: "MontyContext \<Rightarrow> nat \<Rightarrow> mp_int \<Rightarrow> mp_int option" where
  "monty_export_into mc r_nw x =
     (if \<not> length x \<le> 2 * mc_rw mc then None
      else map_option (mp_copy_into r_nw) (monty_reduce_internal mc x (mc_scratch mc)))"

definition monty_export :: "MontyContext \<Rightarrow> mp_int \<Rightarrow> mp_int option" where
  "monty_export mc x = do {
     toret \<leftarrow> mp_make_sized (mc_rw mc);
     monty_export_into mc (length toret) x }"

definition monty_add :: "MontyContext \<Rightarrow> mp_int \<Rightarrow> mp_int \<Rightarrow> mp_int option" where
  "monty_add mc x y = mp_modadd_in_range x y (mc_m mc)"

definition monty_sub :: "MontyContext \<Rightarrow> mp_int \<Rightarrow> mp_int \<Rightarrow> mp_int option" where
  "monty_sub mc x y = mp_modsub_in_range x y (mc_m mc)"

abbreviation (input) MODPOW_LOG2_WINDOW_SIZE :: nat where "MODPOW_LOG2_WINDOW_SIZE \<equiv> 5"

abbreviation (input) MODPOW_WINDOW_SIZE :: nat where "MODPOW_WINDOW_SIZE \<equiv> 32"

text \<open>The table of the powers of the base, in the order in which they are computed.\<close>

primrec modpow_table :: "MontyContext \<Rightarrow> mp_int \<Rightarrow> nat \<Rightarrow> mp_int \<Rightarrow> mp_int list option" where
  "modpow_table mc base 0 prev = Some [prev]"
| "modpow_table mc base (Suc k) prev = do {
     entry \<leftarrow> monty_mul mc prev base;
     rest \<leftarrow> modpow_table mc base k entry;
     Some (prev # rest) }"

definition modpow_index :: "mp_int \<Rightarrow> nat \<Rightarrow> uint32" where
  "modpow_index exponent i =
     foldl (\<lambda>table_index j. table_index OR push_bit j (mp_get_bit exponent (i + j))) 0 [0..<MODPOW_LOG2_WINDOW_SIZE]"

definition modpow_lookup :: "mp_int list \<Rightarrow> nat \<Rightarrow> uint32 \<Rightarrow> mp_int" where
  "modpow_lookup table rw table_index =
     foldl (\<lambda>table_entry j.
       let not_this_one = drop_bit MODPOW_LOG2_WINDOW_SIZE ((table_index XOR of_nat j) + of_nat MODPOW_WINDOW_SIZE - 1)
       in mp_select_into rw (table ! j) table_entry not_this_one)
     (mp_copy_into rw (table ! 0)) [1..<MODPOW_WINDOW_SIZE]"

primrec modpow_squarings :: "MontyContext \<Rightarrow> nat \<Rightarrow> mp_int \<Rightarrow> mp_int option" where
  "modpow_squarings mc 0 out = Some out"
| "modpow_squarings mc (Suc k) out = do {
     out \<leftarrow> monty_mul_into mc (length out) out out;
     modpow_squarings mc k out }"

function modpow_loop :: "MontyContext \<Rightarrow> mp_int list \<Rightarrow> mp_int \<Rightarrow> bool \<Rightarrow> nat \<Rightarrow> mp_int \<Rightarrow> mp_int option" where
  "modpow_loop mc table exponent first_iteration i out = do {
     let table_entry = modpow_lookup table (mc_rw mc) (modpow_index exponent i);
     out \<leftarrow> (if \<not> first_iteration then monty_mul_into mc (length out) out table_entry
             else Some (mp_copy_into (length out) table_entry));
     if i = 0 then Some out
     else do {
       out \<leftarrow> modpow_squarings mc MODPOW_LOG2_WINDOW_SIZE out;
       modpow_loop mc table exponent False (i - MODPOW_LOG2_WINDOW_SIZE) out } }"
  by pat_completeness auto
termination
  by (relation "measure (\<lambda>(mc, table, exponent, first_iteration, i, out). i)") auto

declare modpow_loop.simps [simp del]

definition monty_pow :: "MontyContext \<Rightarrow> mp_int \<Rightarrow> mp_int \<Rightarrow> mp_int option" where
  "monty_pow mc base exponent = do {
     table \<leftarrow> modpow_table mc base (MODPOW_WINDOW_SIZE - 1) (mp_copy (monty_identity mc));
     out \<leftarrow> mp_make_sized (mc_rw mc);
     let out = mp_copy_into (length out) (monty_identity mc);
     let i = length exponent * BIGNUM_INT_BITS - 1;
     let i = i - i mod MODPOW_LOG2_WINDOW_SIZE;
     modpow_loop mc table exponent True i out }"

definition mp_modpow :: "mp_int \<Rightarrow> mp_int \<Rightarrow> mp_int \<Rightarrow> mp_int option" where
  "mp_modpow base exponent modulus =
     (if modulus = [] \<or> hd modulus AND 1 = 0 then None
      else do {
        mc \<leftarrow> monty_new modulus;
        m_base \<leftarrow> monty_import mc base;
        m_out \<leftarrow> monty_pow mc m_base exponent;
        monty_export mc m_out })"

section \<open>Contexts\<close>

definition monty_ok :: "MontyContext \<Rightarrow> bool" where
  "monty_ok mc \<longleftrightarrow>
     (let m = mp_val (mc_m mc); rw = mc_rw mc; R = mp_base rw in
        0 < rw \<and> 3 * rw + 1 < 2 ^ 57 \<and> length (mc_m mc) = rw \<and> odd m \<and> mc_rbits mc = 64 * rw \<and> mc_pw mc = 2 * rw + 1 \<and>
        mc_scratch mc = 11 * rw + 1 \<and> length (mc_minus_minv_mod_r mc) = rw \<and>
        (m * mp_val (mc_minus_minv_mod_r mc) + 1) mod R = 0 \<and>
        (\<exists>r0 r1 r2. mc_powers_of_r_mod_m mc = [r0, r1, r2] \<and> length r0 = rw \<and> length r1 = rw \<and> length r2 = rw \<and>
           mp_val r0 = R mod m \<and> mp_val r1 = R ^ 2 mod m \<and> mp_val r2 = R ^ 3 mod m))"

lemma mp_copy_same [simp]: "mp_copy x = x"
  by (simp add: mp_copy_def mp_copy_into_same mp_make_sized_def)

lemma monty_new_ok:
  assumes m: "odd (mp_val m)" and len: "3 * length m + 1 < 2 ^ 57"
  shows "\<exists>mc. monty_new m = Some mc \<and> monty_ok mc \<and> mc_m mc = m"
proof -
  define rw where "rw = length m"
  define R where "R = mp_base rw"
  have m1: "m \<noteq> []" using m by auto
  then have rw: "0 < rw" by (simp add: rw_def)
  have m0: "mp_val m \<noteq> 0" using m by auto
  obtain minv where minv: "mp_invert_mod_2to m (64 * rw) = Some minv" "length minv = rw" "mp_val m * mp_val minv mod R = 1"
    using mp_invert_mod_2to_correct [OF m, of "64 * rw"] rw by (auto simp: R_def)
  have neg: "(mp_val m * mp_val (mp_neg_into rw minv) + 1) mod R = 0"
  proof -
    have "(mp_val m * mp_val (mp_neg_into rw minv) + 1) mod R = (mp_val m * (- mp_val minv mod R) + 1) mod R"
      by (simp add: mp_simps flip: R_def)
    also have "\<dots> = (mp_val m * - mp_val minv + 1) mod R" by (intro mod_add_cong mod_mult_right_eq refl)
    also have "\<dots> = (1 - mp_val m * mp_val minv) mod R" by simp
    also have "\<dots> = (1 - mp_val m * mp_val minv mod R) mod R" by (simp add: mod_diff_right_eq)
    finally show ?thesis by (simp add: minv)
  qed
  define r where "r = (replicate (rw + 1) 0)[rw := 1 :: BignumInt]"
  have r: "mp_val r = R" "length r = rw + 1" "r \<noteq> []"
  proof -
    have "r = replicate rw 0 @ [1]" by (simp add: r_def list_update_append flip: replicate_append_same)
    then show "mp_val r = R" "length r = rw + 1" "r \<noteq> []" by (simp_all add: mp_val_append R_def mp_simps)
  qed
  obtain r0 where r0: "mp_mod r m = Some r0" "length r0 = rw" "mp_val r0 = R mod mp_val m"
    using mp_mod_correct [OF m0 r(3)] r len by (auto simp: rw_def)
  have r0n: "r0 \<noteq> []" using r0 rw by auto
  obtain r1 where r1: "mp_modmul r0 r0 m = Some r1" "length r1 = rw" "mp_val r1 = R ^ 2 mod mp_val m"
    using mp_modmul_correct [OF m0 r0n r0n] r0 len by (auto simp: rw_def power2_eq_square mod_simps)
  have r1n: "r1 \<noteq> []" using r1 rw by auto
  obtain r2 where r2: "mp_modmul r0 r1 m = Some r2" "length r2 = rw" "mp_val r2 = R ^ 3 mod mp_val m"
    using mp_modmul_correct [OF m0 r0n r1n] r0 r1 len by (auto simp: rw_def power3_eq_cube power2_eq_square mod_simps mult.assoc)
  have sc: "monty_scratch_size rw (rw * 2 + 1) = 11 * rw + 1"
    by (simp add: monty_scratch_size_def mp_mul_scratchspace_def mp_mul_scratchspace_unary_def Let_def min_absorb2)
  have al: "mp_make_sized (rw + 1) = Some (replicate (rw + 1) 0)" "mp_make_sized (11 * rw + 1) = Some (replicate (11 * rw + 1) 0)"
    by (simp_all add: mp_make_sized_def)
  have rb: "rw * 64 = 64 * rw" by simp
  let ?mc = "\<lparr>mc_rw = rw, mc_rbits = 64 * rw, mc_pw = rw * 2 + 1, mc_m = m, mc_minus_minv_mod_r = mp_neg_into rw minv,
              mc_powers_of_r_mod_m = [r0, r1, r2], mc_scratch = 11 * rw + 1\<rparr>"
  have "monty_new m = Some ?mc"
    by (simp only: monty_new_def Let_def rw_def [symmetric] rb mp_copy_same minv(1,2) bind.bind_lunit al r_def [symmetric]
        r0(1) r1(1) r2(1) sc length_replicate)
  moreover have "monty_ok ?mc"
    using rw len m neg r0 r1 r2 by (simp add: monty_ok_def rw_def mp_simps flip: R_def) (simp add: rw_def R_def)
  ultimately show ?thesis by auto
qed


section \<open>Reduction and multiplication\<close>

definition monty_R :: "MontyContext \<Rightarrow> int" where
  "monty_R mc = mp_base (mc_rw mc)"

text \<open>The number \<open>v\<close> in Montgomery form.\<close>

definition monty_rep :: "MontyContext \<Rightarrow> int \<Rightarrow> mp_int \<Rightarrow> bool" where
  "monty_rep mc v x \<longleftrightarrow> length x = mc_rw mc \<and> mp_val x = v * monty_R mc mod mp_val (mc_m mc)"

lemma monty_okD:
  assumes "monty_ok mc"
  shows "0 < mc_rw mc" "3 * mc_rw mc + 1 < 2 ^ 57" "length (mc_m mc) = mc_rw mc" "odd (mp_val (mc_m mc))" "0 < mp_val (mc_m mc)"
    "mp_val (mc_m mc) < monty_R mc" "1 < monty_R mc" "coprime (monty_R mc) (mp_val (mc_m mc))"
    "mc_rbits mc = 64 * mc_rw mc" "mc_pw mc = 2 * mc_rw mc + 1" "mc_scratch mc = 11 * mc_rw mc + 1"
    "length (mc_minus_minv_mod_r mc) = mc_rw mc" "monty_R mc dvd mp_val (mc_m mc) * mp_val (mc_minus_minv_mod_r mc) + 1"
    "length (mc_powers_of_r_mod_m mc ! 0) = mc_rw mc" "mp_val (mc_powers_of_r_mod_m mc ! 0) = monty_R mc mod mp_val (mc_m mc)"
proof -
  note ok = assms [unfolded monty_ok_def Let_def]
  show l: "0 < mc_rw mc" "3 * mc_rw mc + 1 < 2 ^ 57" "length (mc_m mc) = mc_rw mc" and odd: "odd (mp_val (mc_m mc))"
    and "mc_rbits mc = 64 * mc_rw mc" "mc_pw mc = 2 * mc_rw mc + 1" "mc_scratch mc = 11 * mc_rw mc + 1"
    "length (mc_minus_minv_mod_r mc) = mc_rw mc"
    "length (mc_powers_of_r_mod_m mc ! 0) = mc_rw mc" "mp_val (mc_powers_of_r_mod_m mc ! 0) = monty_R mc mod mp_val (mc_m mc)"
    using ok by (auto simp: monty_R_def)
  show "monty_R mc dvd mp_val (mc_m mc) * mp_val (mc_minus_minv_mod_r mc) + 1"
    using ok by (simp add: monty_R_def mod_eq_0_iff_dvd)
  show "0 < mp_val (mc_m mc)" using odd mp_val_nonneg [of "mc_m mc"] by (metis even_zero le_less)
  show "mp_val (mc_m mc) < monty_R mc" using mp_val_less [of "mc_m mc"] l by (simp add: monty_R_def)
  show "1 < monty_R mc" unfolding monty_R_def by (intro one_less_power) (use l in simp_all)
  show "coprime (monty_R mc) (mp_val (mc_m mc))" using odd by (simp add: monty_R_def)
qed

lemma coprime_cancel_mod:
  "\<lbrakk>coprime R m; a * R mod m = b * R mod m\<rbrakk> \<Longrightarrow> a mod m = b mod m" for a b R m :: int
  by (metis (no_types, lifting) coprime_commute coprime_dvd_mult_left_iff left_diff_distrib mod_eq_dvd_iff)

lemma monty_reduce_val:
  assumes ok: "monty_ok mc" and x: "length x \<le> 2 * mc_rw mc" "mp_val x < mp_val (mc_m mc) * monty_R mc"
    and sc: "9 * mc_rw mc + 1 \<le> sc"
  shows "\<exists>r. monty_reduce_internal mc x sc = Some r \<and> length r = mc_rw mc + 1 \<and>
    mp_val r < mp_val (mc_m mc) \<and> mp_val r * monty_R mc mod mp_val (mc_m mc) = mp_val x mod mp_val (mc_m mc)"
proof -
  define rw R m where "rw = mc_rw mc" and "R = monty_R mc" and "m = mp_val (mc_m mc)"
  note mc = monty_okD [OF ok, folded rw_def R_def m_def]
  note x = x [folded rw_def R_def m_def] and sc = sc [folded rw_def]
  have Rb: "R = mp_base rw" by (simp add: R_def monty_R_def rw_def)
  note mul = mp_mul_internal_correct [unfolded mp_mul_scratchspace_unary_def]
  have x_lo: "mp_make_alias x 0 (64 * rw) = x" using x(1) by (simp add: mp_make_alias_eq)
  obtain k where k: "mp_mul_internal rw x (mc_minus_minv_mod_r mc) (sc - rw) = Some k" "length k = rw"
    "mp_val k = mp_val x * mp_val (mc_minus_minv_mod_r mc) mod R"
  proof -
    have "min rw (max (length x) (length (mc_minus_minv_mod_r mc))) * 6 \<le> sc - rw" using sc mc(12) by simp
    from mul [OF this] show ?thesis using that by (auto simp: Rb)
  qed
  obtain mk where mk: "mp_mul_internal (2 * rw + 1) (mc_m mc) k (sc - rw - (2 * rw + 1)) = Some mk" "length mk = 2 * rw + 1"
    "mp_val mk = m * mp_val k mod mp_base (2 * rw + 1)"
  proof -
    have "min (2 * rw + 1) (max (length (mc_m mc)) (length k)) * 6 \<le> sc - rw - (2 * rw + 1)" using sc mc(3) k(2) by simp
    from mul [OF this] show ?thesis using that by (auto simp: m_def)
  qed
  have k0: "0 \<le> mp_val k" "mp_val k < R" using mp_val_less [of k] by (simp_all add: mp_val_nonneg k(2) Rb)
  have "mp_base (2 * rw + 1) = 2 ^ 64 * (R * R)" unfolding Rb power_add [symmetric] by simp
  then have RR: "2 * (R * R) \<le> mp_base (2 * rw + 1)" by simp
  have "m * mp_val k < m * R" using k0 mc by simp
  moreover have "m * R < R * R" using mc by simp
  ultimately have small: "m * mp_val k < mp_base (2 * rw + 1)" "mp_val x + m * mp_val k < 2 * m * R" "mp_val x + m * mp_val k < mp_base (2 * rw + 1)"
    using x(2) RR mp_val_nonneg [of x] by linarith+
  have mkv: "mp_val mk = m * mp_val k" using small k0 mc by (simp add: mk mod_pos_pos_trivial)
  define s where "s = mp_add_into (2 * rw + 1) x mk"
  define S where "S = mp_val x + m * mp_val k"
  have S: "0 \<le> S" "S < 2 * m * R" using small(2) k0 mc mp_val_nonneg [of x] by (simp_all add: S_def)
  have s: "mp_val s = S" "length s = 2 * rw + 1" using S small(3) by (simp_all add: s_def mp_simps mkv S_def mod_pos_pos_trivial)
  have "R dvd S"
  proof -
    define mi where "mi = mp_val (mc_minus_minv_mod_r mc)"
    have "S mod R = (mp_val x + m * (mp_val x * mi mod R)) mod R" by (simp add: S_def k mi_def)
    also have "\<dots> = (mp_val x + m * (mp_val x * mi)) mod R" by (intro mod_add_cong mod_mult_right_eq refl)
    also have "\<dots> = (mp_val x * (m * mi + 1)) mod R" by (simp add: algebra_simps)
    also have "\<dots> = 0" using mc(13) by (simp add: mi_def)
    finally show ?thesis by (simp add: mod_eq_0_iff_dvd)
  qed
  define T where "T = S div R"
  have T: "T * R = S" using \<open>R dvd S\<close> by (simp add: T_def)
  have T0: "0 \<le> T" "T < 2 * m" using S T mc(7) by (auto simp: T_def pos_imp_zdiv_nonneg_iff int_div_less_iff)
  define t where "t = mp_make_alias s rw (2 * rw + 1 - rw)"
  have t: "mp_val t = T" "length t = rw + 1"
  proof -
    have "mp_base (rw + 1) = 2 ^ 64 * R" unfolding Rb power_add [symmetric] by simp
    then have "T mod mp_base (rw + 1) = T" using T0 mc(6,7) by (intro mod_pos_pos_trivial) simp_all
    moreover have "2 * rw + 1 - rw = rw + 1" by simp
    ultimately show "mp_val t = T" unfolding t_def alias_val s Rb [symmetric] by (simp add: T_def)
  qed (simp add: t_def s)
  define r where "r = mp_cond_sub_into (rw + 1) t (mc_m mc) (of_bool (m \<le> T))"
  have "mp_val r = (T - (if m \<le> T then m else 0)) mod mp_base (rw + 1)"
    by (simp add: r_def mp_cond_sub_into t m_def)
  also have "\<dots> = T mod m"
  proof (rule reduce_once)
    have "R \<le> mp_base (rw + 1)" unfolding Rb by (intro power_increasing) simp_all
    then show "m < mp_base (rw + 1)" using mc(6) by linarith
  qed (use T0 in auto)
  finally have r: "mp_val r = T mod m" "length r = rw + 1" by (simp_all add: r_def mp_cond_sub_into)
  have "T mod m * R mod m = T * R mod m" by (rule mod_mult_left_eq)
  also have "\<dots> = mp_val x mod m" by (simp add: T S_def)
  finally have "mp_val r * R mod m = mp_val x mod m" by (simp add: r)
  moreover have "mp_val r < m" using mc(5) by (simp add: r)
  moreover have "monty_reduce_internal mc x sc = Some r"
  proof -
    have al: "mp_alloc_from_scratch sc rw = Some (sc - rw)" 
      "mp_alloc_from_scratch (sc - rw) (2 * rw + 1) = Some (sc - rw - (2 * rw + 1))"
      using sc by (simp_all add: mp_alloc_from_scratch_def)
    show ?thesis
      by (simp only: monty_reduce_internal_def Let_def rw_def [symmetric] mc(9,10) x_lo al bind.bind_lunit k(1) mk(1,2)
          s_def [symmetric] s(2) t_def [symmetric] t(2) mp_cmp_hs [of t "mc_m mc"] t(1) m_def [symmetric] r_def [symmetric])
  qed
  ultimately show ?thesis using r by (simp add: rw_def R_def m_def)
qed


lemma monty_rep_less: "\<lbrakk>monty_ok mc; monty_rep mc v x\<rbrakk> \<Longrightarrow> mp_val x < mp_val (mc_m mc)"
  using monty_okD(5) [of mc] by (simp add: monty_rep_def)

lemma monty_repI:
  assumes ok: "monty_ok mc" and r: "length r = mc_rw mc + 1 \<and> mp_val r < mp_val (mc_m mc)"
    "mp_val r * monty_R mc mod mp_val (mc_m mc) = v * monty_R mc * monty_R mc mod mp_val (mc_m mc)"
  shows "monty_rep mc v (mp_copy_into (mc_rw mc) r)"
proof -
  note mc = monty_okD [OF ok]
  have "mp_val r mod mp_val (mc_m mc) = v * monty_R mc mod mp_val (mc_m mc)"
    using mc(8) r(2) by (rule coprime_cancel_mod)
  then have v: "mp_val r = v * monty_R mc mod mp_val (mc_m mc)" using r(1) by (simp add: mp_val_nonneg mod_pos_pos_trivial)
  have "mp_val r mod mp_base (mc_rw mc) = mp_val r"
    using r(1) mc(6) by (intro mod_pos_pos_trivial) (simp_all add: mp_val_nonneg monty_R_def)
  then show ?thesis by (simp add: monty_rep_def mp_simps flip: v)
qed

lemma monty_mul_into_rep:
  assumes ok: "monty_ok mc" and x: "monty_rep mc a x" and y: "monty_rep mc b y"
  shows "\<exists>r. monty_mul_into mc (mc_rw mc) x y = Some r \<and> monty_rep mc (a * b) r"
proof -
  define rw R m where "rw = mc_rw mc" and "R = monty_R mc" and "m = mp_val (mc_m mc)"
  note mc = monty_okD [OF ok, folded rw_def R_def m_def]
  have l: "length x = rw" "length y = rw" using x y by (simp_all add: monty_rep_def rw_def)
  have v: "mp_val x < m" "mp_val y < m" "0 \<le> mp_val x" "0 \<le> mp_val y"
    using monty_rep_less [OF ok x] monty_rep_less [OF ok y] by (simp_all add: m_def mp_val_nonneg)
  obtain t where t: "mp_mul_into (2 * rw) x y = Some t" "length t = 2 * rw" "mp_val t = mp_val x * mp_val y mod mp_base (2 * rw)"
    using mp_mul_into_correct [of "2 * rw" x y] mc(1) l by auto
  have "mp_val x * mp_val y < mp_base (rw + rw)"
    using mult_less_base [OF mp_val_nonneg mp_val_less mp_val_nonneg mp_val_less, of x y] l by simp
  then have tv: "mp_val t = mp_val x * mp_val y" using v by (simp add: t(3) mult_2 mod_pos_pos_trivial)
  have "mp_val x * mp_val y \<le> m * mp_val y" using v by (intro mult_right_mono) simp_all
  also have "\<dots> < m * R" using v mc(5,6) by simp
  finally have "mp_val t < m * R" by (simp add: tv)
  then obtain r where r: "monty_reduce_internal mc t (11 * rw + 1 - 2 * rw) = Some r" "length r = rw + 1" "mp_val r < m"
    "mp_val r * R mod m = mp_val t mod m"
    using monty_reduce_val [OF ok, of t "11 * rw + 1 - 2 * rw"] t(2) by (auto simp: rw_def R_def m_def)
  have "mp_val t mod m = (a * R mod m) * (b * R mod m) mod m" using x y by (simp add: tv monty_rep_def R_def m_def)
  also have "\<dots> = a * b * R * R mod m" by (simp add: mod_mult_eq algebra_simps)
  finally have "monty_rep mc (a * b) (mp_copy_into rw r)"
    unfolding rw_def using monty_repI [OF ok, of r "a * b"] r by (simp add: rw_def R_def m_def)
  moreover have "monty_mul_into mc rw x y = Some (mp_copy_into rw r)"
    using r(1) t(1) by (simp add: monty_mul_into_def l mc(11) mp_alloc_from_scratch_def flip: rw_def)
  ultimately show ?thesis by (simp add: rw_def)
qed

lemma mp_make_sized_Some: "0 < n \<Longrightarrow> mp_make_sized n = Some (replicate n 0)"
  by (simp add: mp_make_sized_def)

lemma monty_mul_rep:
  assumes ok: "monty_ok mc" and x: "monty_rep mc a x" and y: "monty_rep mc b y"
  shows "\<exists>r. monty_mul mc x y = Some r \<and> monty_rep mc (a * b) r"
  using monty_mul_into_rep [OF assms] monty_okD(1) [OF ok] by (simp add: monty_mul_def mp_make_sized_Some)

lemma monty_identity_rep: "monty_ok mc \<Longrightarrow> monty_rep mc 1 (monty_identity mc)"
  using monty_okD(14,15) by (simp add: monty_rep_def monty_identity_def)

lemma monty_import_rep:
  assumes ok: "monty_ok mc" and x: "x \<noteq> []" "length x < 2 ^ 57"
  shows "\<exists>r. monty_import mc x = Some r \<and> monty_rep mc (mp_val x) r"
proof -
  note mc = monty_okD [OF ok]
  have "mp_val (mc_m mc) \<noteq> 0" "mc_powers_of_r_mod_m mc ! 0 \<noteq> []" using mc(1,5,14) by auto
  moreover have "length x + length (mc_powers_of_r_mod_m mc ! 0) + length (mc_m mc) < 2 ^ 58" using x(2) mc(2,3,14) by simp
  ultimately obtain r where "mp_modmul x (mc_powers_of_r_mod_m mc ! 0) (mc_m mc) = Some r" "length r = mc_rw mc"
    "mp_val r = mp_val x * mp_val (mc_powers_of_r_mod_m mc ! 0) mod mp_val (mc_m mc)"
    using mp_modmul_correct [of "mc_m mc" x "mc_powers_of_r_mod_m mc ! 0"] x(1) mc(3) by auto
  then show ?thesis by (simp add: monty_import_def monty_rep_def mc(15) mod_mult_right_eq)
qed

lemma monty_export_rep:
  assumes ok: "monty_ok mc" and x: "monty_rep mc v x"
  shows "\<exists>r. monty_export mc x = Some r \<and> length r = mc_rw mc \<and> mp_val r = v mod mp_val (mc_m mc)"
proof -
  define rw R m where "rw = mc_rw mc" and "R = monty_R mc" and "m = mp_val (mc_m mc)"
  note mc = monty_okD [OF ok, folded rw_def R_def m_def]
  have l: "length x = rw" "mp_val x = v * R mod m" using x by (simp_all add: monty_rep_def rw_def R_def m_def)
  have "mp_val x < m" using monty_rep_less [OF ok x] by (simp add: m_def)
  also have "m * 1 < m * R" using mc(5,7) by (intro mult_strict_left_mono) simp_all
  finally obtain r where r: "monty_reduce_internal mc x (11 * rw + 1) = Some r" "length r = rw + 1" "mp_val r < m"
    "mp_val r * R mod m = mp_val x mod m"
    using monty_reduce_val [OF ok, of x "11 * rw + 1"] l by (auto simp: rw_def R_def m_def)
  have "mp_val r * R mod m = v * R mod m" using r(4) unfolding l(2) by (simp only: mod_mod_trivial)
  then have "mp_val r mod m = v mod m" by (rule coprime_cancel_mod [OF mc(8)])
  then have rv: "mp_val r = v mod m" using r(3) by (simp add: mp_val_nonneg mod_pos_pos_trivial)
  have "mp_val r mod mp_base rw = mp_val r"
    using r(3) mc(6) by (intro mod_pos_pos_trivial) (simp_all add: mp_val_nonneg R_def monty_R_def rw_def)
  moreover have "monty_export mc x = Some (mp_copy_into rw r)"
    using r(1) mc(1) l by (simp add: monty_export_def monty_export_into_def mp_make_sized_Some mc(11) flip: rw_def)
  ultimately show ?thesis by (simp add: mp_simps rv flip: rw_def m_def)
qed


section \<open>Exponentiation\<close>

lemma modpow_table_rep:
  assumes ok: "monty_ok mc" and base: "monty_rep mc b base"
  shows "monty_rep mc (b ^ i) prev \<Longrightarrow>
    \<exists>t. modpow_table mc base k prev = Some t \<and> length t = Suc k \<and> (\<forall>j\<le>k. monty_rep mc (b ^ (i + j)) (t ! j))"
proof (induction k arbitrary: i prev)
  case (Suc k)
  obtain e where e: "monty_mul mc prev base = Some e" "monty_rep mc (b ^ Suc i) e"
    using monty_mul_rep [OF ok Suc.prems base] by (auto simp: mult.commute)
  obtain t where t: "modpow_table mc base k e = Some t" "length t = Suc k" "\<And>j. j \<le> k \<Longrightarrow> monty_rep mc (b ^ (Suc i + j)) (t ! j)"
    using Suc.IH [OF e(2)] by blast
  have "monty_rep mc (b ^ (i + j)) ((prev # t) ! j)" if "j \<le> Suc k" for j
    using that Suc.prems t(3) [of "j - 1"] by (cases j) simp_all
  then show ?case using e(1) t(1,2) by simp
qed simp

lemma index_bits:
  "n \<le> 32 \<Longrightarrow> bit (foldl (\<lambda>t j. t OR push_bit j (mp_get_bit x (i + j))) 0 [0..<n]) k \<longleftrightarrow> k < n \<and> bit (mp_val x) (i + k)"
proof (induction n)
  case (Suc n)
  have "bit (push_bit n (mp_get_bit x (i + n))) k \<longleftrightarrow> k = n \<and> bit (mp_val x) (i + k)"
    using Suc.prems by (auto simp: mp_get_bit_val bit_simps)
  then show ?case using Suc by (auto simp: bit_or_iff less_Suc_eq)
qed simp

lemma modpow_index_val: "modpow_index x i = of_nat (nat (mp_val x) div 2 ^ i mod 32)"
proof (rule bit_word_eqI)
  fix k :: nat
  assume k: "k < LENGTH(32)"
  have "nat (mp_val x) div 2 ^ i mod 32 = take_bit 5 (drop_bit i (nat (mp_val x)))"
    by (simp add: take_bit_eq_mod drop_bit_eq_div)
  moreover have "bit (nat (mp_val x)) n = bit (mp_val x) n" for n
    using bit_of_nat_iff_bit [of "nat (mp_val x)" n, where ?'a = int] by (simp add: mp_val_nonneg)
  ultimately show "bit (modpow_index x i) k \<longleftrightarrow> bit (of_nat (nat (mp_val x) div 2 ^ i mod 32) :: uint32) k"
    using k index_bits [of 5 x i k] by (simp add: modpow_index_def bit_simps)
qed

lemma mp_select_same: "\<lbrakk>length x = n; length y = n\<rbrakk> \<Longrightarrow> mp_select_into n x y (of_bool p) = (if p then y else x)"
  by (subst mp_val_inject [symmetric]) (simp_all add: mp_simps mp_val_mod_base)

lemma not_this_one:
  assumes "a < 32" "j < 32"
  shows "drop_bit 5 ((of_nat a XOR of_nat j) + of_nat 32 - 1) = (of_bool (j \<noteq> a) :: uint32)"
proof -
  define z where "z = a XOR j"
  have "take_bit 5 z = take_bit 5 a XOR take_bit 5 j" by (simp add: z_def take_bit_xor)
  then have "take_bit 5 z = z" using assms by (simp add: z_def take_bit_nat_eq_self)
  then have z: "z < 32" by (simp add: take_bit_nat_eq_self_iff)
  have "z = 0 \<longleftrightarrow> j = a" unfolding z_def by (metis xor.assoc xor.right_neutral xor_self_eq)
  then have d: "(z + 31) div 32 = of_bool (j \<noteq> a)" using z by (cases "z = 0") simp_all
  have w: "(of_nat a XOR of_nat j) + of_nat 32 - 1 = (of_nat (z + 31) :: uint32)"
    by (simp add: z_def of_nat_xor_eq)
  have "unat (of_nat (z + 31) :: uint32) = z + 31" using z by (simp only: unsigned_of_nat) (simp add: take_bit_nat_eq_self)
  then have "unat (drop_bit 5 (of_nat (z + 31) :: uint32)) = unat (of_bool (j \<noteq> a) :: uint32)"
    by (subst unat_drop_bit_eq) (simp add: drop_bit_eq_div d)
  then show ?thesis unfolding w by (simp only: unsigned_word_eqI)
qed

lemma modpow_lookup_eq:
  assumes l: "\<And>j. j < 32 \<Longrightarrow> length (table ! j) = rw" and a: "a < 32"
  shows "modpow_lookup table rw (of_nat a) = table ! a"
proof -
  define f where "f j = drop_bit 5 ((of_nat a XOR of_nat j) + of_nat 32 - 1 :: uint32)" for j
  have f: "f j = of_bool (j \<noteq> a)" if "j < 32" for j unfolding f_def by (rule not_this_one [OF a that])
  have "foldl (\<lambda>e j. mp_select_into rw (table ! j) e (f j)) (mp_copy_into rw (table ! 0)) [1..<n] =
      table ! (if a < n then a else 0)" if "1 \<le> n" "n \<le> 32" for n
    using that
  proof (induction n)
    case (Suc n)
    show ?case
    proof (cases "n = 0")
      case True
      then show ?thesis using l [of 0] by (simp add: mp_copy_into_same)
    next
      case False
      have n: "n < 32" using Suc.prems by simp
      have "length (table ! (if a < n then a else 0)) = rw" using l a by simp
      then have "mp_select_into rw (table ! n) (table ! (if a < n then a else 0)) (f n) =
          (if n \<noteq> a then table ! (if a < n then a else 0) else table ! n)"
        unfolding f [OF n] by (rule mp_select_same [OF l [OF n]])
      then show ?thesis using False Suc.IH n by (auto simp: less_Suc_eq)
    qed
  qed simp
  from this [of 32] show ?thesis using a by (simp add: modpow_lookup_def f_def)
qed

lemma modpow_squarings_rep:
  assumes ok: "monty_ok mc"
  shows "monty_rep mc a out \<Longrightarrow> \<exists>r. modpow_squarings mc k out = Some r \<and> monty_rep mc (a ^ (2 ^ k)) r"
proof (induction k arbitrary: a out)
  case (Suc k)
  have "length out = mc_rw mc" using Suc.prems by (simp add: monty_rep_def)
  then obtain r where r: "monty_mul_into mc (length out) out out = Some r" "monty_rep mc (a * a) r"
    using monty_mul_into_rep [OF ok Suc.prems Suc.prems] by auto
  obtain q where "modpow_squarings mc k r = Some q" "monty_rep mc ((a * a) ^ 2 ^ k) q" using Suc.IH [OF r(2)] by blast
  then show ?case using r(1) by (simp add: power_mult power2_eq_square)
qed simp

lemma modpow_loop_rep:
  fixes exponent :: mp_int
  assumes ok: "monty_ok mc" and table: "\<And>j. j < 32 \<Longrightarrow> monty_rep mc (b ^ j) (table ! j)" and i: "i mod 5 = 0"
  defines "e \<equiv> nat (mp_val exponent)"
  shows "(if first then e div 2 ^ (i + 5) = 0 \<and> length out = mc_rw mc else monty_rep mc (b ^ (e div 2 ^ (i + 5) * 32)) out) \<Longrightarrow>
    \<exists>r. modpow_loop mc table exponent first i out = Some r \<and> monty_rep mc (b ^ e) r"
  using i
proof (induction i arbitrary: first out rule: less_induct)
  case (less i)
  define t where "t = table ! (e div 2 ^ i mod 32)"
  have t: "monty_rep mc (b ^ (e div 2 ^ i mod 32)) t" unfolding t_def by (rule table) simp
  have len: "length (table ! j) = mc_rw mc" if "j < 32" for j using table [OF that] by (simp add: monty_rep_def)
  have lookup: "modpow_lookup table (mc_rw mc) (modpow_index exponent i) = t"
    unfolding modpow_index_val t_def e_def by (rule modpow_lookup_eq [OF len]) simp_all
  have split: "e div 2 ^ i = e div 2 ^ (i + 5) * 32 + e div 2 ^ i mod 32"
    using div_mult_mod_eq [of "e div 2 ^ i" 32] by (simp add: div_mult2_eq power_add)
  obtain o1 where o1: "(if \<not> first then monty_mul_into mc (length out) out t else Some (mp_copy_into (length out) t)) = Some o1"
    "monty_rep mc (b ^ (e div 2 ^ i)) o1"
  proof (cases first)
    case True
    then have "e div 2 ^ i = e div 2 ^ i mod 32" using less.prems(1) split by simp
    then have "monty_rep mc (b ^ (e div 2 ^ i)) t" using t by simp
    moreover have "mp_copy_into (length out) t = t" using less.prems(1) True t by (simp add: monty_rep_def mp_copy_into_same)
    ultimately show ?thesis using that True by simp
  next
    case False
    then have o: "monty_rep mc (b ^ (e div 2 ^ (i + 5) * 32)) out" using less.prems(1) by simp
    then have "length out = mc_rw mc" by (simp add: monty_rep_def)
    with monty_mul_into_rep [OF ok o t] obtain r where "monty_mul_into mc (length out) out t = Some r"
      "monty_rep mc (b ^ (e div 2 ^ (i + 5) * 32) * b ^ (e div 2 ^ i mod 32)) r" by auto
    then show ?thesis using that [of r] False by (simp flip: power_add split)
  qed
  show ?case
  proof (cases "i = 0")
    case True
    then show ?thesis using o1 lookup by (subst modpow_loop.simps) simp
  next
    case False
    then have i5: "5 \<le> i" "(i - 5) mod 5 = 0" "i - 5 < i" using less.prems(2) by presburger+
    obtain o2 where o2: "modpow_squarings mc 5 o1 = Some o2" "monty_rep mc ((b ^ (e div 2 ^ i)) ^ 2 ^ 5) o2"
      using modpow_squarings_rep [OF ok o1(2)] by blast
    have "monty_rep mc (b ^ (e div 2 ^ (i - 5 + 5) * 32)) o2" using o2(2) i5(1) by (simp add: power_mult)
    then obtain r where "modpow_loop mc table exponent False (i - 5) o2 = Some r" "monty_rep mc (b ^ e) r"
      using less.IH [OF i5(3), of False o2] i5(2) by auto
    then show ?thesis using o1(1) o2(1) lookup False by (subst modpow_loop.simps) (cases first; simp)
  qed
qed

lemma monty_pow_rep:
  assumes ok: "monty_ok mc" and base: "monty_rep mc b base" and e: "exponent \<noteq> []"
  shows "\<exists>r. monty_pow mc base exponent = Some r \<and> monty_rep mc (b ^ nat (mp_val exponent)) r"
proof -
  have rw: "0 < mc_rw mc" by (rule monty_okD(1) [OF ok])
  have "monty_rep mc (b ^ 0) (monty_identity mc)" using monty_identity_rep [OF ok] by simp
  then obtain t where t: "modpow_table mc base 31 (monty_identity mc) = Some t" "\<forall>j\<le>31. monty_rep mc (b ^ (0 + j)) (t ! j)"
    using modpow_table_rep [OF ok base, of 0 _ 31] by blast
  define out where "out = mp_copy_into (mc_rw mc) (monty_identity mc)"
  define n where "n = length exponent * 64 - 1"
  define i where "i = n - n mod 5"
  have "nat (mp_val exponent) < 2 ^ (i + 5)"
  proof -
    have "64 * length exponent \<le> i + 5" unfolding i_def n_def using e by (cases exponent) simp_all
    then have "mp_base (length exponent) \<le> 2 ^ (i + 5)" by (intro power_increasing) simp_all
    with mp_val_less [of exponent] have "mp_val exponent < 2 ^ (i + 5)" by linarith
    then show ?thesis by (simp add: nat_less_iff mp_val_nonneg)
  qed
  moreover have "i mod 5 = 0" unfolding i_def by (simp add: minus_mod_eq_mult_div)
  ultimately obtain r where "modpow_loop mc t exponent True i out = Some r" "monty_rep mc (b ^ nat (mp_val exponent)) r"
    using modpow_loop_rep [OF ok, of b t i True exponent out] t(2) by (auto simp: out_def mp_simps)
  moreover have "(32 :: nat) - 1 = 31" by simp
  ultimately show ?thesis
    by (simp only: monty_pow_def mp_copy_same t(1) Let_def bind.bind_lunit mp_make_sized_Some [OF rw] length_replicate
        out_def [symmetric] n_def [symmetric] i_def [symmetric]) blast
qed

text \<open>Modular exponentiation, for every odd modulus and every base and exponent.\<close>

lemma mp_modpow_correct:
  assumes m: "odd (mp_val m)" "3 * length m + 1 < 2 ^ 57" and b: "b \<noteq> []" "length b < 2 ^ 57" and e: "e \<noteq> []"
  shows "\<exists>r. mp_modpow b e m = Some r \<and> length r = length m \<and> mp_val r = mp_val b ^ nat (mp_val e) mod mp_val m"
proof -
  obtain mc where mc: "monty_new m = Some mc" "monty_ok mc" "mc_m mc = m" using monty_new_ok [OF m] by blast
  obtain mb where mb: "monty_import mc b = Some mb" "monty_rep mc (mp_val b) mb" using monty_import_rep [OF mc(2) b] by blast
  obtain mo where mo: "monty_pow mc mb e = Some mo" "monty_rep mc (mp_val b ^ nat (mp_val e)) mo"
    using monty_pow_rep [OF mc(2) mb(2) e] by blast
  obtain r where r: "monty_export mc mo = Some r" "length r = mc_rw mc" "mp_val r = mp_val b ^ nat (mp_val e) mod mp_val m"
    using monty_export_rep [OF mc(2) mo(2)] mc(3) by auto
  obtain w ws where mw: "m = w # ws" using m(1) by (cases m) auto
  have "w AND 1 \<noteq> 0" using m(1) by (simp add: mw limb_odd)
  then have "mp_modpow b e m = Some r" using mw mc(1) mb(1) mo(1) r(1) by (simp add: mp_modpow_def)
  then show ?thesis using r monty_okD(3) [OF mc(2)] mc(3) by simp
qed

end
