(* ===== verification/Mp_Ring.thy ===== *)
theory Mp_Ring
  imports Mp_Monty
begin

text \<open>
  What a client of the Montgomery routines relies on, as a locale: a context of a modulus, numbers in
  a form of their own, and operations that compute on the numbers modulo the modulus. The client's
  lemma is that any expression built from these operations computes its value. The properties of the
  multi-precision integers are at the end.
\<close>

section \<open>Expressions over a modular ring\<close>

datatype ring_expr =
    Enter mp_int
  | One
  | Times ring_expr ring_expr
  | Plus ring_expr ring_expr
  | Minus ring_expr ring_expr
  | Power ring_expr mp_int

primrec ring_value :: "ring_expr \<Rightarrow> int" where
  "ring_value (Enter x) = mp_val x"
| "ring_value One = 1"
| "ring_value (Times a b) = ring_value a * ring_value b"
| "ring_value (Plus a b) = ring_value a + ring_value b"
| "ring_value (Minus a b) = ring_value a - ring_value b"
| "ring_value (Power a e) = ring_value a ^ nat (mp_val e)"

primrec ring_inputs_ok :: "ring_expr \<Rightarrow> bool" where
  "ring_inputs_ok (Enter x) \<longleftrightarrow> x \<noteq> [] \<and> length x < 2 ^ 57"
| "ring_inputs_ok One \<longleftrightarrow> True"
| "ring_inputs_ok (Times a b) \<longleftrightarrow> ring_inputs_ok a \<and> ring_inputs_ok b"
| "ring_inputs_ok (Plus a b) \<longleftrightarrow> ring_inputs_ok a \<and> ring_inputs_ok b"
| "ring_inputs_ok (Minus a b) \<longleftrightarrow> ring_inputs_ok a \<and> ring_inputs_ok b"
| "ring_inputs_ok (Power a e) \<longleftrightarrow> ring_inputs_ok a \<and> e \<noteq> []"

primrec monty_eval :: "MontyContext \<Rightarrow> ring_expr \<Rightarrow> mp_int option" where
  "monty_eval mc (Enter x) = monty_import mc x"
| "monty_eval mc One = Some (monty_identity mc)"
| "monty_eval mc (Times a b) = do { x \<leftarrow> monty_eval mc a; y \<leftarrow> monty_eval mc b; monty_mul mc x y }"
| "monty_eval mc (Plus a b) = do { x \<leftarrow> monty_eval mc a; y \<leftarrow> monty_eval mc b; monty_add mc x y }"
| "monty_eval mc (Minus a b) = do { x \<leftarrow> monty_eval mc a; y \<leftarrow> monty_eval mc b; monty_sub mc x y }"
| "monty_eval mc (Power a e) = do { x \<leftarrow> monty_eval mc a; monty_pow mc x e }"

section \<open>The contract\<close>

locale modular_ring =
  fixes ok :: "'c \<Rightarrow> bool" and modulus :: "'c \<Rightarrow> int" and rep :: "'c \<Rightarrow> int \<Rightarrow> mp_int \<Rightarrow> bool"
    and enter :: "'c \<Rightarrow> mp_int \<Rightarrow> mp_int option" and one :: "'c \<Rightarrow> mp_int"
    and mul add sub pow :: "'c \<Rightarrow> mp_int \<Rightarrow> mp_int \<Rightarrow> mp_int option"
    and leave :: "'c \<Rightarrow> mp_int \<Rightarrow> mp_int option"
    and eval :: "'c \<Rightarrow> ring_expr \<Rightarrow> mp_int option"
  assumes enter: "\<lbrakk>ok c; x \<noteq> []; length x < 2 ^ 57\<rbrakk> \<Longrightarrow> \<exists>r. enter c x = Some r \<and> rep c (mp_val x) r"
    and one: "ok c \<Longrightarrow> rep c 1 (one c)"
    and mul: "\<lbrakk>ok c; rep c a x; rep c b y\<rbrakk> \<Longrightarrow> \<exists>r. mul c x y = Some r \<and> rep c (a * b) r"
    and add: "\<lbrakk>ok c; rep c a x; rep c b y\<rbrakk> \<Longrightarrow> \<exists>r. add c x y = Some r \<and> rep c (a + b) r"
    and sub: "\<lbrakk>ok c; rep c a x; rep c b y\<rbrakk> \<Longrightarrow> \<exists>r. sub c x y = Some r \<and> rep c (a - b) r"
    and pow: "\<lbrakk>ok c; rep c a x; e \<noteq> []\<rbrakk> \<Longrightarrow> \<exists>r. pow c x e = Some r \<and> rep c (a ^ nat (mp_val e)) r"
    and leave: "\<lbrakk>ok c; rep c a x\<rbrakk> \<Longrightarrow> \<exists>r. leave c x = Some r \<and> mp_val r = a mod modulus c"
    and eval: "eval c (Enter x) = enter c x" "eval c One = Some (one c)"
      "eval c (Times p q) = do { x \<leftarrow> eval c p; y \<leftarrow> eval c q; mul c x y }"
      "eval c (Plus p q) = do { x \<leftarrow> eval c p; y \<leftarrow> eval c q; add c x y }"
      "eval c (Minus p q) = do { x \<leftarrow> eval c p; y \<leftarrow> eval c q; sub c x y }"
      "eval c (Power p e) = do { x \<leftarrow> eval c p; pow c x e }"
begin

lemma eval_rep:
  assumes "ok c"
  shows "ring_inputs_ok t \<Longrightarrow> \<exists>r. eval c t = Some r \<and> rep c (ring_value t) r"
proof (induction t)
  case (Enter x)
  then show ?case using enter [OF assms] by (simp add: eval)
next
  case One
  then show ?case using one [OF assms] by (simp add: eval)
next
  case (Times p q)
  then show ?case using mul [OF assms] by (fastforce simp: eval)
next
  case (Plus p q)
  then show ?case using add [OF assms] by (fastforce simp: eval)
next
  case (Minus p q)
  then show ?case using sub [OF assms] by (fastforce simp: eval)
next
  case (Power p e)
  then show ?case using pow [OF assms] by (fastforce simp: eval)
qed

lemma eval_leave:
  assumes "ok c" "ring_inputs_ok t"
  shows "\<exists>x r. eval c t = Some x \<and> leave c x = Some r \<and> mp_val r = ring_value t mod modulus c"
  using eval_rep [OF assms] leave [OF assms(1)] by blast

end

section \<open>The Montgomery routines keep it\<close>

lemma monty_add_rep:
  assumes ok: "monty_ok mc" and x: "monty_rep mc a x" and y: "monty_rep mc b y"
  shows "\<exists>r. monty_add mc x y = Some r \<and> monty_rep mc (a + b) r"
proof -
  have "mc_m mc \<noteq> []" using monty_okD(1,3) [OF ok] by auto
  from mp_modadd_in_range_correct [OF this monty_rep_less [OF ok x] monty_rep_less [OF ok y]] show ?thesis
    using x y monty_okD(3) [OF ok] by (auto simp: monty_add_def monty_rep_def mod_simps algebra_simps)
qed

lemma monty_sub_rep:
  assumes ok: "monty_ok mc" and x: "monty_rep mc a x" and y: "monty_rep mc b y"
  shows "\<exists>r. monty_sub mc x y = Some r \<and> monty_rep mc (a - b) r"
proof -
  have "mc_m mc \<noteq> []" using monty_okD(1,3) [OF ok] by auto
  from mp_modsub_in_range_correct [OF this monty_rep_less [OF ok x] monty_rep_less [OF ok y]] show ?thesis
    using x y monty_okD(3) [OF ok] by (auto simp: monty_sub_def monty_rep_def mod_simps algebra_simps)
qed

interpretation monty: modular_ring monty_ok "\<lambda>mc. mp_val (mc_m mc)" monty_rep monty_import monty_identity
  monty_mul monty_add monty_sub monty_pow monty_export monty_eval
proof
  fix mc a x
  assume "monty_ok mc" "monty_rep mc a x"
  from monty_export_rep [OF this] show "\<exists>r. monty_export mc x = Some r \<and> mp_val r = a mod mp_val (mc_m mc)" by blast
qed (simp_all add: monty_import_rep monty_identity_rep monty_mul_rep monty_add_rep monty_sub_rep monty_pow_rep)

section \<open>What the multi-precision integers promise\<close>

text \<open>
  C6: modular exponentiation. For every odd modulus and every base and exponent the routine returns
  base to the power of the exponent modulo the modulus, in as many words as the modulus has. The sizes
  are bounded by the address space.
\<close>

theorem modpow_is_power:
  assumes "odd (mp_val m)" "3 * length m + 1 < 2 ^ 57" "b \<noteq> []" "length b < 2 ^ 57" "e \<noteq> []"
  shows "\<exists>r. mp_modpow b e m = Some r \<and> length r = length m \<and> mp_val r = mp_val b ^ nat (mp_val e) mod mp_val m"
  using assms by (rule mp_modpow_correct)

theorem modpow_is_power_witness:
  "\<exists>r. mp_modpow [7, 2] [11] [13, 1] = Some r \<and> length r = length [13, 1 :: BignumInt] \<and> mp_val r = (7 + 2 ^ 65) ^ 11 mod (13 + 2 ^ 64)"
  using modpow_is_power [of "[13, 1]" "[7, 2]" "[11]"] by simp

text \<open>
  C11: computing in a Montgomery context. A context can be made for every odd modulus, and any expression
  of multiplications, additions, subtractions and powers of imported numbers, computed in it and
  exported, is the value of the expression modulo the modulus. So the representation, its reduction
  step and the assertions on sizes are right in every combination.
\<close>

theorem monty_computes_mod:
  assumes "odd (mp_val m)" "3 * length m + 1 < 2 ^ 57" "ring_inputs_ok t"
  shows "\<exists>mc x r. monty_new m = Some mc \<and> monty_eval mc t = Some x \<and> monty_export mc x = Some r \<and>
           mp_val r = ring_value t mod mp_val m"
proof -
  obtain mc where mc: "monty_new m = Some mc" "monty_ok mc" "mc_m mc = m" using monty_new_ok [OF assms(1,2)] by blast
  with monty.eval_leave [OF mc(2) assms(3)] show ?thesis by blast
qed

theorem monty_computes_mod_witness:
  "\<exists>mc x r. monty_new [15, 2] = Some mc \<and>
     monty_eval mc (Minus (Times (Enter [3]) (Power (Enter [5, 6, 7]) [4])) (Plus One (Enter [9]))) = Some x \<and>
     monty_export mc x = Some r \<and>
     mp_val r = (3 * (5 + 2 ^ 64 * (6 + 2 ^ 64 * 7)) ^ 4 - 10) mod (15 + 2 ^ 65)"
  using monty_computes_mod [of "[15, 2]" "Minus (Times (Enter [3]) (Power (Enter [5, 6, 7]) [4])) (Plus One (Enter [9]))"]
  by simp

text \<open>
  C10: division. For every number and every divisor other than zero the Newton iteration and its
  final correction give exactly the quotient and the remainder, cut to the sizes asked for; none of
  the assertions on the way fails. Division by zero fails the code's assertion.
\<close>

theorem division_is_exact:
  assumes "n \<noteq> []" "length n + length d < 2 ^ 58"
  shows "if mp_val d = 0 then mp_divmod_into n d q_nw r_nw = None
         else \<exists>q r. mp_divmod_into n d q_nw r_nw = Some (q, r) \<and> length q = q_nw \<and> length r = r_nw \<and>
                mp_val q = mp_val n div mp_val d mod 2 ^ (64 * q_nw) \<and> mp_val r = mp_val n mod mp_val d mod 2 ^ (64 * r_nw)"
  using mp_divmod_correct [OF _ assms]
  by (cases "mp_val d = 0") (fastforce simp: mp_divmod_into_def mp_divmod_def mp_simps)+

theorem division_is_exact_witness:
  "\<exists>q r. mp_divmod_into [5, 6, 7] [0, 3] 2 2 = Some (q, r) \<and> length q = 2 \<and> length r = 2 \<and>
     mp_val q = (5 + 2 ^ 64 * (6 + 2 ^ 64 * 7)) div (2 ^ 64 * 3) mod 2 ^ 128 \<and>
     mp_val r = (5 + 2 ^ 64 * (6 + 2 ^ 64 * 7)) mod (2 ^ 64 * 3) mod 2 ^ 128"
  using division_is_exact [of "[5, 6, 7]" "[0, 3]" 2 2] by simp

text \<open>
  C15: multiplication. Karatsuba's routine gives the product modulo the size of the result, whatever
  the sizes of the operands, and the scratch space that the code computes is enough at every level
  of the recursion.
\<close>

theorem karatsuba_is_product:
  assumes "mp_mul_scratchspace rw (length a) (length b) \<le> scratch"
  shows "\<exists>r. mp_mul_internal rw a b scratch = Some r \<and> length r = rw \<and> mp_val r = mp_val a * mp_val b mod 2 ^ (64 * rw)"
  using mp_mul_internal_correct assms by (simp add: mp_mul_scratchspace_def)

theorem karatsuba_is_product_witness:
  "\<exists>r. mp_mul_internal 60 (replicate 30 (-1)) (replicate 30 (-1)) 180 = Some r \<and> length r = 60 \<and>
     mp_val r = mp_val (replicate 30 (-1)) * mp_val (replicate 30 (-1)) mod 2 ^ 3840"
  using karatsuba_is_product [of 60 "replicate 30 (-1)" "replicate 30 (-1)" 180]
  by (simp add: mp_mul_scratchspace_def mp_mul_scratchspace_unary_def)

text \<open>
  C26: the inverse modulo a power of two. For every odd number and every positive number of bits the
  doubling routine returns the inverse, reduced, in the number of words that the bits need.
\<close>

theorem inverse_mod_power_of_two:
  assumes "odd (mp_val x)" "0 < p"
  shows "\<exists>r. mp_invert_mod_2to x p = Some r \<and> length r = (p + 63) div 64 \<and> mp_val r < 2 ^ p \<and>
           mp_val x * mp_val r mod 2 ^ p = 1"
  using assms by (rule mp_invert_mod_2to_correct)

theorem inverse_mod_power_of_two_witness:
  "\<exists>r. mp_invert_mod_2to [3, 5] 100 = Some r \<and> length r = 2 \<and> mp_val r < 2 ^ 100 \<and>
     (3 + 2 ^ 64 * 5) * mp_val r mod 2 ^ 100 = 1"
  using inverse_mod_power_of_two [of "[3, 5]" 100] by simp

text \<open>
  C27: the first approximation of the division. For every 32-bit number with the top bit set, the
  polynomial evaluated in 64-bit arithmetic differs from the reciprocal (scaled by 2^63) by at
  most 2046, less than the 11 bits that the division gives away for it.
\<close>

theorem recip_approx_error:
  assumes "2 ^ 31 \<le> uint x"
  shows "\<bar>real_of_int (uint (recip_approx_32 x)) - 2 ^ 63 / real_of_int (uint x)\<bar> \<le> 2046"
proof -
  have x: "0 < real_of_int (uint x)" unfolding of_int_0_less_iff by (rule less_le_trans [OF _ assms]) simp
  have "real_of_int \<bar>uint (recip_approx_32 x) * uint x - 2 ^ 63\<bar> \<le> real_of_int (2046 * uint x)"
    unfolding of_int_le_iff by (rule recip_approx_32_error [OF assms])
  then have "\<bar>real_of_int (uint (recip_approx_32 x)) * real_of_int (uint x) - 2 ^ 63\<bar> \<le> 2046 * real_of_int (uint x)" by simp
  moreover have "real_of_int (uint (recip_approx_32 x)) * real_of_int (uint x) - 2 ^ 63 =
      (real_of_int (uint (recip_approx_32 x)) - 2 ^ 63 / real_of_int (uint x)) * real_of_int (uint x)"
    using x by (simp add: field_simps)
  ultimately show ?thesis using x by (simp add: abs_mult)
qed

theorem recip_approx_error_witness:
  "\<bar>real_of_int (uint (recip_approx_32 0xC0000000)) - 2 ^ 63 / real_of_int 0xC0000000\<bar> \<le> 2046"
  using recip_approx_error [of "0xC0000000"] by simp

end
