(* ===== verification/Spec2Isabelle.thy ===== *)
theory Spec2Isabelle
  imports Tree_Scripts Marshal_Scripts Bufchain Conf_Scripts Ldisc Base64 Utf8_Stream Term_Scripts
    Telnet_Stream Mp_Ring
begin

text \<open>
  A model of the core of iTerm, a Windows terminal program built on PuTTY. The program is the
  PuTTY code base under \<^verbatim>\<open>src/putty\<close> with a WTL user interface under \<^verbatim>\<open>src/win\<close>. What is
  modelled is the program's own logic below the user interface: the containers everything else is
  built on, the marshalling layer, the configuration store, the line discipline between the
  keyboard and the back end, the Telnet back end, the lines of the terminal and their scrollback
  form, the text encodings, and the multi-precision integers under the public-key cryptography.

  How the parts interact. The configuration store (\<^verbatim>\<open>utils/conf.c\<close>) keeps its entries in a
  2-3-4 tree (\<^verbatim>\<open>utils/tree234.c\<close>) sorted by \<^verbatim>\<open>conf_cmp\<close>, writes itself to any binary
  sink and reads itself from a binary source (\<^verbatim>\<open>utils/marshal.c\<close>). String buffers
  (\<^verbatim>\<open>utils/strbuf.c\<close>) and buffer chains (\<^verbatim>\<open>utils/bufchain.c\<close>) are the sinks in memory. The
  line discipline (\<^verbatim>\<open>ldisc.c\<close>) reads its settings from the store and keeps the input that the
  back end cannot take yet in a buffer chain, in an escaped form. Base64 encodes through the sink
  and source interfaces.

  The theories, in the order of their imports.
  \<^item> \<open>Prelude\<close>: machine types, reading lists by integer position, scripts of operations and the
    simulation lemmas with which the refinement properties are proved.
  \<^item> \<open>Counted_Tree\<close>, \<open>Tree_Search\<close>, \<open>Tree_Insert\<close>, \<open>Tree_Delete\<close>, \<open>Sorted_Tree\<close>,
    \<open>Tree_Scripts\<close>: the counted 2-3-4 trees. The node constructors are the filled slots of
    \<^verbatim>\<open>node234\<close>; stored counts are data and their correctness is an invariant (\<open>wf234\<close>). The
    locale \<open>sorted_store\<close> is the contract clients use; \<open>cmp_order\<close>, a comparison function that
    is a total preorder, gives it by a sublocale, and the clients interpret \<open>cmp_order\<close>.
  \<^item> \<open>Marshal\<close>, \<open>Strbuf\<close>, \<open>Marshal_Scripts\<close>: binary sinks and sources. The locale
    \<open>binary_sink\<close> is the contract of a sink; string buffers and chains interpret it.
  \<^item> \<open>Bufchain\<close>: chains of granules as byte queues (locale \<open>byte_queue\<close>).
  \<^item> \<open>Conf_Model\<close>, \<open>Conf\<close>, \<open>Conf_Serial\<close>, \<open>Conf_Scripts\<close>: the option table of
    \<^verbatim>\<open>putty.h\<close>, the store and its refinement to a map, and the serialised form.
  \<^item> \<open>Ldisc_Model\<close>, \<open>Ldisc\<close>: the line discipline as a state machine with a log of what it
    does to the terminal and the back end.
  \<^item> \<open>Base64\<close>, \<open>Utf8\<close>, \<open>Utf8_Stream\<close>: the encodings.
  \<^item> \<open>Term_Line\<close>, \<open>Term_Cells\<close>, \<open>Term_Edit\<close>, \<open>Term_Check\<close>: the lines of the terminal
    (\<^verbatim>\<open>terminal/terminal.c\<close>), arrays whose tail holds the combining characters in linked lists,
    the structural invariant \<open>chains\<close>, the list of cells a line represents (\<open>line_rep\<close>) and
    the diagnostic check.
  \<^item> \<open>Term_Compress\<close>, \<open>Term_Rle\<close>, \<open>Term_Codec\<close>, \<open>Term_Scrollback\<close>, \<open>Term_Scripts\<close>:
    the compressed lines of the scrollback. The locale \<open>literal_codec\<close> is the contract between the
    run-length coder and its four literal formats, \<open>field_codec\<close> its special case of a format
    that fills in one field; the properties of lines are in \<open>Term_Scripts\<close>.
  \<^item> \<open>Telnet_Model\<close>, \<open>Telnet\<close>, \<open>Telnet_Stream\<close>: the Telnet back end
    (\<^verbatim>\<open>otherbackends/telnet.c\<close>), a record for \<^verbatim>\<open>struct Telnet\<close> with a log of what it does to
    the socket, the seat and the line discipline. What it is told by them (backlogs, the local user
    name) are functions of the log, parameters of the model. \<open>telnet_reaches\<close> is the step relation
    of its entry points; \<open>same_effect\<close> compares two runs by what the seat and the socket see.
    Outermost \<open>None\<close> is an overflow of a reply buffer, a failed lookup in the store or a read on a
    closed socket.

  \<^item> \<open>Mp_Model\<close>, \<open>Mp_Arith\<close>, \<open>Mp_Mul\<close>, \<open>Mp_Shift\<close>, \<open>Mp_Bits\<close>, \<open>Mp_Recip\<close>, \<open>Mp_Div\<close>,
    \<open>Mp_Modular\<close>, \<open>Mp_Monty\<close>, \<open>Mp_Ring\<close>: the multi-precision integers (\<^verbatim>\<open>crypto/mpint.c\<close>) in the
    configuration of 64-bit words. A number is the list of its words, least significant first; its
    length is the nominal size \<^verbatim>\<open>nw\<close> and \<open>mp_val\<close> its value. A routine that writes into an
    existing number takes that number's size and returns the words written; a pool of scratch space
    is the number of words left in it, so that running out of it is \<open>None\<close>. \<open>Mp_Recip\<close> proves the
    error of the division's polynomial for all inputs by enclosing each stage between polynomials
    whose sign is checked by evaluation. The locale \<open>modular_ring\<close> is what a client of the
    Montgomery routines relies on; the routines interpret it. Sizes are bounded by 2^57 or 2^58 words,
    which is more than any machine's memory.

  What the properties show. Refinement: trees, string buffers, chains and the store do, over any
  sequence of calls, what a list, a byte list, a byte queue and a map do. Round trips: marshalling,
  the serialised store, base64 and UTF-8. Safety on arbitrary input: reading never leaves the block,
  reading a store from any bytes ends with a well-typed store, the UTF-8 decoder accepts only
  canonical forms and never leaves a zero-terminated string. Functional behaviour of the line discipline: queued
  input is delivered in order, a typed line is sent whole, backspace erases a whole character; the queueing loop escapes a chunk
  right exactly when its bytes 0xFF come first, which is a defect of the code. The scrollback keeps
  everything of a line but the unused part of a colour that is not enabled.
  Telnet: data and window sizes arrive unchanged at a Telnet reader, packet boundaries do not matter,
  the settings follow the negotiated options in every reachable state, negotiation settles, no input
  breaks the reader. Multi-precision integers: multiplication, division, inversion modulo a power of
  two, Montgomery arithmetic and modular exponentiation compute what they should for all sizes.

  Conventions. \<open>None\<close> as outermost result is a run of the C code without a defined outcome (a
  failed assertion, an access out of bounds, a loop that does not end). The theorems say that the
  operations return \<open>Some\<close>, with two exceptions that assume a result: that packet boundaries do
  not matter (that the reader always returns is a property of its own), and that the UTF-8 decoder
  accepts only canonical forms (that it returns on terminated strings is a property of its own). Loops of the code that are not structural are functions
  with a termination proof, or \<open>partial_function (option)\<close>, in which case the theorems prove that
  they return. The only fuel is in \<open>walk\<close>, the client's enumeration loop, where one more than the
  number of entries is proved to be enough. Sizes are those of a 64-bit address space. Memory
  allocation is taken to succeed, as the code's allocator exits otherwise. Where the code counts in a
  C \<^verbatim>\<open>int\<close> and the model in unbounded numbers, the two differ only beyond 2^31 elements: the counts and
  indices of trees, the buffer size of the environment reply, the line length of base64, and the
  positions in the run-length encoder. Likewise the size of a granule of a buffer chain is taken not
  to wrap around in \<^verbatim>\<open>size_t\<close>. The model's line discipline always has a back end, so the tests for one are left out.
  Subtractions of sizes in the division that wrap around in the code
  are taken in the integers.

  Not modelled: the user interfaces, sockets and other system calls, the terminal emulator above its lines, the SSH
  protocol layers and the cryptography above the multi-precision integers; the manifest lists them with the reason for each.
\<close>

end
